(* ===== verification/Salt_Prelude.thy ===== *)
theory Salt_Prelude
  imports
    Complex_Main
    "HOL-Library.Sublist"
    "HOL-Library.Char_ord"
    "HOL-Library.List_Lexorder"
    "HOL-Library.Product_Lexorder"
    "HOL-Library.AList"
begin

text \<open>
  Shared vocabulary of the development: the Python string operations the services use, the few
  list and association-list facts several components need, and the lemma collections.

  A Python \<open>str\<close> is a \<open>string\<close>, a list of \<open>char\<close>s; one \<open>char\<close> stands for one code point
  (the code points 0 to 255), so \<open>length\<close> is Python's \<open>len\<close>. The order on strings is the
  lexicographic order of \<open>List_Lexorder\<close> over \<open>Char_ord\<close>, which is Python's comparison of
  \<open>str\<close> values and SQLite's BINARY collation. A Python \<open>dict\<close> whose iteration order matters is
  an association list updated with \<open>AList.update\<close>: an existing key keeps its place, a new key goes
  to the end, as in Python.
\<close>

section \<open>Lemma collections\<close>

named_theorems frame_simps \<open>which tables an operation leaves alone\<close>
named_theorems len_simps \<open>lengths of rendered text\<close>

section \<open>Optional values\<close>

text \<open>Python's \<open>x or d\<close> on an optional string: \<open>None\<close> and the empty string are both falsy.\<close>

fun py_or :: "string option \<Rightarrow> string \<Rightarrow> string" where
  "py_or None d = d"
| "py_or (Some s) d = (if s = [] then d else s)"

text \<open>Python's truth value of an optional string.\<close>

fun truthy :: "string option \<Rightarrow> bool" where
  "truthy None = False"
| "truthy (Some s) = (s \<noteq> [])"

lemma truthy_iff: "truthy x \<longleftrightarrow> (\<exists>s. x = Some s \<and> s \<noteq> [])"
  by (cases x) auto

section \<open>Characters\<close>

definition code :: "char \<Rightarrow> nat" where
  "code c = of_char c"

text \<open>Python's \<open>str.isspace\<close> on the code points 0 to 255: what \<open>strip()\<close> removes.\<close>

definition py_space :: "char \<Rightarrow> bool" where
  "py_space c \<longleftrightarrow> code c \<in> {9, 10, 11, 12, 13, 28, 29, 30, 31, 32, 133, 160}"

text \<open>Python's \<open>str.lower\<close> on the code points 0 to 255.\<close>

definition lower_char :: "char \<Rightarrow> char" where
  "lower_char c = (let n = code c in
     if (65 \<le> n \<and> n \<le> 90) \<or> (192 \<le> n \<and> n \<le> 222 \<and> n \<noteq> 215) then char_of (n + 32) else c)"

definition is_lower_alnum :: "char \<Rightarrow> bool" where
  "is_lower_alnum c \<longleftrightarrow> (97 \<le> code c \<and> code c \<le> 122) \<or> (48 \<le> code c \<and> code c \<le> 57)"

definition is_digit :: "char \<Rightarrow> bool" where
  "is_digit c \<longleftrightarrow> 48 \<le> code c \<and> code c \<le> 57"

definition is_hex :: "char \<Rightarrow> bool" where
  "is_hex c \<longleftrightarrow> is_digit c \<or> (97 \<le> code c \<and> code c \<le> 102) \<or> (65 \<le> code c \<and> code c \<le> 70)"

lemma lower_alnum_not_space: "is_lower_alnum c \<Longrightarrow> \<not> py_space c"
  by (auto simp: is_lower_alnum_def py_space_def)

lemma lower_alnum_fixed: "is_lower_alnum c \<Longrightarrow> lower_char c = c"
  by (auto simp: is_lower_alnum_def lower_char_def Let_def)

section \<open>Strings\<close>

definition py_lower :: "string \<Rightarrow> string" where
  "py_lower s = map lower_char s"

text \<open>\<open>strip_by P\<close> removes the leading and trailing characters that satisfy \<open>P\<close>.\<close>

definition strip_by :: "(char \<Rightarrow> bool) \<Rightarrow> string \<Rightarrow> string" where
  "strip_by P s = rev (dropWhile P (rev (dropWhile P s)))"

definition py_strip :: "string \<Rightarrow> string" where
  "py_strip s = strip_by py_space s"

definition py_rstrip :: "string \<Rightarrow> string" where
  "py_rstrip s = rev (dropWhile py_space (rev s))"

lemma termination_dropWhile [termination_simp]: "length (dropWhile P xs) < Suc (length xs)"
  by (simp add: length_dropWhile_le le_imp_less_Suc)

text \<open>\<open>re.sub(r"[P]+", r, s)\<close>: every maximal run of characters in \<open>P\<close> becomes one \<open>r\<close>.\<close>

fun sub_runs :: "(char \<Rightarrow> bool) \<Rightarrow> string \<Rightarrow> string \<Rightarrow> string" where
  "sub_runs P r [] = []"
| "sub_runs P r (c # cs) =
     (if P c then r @ sub_runs P r (dropWhile P cs) else c # sub_runs P r cs)"

text \<open>\<open>s.replace(old, new)\<close> for a non-empty \<open>old\<close>: left to right, non-overlapping.\<close>

fun str_replace :: "string \<Rightarrow> string \<Rightarrow> string \<Rightarrow> string" where
  "str_replace old new [] = []"
| "str_replace old new (c # cs) =
     (if old \<noteq> [] \<and> prefix old (c # cs)
      then new @ str_replace old new (drop (length old - 1) cs)
      else c # str_replace old new cs)"

text \<open>\<open>sub in s\<close>: the substring test.\<close>

definition contains :: "string \<Rightarrow> string \<Rightarrow> bool" where
  "contains s sub \<longleftrightarrow> sublist sub s"

text \<open>\<open>sep.join(parts)\<close>.\<close>

fun join :: "string \<Rightarrow> string list \<Rightarrow> string" where
  "join sep [] = []"
| "join sep [s] = s"
| "join sep (s # t # ts) = s @ sep @ join sep (t # ts)"

text \<open>\<open>str(n)\<close> for a natural number.\<close>

fun show_nat :: "nat \<Rightarrow> string" where
  "show_nat n = (if n < 10 then [char_of (48 + n)] else show_nat (n div 10) @ [char_of (48 + n mod 10)])"

declare show_nat.simps [simp del]

definition newline :: string where
  "newline = [CHR 0x0A]"

lemma length_newline [simp, len_simps]: "length newline = 1"
  by (simp add: newline_def)

lemma length_join:
  "length (join sep ts) = sum_list (map length ts) + length sep * (length ts - 1)"
  by (induction sep ts rule: join.induct) auto

lemma length_py_rstrip: "length (py_rstrip s) \<le> length s"
  using length_dropWhile_le[of py_space "rev s"] by (simp add: py_rstrip_def)

lemma strip_by_no_effect:
  assumes "s = [] \<or> (\<not> P (hd s) \<and> \<not> P (last s))"
  shows "strip_by P s = s"
proof (cases "s = []")
  case False
  with assms have "dropWhile P s = s" by (auto simp: dropWhile_eq_self_iff)
  moreover have "dropWhile P (rev s) = rev s"
    using assms False by (auto simp: dropWhile_eq_self_iff hd_rev)
  ultimately show ?thesis by (simp add: strip_by_def)
qed (simp add: strip_by_def)

lemma strip_by_ends:
  "strip_by P s = [] \<or> (\<not> P (hd (strip_by P s)) \<and> \<not> P (last (strip_by P s)))"
proof -
  define d where "d = dropWhile P s"
  define t where "t = dropWhile P (rev d)"
  have t: "strip_by P s = rev t" by (simp add: strip_by_def d_def t_def)
  show ?thesis
  proof (cases t)
    case (Cons c cs)
    have "\<not> P c" using Cons by (metis hd_dropWhile list.sel(1) list.simps(3) t_def)
    moreover have "\<not> P (last t)"
    proof -
      have "last t = last (rev d)"
        using Cons unfolding t_def
        by (metis dropWhile_eq_drop drop_eq_Nil2 last_drop leI list.distinct(1))
      moreover have "d \<noteq> []" using Cons t_def by auto
      ultimately have "last t = hd d" by (simp add: last_rev)
      then show ?thesis using \<open>d \<noteq> []\<close> d_def by (metis hd_dropWhile)
    qed
    moreover have "hd (rev t) = last t" and "last (rev t) = c"
      using Cons by (simp_all add: hd_rev last_rev del: rev.simps)
    ultimately show ?thesis using t by simp
  qed (simp add: t)
qed

section \<open>Lists\<close>

text \<open>\<open>fetchone()\<close> on a filtered scan: the first row in table order.\<close>

fun find_row :: "('a \<Rightarrow> bool) \<Rightarrow> 'a list \<Rightarrow> 'a option" where
  "find_row P [] = None"
| "find_row P (x # xs) = (if P x then Some x else find_row P xs)"

lemma find_row_Some: "find_row P xs = Some x \<Longrightarrow> x \<in> set xs \<and> P x"
  by (induction xs) (auto split: if_splits)

lemma find_row_None: "find_row P xs = None \<longleftrightarrow> (\<forall>x \<in> set xs. \<not> P x)"
  by (induction xs) auto

lemma find_row_append: "find_row P (xs @ ys) = (case find_row P xs of None \<Rightarrow> find_row P ys | r \<Rightarrow> r)"
  by (induction xs) auto

lemma find_row_unique:
  assumes "x \<in> set xs" "P x" "\<And>y. y \<in> set xs \<Longrightarrow> P y \<Longrightarrow> y = x"
  shows "find_row P xs = Some x"
  using assms
  by (metis find_row_None find_row_Some option.exhaust)

text \<open>\<open>UPDATE t SET ... WHERE P\<close>: every matching row is rewritten, in place.\<close>

definition update_where :: "('a \<Rightarrow> bool) \<Rightarrow> ('a \<Rightarrow> 'a) \<Rightarrow> 'a list \<Rightarrow> 'a list" where
  "update_where P f xs = map (\<lambda>x. if P x then f x else x) xs"

lemma length_update_where [simp]: "length (update_where P f xs) = length xs"
  by (simp add: update_where_def)

lemma set_update_where: "set (update_where P f xs) = f ` {x \<in> set xs. P x} \<union> {x \<in> set xs. \<not> P x}"
  by (auto simp: update_where_def)

lemma map_update_where:
  assumes "\<And>x. g (f x) = g x"
  shows "map g (update_where P f xs) = map g xs"
  using assms by (simp add: update_where_def)

text \<open>Python's stable \<open>sorted(..., reverse=True)\<close>.\<close>

definition sort_desc :: "('a \<Rightarrow> 'k::linorder) \<Rightarrow> 'a list \<Rightarrow> 'a list" where
  "sort_desc f xs = rev (sort_key f (rev xs))"

lemma set_sort_desc [simp]: "set (sort_desc f xs) = set xs"
  by (simp add: sort_desc_def)

lemma length_sort_desc [simp]: "length (sort_desc f xs) = length xs"
  by (simp add: sort_desc_def)

text \<open>Python's \<open>sorted(a_set)\<close>, for a set given by a list of its members.\<close>

definition sorted_set :: "'a::linorder list \<Rightarrow> 'a list" where
  "sorted_set xs = sort (remdups xs)"

lemma set_sorted_set [simp]: "set (sorted_set xs) = set xs"
  by (simp add: sorted_set_def)

lemma distinct_sorted_set [simp]: "distinct (sorted_set xs)"
  by (simp add: sorted_set_def)

lemma sum_list_filter_le:
  fixes f :: "'a \<Rightarrow> nat"
  shows "sum_list (map f (filter P xs)) \<le> sum_list (map f xs)"
  by (induction xs) auto

section \<open>Evolution of a store\<close>

text \<open>
  The contract every mutating component promises: from a state that satisfies the invariant
  \<open>inv\<close> each operation ends in one that does, and the two states are related by the
  history relation \<open>hist\<close> (what may never be lost or changed). The contract is closed under
  sequencing, under loops over a list and under any number of steps of a transition system.
\<close>

locale evolution =
  fixes inv :: "'s \<Rightarrow> bool" and hist :: "'s \<Rightarrow> 's \<Rightarrow> bool"
  assumes hist_refl: "hist s s"
    and hist_trans: "hist s t \<Longrightarrow> hist t u \<Longrightarrow> hist s u"
begin

definition evolves :: "'s \<Rightarrow> 's \<Rightarrow> bool" where
  "evolves s t \<longleftrightarrow> (inv s \<longrightarrow> inv t \<and> hist s t)"

lemma evolves_refl [simp, intro]: "evolves s s"
  by (simp add: evolves_def hist_refl)

lemma evolves_trans: "evolves s t \<Longrightarrow> evolves t u \<Longrightarrow> evolves s u"
  unfolding evolves_def using hist_trans by blast

lemma evolvesI: "(inv s \<Longrightarrow> inv t) \<Longrightarrow> (inv s \<Longrightarrow> hist s t) \<Longrightarrow> evolves s t"
  by (simp add: evolves_def)

lemma evolves_inv: "evolves s t \<Longrightarrow> inv s \<Longrightarrow> inv t"
  by (simp add: evolves_def)

lemma evolves_hist: "evolves s t \<Longrightarrow> inv s \<Longrightarrow> hist s t"
  by (simp add: evolves_def)

lemma evolves_fold:
  assumes "\<And>x s. evolves s (f x s)"
  shows "evolves s (fold f xs s)"
proof (induction xs arbitrary: s)
  case (Cons x xs)
  then show ?case using assms evolves_trans by fastforce
qed simp

lemma evolves_steps:
  assumes "\<And>s t. step s t \<Longrightarrow> evolves s t" and "step\<^sup>*\<^sup>* s t"
  shows "evolves s t"
  using assms(2) by (induction rule: rtranclp_induct) (auto intro: evolves_trans assms(1))

end

end
