(* ===== verification/Predicate_Vocabulary.thy ===== *)
theory Predicate_Vocabulary
  imports Salt_Prelude
begin

text \<open>
  The closed relation-predicate vocabulary, \<^verbatim>\<open>src/src/saltmdb/utils/predicate_vocabulary.py\<close>: the
  four name tables, the shape normalisation of a submitted predicate and its classification. The
  relation service and the MCP adapter both gate writes on \<open>classify_predicate\<close>.
\<close>

section \<open>The tables\<close>

definition agent_selectable_predicates :: "string list" where
  "agent_selectable_predicates =
     [''elaborates_on'', ''related_to'', ''resolves'', ''depends_on'', ''verifies'', ''corrects'',
      ''caused_by'', ''derived_from'', ''distinguishes_from'', ''part_of'', ''contradicts'']"

text \<open>Reserved predicates with the lifecycle tool that alone creates them.\<close>

definition reserved_predicates :: "(string \<times> string) list" where
  "reserved_predicates =
     [(''supersedes'', ''supersede_memory''),
      (''consolidated_from'', ''consolidate_memories''),
      (''revises'', ''revise_memory'')]"

definition legacy_readonly_predicates :: "string list" where
  "legacy_readonly_predicates = [''similar_to'']"

text \<open>Drifted spelling, canonical name, and whether source and target are exchanged.\<close>

definition predicate_aliases :: "(string \<times> string \<times> bool) list" where
  "predicate_aliases =
     [(''relates_to'', ''related_to'', False),
      (''references'', ''related_to'', False),
      (''links_to'', ''related_to'', False),
      (''routes_to'', ''related_to'', False),
      (''applies_to'', ''related_to'', False),
      (''defines_protocol'', ''related_to'', False),
      (''discovered_during'', ''related_to'', False),
      (''enhances_retrieval'', ''related_to'', False),
      (''governs_routing'', ''related_to'', False),
      (''invokes_subagent'', ''related_to'', False),
      (''fixes_bug_in'', ''resolves'', False),
      (''fulfills'', ''resolves'', False),
      (''fixes'', ''resolves'', False),
      (''resolves_issue_in'', ''resolves'', False),
      (''resolved_by'', ''resolves'', True),
      (''remediated_by'', ''resolves'', True),
      (''confirms'', ''verifies'', False),
      (''reviews'', ''verifies'', False),
      (''tests_tool_for'', ''verifies'', False),
      (''verified_by'', ''verifies'', True),
      (''extends'', ''derived_from'', False),
      (''inspired_by'', ''derived_from'', False),
      (''continues'', ''derived_from'', False),
      (''follows'', ''derived_from'', False),
      (''implements'', ''derived_from'', False),
      (''elaborates'', ''elaborates_on'', False),
      (''documents'', ''elaborates_on'', False),
      (''documents_history_for'', ''elaborates_on'', False),
      (''summarizes'', ''elaborates_on'', True),
      (''expanded_by'', ''elaborates_on'', True),
      (''amends'', ''corrects'', False),
      (''refines'', ''corrects'', False),
      (''affected_by'', ''caused_by'', False),
      (''affects'', ''caused_by'', True),
      (''has_constraint'', ''depends_on'', False),
      (''uses_architecture'', ''depends_on'', False)]"

section \<open>Normalisation and classification\<close>

text \<open>
  \<open>re.sub(r"[^a-z0-9]+", "_", (raw or "").strip().lower()).strip("_")\<close>.
\<close>

definition normalize_predicate_name :: "string option \<Rightarrow> string" where
  "normalize_predicate_name raw =
     strip_by (\<lambda>c. c = CHR ''_'')
       (sub_runs (\<lambda>c. \<not> is_lower_alnum c) ''_'' (py_lower (py_strip (py_or raw []))))"

datatype pd_status = Selectable | Alias | Reserved | Legacy_Readonly | Unknown

record predicate_disposition =
  pd_status :: pd_status
  pd_canonical :: "string option"
  pd_swap :: bool
  pd_lifecycle_tool :: "string option"

definition classify_predicate :: "string option \<Rightarrow> predicate_disposition" where
  "classify_predicate raw =
     (let normalized = normalize_predicate_name raw in
      if normalized = [] then
        \<lparr>pd_status = Unknown, pd_canonical = None, pd_swap = False, pd_lifecycle_tool = None\<rparr>
      else if normalized \<in> set agent_selectable_predicates then
        \<lparr>pd_status = Selectable, pd_canonical = Some normalized, pd_swap = False,
         pd_lifecycle_tool = None\<rparr>
      else case map_of reserved_predicates normalized of
        Some tool \<Rightarrow>
          \<lparr>pd_status = Reserved, pd_canonical = Some normalized, pd_swap = False,
           pd_lifecycle_tool = Some tool\<rparr>
      | None \<Rightarrow>
          if normalized \<in> set legacy_readonly_predicates then
            \<lparr>pd_status = Legacy_Readonly, pd_canonical = Some normalized, pd_swap = False,
             pd_lifecycle_tool = None\<rparr>
          else case map_of predicate_aliases normalized of
            Some (canonical, swap) \<Rightarrow>
              \<lparr>pd_status = Alias, pd_canonical = Some canonical, pd_swap = swap,
               pd_lifecycle_tool = None\<rparr>
          | None \<Rightarrow>
              \<lparr>pd_status = Unknown, pd_canonical = None, pd_swap = False,
               pd_lifecycle_tool = None\<rparr>)"

section \<open>Normalisation is a projection\<close>

text \<open>
  Normal text: lower-case letters, digits and single underscores. \<open>no_double P s\<close> says that no two
  neighbours of \<open>s\<close> satisfy \<open>P\<close>.
\<close>

fun no_double :: "(char \<Rightarrow> bool) \<Rightarrow> string \<Rightarrow> bool" where
  "no_double P [] = True"
| "no_double P [c] = True"
| "no_double P (c # d # cs) = (\<not> (P c \<and> P d) \<and> no_double P (d # cs))"

abbreviation sep :: "char \<Rightarrow> bool" where
  "sep c \<equiv> \<not> is_lower_alnum c"

lemma sep_underscore: "sep (CHR ''_'')"
  by (simp add: is_lower_alnum_def code_def)

lemma sub_runs_chars:
  "c \<in> set (sub_runs sep ''_'' s) \<Longrightarrow> is_lower_alnum c \<or> c = CHR ''_''"
  by (induction sep "''_''" s rule: sub_runs.induct) (auto split: if_splits)

lemma sub_runs_hd:
  "s \<noteq> [] \<Longrightarrow> \<not> sep (hd s) \<Longrightarrow> sub_runs sep ''_'' s \<noteq> [] \<and> \<not> sep (hd (sub_runs sep ''_'' s))"
  by (cases s) auto

lemma no_double_sub_runs: "no_double sep (sub_runs sep ''_'' s)"
proof (induction sep "''_''" s rule: sub_runs.induct)
  case (2 c cs)
  show ?case
  proof (cases "sep c")
    case True
    let ?d = "dropWhile sep cs"
    show ?thesis
    proof (cases "?d = []")
      case True
      then have "sub_runs sep ''_'' ?d = []" by (simp only: sub_runs.simps)
      with \<open>sep c\<close> show ?thesis by simp
    next
      case False
      then have "\<not> sep (hd ?d)" by (rule hd_dropWhile)
      with False obtain x xs where "sub_runs sep ''_'' ?d = x # xs" "\<not> sep x"
        using sub_runs_hd[of ?d] by (metis list.exhaust_sel)
      with "2.hyps"(1)[OF \<open>sep c\<close>] \<open>sep c\<close> show ?thesis by simp
    qed
  next
    case False
    with "2.hyps"(2) show ?thesis by (cases "sub_runs sep ''_'' cs") auto
  qed
qed simp

lemma sub_runs_id:
  assumes "no_double sep s" "\<forall>c \<in> set s. sep c \<longrightarrow> c = CHR ''_''"
  shows "sub_runs sep ''_'' s = s"
  using assms
proof (induction sep s rule: no_double.induct)
  case (3 c d cs)
  then show ?case by (cases "sep d") auto
qed auto

lemma no_double_append: "no_double P (xs @ ys) \<Longrightarrow> no_double P xs \<and> no_double P ys"
proof (induction P xs rule: no_double.induct)
  case (2 P c)
  then show ?case by (cases ys) auto
qed auto

lemma strip_by_infix: "\<exists>a b. s = a @ strip_by P s @ b"
proof -
  have "dropWhile P s = strip_by P s @ rev (takeWhile P (rev (dropWhile P s)))"
    by (metis rev_append rev_rev_ident strip_by_def takeWhile_dropWhile_id)
  then show ?thesis by (metis takeWhile_dropWhile_id)
qed

text \<open>What a normalised name looks like.\<close>

definition normal_name :: "string \<Rightarrow> bool" where
  "normal_name s \<longleftrightarrow> no_double sep s \<and> (\<forall>c \<in> set s. is_lower_alnum c \<or> c = CHR ''_'') \<and>
     (s = [] \<or> (hd s \<noteq> CHR ''_'' \<and> last s \<noteq> CHR ''_''))"

lemma normalize_normal: "normal_name (normalize_predicate_name raw)"
proof -
  define u where "u = sub_runs sep ''_'' (py_lower (py_strip (py_or raw [])))"
  have n: "normalize_predicate_name raw = strip_by (\<lambda>c. c = CHR ''_'') u"
    by (simp add: normalize_predicate_name_def u_def)
  obtain a b where ab: "u = a @ strip_by (\<lambda>c. c = CHR ''_'') u @ b"
    using strip_by_infix by blast
  have "no_double sep (strip_by (\<lambda>c. c = CHR ''_'') u)"
    using no_double_sub_runs ab no_double_append unfolding u_def by metis
  moreover have "\<forall>c \<in> set (strip_by (\<lambda>c. c = CHR ''_'') u). is_lower_alnum c \<or> c = CHR ''_''"
    using ab sub_runs_chars unfolding u_def by (metis Un_iff set_append)
  ultimately show ?thesis
    using strip_by_ends[of "\<lambda>c. c = CHR ''_''" u] by (auto simp: normal_name_def n)
qed

lemma underscore_fixed: "lower_char (CHR ''_'') = CHR ''_''" "\<not> py_space (CHR ''_'')"
  by (simp_all add: lower_char_def py_space_def code_def)

lemma normalize_fixes_normal:
  assumes "normal_name s"
  shows "normalize_predicate_name (Some s) = s"
proof -
  have chars: "\<forall>c \<in> set s. is_lower_alnum c \<or> c = CHR ''_''"
    using assms by (simp add: normal_name_def)
  have "py_strip s = s" unfolding py_strip_def
  proof (rule strip_by_no_effect)
    show "s = [] \<or> (\<not> py_space (hd s) \<and> \<not> py_space (last s))"
      using chars lower_alnum_not_space underscore_fixed(2) by (metis hd_in_set last_in_set)
  qed
  moreover have "py_lower s = s" unfolding py_lower_def
    by (rule map_idI) (metis chars lower_alnum_fixed underscore_fixed(1))
  moreover have "sub_runs sep ''_'' s = s"
    by (rule sub_runs_id) (use assms in \<open>auto simp: normal_name_def\<close>)
  moreover have "strip_by (\<lambda>c. c = CHR ''_'') s = s"
    by (rule strip_by_no_effect) (use assms in \<open>auto simp: normal_name_def\<close>)
  ultimately show ?thesis by (cases "s = []") (simp_all add: normalize_predicate_name_def)
qed

lemma normalize_idem:
  "normalize_predicate_name (Some (normalize_predicate_name raw)) = normalize_predicate_name raw"
  by (rule normalize_fixes_normal[OF normalize_normal])

lemma classify_normalized:
  "classify_predicate (Some (normalize_predicate_name raw)) = classify_predicate raw"
  by (simp add: classify_predicate_def normalize_idem)

section \<open>The four categories\<close>

definition vocabulary :: "string list" where
  "vocabulary = agent_selectable_predicates @ map fst reserved_predicates @
     legacy_readonly_predicates @ map fst predicate_aliases"

lemma distinct_vocabulary: "distinct vocabulary"
  by code_simp

lemma normal_name_code:
  "normal_name s \<longleftrightarrow> no_double sep s \<and> list_all (\<lambda>c. is_lower_alnum c \<or> c = CHR ''_'') s \<and>
     (s = [] \<or> (hd s \<noteq> CHR ''_'' \<and> last s \<noteq> CHR ''_''))"
  by (simp add: normal_name_def list_all_iff)

lemma vocabulary_normal: "list_all normal_name vocabulary"
  unfolding normal_name_code by code_simp

lemma selectable_normal: "p \<in> set agent_selectable_predicates \<Longrightarrow> normal_name p"
  using vocabulary_normal by (auto simp: vocabulary_def list_all_iff)

lemma classify_selectable:
  assumes "p \<in> set agent_selectable_predicates"
  shows "classify_predicate (Some p) =
    \<lparr>pd_status = Selectable, pd_canonical = Some p, pd_swap = False, pd_lifecycle_tool = None\<rparr>"
proof -
  have "normalize_predicate_name (Some p) = p"
    by (rule normalize_fixes_normal[OF selectable_normal[OF assms]])
  moreover have "p \<noteq> []" using assms by (auto simp: agent_selectable_predicates_def)
  ultimately show ?thesis using assms by (simp add: classify_predicate_def)
qed

lemma alias_targets_selectable:
  "list_all (\<lambda>(a, c, s). c \<in> set agent_selectable_predicates) predicate_aliases"
  by code_simp

lemma classify_selectable_iff:
  "pd_status (classify_predicate raw) = Selectable \<longleftrightarrow>
     normalize_predicate_name raw \<in> set agent_selectable_predicates"
  by (auto simp: classify_predicate_def Let_def agent_selectable_predicates_def
      split: option.splits if_splits)

lemma classify_selectable_canonical:
  "pd_status (classify_predicate raw) = Selectable \<Longrightarrow>
     pd_canonical (classify_predicate raw) = Some (normalize_predicate_name raw)"
  by (auto simp: classify_predicate_def Let_def split: option.splits if_splits)

lemma classify_alias_canonical:
  assumes "pd_status (classify_predicate raw) = Alias"
  shows "\<exists>c. pd_canonical (classify_predicate raw) = Some c \<and> c \<in> set agent_selectable_predicates"
proof -
  obtain c sw where "map_of predicate_aliases (normalize_predicate_name raw) = Some (c, sw)"
    and "pd_canonical (classify_predicate raw) = Some c"
    using assms by (auto simp: classify_predicate_def Let_def split: option.splits if_splits)
  then show ?thesis
    using alias_targets_selectable map_of_SomeD by (fastforce simp: list_all_iff)
qed

section \<open>Properties\<close>

text \<open>
  The closed vocabulary is a partition of 51 names: 11 agent-selectable, 3 reserved, 1 legacy
  read-only and 36 aliases, no name in two categories; and each name is its own normal form, so
  that \<open>classify_predicate\<close> can find it.
\<close>

lemma vocabulary_partition:
  "distinct vocabulary \<and> length vocabulary = 51 \<and>
   length agent_selectable_predicates = 11 \<and> length reserved_predicates = 3 \<and>
   length legacy_readonly_predicates = 1 \<and> length predicate_aliases = 36 \<and>
   list_all (\<lambda>p. normalize_predicate_name (Some p) = p) vocabulary"
proof -
  have "length vocabulary = 51" "length agent_selectable_predicates = 11"
    "length reserved_predicates = 3" "length legacy_readonly_predicates = 1"
    "length predicate_aliases = 36"
    by code_simp+
  then show ?thesis
    using distinct_vocabulary vocabulary_normal normalize_fixes_normal
    by (auto simp: list_all_iff)
qed

text \<open>
  A rejected drifted spelling always has an accepted correction: when \<open>classify_predicate\<close>
  reports an alias, the canonical name it names is classified as agent-selectable, as itself and
  with no further swap. So resubmitting the correction is never answered with another correction.
\<close>

lemma alias_correction_accepted:
  assumes "pd_status (classify_predicate raw) = Alias"
  shows "\<exists>c. pd_canonical (classify_predicate raw) = Some c \<and>
    classify_predicate (Some c) =
      \<lparr>pd_status = Selectable, pd_canonical = Some c, pd_swap = False, pd_lifecycle_tool = None\<rparr>"
  using classify_alias_canonical[OF assms] classify_selectable by blast

lemma alias_correction_accepted_witness:
  "\<exists>c. pd_canonical (classify_predicate (Some '' Resolved-By '')) = Some c \<and>
    classify_predicate (Some c) =
      \<lparr>pd_status = Selectable, pd_canonical = Some c, pd_swap = False, pd_lifecycle_tool = None\<rparr>"
proof -
  have "pd_status (classify_predicate (Some '' Resolved-By '')) = Alias" by code_simp
  then show ?thesis by (rule alias_correction_accepted)
qed

text \<open>
  Shape normalisation is a projection: normalising a normalised predicate changes nothing, so
  the write-time gate, the read-side lookup and the adapter's pre-flight agree on every spelling
  of one name, and \<open>classify_predicate\<close> gives a raw spelling and its normal form the same answer.
\<close>

lemma normalize_projection:
  "normalize_predicate_name (Some (normalize_predicate_name raw)) = normalize_predicate_name raw \<and>
   classify_predicate (Some (normalize_predicate_name raw)) = classify_predicate raw"
  by (simp add: normalize_idem classify_normalized)

end
