(* ===== verification/Store.thy ===== *)
theory Store
  imports Salt_Prelude
begin

text \<open>
  The shared store: the rows of the SQLite tables the modelled services read and write
  (\<^verbatim>\<open>src/src/saltmdb/db/schema.py\<close>), the response envelope
  (\<^verbatim>\<open>src/src/saltmdb/utils/envelope.py\<close>), the transaction wrapper
  (\<^verbatim>\<open>src/src/saltmdb/db/connection.py\<close>) and the entity-reference resolution of
  \<^verbatim>\<open>src/src/saltmdb/utils/text.py\<close>.

  A table is the list of its rows in rowid order. A query without \<open>ORDER BY\<close> reads it in that
  order. Columns the modelled code never reads are left out. What lies outside the repository, or
  is numeric model inference, is a field of the record \<open>env\<close>: the clock, the ISO-8601 parser and
  printer of \<open>datetime\<close>, SQLite's \<open>datetime()\<close> function, SHA-256, the tokenizer, the redaction
  patterns and the embedding centroids with their pairwise cosine minimum.
\<close>

section \<open>Rows\<close>

datatype status = Raw | Consolidated | Archived

datatype scope = Private | Shared

text \<open>The JSON column \<open>core_detail_memory_ids\<close>: NULL, a list of ids, or text that does not parse.\<close>

datatype detail_column = Detail_Null | Detail_Ids "string list" | Detail_Malformed

text \<open>
  The JSON column \<open>metadata\<close>: NULL, an object with its keys in order, another JSON value, or text that does not
  parse. The values of an object are kept as texts.
\<close>

datatype metadata_column =
    Meta_Null
  | Meta_Object "(string \<times> string) list"
  | Meta_Other string
  | Meta_Malformed string

record entity =
  e_id :: string
  e_title :: string
  e_content :: string
  e_status :: status
  e_scope :: scope
  e_agent_id :: "string option"
  e_created_at :: string
  e_updated_at :: string
  e_valid_to :: "string option"
  e_content_hash :: "string option"
  e_memory_type :: "string option"
  e_embedding_status :: string
  e_is_core :: bool
  e_core_reason :: "string option"
  e_core_exit_condition :: "string option"
  e_core_review_after :: "string option"
  e_core_detail_memory_ids :: detail_column
  e_core_last_reviewed_at :: "string option"
  e_core_last_reviewed_by :: "string option"
  e_core_review_rationale :: "string option"
  e_weight :: int
  e_context_id :: "string option"
  e_metadata :: metadata_column

record relation =
  r_id :: string
  r_source :: string
  r_target :: string
  r_predicate :: string
  r_created_at :: string
  r_valid_from :: "string option"
  r_valid_to :: "string option"
  r_valid_at :: "string option"
  r_invalid_at :: "string option"

text \<open>
  The content of an event: free text, or the override audit of the relation gate or of the
  consolidation gate, whose JSON object is kept as its fields.
\<close>

datatype violation = Low_Similarity | Contradictory_Predicate

record override_audit =
  oa_source_id :: string
  oa_target_id :: string
  oa_predicate :: string
  oa_violations :: "violation list"
  oa_similarity :: rat
  oa_contradicting_predicates :: "string list"
  oa_justification :: string
  oa_relation_id :: string

record merge_audit =
  ma_parent_ids :: "string list"
  ma_min_similarity :: rat
  ma_offending_pair :: "(string \<times> string) option"
  ma_unresolved :: "(string \<times> string) list"
  ma_justification :: string
  ma_consolidated_id :: string

datatype event_content = Plain_Text string | Relation_Override override_audit | Merge_Override merge_audit

record event =
  ev_id :: string
  ev_timestamp :: string
  ev_agent_id :: string
  ev_type :: string
  ev_content :: event_content

record tag =
  t_id :: string
  t_name :: string
  t_normalized_name :: "string option"
  t_canonical_id :: "string option"

record predicate_row =
  p_id :: string
  p_name :: string
  p_normalized_name :: "string option"
  p_canonical_id :: "string option"

datatype trace_status = Pending | Completed | Incomplete

record trace =
  tr_id :: string
  tr_agent_session_id :: string
  tr_agent_id :: string
  tr_harness :: string
  tr_harness_session_id :: string
  tr_harness_turn_id :: string
  tr_status :: trace_status
  tr_user_prompt :: string
  tr_user_prompt_hash :: string
  tr_final_assistant_message :: "string option"
  tr_final_assistant_message_hash :: "string option"
  tr_created_at :: string
  tr_updated_at :: string
  tr_completed_at :: "string option"

record turn_message =
  tm_id :: string
  tm_trace_id :: string
  tm_seq :: nat
  tm_message :: string
  tm_message_hash :: string
  tm_created_at :: string

record trace_link =
  tl_id :: string
  tl_trace_id :: string
  tl_entity_id :: string
  tl_content_hash :: "string option"
  tl_write_operation :: string
  tl_created_at :: string

record agent_session =
  as_session_id :: string
  as_ended_at :: "string option"

record db =
  entities :: "entity list"
  relations :: "relation list"
  events :: "event list"
  tags :: "tag list"
  entity_tags :: "(string \<times> string) list"
  predicates :: "predicate_row list"
  traces :: "trace list"
  turn_messages :: "turn_message list"
  trace_links :: "trace_link list"
  agent_sessions :: "agent_session list"
  community_triggers :: nat

section \<open>What the model takes from outside\<close>

record env =
  now :: int
  isoformat :: "int \<Rightarrow> string"
  fromisoformat :: "string \<Rightarrow> int option"
  sql_datetime :: "string \<Rightarrow> int option"
  sha256 :: "string \<Rightarrow> string"
  redact_secrets :: "string \<Rightarrow> string"
  get_fresh_entity_centroids :: "db \<Rightarrow> string list \<Rightarrow> (string \<times> rat list) list \<times> (string \<times> string) list"
  min_pairwise_cohesion :: "(string \<times> rat list) list \<Rightarrow> rat \<times> (string \<times> string) option"

definition now_iso :: "env \<Rightarrow> string" where
  "now_iso \<Gamma> = isoformat \<Gamma> (now \<Gamma>)"

section \<open>Envelopes and exceptions\<close>

text \<open>
  The human-readable message of an error or a warning is not modelled; its code and its field are.
\<close>

record err =
  err_code :: string
  err_field :: "string option"

datatype 'a envelope = Ok 'a "string list" | Rejected "err list"

definition error :: "string \<Rightarrow> string option \<Rightarrow> err" where
  "error c f = \<lparr>err_code = c, err_field = f\<rparr>"

definition is_rejected :: "'a envelope \<Rightarrow> bool" where
  "is_rejected e = (case e of Rejected _ \<Rightarrow> True | Ok _ _ \<Rightarrow> False)"

text \<open>\<open>rejected\<close> raises on an empty error list.\<close>

datatype exn = ValueError | KeyError | RuntimeError | IntegrityError | Locked

definition rejected :: "err list \<Rightarrow> exn + 'a envelope" where
  "rejected es = (if es = [] then Inl ValueError else Inr (Rejected es))"

abbreviation "VALIDATION_ERROR \<equiv> ''VALIDATION_ERROR''"
abbreviation "NOT_FOUND \<equiv> ''NOT_FOUND''"
abbreviation "ALREADY_DONE \<equiv> ''ALREADY_DONE''"
abbreviation "CONFLICT \<equiv> ''CONFLICT''"
abbreviation "INTERNAL_ERROR \<equiv> ''INTERNAL_ERROR''"

section \<open>Transactions\<close>

text \<open>
  An action runs on the store and returns a value or raises, together with the store it leaves
  behind. \<open>write_transaction\<close> commits on a normal return and rolls back on an exception.
\<close>

type_synonym 'a act = "db \<Rightarrow> (exn + 'a) \<times> db"

definition write_transaction :: "'a act \<Rightarrow> 'a act" where
  "write_transaction f d = (case f d of (Inl e, _) \<Rightarrow> (Inl e, d) | (Inr x, d') \<Rightarrow> (Inr x, d'))"

text \<open>
  \<open>write_transaction_retrying\<close>: the whole transaction is run again after lock contention, at most
  \<open>RETRY_MAX_ATTEMPTS\<close> further times; every other exception propagates at once. \<open>locks k\<close> says
  whether attempt \<open>k\<close> finds the database locked by another connection when it begins.
\<close>

definition RETRY_MAX_ATTEMPTS :: nat where
  "RETRY_MAX_ATTEMPTS = 3"

definition attempt_transaction :: "(nat \<Rightarrow> bool) \<Rightarrow> nat \<Rightarrow> 'a act \<Rightarrow> 'a act" where
  "attempt_transaction locks k f d = (if locks k then (Inl Locked, d) else write_transaction f d)"

function retry_from :: "(nat \<Rightarrow> bool) \<Rightarrow> nat \<Rightarrow> 'a act \<Rightarrow> 'a act" where
  "retry_from locks k f d =
     (case attempt_transaction locks k f d of
        (Inr x, d') \<Rightarrow> (Inr x, d')
      | (Inl e, d') \<Rightarrow>
          if e \<noteq> Locked \<or> k \<ge> RETRY_MAX_ATTEMPTS then (Inl e, d')
          else retry_from locks (Suc k) f d')"
  by pat_completeness auto
termination
  by (relation "measure (\<lambda>(locks, k, f, d). RETRY_MAX_ATTEMPTS - k)") auto

declare retry_from.simps [simp del]

definition write_transaction_retrying :: "(nat \<Rightarrow> bool) \<Rightarrow> 'a act \<Rightarrow> 'a act" where
  "write_transaction_retrying locks f d = retry_from locks 0 f d"

section \<open>Resolving an entity reference\<close>

text \<open>\<open>\w\<close> on the code points 0 to 255.\<close>

definition is_word :: "char \<Rightarrow> bool" where
  "is_word c \<longleftrightarrow> (let n = code c in
     (48 \<le> n \<and> n \<le> 57) \<or> (65 \<le> n \<and> n \<le> 90) \<or> n = 95 \<or> (97 \<le> n \<and> n \<le> 122) \<or>
     n \<in> {170, 178, 179, 181, 185, 186, 188, 189, 190} \<or>
     (192 \<le> n \<and> n \<noteq> 215 \<and> n \<noteq> 247))"

definition uuid_shape :: "string \<Rightarrow> bool" where
  "uuid_shape s \<longleftrightarrow> length s = 36 \<and>
     list_all (\<lambda>i. if i \<in> {8, 13, 18, 23} then s ! i = CHR ''-'' else is_hex (s ! i)) [0..<36]"

text \<open>\<open>UUID_REGEX.search\<close>: the first UUID with a word boundary on both sides.\<close>

fun uuid_search :: "char option \<Rightarrow> string \<Rightarrow> string option" where
  "uuid_search p [] = None"
| "uuid_search p (c # cs) =
     (if (case p of None \<Rightarrow> True | Some q \<Rightarrow> \<not> is_word q) \<and> uuid_shape (take 36 (c # cs)) \<and>
         (case drop 36 (c # cs) of [] \<Rightarrow> True | q # _ \<Rightarrow> \<not> is_word q)
      then Some (take 36 (c # cs)) else uuid_search (Some c) cs)"

definition get_entity :: "db \<Rightarrow> string \<Rightarrow> entity option" where
  "get_entity d i = find_row (\<lambda>e. e_id e = i) (entities d)"

text \<open>\<open>... ORDER BY updated_at DESC LIMIT 1\<close>.\<close>

definition latest :: "entity list \<Rightarrow> entity option" where
  "latest es = (case sort_desc e_updated_at es of [] \<Rightarrow> None | e # _ \<Rightarrow> Some e)"

definition resolve_entity_id :: "db \<Rightarrow> string option \<Rightarrow> string option" where
  "resolve_entity_id d input =
     (if \<not> truthy input then input
      else let s = py_strip (the input) in
        if get_entity d s \<noteq> None then Some s
        else if uuid_shape s then Some s
        else case uuid_search None s of
          Some u \<Rightarrow> Some u
        | None \<Rightarrow>
            (case latest (filter (\<lambda>e. e_title e = s \<and> e_status e \<noteq> Archived) (entities d)) of
               Some e \<Rightarrow> Some (e_id e)
             | None \<Rightarrow> Some s))"

text \<open>The visibility clause \<open>(agent_id = ? OR scope = 'shared')\<close>, absent when no agent is given.\<close>

definition visible :: "string option \<Rightarrow> entity \<Rightarrow> bool" where
  "visible agent e = (case agent of None \<Rightarrow> True
     | Some a \<Rightarrow> e_agent_id e = Some a \<or> e_scope e = Shared)"

record candidate =
  c_id :: string
  c_title :: string
  c_status :: status

definition ascii_lower :: "string \<Rightarrow> string" where
  "ascii_lower s = map (\<lambda>c. if 65 \<le> code c \<and> code c \<le> 90 then char_of (code c + 32) else c) s"

definition hex_prefix_shape :: "string \<Rightarrow> bool" where
  "hex_prefix_shape p \<longleftrightarrow> 8 \<le> length p \<and> length p \<le> 36 \<and>
     list_all (\<lambda>c. is_hex c \<or> c = CHR ''-'') p"

text \<open>The prefix query, \<open>WHERE id LIKE 'p%' ... LIMIT 21\<close>.\<close>

definition prefix_rows :: "db \<Rightarrow> string \<Rightarrow> string option \<Rightarrow> entity list" where
  "prefix_rows d p agent =
     take 21 (filter (\<lambda>e. prefix (py_lower p) (ascii_lower (e_id e)) \<and> visible agent e)
       (entities d))"

definition resolve_id_prefix ::
  "db \<Rightarrow> string option \<Rightarrow> string option \<Rightarrow> string option \<times> candidate list \<times> bool" where
  "resolve_id_prefix d pre agent =
     (if \<not> truthy pre then (None, [], False)
      else let p = py_strip (the pre); hex_only = filter (\<lambda>c. c \<noteq> CHR ''-'') p in
        if \<not> (8 \<le> length hex_only \<and> length hex_only < 32) \<or> \<not> hex_prefix_shape p
        then (None, [], False)
        else let rows = prefix_rows d p agent in
          if length rows = 1 then (Some (e_id (hd rows)), [], False)
          else if length rows > 1 then
            (None, map (\<lambda>e. \<lparr>c_id = e_id e, c_title = e_title e, c_status = e_status e\<rparr>)
                     (take 20 (sort_desc e_updated_at rows)), length rows > 20)
          else (None, [], False))"

definition resolve_existing_entity :: "db \<Rightarrow> string option \<Rightarrow> string option \<Rightarrow> string option" where
  "resolve_existing_entity d resolved agent =
     (if \<not> truthy resolved then None
      else if find_row (\<lambda>e. e_id e = the resolved \<and> visible agent e) (entities d) \<noteq> None
      then resolved else None)"

definition resolve_visible_title :: "db \<Rightarrow> string \<Rightarrow> string option \<Rightarrow> string option" where
  "resolve_visible_title d raw agent =
     (if agent = None then None
      else map_option e_id (latest (filter (\<lambda>e. e_title e = raw \<and> e_status e \<noteq> Archived \<and>
                                              visible agent e) (entities d))))"

definition resolve_entity_ref ::
  "db \<Rightarrow> string option \<Rightarrow> string option \<Rightarrow> string option \<times> candidate list \<times> bool" where
  "resolve_entity_ref d raw agent =
     (if \<not> truthy raw then (None, [], False)
      else case resolve_existing_entity d (resolve_entity_id d raw) agent of
        Some i \<Rightarrow> (Some i, [], False)
      | None \<Rightarrow>
          let title_id = resolve_visible_title d (the raw) agent in
          if truthy title_id then (title_id, [], False)
          else case resolve_id_prefix d raw agent of
            (prefix_id, cands, truncated) \<Rightarrow>
              if cands \<noteq> [] then (None, cands, truncated)
              else if truthy prefix_id then (prefix_id, [], False)
              else (None, [], False))"

section \<open>Lemmas: transactions\<close>

lemma write_transaction_abort: "write_transaction f d = (Inl e, d') \<Longrightarrow> d' = d"
  by (auto simp: write_transaction_def split: prod.splits sum.splits)

lemma write_transaction_commit:
  "write_transaction f d = (Inr x, d') \<longleftrightarrow> f d = (Inr x, d')"
  by (auto simp: write_transaction_def split: prod.splits sum.splits)

lemma attempt_abort: "attempt_transaction locks k f d = (Inl e, d') \<Longrightarrow> d' = d"
  by (auto simp: attempt_transaction_def dest: write_transaction_abort split: if_splits)

lemma retry_abort: "retry_from locks k f d = (Inl e, d') \<Longrightarrow> d' = d"
proof (induction locks k f d rule: retry_from.induct)
  case (1 locks k f d)
  obtain r d1 where a: "attempt_transaction locks k f d = (r, d1)" by fastforce
  show ?case
  proof (cases r)
    case (Inl e1)
    with a have d1: "d1 = d" by (auto dest: attempt_abort)
    show ?thesis
    proof (cases "e1 \<noteq> Locked \<or> k \<ge> RETRY_MAX_ATTEMPTS")
      case True
      with "1.prems" a Inl d1 show ?thesis by (auto simp: retry_from.simps[of locks k f d])
    next
      case False
      with "1.prems" a Inl d1 have "retry_from locks (Suc k) f d = (Inl e, d')"
        by (auto simp: retry_from.simps[of locks k f d])
      then show ?thesis using "1.IH"[OF a[symmetric] Inl False] d1 by simp
    qed
  next
    case (Inr x)
    with "1.prems" a show ?thesis by (auto simp: retry_from.simps[of locks k f d])
  qed
qed

lemma retry_commit: "retry_from locks k f d = (Inr x, d') \<Longrightarrow> f d = (Inr x, d')"
proof (induction locks k f d rule: retry_from.induct)
  case (1 locks k f d)
  obtain r d1 where a: "attempt_transaction locks k f d = (r, d1)" by fastforce
  show ?case
  proof (cases r)
    case (Inl e1)
    with a have d1: "d1 = d" by (auto dest: attempt_abort)
    have go: "\<not> (e1 \<noteq> Locked \<or> k \<ge> RETRY_MAX_ATTEMPTS)" and
      "retry_from locks (Suc k) f d = (Inr x, d')"
      using "1.prems" a Inl d1 by (auto simp: retry_from.simps[of locks k f d] split: if_splits)
    then show ?thesis using "1.IH"[OF a[symmetric] Inl go] d1 by simp
  next
    case (Inr y)
    then show ?thesis
      using "1.prems" a
      by (auto simp: retry_from.simps[of locks k f d] attempt_transaction_def
          write_transaction_commit split: if_splits)
  qed
qed

lemma retrying_abort: "write_transaction_retrying locks f d = (Inl e, d') \<Longrightarrow> d' = d"
  by (auto simp: write_transaction_retrying_def dest: retry_abort)

lemma retrying_commit: "write_transaction_retrying locks f d = (Inr x, d') \<Longrightarrow> f d = (Inr x, d')"
  by (auto simp: write_transaction_retrying_def dest: retry_commit)

lemma retrying_unlocked:
  assumes "\<not> locks 0" "\<And>d' . f d \<noteq> (Inl Locked, d')"
  shows "write_transaction_retrying locks f d = write_transaction f d"
proof -
  have "attempt_transaction locks 0 f d = write_transaction f d"
    using assms by (simp add: attempt_transaction_def)
  moreover have "write_transaction f d \<noteq> (Inl Locked, d')" for d'
    using assms(2) by (auto simp: write_transaction_def split: prod.splits sum.splits)
  ultimately show ?thesis
    by (auto simp: write_transaction_retrying_def retry_from.simps[of locks 0 f d]
        split: prod.splits sum.splits)
qed

lemma retrying_always_locked:
  "write_transaction_retrying (\<lambda>k. k \<le> 3) f d = (Inl Locked, d)"
  by (simp add: write_transaction_retrying_def retry_from.simps attempt_transaction_def
      RETRY_MAX_ATTEMPTS_def)

section \<open>Lemmas: resolution\<close>

lemma get_entity_Some: "get_entity d i = Some e \<Longrightarrow> e \<in> set (entities d) \<and> e_id e = i"
  unfolding get_entity_def by (drule find_row_Some) simp

lemma latest_Some: "latest es = Some e \<Longrightarrow> e \<in> set es"
  unfolding latest_def
  by (metis list.case_eq_if list.set_sel(1) option.inject option.simps(3) set_sort_desc)

text \<open>The entities an agent may name: the contract every client of resolution relies on.\<close>

definition resolvable :: "db \<Rightarrow> string option \<Rightarrow> string \<Rightarrow> bool" where
  "resolvable d agent i \<longleftrightarrow> (\<exists>e \<in> set (entities d). e_id e = i \<and> visible agent e)"

locale entity_resolver =
  fixes resolve :: "'s \<Rightarrow> string option \<Rightarrow> string option \<Rightarrow> string option \<times> candidate list \<times> bool"
    and known :: "'s \<Rightarrow> string option \<Rightarrow> string \<Rightarrow> bool"
  assumes resolved_known: "resolve d raw agent = (Some i, cs, t) \<Longrightarrow> known d agent i"
    and resolved_alone: "resolve d raw agent = (Some i, cs, t) \<Longrightarrow> cs = [] \<and> \<not> t"
    and candidates_known:
      "resolve d raw agent = (r, cs, t) \<Longrightarrow> c \<in> set cs \<Longrightarrow> known d agent (c_id c)"
    and candidates_bounded:
      "resolve d raw agent = (r, cs, t) \<Longrightarrow> cs = [] \<or> (2 \<le> length cs \<and> length cs \<le> 20)"
begin

text \<open>A list of references resolved one by one, unresolved ones dropped, duplicates removed.\<close>

definition resolve_list :: "'s \<Rightarrow> string option list \<Rightarrow> string list" where
  "resolve_list d raws = remdups (List.map_filter (\<lambda>raw. fst (resolve d raw None)) raws)"

lemma resolve_list_known: "i \<in> set (resolve_list d raws) \<Longrightarrow> known d None i"
proof -
  assume "i \<in> set (resolve_list d raws)"
  then obtain raw where "fst (resolve d raw None) = Some i"
    by (auto simp: resolve_list_def map_filter_def)
  then have "resolve d raw None = (Some i, fst (snd (resolve d raw None)), snd (snd (resolve d raw None)))"
    by (simp add: prod_eq_iff)
  then show ?thesis by (rule resolved_known)
qed

lemma never_both: "resolve d raw agent = (r, cs, t) \<Longrightarrow> r = None \<or> cs = []"
  using resolved_alone by (cases r) auto

end

lemma resolve_id_prefix_spec:
  assumes "resolve_id_prefix d pre agent = (r, cs, t)"
  shows "(\<forall>i. r = Some i \<longrightarrow> resolvable d agent i \<and> cs = [] \<and> \<not> t) \<and>
    (\<forall>c \<in> set cs. resolvable d agent (c_id c)) \<and>
    (cs = [] \<or> (2 \<le> length cs \<and> length cs \<le> 20))"
proof (cases "\<not> truthy pre \<or> (let p = py_strip (the pre); h = filter (\<lambda>c. c \<noteq> CHR ''-'') p in
    \<not> (8 \<le> length h \<and> length h < 32) \<or> \<not> hex_prefix_shape p)")
  case True
  then have "resolve_id_prefix d pre agent = (None, [], False)"
    by (cases "truthy pre") (simp_all add: resolve_id_prefix_def Let_def)
  then show ?thesis using assms by simp
next
  case False
  define rows where "rows = prefix_rows d (py_strip (the pre)) agent"
  have rows_vis: "e \<in> set rows \<Longrightarrow> resolvable d agent (e_id e)" for e
    by (auto simp: rows_def prefix_rows_def resolvable_def dest!: in_set_takeD)
  have eq: "(r, cs, t) = (if length rows = 1 then (Some (e_id (hd rows)), [], False)
      else if length rows > 1 then
        (None, map (\<lambda>e. \<lparr>c_id = e_id e, c_title = e_title e, c_status = e_status e\<rparr>)
           (take 20 (sort_desc e_updated_at rows)), length rows > 20)
      else (None, [], False))"
    using assms False by (auto simp: resolve_id_prefix_def Let_def rows_def)
  consider "length rows = 1" | "length rows > 1" | "length rows = 0" by linarith
  then show ?thesis
  proof cases
    case 1
    then have "hd rows \<in> set rows" by (cases rows) auto
    with 1 eq rows_vis show ?thesis by auto
  next
    case 2
    then show ?thesis using eq rows_vis by (auto dest!: in_set_takeD)
  next
    case 3
    then show ?thesis using eq by simp
  qed
qed

lemma resolve_entity_ref_spec:
  assumes "resolve_entity_ref d raw agent = (r, cs, t)"
  shows "(\<forall>i. r = Some i \<longrightarrow> resolvable d agent i \<and> cs = [] \<and> \<not> t) \<and>
    (\<forall>c \<in> set cs. resolvable d agent (c_id c)) \<and>
    (cs = [] \<or> (2 \<le> length cs \<and> length cs \<le> 20))"
proof (cases "truthy raw")
  case False
  then show ?thesis using assms by (auto simp: resolve_entity_ref_def)
next
  case True
  show ?thesis
  proof (cases "resolve_existing_entity d (resolve_entity_id d raw) agent")
    case (Some i)
    then have "resolvable d agent i"
      by (auto simp: resolve_existing_entity_def resolvable_def find_row_None split: if_splits)
    with Some True assms show ?thesis by (auto simp: resolve_entity_ref_def)
  next
    case None
    show ?thesis
    proof (cases "truthy (resolve_visible_title d (the raw) agent)")
      case title: True
      then obtain i where i: "resolve_visible_title d (the raw) agent = Some i"
        by (auto simp: truthy_iff)
      then have "resolvable d agent i"
        by (auto simp: resolve_visible_title_def resolvable_def split: if_splits
            dest!: latest_Some)
      with title i None True assms show ?thesis
        by (auto simp: resolve_entity_ref_def Let_def)
    next
      case False
      obtain pid cs' t' where p: "resolve_id_prefix d raw agent = (pid, cs', t')"
        by (metis prod_cases3)
      show ?thesis
        using resolve_id_prefix_spec[OF p] assms True None False p
        by (auto simp: resolve_entity_ref_def Let_def truthy_iff split: if_splits)
    qed
  qed
qed

interpretation refs: entity_resolver resolve_entity_ref resolvable
  by unfold_locales (auto dest: resolve_entity_ref_spec)

lemma resolve_exact_id:
  assumes "e \<in> set (entities d)" "visible agent e" "py_strip raw = e_id e" "e_id e \<noteq> []" "raw \<noteq> []"
  shows "resolve_entity_ref d (Some raw) agent = (Some (e_id e), [], False)"
proof -
  have "get_entity d (e_id e) \<noteq> None"
    using assms(1) by (auto simp: get_entity_def find_row_None)
  then have "resolve_entity_id d (Some raw) = Some (e_id e)"
    using assms by (simp add: resolve_entity_id_def)
  moreover have "resolve_existing_entity d (Some (e_id e)) agent = Some (e_id e)"
    using assms by (auto simp: resolve_existing_entity_def find_row_None)
  ultimately show ?thesis using assms by (simp add: resolve_entity_ref_def)
qed

section \<open>Properties\<close>

text \<open>
  Entity references resolve safely: whatever \<open>resolve_entity_ref\<close> returns as resolved is the
  id of an existing row that the agent may see, and then no candidates come with it; an ambiguous
  prefix returns no id but between 2 and 20 candidates, every one existing and visible.
\<close>

lemma resolve_ref_sound:
  assumes "resolve_entity_ref d raw agent = (r, cs, t)"
  shows "(\<forall>i. r = Some i \<longrightarrow> resolvable d agent i \<and> cs = [] \<and> \<not> t) \<and>
    (\<forall>c \<in> set cs. resolvable d agent (c_id c)) \<and>
    (cs = [] \<or> (r = None \<and> 2 \<le> length cs \<and> length cs \<le> 20))"
  using refs.resolved_known refs.resolved_alone refs.candidates_known refs.candidates_bounded
    refs.never_both assms by (metis (no_types, lifting))

definition sample_entity :: entity where
  "sample_entity = \<lparr>e_id = ''m1'', e_title = ''First'', e_content = ''text'', e_status = Raw,
     e_scope = Shared, e_agent_id = Some ''a'', e_created_at = ''1'', e_updated_at = ''1'',
     e_valid_to = None, e_content_hash = Some ''h'', e_memory_type = None,
     e_embedding_status = ''pending'', e_is_core = False, e_core_reason = None,
     e_core_exit_condition = None, e_core_review_after = None,
     e_core_detail_memory_ids = Detail_Null, e_core_last_reviewed_at = None,
     e_core_last_reviewed_by = None, e_core_review_rationale = None, e_weight = 1,
     e_context_id = None, e_metadata = Meta_Null\<rparr>"

definition empty_db :: db where
  "empty_db = \<lparr>entities = [], relations = [], events = [], tags = [], entity_tags = [],
     predicates = [], traces = [], turn_messages = [], trace_links = [], agent_sessions = [],
     community_triggers = 0\<rparr>"

definition sample_db :: db where
  "sample_db = empty_db\<lparr>entities := [sample_entity, sample_entity\<lparr>e_id := ''m2''\<rparr>]\<rparr>"

definition sample_env :: env where
  "sample_env = \<lparr>now = 0, isoformat = (\<lambda>n. if n \<le> 0 then ''1970-01-01'' else ''1970-01-15''),
     fromisoformat = (\<lambda>s. if s = ''1970-01-01'' then Some 0
       else if s = ''1970-01-15'' then Some 1209600000000 else None),
     sql_datetime = (\<lambda>_. Some 0), sha256 = (\<lambda>s. s), redact_secrets = (\<lambda>s. s),
     get_fresh_entity_centroids = (\<lambda>_ _. ([], [])), min_pairwise_cohesion = (\<lambda>_. (1, None))\<rparr>"

lemma resolve_ref_sound_witness:
  "resolve_entity_ref sample_db (Some '' m1'') (Some ''b'') = (Some ''m1'', [], False) \<and>
   resolvable sample_db (Some ''b'') ''m1''"
proof -
  have "py_strip '' m1'' = ''m1''"
    by (simp add: py_strip_def strip_by_def py_space_def code_def)
  moreover have "sample_entity \<in> set (entities sample_db)" "visible (Some ''b'') sample_entity"
    "e_id sample_entity = ''m1''"
    by (simp_all add: sample_db_def visible_def sample_entity_def)
  ultimately have r: "resolve_entity_ref sample_db (Some '' m1'') (Some ''b'') =
      (Some ''m1'', [], False)"
    using resolve_exact_id[of sample_entity sample_db "Some ''b''" "'' m1''"] by simp
  from resolve_ref_sound[OF r] r show ?thesis by blast
qed

text \<open>
  A write transaction with retries is atomic and runs its body on the store it was given: when
  it raises, the store is unchanged, however many attempts met a lock; when it returns, the result
  and the store are exactly those of one complete run of the body. At most four attempts are made:
  a database that stays locked ends in \<open>Locked\<close>.
\<close>

lemma retrying_transaction_atomic:
  "(write_transaction_retrying locks f d = (Inl e, d') \<longrightarrow> d' = d) \<and>
   (write_transaction_retrying locks f d = (Inr x, d') \<longrightarrow> f d = (Inr x, d')) \<and>
   write_transaction_retrying (\<lambda>k. k \<le> 3) f d = (Inl Locked, d)"
proof (intro conjI impI)
qed (erule retrying_abort, erule retrying_commit, rule retrying_always_locked)

lemma retrying_transaction_atomic_witness:
  "write_transaction_retrying (\<lambda>k. k < 2) (\<lambda>d. (Inr (7 :: nat), d\<lparr>community_triggers := 1\<rparr>)) empty_db =
     (Inr 7, empty_db\<lparr>community_triggers := 1\<rparr>) \<and>
   write_transaction_retrying (\<lambda>k. k \<le> 3) (\<lambda>d. (Inr (7 :: nat), d)) empty_db = (Inl Locked, empty_db)"
proof -
  have "write_transaction_retrying (\<lambda>k. k < 2)
      (\<lambda>d. (Inr (7 :: nat), d\<lparr>community_triggers := 1\<rparr>)) empty_db =
     (Inr 7, empty_db\<lparr>community_triggers := 1\<rparr>)"
    by (simp add: write_transaction_retrying_def retry_from.simps attempt_transaction_def
        RETRY_MAX_ATTEMPTS_def write_transaction_def)
  then show ?thesis
    using retrying_transaction_atomic[of "\<lambda>_. False" "\<lambda>d. (Inr (7 :: nat), d)" empty_db] by simp
qed

end
