(* ===== verification/Relations.thy ===== *)
theory Relations
  imports Predicate_Vocabulary Store
begin

text \<open>
  The write half of \<^verbatim>\<open>src/src/saltmdb/domain/services/relation_service.py\<close>: storing and
  invalidating a typed, bi-temporal relation edge, and the atomic batch behind the
  \<open>manage_relation\<close> tool; with \<open>log_event\<close> of \<^verbatim>\<open>event_service.py\<close> for the audit trail.

  An edge is live while its \<open>valid_to\<close> is NULL. The embedding centroids and their cosine minimum
  are the \<open>env\<close> fields \<open>get_fresh_entity_centroids\<close> and \<open>min_pairwise_cohesion\<close>. The ids that
  \<open>uuid.uuid4()\<close> draws are arguments. The background community recompute that a successful write
  schedules is the counter \<open>community_triggers\<close>.
\<close>

section \<open>Configuration\<close>

definition relation_gate_min_similarity_threshold :: rat where
  "relation_gate_min_similarity_threshold = 6505 / 10000"

definition relation_gate_strong_predicates :: "string list" where
  "relation_gate_strong_predicates = [''elaborates_on'', ''resolves'', ''supersedes'']"

text \<open>\<open>frozenset({a, b}) in RELATION_GATE_CONTRADICTORY_PREDICATE_PAIRS\<close>.\<close>

definition contradictory_predicate_pair :: "string \<Rightarrow> string \<Rightarrow> bool" where
  "contradictory_predicate_pair a b \<longleftrightarrow>
     (a = ''supersedes'' \<and> b = ''elaborates_on'') \<or> (a = ''elaborates_on'' \<and> b = ''supersedes'')"

definition cohesion_override_min_length :: nat where
  "cohesion_override_min_length = 20"

section \<open>The event ledger\<close>

text \<open>
  \<open>log_event\<close> inside an open transaction: the insert fails on a duplicate id, and the failure comes
  back as a rejection.
\<close>

definition log_event :: "env \<Rightarrow> string \<Rightarrow> string \<Rightarrow> string \<Rightarrow> event_content \<Rightarrow> db \<Rightarrow> string envelope \<times> db" where
  "log_event \<Gamma> event_id agent ty content d =
     (let content' = (case content of Plain_Text t \<Rightarrow> Plain_Text (redact_secrets \<Gamma> t) | c \<Rightarrow> c);
          row = \<lparr>ev_id = event_id, ev_timestamp = now_iso \<Gamma>, ev_agent_id = agent, ev_type = ty,
                 ev_content = content'\<rparr>
      in if event_id \<in> ev_id ` set (events d) then (Rejected [error INTERNAL_ERROR None], d)
         else (Ok event_id [], d\<lparr>events := events d @ [row]\<rparr>))"

section \<open>Predicates and endpoints\<close>

text \<open>\<open>SELECT p.name, c.name FROM predicates p LEFT JOIN predicates c ON c.id = p.canonical_id\<close>.\<close>

definition predicate_row_name :: "db \<Rightarrow> predicate_row \<Rightarrow> string" where
  "predicate_row_name d p =
     (case p_canonical_id p of
        None \<Rightarrow> p_name p
      | Some c \<Rightarrow>
          (case find_row (\<lambda>q. p_id q = c) (predicates d) of
             None \<Rightarrow> p_name p
           | Some q \<Rightarrow> if p_name q = [] then p_name p else p_name q))"

definition resolve_or_create_predicate :: "db \<Rightarrow> string option \<Rightarrow> string option" where
  "resolve_or_create_predicate d name =
     (let raw = py_strip (py_or name []) in
      if raw = [] then None
      else let normalized = normalize_predicate_name (Some raw) in
        if normalized = [] then None
        else let disposition = classify_predicate (Some normalized) in
          if truthy (pd_canonical disposition) then pd_canonical disposition
          else case find_row (\<lambda>p. p_name p = normalized) (predicates d) of
            Some p \<Rightarrow> Some (predicate_row_name d p)
          | None \<Rightarrow>
              map_option (predicate_row_name d)
                (find_row (\<lambda>p. p_normalized_name p = Some normalized) (predicates d)))"

text \<open>
  The message of a failed endpoint resolution. \<open>_entity_ref_error_code\<close> reads the error code back
  out of its text, so the text is modelled (without the list of candidates that follows it).
\<close>

definition quoted :: "string \<Rightarrow> string" where
  "quoted s = [CHR 0x27] @ s @ [CHR 0x27]"

definition resolve_relation_endpoint ::
  "db \<Rightarrow> string \<Rightarrow> string \<Rightarrow> string option \<times> string option" where
  "resolve_relation_endpoint d raw label =
     (case resolve_entity_ref d (Some raw) None of
        (resolved, cands, truncated) \<Rightarrow>
          if truthy resolved then (resolved, None)
          else if cands \<noteq> [] then
            (None, Some (''Error: AMBIGUOUS_ID_PREFIX - '' @ label @ '' '' @ quoted raw @ '' matches '' @
               show_nat (length cands) @ (if truncated then ''+'' else []) @ '' memories:''))
          else (None, Some (''Error: UNKNOWN_ENTITY_ID - could not resolve '' @ label @ '' '' @
                  quoted raw @ ''.'')))"

definition entity_ref_error_code :: "string \<Rightarrow> string" where
  "entity_ref_error_code msg =
     (if contains msg ''AMBIGUOUS_ID_PREFIX'' then ''AMBIGUOUS_ID_PREFIX''
      else if contains msg ''UNKNOWN_ENTITY_ID'' then ''UNKNOWN_ENTITY_ID''
      else VALIDATION_ERROR)"

definition endpoint_rejection :: "string option \<Rightarrow> string option \<Rightarrow> 'a envelope" where
  "endpoint_rejection source_error target_error =
     Rejected [error (entity_ref_error_code
       (py_or source_error (py_or target_error ''Error: Could not resolve target entity IDs.''))) None]"

definition resolve_store_relation_endpoints ::
  "db \<Rightarrow> string \<Rightarrow> string \<Rightarrow> string envelope + string \<times> string" where
  "resolve_store_relation_endpoints d source_id target_id =
     (let (src, source_error) = resolve_relation_endpoint d source_id ''source_id'';
          (tgt, target_error) = resolve_relation_endpoint d target_id ''target_id''
      in if \<not> truthy src \<or> \<not> truthy tgt then Inl (endpoint_rejection source_error target_error)
         else if src = tgt then Inl (Rejected [error VALIDATION_ERROR None])
         else Inr (the src, the tgt))"

text \<open>The write-time gate on the closed vocabulary.\<close>

definition store_relation_predicate_error :: "string \<Rightarrow> string envelope option" where
  "store_relation_predicate_error predicate =
     (case pd_status (classify_predicate (Some predicate)) of
        Reserved \<Rightarrow> Some (Rejected [error ''RESERVED_PREDICATE'' (Some ''predicate'')])
      | Legacy_Readonly \<Rightarrow> Some (Rejected [error ''LEGACY_READONLY_PREDICATE'' (Some ''predicate'')])
      | Alias \<Rightarrow> Some (Rejected [error ''NONCANONICAL_PREDICATE'' (Some ''predicate'')])
      | Unknown \<Rightarrow> Some (Rejected [error ''UNKNOWN_PREDICATE'' (Some ''predicate'')])
      | Selectable \<Rightarrow> None)"

section \<open>The relation gate\<close>

record gate_measurement =
  gm_similarity :: rat
  gm_offending :: "(string \<times> string) option"
  gm_unresolved :: "(string \<times> string) list"
  gm_contradictions :: "string list"

record relation_write_request =
  rq_source :: string
  rq_target :: string
  rq_predicate :: string
  rq_valid_at :: "string option"
  rq_override_justification :: "string option"
  rq_agent_id :: "string option"
  rq_relation_id :: string
  rq_event_id :: string
  rq_now :: string
  rq_allow_core_elaborates_on :: bool

definition live :: "relation \<Rightarrow> bool" where
  "live r \<longleftrightarrow> r_valid_to r = None"

definition edge_is :: "string \<Rightarrow> string \<Rightarrow> string \<Rightarrow> relation \<Rightarrow> bool" where
  "edge_is s t p r \<longleftrightarrow> r_source r = s \<and> r_target r = t \<and> r_predicate r = p"

text \<open>Only one predicate can contradict a given one, so the order of the result does not matter.\<close>

definition gate_contradictions :: "db \<Rightarrow> relation_write_request \<Rightarrow> string \<Rightarrow> string list" where
  "gate_contradictions d rq canonical =
     (let existing_raw = map r_predicate
            (filter (\<lambda>r. r_source r = rq_source rq \<and> r_target r = rq_target rq \<and> live r) (relations d));
          existing = map (\<lambda>ep. py_or (resolve_or_create_predicate d (Some ep)) ep) existing_raw
      in filter (\<lambda>ep. contradictory_predicate_pair ep canonical) (remdups existing))"

definition relation_gate_measurements ::
  "env \<Rightarrow> relation_write_request \<Rightarrow> string \<Rightarrow> db \<Rightarrow> gate_measurement" where
  "relation_gate_measurements \<Gamma> rq canonical d =
     (let contradictions = gate_contradictions d rq canonical in
      if canonical \<in> set relation_gate_strong_predicates then
        case get_fresh_entity_centroids \<Gamma> d [rq_source rq, rq_target rq] of
          (centroids, unresolved) \<Rightarrow>
            (case unresolved of
               (i, reason) # _ \<Rightarrow>
                 \<lparr>gm_similarity = 0, gm_offending = Some (i, ''<'' @ reason @ ''>''),
                  gm_unresolved = unresolved, gm_contradictions = contradictions\<rparr>
             | [] \<Rightarrow>
                 (case min_pairwise_cohesion \<Gamma> centroids of (sim, offending) \<Rightarrow>
                    \<lparr>gm_similarity = sim, gm_offending = offending, gm_unresolved = [],
                     gm_contradictions = contradictions\<rparr>))
      else \<lparr>gm_similarity = 1, gm_offending = None, gm_unresolved = [],
            gm_contradictions = contradictions\<rparr>)"

definition gate_violations :: "string \<Rightarrow> gate_measurement \<Rightarrow> violation list" where
  "gate_violations canonical m =
     (if canonical \<in> set relation_gate_strong_predicates \<and>
         gm_similarity m < relation_gate_min_similarity_threshold then [Low_Similarity] else []) @
     (if gm_contradictions m \<noteq> [] then [Contradictory_Predicate] else [])"

definition relation_gate_rejection :: "violation list \<Rightarrow> string envelope" where
  "relation_gate_rejection violations =
     Rejected [error (if Low_Similarity \<in> set violations then ''REJECT_LOW_RELATION_SIMILARITY''
                      else ''REJECT_CONTRADICTORY_PREDICATE'') None]"

definition apply_relation_gate ::
  "env \<Rightarrow> relation_write_request \<Rightarrow> string \<Rightarrow> gate_measurement \<Rightarrow> string \<Rightarrow> string envelope option act" where
  "apply_relation_gate \<Gamma> rq canonical m agent_val d =
     (let violations = gate_violations canonical m;
          justification = py_strip (py_or (rq_override_justification rq) [])
      in if violations = [] then (Inr None, d)
         else if length justification < cohesion_override_min_length
         then (Inr (Some (relation_gate_rejection violations)), d)
         else case log_event \<Gamma> (rq_event_id rq) agent_val ''relation_gate_override''
                (Relation_Override \<lparr>oa_source_id = rq_source rq, oa_target_id = rq_target rq,
                   oa_predicate = canonical, oa_violations = violations,
                   oa_similarity = gm_similarity m,
                   oa_contradicting_predicates = gm_contradictions m,
                   oa_justification = justification, oa_relation_id = rq_relation_id rq\<rparr>) d of
           (audit, d') \<Rightarrow> if is_rejected audit then (Inl RuntimeError, d') else (Inr None, d'))"

definition check_core_relation_guard :: "db \<Rightarrow> string \<Rightarrow> string \<Rightarrow> bool \<Rightarrow> string envelope option" where
  "check_core_relation_guard d target canonical allow =
     (if canonical = ''elaborates_on'' \<and> \<not> allow then
        case get_entity d target of
          Some e \<Rightarrow> if e_is_core e \<and> e_status e \<noteq> Archived
                    then Some (Rejected [error ''REJECT_CORE_ELABORATES_ON'' (Some ''predicate'')])
                    else None
        | None \<Rightarrow> None
      else None)"

section \<open>Storing a relation\<close>

text \<open>\<open>UPDATE relations SET invalid_at = t, valid_to = t WHERE id = i\<close>.\<close>

definition invalidate_row :: "string \<Rightarrow> string \<Rightarrow> relation list \<Rightarrow> relation list" where
  "invalidate_row i t = update_where (\<lambda>r. r_id r = i) (\<lambda>r. r\<lparr>r_invalid_at := Some t, r_valid_to := Some t\<rparr>)"

definition live_edge :: "db \<Rightarrow> string \<Rightarrow> string \<Rightarrow> string \<Rightarrow> relation option" where
  "live_edge d s t p = find_row (\<lambda>r. edge_is s t p r \<and> live r) (relations d)"

definition new_relation :: "relation_write_request \<Rightarrow> string \<Rightarrow> relation" where
  "new_relation rq canonical =
     \<lparr>r_id = rq_relation_id rq, r_source = rq_source rq, r_target = rq_target rq,
      r_predicate = canonical, r_created_at = rq_now rq, r_valid_from = Some (rq_now rq),
      r_valid_to = None, r_valid_at = Some (py_or (rq_valid_at rq) (rq_now rq)),
      r_invalid_at = None\<rparr>"

definition insert_relation_write ::
  "relation_write_request \<Rightarrow> string \<Rightarrow> string option \<Rightarrow> string envelope act" where
  "insert_relation_write rq canonical repoint d =
     (let d1 = (case repoint of None \<Rightarrow> d
                | Some stale \<Rightarrow> d\<lparr>relations := invalidate_row stale (rq_now rq) (relations d)\<rparr>)
      in case live_edge d1 (rq_source rq) (rq_target rq) canonical of
           Some r \<Rightarrow> (Inr (Ok (r_id r) [ALREADY_DONE]), d1)
         | None \<Rightarrow>
             if rq_relation_id rq \<in> r_id ` set (relations d1) then (Inl IntegrityError, d1)
             else (Inr (Ok (rq_relation_id rq) []),
                   d1\<lparr>relations := relations d1 @ [new_relation rq canonical]\<rparr>))"

definition repoint_stale_edge :: "db \<Rightarrow> relation_write_request \<Rightarrow> string \<Rightarrow> string option" where
  "repoint_stale_edge d rq canonical =
     (if canonical \<in> set relation_gate_strong_predicates
      then map_option r_id (find_row (\<lambda>r. r_source r = rq_source rq \<and> r_predicate r = canonical \<and>
             r_target r \<noteq> rq_target rq \<and> live r) (relations d))
      else None)"

definition store_relation_write :: "env \<Rightarrow> relation_write_request \<Rightarrow> string envelope act" where
  "store_relation_write \<Gamma> rq d =
     (let canonical = py_or (resolve_or_create_predicate d (Some (rq_predicate rq))) (rq_predicate rq);
          agent_val = py_or (rq_agent_id rq) ''system''
      in case live_edge d (rq_source rq) (rq_target rq) canonical of
           Some r \<Rightarrow> (Inr (Ok (r_id r) [ALREADY_DONE]), d)
         | None \<Rightarrow>
             let repoint = repoint_stale_edge d rq canonical in
             case check_core_relation_guard d (rq_target rq) canonical (rq_allow_core_elaborates_on rq) of
               Some rej \<Rightarrow> (Inr rej, d)
             | None \<Rightarrow>
                 (case apply_relation_gate \<Gamma> rq canonical (relation_gate_measurements \<Gamma> rq canonical d)
                         agent_val d of
                    (Inl e, d1) \<Rightarrow> (Inl e, d1)
                  | (Inr (Some rej), d1) \<Rightarrow> (Inr rej, d1)
                  | (Inr None, d1) \<Rightarrow> insert_relation_write rq canonical repoint d1))"

record store_args =
  sa_source :: "string option"
  sa_target :: "string option"
  sa_predicate :: "string option"
  sa_valid_at :: "string option"
  sa_override :: "string option"
  sa_agent_id :: "string option"
  sa_relation_id :: string
  sa_event_id :: string
  sa_in_transaction :: bool
  sa_allow_core_elaborates_on :: bool

definition trigger_community_detection :: "db \<Rightarrow> db" where
  "trigger_community_detection d = d\<lparr>community_triggers := Suc (community_triggers d)\<rparr>"

definition store_request :: "env \<Rightarrow> store_args \<Rightarrow> string \<Rightarrow> string \<Rightarrow> relation_write_request" where
  "store_request \<Gamma> a src tgt =
     \<lparr>rq_source = src, rq_target = tgt, rq_predicate = the (sa_predicate a),
      rq_valid_at = sa_valid_at a, rq_override_justification = sa_override a,
      rq_agent_id = sa_agent_id a, rq_relation_id = sa_relation_id a,
      rq_event_id = sa_event_id a, rq_now = now_iso \<Gamma>,
      rq_allow_core_elaborates_on = sa_allow_core_elaborates_on a\<rparr>"

definition store_relation :: "env \<Rightarrow> (nat \<Rightarrow> bool) \<Rightarrow> store_args \<Rightarrow> db \<Rightarrow> string envelope \<times> db" where
  "store_relation \<Gamma> locks a d =
     (if \<not> truthy (sa_source a) \<or> \<not> truthy (sa_target a) \<or> \<not> truthy (sa_predicate a)
      then (Rejected [error VALIDATION_ERROR None], d)
      else case resolve_store_relation_endpoints d (the (sa_source a)) (the (sa_target a)) of
        Inl rej \<Rightarrow> (rej, d)
      | Inr (src, tgt) \<Rightarrow>
          (case store_relation_predicate_error (the (sa_predicate a)) of
             Some rej \<Rightarrow> (rej, d)
           | None \<Rightarrow>
               let rq = store_request \<Gamma> a src tgt
               in case (if sa_in_transaction a then store_relation_write \<Gamma> rq d
                        else write_transaction_retrying locks (store_relation_write \<Gamma> rq) d) of
                    (Inl e, d') \<Rightarrow> (Rejected [error INTERNAL_ERROR None], d')
                  | (Inr res, d') \<Rightarrow>
                      (res, if sa_in_transaction a then d' else trigger_community_detection d')))"

section \<open>Invalidating a relation\<close>

definition invalidate_relation_write ::
  "string \<Rightarrow> string \<Rightarrow> string \<Rightarrow> string option \<Rightarrow> string \<Rightarrow> string envelope act" where
  "invalidate_relation_write src tgt predicate invalid_at now_s d =
     (let canonical = py_or (resolve_or_create_predicate d (Some predicate)) predicate;
          existing = (case live_edge d src tgt canonical of
              Some r \<Rightarrow> Some r
            | None \<Rightarrow> find_row (\<lambda>r. edge_is src tgt canonical r \<and> r_invalid_at r \<noteq> None)
                        (rev (relations d)))
      in case existing of
           None \<Rightarrow> (Inr (Rejected [error NOT_FOUND None]), d)
         | Some r \<Rightarrow>
             if r_invalid_at r \<noteq> None then (Inr (Ok (r_id r) [ALREADY_DONE]), d)
             else (Inr (Ok (r_id r) []),
                   d\<lparr>relations := invalidate_row (r_id r) (py_or invalid_at now_s) (relations d)\<rparr>))"

record invalidate_args =
  ia_source :: "string option"
  ia_target :: "string option"
  ia_predicate :: "string option"
  ia_invalid_at :: "string option"
  ia_in_transaction :: bool

definition invalidate_relation ::
  "env \<Rightarrow> (nat \<Rightarrow> bool) \<Rightarrow> invalidate_args \<Rightarrow> db \<Rightarrow> string envelope \<times> db" where
  "invalidate_relation \<Gamma> locks a d =
     (if \<not> truthy (ia_source a) \<or> \<not> truthy (ia_target a) \<or> \<not> truthy (ia_predicate a)
      then (Rejected [error VALIDATION_ERROR None], d)
      else let (src, source_error) = resolve_relation_endpoint d (the (ia_source a)) ''source_id'';
               (tgt, target_error) = resolve_relation_endpoint d (the (ia_target a)) ''target_id'';
               body = invalidate_relation_write (the src) (the tgt) (the (ia_predicate a))
                        (ia_invalid_at a) (now_iso \<Gamma>)
           in if \<not> truthy src \<or> \<not> truthy tgt then (endpoint_rejection source_error target_error, d)
              else case (if ia_in_transaction a then body d
                         else write_transaction_retrying locks body d) of
                (Inl e, d') \<Rightarrow> (Rejected [error INTERNAL_ERROR None], d')
              | (Inr res, d') \<Rightarrow>
                  (res, if ia_in_transaction a then d' else trigger_community_detection d'))"

section \<open>The atomic batch\<close>

record relation_item =
  ri_invalidate :: bool
  ri_source :: "string option"
  ri_target :: "string option"
  ri_predicate :: "string option"
  ri_valid_at :: "string option"
  ri_invalid_at :: "string option"
  ri_override :: "string option"

datatype submitted_item = Not_Object | Item relation_item

datatype outcome_kind = Created | Duplicate | Invalidated

record relation_outcome =
  ro_kind :: outcome_kind
  ro_item :: relation_item
  ro_relation_id :: string

text \<open>An internal error becomes an exception, every other rejection is collected.\<close>

definition relation_rejection :: "err list \<Rightarrow> exn + err list" where
  "relation_rejection es =
     (let es' = (if es = [] then [error INTERNAL_ERROR None] else es) in
      if INTERNAL_ERROR \<in> err_code ` set es' then Inl RuntimeError else Inr es')"

definition relations_field :: "nat \<Rightarrow> string" where
  "relations_field i = ''relations['' @ show_nat i @ '']''"

definition prefix_relation_errors :: "err list \<Rightarrow> nat \<Rightarrow> err list" where
  "prefix_relation_errors es i =
     map (\<lambda>e. e\<lparr>err_field := Some (if truthy (err_field e)
                 then relations_field i @ ''.'' @ the (err_field e) else relations_field i)\<rparr>) es"

definition apply_relation_item ::
  "env \<Rightarrow> string option \<Rightarrow> string \<times> string \<Rightarrow> relation_item \<Rightarrow> (relation_outcome + err list) act" where
  "apply_relation_item \<Gamma> agent ids it d =
     (let (res, d') =
        (if ri_invalidate it then
           invalidate_relation \<Gamma> (\<lambda>_. False)
             \<lparr>ia_source = ri_source it, ia_target = ri_target it, ia_predicate = ri_predicate it,
              ia_invalid_at = ri_invalid_at it, ia_in_transaction = True\<rparr> d
         else
           store_relation \<Gamma> (\<lambda>_. False)
             \<lparr>sa_source = ri_source it, sa_target = ri_target it, sa_predicate = ri_predicate it,
              sa_valid_at = ri_valid_at it, sa_override = ri_override it, sa_agent_id = agent,
              sa_relation_id = fst ids, sa_event_id = snd ids, sa_in_transaction = True,
              sa_allow_core_elaborates_on = False\<rparr> d)
      in case res of
           Rejected es \<Rightarrow>
             (case relation_rejection es of Inl e \<Rightarrow> (Inl e, d') | Inr es' \<Rightarrow> (Inr (Inr es'), d'))
         | Ok rid warnings \<Rightarrow>
             (Inr (Inl \<lparr>ro_kind = (if ALREADY_DONE \<in> set warnings then Duplicate
                                  else if ri_invalidate it then Invalidated else Created),
                        ro_item = it, ro_relation_id = rid\<rparr>), d'))"

text \<open>The loop over the batch: outcomes and errors are collected in order.\<close>

fun apply_relation_items ::
  "env \<Rightarrow> string option \<Rightarrow> (nat \<Rightarrow> string \<times> string) \<Rightarrow> nat \<Rightarrow> submitted_item list \<Rightarrow>
   (relation_outcome list \<times> err list) act" where
  "apply_relation_items \<Gamma> agent gen i [] d = (Inr ([], []), d)"
| "apply_relation_items \<Gamma> agent gen i (Not_Object # its) d =
     (case apply_relation_items \<Gamma> agent gen (Suc i) its d of
        (Inl e, d') \<Rightarrow> (Inl e, d')
      | (Inr (os, es), d') \<Rightarrow>
          (Inr (os, error VALIDATION_ERROR (Some (relations_field i)) # es), d'))"
| "apply_relation_items \<Gamma> agent gen i (Item it # its) d =
     (case apply_relation_item \<Gamma> agent (gen i) it d of
        (Inl e, d1) \<Rightarrow> (Inl e, d1)
      | (Inr r, d1) \<Rightarrow>
          (case apply_relation_items \<Gamma> agent gen (Suc i) its d1 of
             (Inl e, d') \<Rightarrow> (Inl e, d')
           | (Inr (os, es), d') \<Rightarrow>
               (case r of
                  Inl out \<Rightarrow> (Inr (out # os, es), d')
                | Inr ers \<Rightarrow> (Inr (os, prefix_relation_errors ers i @ es), d'))))"

record batch_data =
  bd_items :: "relation_outcome list"
  bd_created_count :: nat
  bd_duplicate_count :: nat
  bd_invalidated_count :: nat

definition count_kind :: "outcome_kind \<Rightarrow> relation_outcome list \<Rightarrow> nat" where
  "count_kind k os = length (filter (\<lambda>out. ro_kind out = k) os)"

text \<open>
  Any collected error rolls the savepoint back: the store is the one the batch started from.
\<close>

definition apply_relations_transaction ::
  "env \<Rightarrow> submitted_item list \<Rightarrow> string option \<Rightarrow> (nat \<Rightarrow> string \<times> string) \<Rightarrow> batch_data envelope act" where
  "apply_relations_transaction \<Gamma> items agent gen d =
     (case apply_relation_items \<Gamma> agent gen 0 items d of
        (Inl e, d') \<Rightarrow> (Inl e, d')
      | (Inr (os, es), d') \<Rightarrow>
          if es \<noteq> [] then (Inr (Rejected es), d)
          else (Inr (Ok \<lparr>bd_items = os, bd_created_count = count_kind Created os,
                        bd_duplicate_count = count_kind Duplicate os,
                        bd_invalidated_count = count_kind Invalidated os\<rparr> []), d'))"

text \<open>
  \<open>coord\<close> says whether the connection is the write coordinator's: then the surrounding
  coordinator transaction is reused and exceptions propagate to it.
\<close>

definition apply_relations ::
  "env \<Rightarrow> bool \<Rightarrow> (nat \<Rightarrow> bool) \<Rightarrow> submitted_item list \<Rightarrow> string option \<Rightarrow>
   (nat \<Rightarrow> string \<times> string) \<Rightarrow> batch_data envelope act" where
  "apply_relations \<Gamma> coord locks items agent gen d =
     (if items = [] then (Inr (Rejected [error VALIDATION_ERROR (Some ''relations'')]), d)
      else case (if coord then apply_relations_transaction \<Gamma> items agent gen d
                 else write_transaction_retrying locks (apply_relations_transaction \<Gamma> items agent gen) d) of
        (Inl e, d') \<Rightarrow>
          if coord then (Inl e, d') else (Inr (Rejected [error INTERNAL_ERROR None]), d')
      | (Inr res, d') \<Rightarrow>
          (case res of
             Ok data _ \<Rightarrow>
               (Inr res, if bd_created_count data > 0 \<or> bd_invalidated_count data > 0
                         then trigger_community_detection d' else d')
           | Rejected _ \<Rightarrow> (Inr res, d')))"

section \<open>Closing a row\<close>

text \<open>The only change a stored edge ever undergoes: a live one is closed, once.\<close>

definition closes :: "relation \<Rightarrow> relation \<Rightarrow> bool" where
  "closes r r' \<longleftrightarrow> r' = r \<or> (live r \<and> (\<exists>t. r' = r\<lparr>r_invalid_at := Some t, r_valid_to := Some t\<rparr>))"

definition uniq_live :: "relation list \<Rightarrow> bool" where
  "uniq_live rs \<longleftrightarrow> (\<forall>r \<in> set rs. \<forall>r' \<in> set rs. live r \<longrightarrow> live r' \<longrightarrow>
     edge_is (r_source r) (r_target r) (r_predicate r) r' \<longrightarrow> r' = r)"

definition single_target :: "string \<Rightarrow> relation list \<Rightarrow> bool" where
  "single_target p rs \<longleftrightarrow> (\<forall>r \<in> set rs. \<forall>r' \<in> set rs. live r \<longrightarrow> live r' \<longrightarrow>
     r_predicate r = p \<longrightarrow> r_predicate r' = p \<longrightarrow> r_source r = r_source r' \<longrightarrow> r' = r)"

definition rel_inv :: "db \<Rightarrow> bool" where
  "rel_inv d \<longleftrightarrow> distinct (map r_id (relations d)) \<and> uniq_live (relations d)"

text \<open>What every newly inserted row satisfies; \<open>allow\<close> lifts the guard on core targets.\<close>

definition admissible :: "bool \<Rightarrow> db \<Rightarrow> relation \<Rightarrow> bool" where
  "admissible allow d r \<longleftrightarrow> r_source r \<noteq> r_target r \<and>
     get_entity d (r_source r) \<noteq> None \<and> get_entity d (r_target r) \<noteq> None \<and>
     r_predicate r \<in> set agent_selectable_predicates \<and>
     (r_predicate r = ''elaborates_on'' \<longrightarrow> \<not> allow \<longrightarrow>
        (\<forall>e. get_entity d (r_target r) = Some e \<longrightarrow> \<not> (e_is_core e \<and> e_status e \<noteq> Archived)))"

definition rel_hist :: "bool \<Rightarrow> db \<Rightarrow> db \<Rightarrow> bool" where
  "rel_hist allow d d' \<longleftrightarrow> entities d' = entities d \<and> prefix (events d) (events d') \<and>
     (\<exists>old fresh. relations d' = old @ fresh \<and> list_all2 closes (relations d) old \<and>
        list_all (admissible allow d) fresh) \<and>
     (\<forall>p \<in> set relation_gate_strong_predicates.
        single_target p (relations d) \<longrightarrow> single_target p (relations d'))"

lemma closes_refl [simp]: "closes r r"
  by (simp add: closes_def)

lemma closes_trans: "closes r s \<Longrightarrow> closes s t \<Longrightarrow> closes r t"
  by (auto simp: closes_def live_def)

lemma closes_fields:
  "closes r r' \<Longrightarrow> r_id r' = r_id r \<and> r_source r' = r_source r \<and> r_target r' = r_target r \<and>
    r_predicate r' = r_predicate r \<and> r_created_at r' = r_created_at r \<and>
    r_valid_from r' = r_valid_from r \<and> r_valid_at r' = r_valid_at r \<and> (live r' \<longrightarrow> r' = r)"
  by (auto simp: closes_def live_def)

lemma admissible_closes: "closes r r' \<Longrightarrow> admissible allow d r \<Longrightarrow> admissible allow d r'"
  by (auto simp: admissible_def dest: closes_fields)

lemma admissible_entities: "entities d' = entities d \<Longrightarrow> admissible allow d' = admissible allow d"
  by (rule ext) (simp add: admissible_def get_entity_def)

lemma live_invalidate_row:
  "r \<in> set (invalidate_row i t rs) \<and> live r \<longleftrightarrow> r \<in> set rs \<and> live r \<and> r_id r \<noteq> i"
  by (auto simp: invalidate_row_def set_update_where live_def)

lemma ids_invalidate_row [simp]: "map r_id (invalidate_row i t rs) = map r_id rs"
  by (simp add: invalidate_row_def map_update_where)

lemma invalidate_row_closes:
  assumes "distinct (map r_id rs)" "r \<in> set rs" "live r"
  shows "list_all2 closes rs (invalidate_row (r_id r) t rs)"
proof -
  have "closes x (if r_id x = r_id r then x\<lparr>r_invalid_at := Some t, r_valid_to := Some t\<rparr> else x)"
    if "x \<in> set rs" for x
  proof (cases "r_id x = r_id r")
    case True
    then have "x = r" using assms that by (meson distinct_map inj_onD)
    then show ?thesis using assms(3) by (auto simp: closes_def)
  qed simp
  then show ?thesis
    by (simp add: invalidate_row_def update_where_def list.rel_map(2) list.rel_refl_strong)
qed

lemma live_edge_Some:
  "live_edge d s t p = Some r \<Longrightarrow> r \<in> set (relations d) \<and> edge_is s t p r \<and> live r"
  unfolding live_edge_def by (drule find_row_Some) simp

lemma live_edge_None: "live_edge d s t p = None \<longleftrightarrow> (\<forall>r \<in> set (relations d). \<not> (edge_is s t p r \<and> live r))"
  by (auto simp: live_edge_def find_row_None)

lemma live_edge_unique:
  assumes "uniq_live (relations d)" "r \<in> set (relations d)" "edge_is s t p r" "live r"
  shows "live_edge d s t p = Some r"
  unfolding live_edge_def
proof (rule find_row_unique)
  fix x assume x: "x \<in> set (relations d)" "edge_is s t p x \<and> live x"
  then have "edge_is (r_source r) (r_target r) (r_predicate r) x"
    using assms(3) by (simp add: edge_is_def)
  then show "x = r" using assms(1,2,4) x unfolding uniq_live_def by metis
qed (use assms in simp_all)

text \<open>Every sublist of the live rows keeps the two uniqueness facts.\<close>

lemma uniq_live_sub:
  assumes "uniq_live rs" "\<And>r. r \<in> set rs' \<Longrightarrow> live r \<Longrightarrow> r \<in> set rs"
  shows "uniq_live rs'"
  using assms unfolding uniq_live_def by blast

lemma single_target_sub:
  assumes "single_target p rs" "\<And>r. r \<in> set rs' \<Longrightarrow> live r \<Longrightarrow> r \<in> set rs"
  shows "single_target p rs'"
  using assms unfolding single_target_def by blast

lemma rel_histI:
  assumes "entities d' = entities d" "prefix (events d) (events d')"
    "relations d' = old @ fresh" "list_all2 closes (relations d) old"
    "\<And>r. r \<in> set fresh \<Longrightarrow> admissible allow d r"
    "\<And>p. p \<in> set relation_gate_strong_predicates \<Longrightarrow> single_target p (relations d) \<Longrightarrow>
       single_target p (relations d')"
  shows "rel_hist allow d d'"
proof -
  have "list_all (admissible allow d) fresh" using assms(5) by (simp add: list_all_iff)
  then show ?thesis unfolding rel_hist_def using assms(1-4,6) by blast
qed

lemma rel_hist_refl: "rel_hist allow d d"
  by (rule rel_histI[of _ _ "relations d" "[]"]) (simp_all add: list.rel_refl)

lemma rel_hist_trans:
  assumes a: "rel_hist allow d d'" and b: "rel_hist allow d' d''"
  shows "rel_hist allow d d''"
proof -
  obtain old fresh where o: "relations d' = old @ fresh" "list_all2 closes (relations d) old"
    "list_all (admissible allow d) fresh" using a unfolding rel_hist_def by blast
  obtain old' fresh' where o': "relations d'' = old' @ fresh'" "list_all2 closes (old @ fresh) old'"
    "list_all (admissible allow d') fresh'" using b o(1) unfolding rel_hist_def by metis
  obtain u v where uv: "old' = u @ v" "list_all2 closes old u" "list_all2 closes fresh v"
    using o'(2) by (auto simp: list_all2_append1)
  have e: "entities d' = entities d" using a by (simp add: rel_hist_def)
  have "list_all2 closes (relations d) u"
    using o(2) uv(2) by (rule list_all2_trans[of closes closes closes, rotated]) (rule closes_trans)
  moreover have "list_all (admissible allow d) v"
    using uv(3) o(3) admissible_closes by (auto simp: list_all2_conv_all_nth list_all_length)
  moreover have "list_all (admissible allow d) fresh'"
    using o'(3) admissible_entities[OF e] by simp
  ultimately have "relations d'' = u @ (v @ fresh')" "list_all2 closes (relations d) u"
    "list_all (admissible allow d) (v @ fresh')"
    using o'(1) uv(1) by auto
  then show ?thesis
    using a b unfolding rel_hist_def by (metis prefix_order.trans)
qed

interpretation rel: evolution rel_inv "rel_hist allow" for allow
  by unfold_locales (rule rel_hist_refl, rule rel_hist_trans)

section \<open>Branches of the operations\<close>

abbreviation justification_of :: "relation_write_request \<Rightarrow> string" where
  "justification_of rq \<equiv> py_strip (py_or (rq_override_justification rq) [])"

abbreviation canonical_of :: "db \<Rightarrow> string \<Rightarrow> string" where
  "canonical_of d p \<equiv> py_or (resolve_or_create_predicate d (Some p)) p"

text \<open>The audit row of an overridden gate, and the rows after a stale edge was re-pointed.\<close>

definition override_event ::
  "env \<Rightarrow> relation_write_request \<Rightarrow> string \<Rightarrow> gate_measurement \<Rightarrow> event" where
  "override_event \<Gamma> rq c m =
     \<lparr>ev_id = rq_event_id rq, ev_timestamp = now_iso \<Gamma>, ev_agent_id = py_or (rq_agent_id rq) ''system'',
      ev_type = ''relation_gate_override'',
      ev_content = Relation_Override
        \<lparr>oa_source_id = rq_source rq, oa_target_id = rq_target rq, oa_predicate = c,
         oa_violations = gate_violations c m, oa_similarity = gm_similarity m,
         oa_contradicting_predicates = gm_contradictions m,
         oa_justification = justification_of rq, oa_relation_id = rq_relation_id rq\<rparr>\<rparr>"

definition repointed :: "db \<Rightarrow> relation_write_request \<Rightarrow> string \<Rightarrow> relation list" where
  "repointed d rq c =
     (case repoint_stale_edge d rq c of None \<Rightarrow> relations d
      | Some i \<Rightarrow> invalidate_row i (rq_now rq) (relations d))"

lemma apply_relation_gate_spec:
  assumes "apply_relation_gate \<Gamma> rq c m (py_or (rq_agent_id rq) ''system'') d = (r, d')"
  shows "(r = Inr None \<and> gate_violations c m = [] \<and> d' = d) \<or>
    (r = Inr (Some (relation_gate_rejection (gate_violations c m))) \<and> gate_violations c m \<noteq> [] \<and>
       length (justification_of rq) < 20 \<and> d' = d) \<or>
    (r = Inl RuntimeError \<and> d' = d) \<or>
    (r = Inr None \<and> gate_violations c m \<noteq> [] \<and> 20 \<le> length (justification_of rq) \<and>
       d' = d\<lparr>events := events d @ [override_event \<Gamma> rq c m]\<rparr>)"
proof (cases "gate_violations c m = []")
  case True
  then show ?thesis using assms by (simp add: apply_relation_gate_def)
next
  case False
  show ?thesis
  proof (cases "length (justification_of rq) < 20")
    case True
    then show ?thesis
      using assms False by (simp add: apply_relation_gate_def cohesion_override_min_length_def)
  next
    case long: False
    show ?thesis
      using assms False long
      by (cases "rq_event_id rq \<in> ev_id ` set (events d)")
        (simp_all add: apply_relation_gate_def cohesion_override_min_length_def log_event_def
          is_rejected_def override_event_def)
  qed
qed

lemma store_relation_write_cases:
  assumes "store_relation_write \<Gamma> rq d = (r, d')"
  defines "c \<equiv> canonical_of d (rq_predicate rq)"
  defines "m \<equiv> relation_gate_measurements \<Gamma> rq c d"
  obtains
    (duplicate) e where "live_edge d (rq_source rq) (rq_target rq) c = Some e"
      "r = Inr (Ok (r_id e) [ALREADY_DONE])" "d' = d"
  | (refused) es where "live_edge d (rq_source rq) (rq_target rq) c = None"
      "r = Inr (Rejected es)" "d' = d"
  | (raised) ev e where "live_edge d (rq_source rq) (rq_target rq) c = None"
      "r = Inl e" "d' = d \<or> d' = d\<lparr>relations := repointed d rq c, events := events d @ ev\<rparr>"
  | (created) ev where "live_edge d (rq_source rq) (rq_target rq) c = None"
      "check_core_relation_guard d (rq_target rq) c (rq_allow_core_elaborates_on rq) = None"
      "r = Inr (Ok (rq_relation_id rq) [])" "rq_relation_id rq \<notin> r_id ` set (relations d)"
      "ev = [] \<and> gate_violations c m = [] \<or>
       ev = [override_event \<Gamma> rq c m] \<and> gate_violations c m \<noteq> [] \<and> 20 \<le> length (justification_of rq)"
      "d' = d\<lparr>relations := repointed d rq c @ [new_relation rq c], events := events d @ ev\<rparr>"
proof (cases "live_edge d (rq_source rq) (rq_target rq) c")
  case (Some e)
  then have "r = Inr (Ok (r_id e) [ALREADY_DONE]) \<and> d' = d"
    using assms(1) by (simp add: store_relation_write_def c_def)
  with Some show thesis by (intro duplicate) simp_all
next
  case none: None
  show thesis
  proof (cases "check_core_relation_guard d (rq_target rq) c (rq_allow_core_elaborates_on rq)")
    case (Some rej)
    from Some obtain es where "rej = Rejected es"
      by (auto simp: check_core_relation_guard_def split: if_splits option.splits)
    with Some have "r = Inr (Rejected es) \<and> d' = d"
      using assms(1) none by (simp add: store_relation_write_def c_def)
    with none show thesis by (intro refused) simp_all
  next
    case guard: None
    obtain g d1 where g: "apply_relation_gate \<Gamma> rq c m (py_or (rq_agent_id rq) ''system'') d = (g, d1)"
      by fastforce
    have w: "(r, d') = (case (g, d1) of (Inl e, d1) \<Rightarrow> (Inl e, d1)
       | (Inr (Some rej), d1) \<Rightarrow> (Inr rej, d1)
       | (Inr None, d1) \<Rightarrow> insert_relation_write rq c (repoint_stale_edge d rq c) d1)"
      using assms(1)[symmetric] none guard g unfolding c_def m_def
      by (simp add: store_relation_write_def Let_def)
    have insert: thesis
      if "g = Inr None" "d1 = d\<lparr>events := events d @ ev\<rparr>"
        "ev = [] \<and> gate_violations c m = [] \<or>
         ev = [override_event \<Gamma> rq c m] \<and> gate_violations c m \<noteq> [] \<and> 20 \<le> length (justification_of rq)"
      for ev
    proof -
      have ins: "(r, d') = insert_relation_write rq c (repoint_stale_edge d rq c) d1" using w that by simp
      define d2 where "d2 = d\<lparr>relations := repointed d rq c, events := events d @ ev\<rparr>"
      have d2: "(case repoint_stale_edge d rq c of None \<Rightarrow> d1
          | Some stale \<Rightarrow> d1\<lparr>relations := invalidate_row stale (rq_now rq) (relations d1)\<rparr>) = d2"
        using that(2) by (simp add: d2_def repointed_def split: option.splits)
      have "live_edge d2 (rq_source rq) (rq_target rq) c = None"
        using none live_invalidate_row
        by (fastforce simp: live_edge_None d2_def repointed_def split: option.splits)
      moreover have "r_id ` set (relations d2) = r_id ` set (relations d)"
        by (simp add: d2_def repointed_def flip: set_map split: option.splits)
      ultimately have "(r, d') = (if rq_relation_id rq \<in> r_id ` set (relations d) then (Inl IntegrityError, d2)
          else (Inr (Ok (rq_relation_id rq) []), d2\<lparr>relations := relations d2 @ [new_relation rq c]\<rparr>))"
        using ins unfolding insert_relation_write_def Let_def d2 by simp
      then show thesis
        using none guard that(3)
        by (cases "rq_relation_id rq \<in> r_id ` set (relations d)")
          (intro raised[of _ ev], simp_all add: d2_def, intro created[of ev], simp_all)
    qed
    show thesis
      using apply_relation_gate_spec[OF g]
    proof (elim disjE conjE)
      assume "g = Inr None" "gate_violations c m = []" "d1 = d"
      then show thesis by (intro insert[of "[]"]) auto
    next
      assume "g = Inr None" "gate_violations c m \<noteq> []" "20 \<le> length (justification_of rq)"
        "d1 = d\<lparr>events := events d @ [override_event \<Gamma> rq c m]\<rparr>"
      then show thesis by (intro insert[of "[override_event \<Gamma> rq c m]"]) auto
    next
      assume "g = Inl RuntimeError" "d1 = d"
      then show thesis using w none by (intro raised) auto
    next
      assume "g = Inr (Some (relation_gate_rejection (gate_violations c m)))" "d1 = d"
      then show thesis using w none by (intro refused) (auto simp: relation_gate_rejection_def)
    qed
  qed
qed

section \<open>Every operation evolves the store\<close>

lemma canonical_selectable:
  assumes "store_relation_predicate_error p = None"
  shows "canonical_of d p = normalize_predicate_name (Some p)"
    and "normalize_predicate_name (Some p) \<in> set agent_selectable_predicates"
proof -
  have sel: "pd_status (classify_predicate (Some p)) = Selectable"
    using assms by (cases "pd_status (classify_predicate (Some p))")
      (simp_all add: store_relation_predicate_error_def)
  then show n: "normalize_predicate_name (Some p) \<in> set agent_selectable_predicates"
    by (simp add: classify_selectable_iff)
  have ne: "normalize_predicate_name (Some p) \<noteq> []"
    using n by (auto simp: agent_selectable_predicates_def)
  have strip: "py_strip (py_strip p) = py_strip p"
    unfolding py_strip_def by (rule strip_by_no_effect[OF strip_by_ends])
  then have norm: "normalize_predicate_name (Some (py_strip p)) = normalize_predicate_name (Some p)"
    by (cases "p = []"; cases "py_strip p = []") (simp_all add: normalize_predicate_name_def)
  have "normalize_predicate_name (Some p) = []" if "py_strip (py_or (Some p) []) = []"
    unfolding normalize_predicate_name_def that by (simp add: py_lower_def strip_by_def)
  then have "p \<noteq> []" using ne by (cases "p = []") (simp_all add: py_strip_def strip_by_def)
  moreover from this have "py_strip p \<noteq> []"
    using ne \<open>py_strip (py_or (Some p) []) = [] \<Longrightarrow> _\<close> by auto
  ultimately have raw: "py_strip p \<noteq> []" "p \<noteq> []" by simp_all
  have "classify_predicate (Some (normalize_predicate_name (Some p))) = classify_predicate (Some p)"
    by (rule classify_normalized)
  then have "resolve_or_create_predicate d (Some p) = Some (normalize_predicate_name (Some p))"
    using raw ne norm classify_selectable_canonical[OF sel]
    by (simp add: resolve_or_create_predicate_def Let_def)
  then show "canonical_of d p = normalize_predicate_name (Some p)" using ne by simp
qed

lemma new_relation_fields [simp]:
  "r_id (new_relation rq c) = rq_relation_id rq" "r_source (new_relation rq c) = rq_source rq"
  "r_target (new_relation rq c) = rq_target rq" "r_predicate (new_relation rq c) = c"
  "live (new_relation rq c)"
  by (simp_all add: new_relation_def live_def)

lemma repoint_stale_edge_Some:
  assumes "repoint_stale_edge d rq c = Some i"
  obtains r where "r \<in> set (relations d)" "live r" "r_id r = i" "r_source r = rq_source rq"
    "r_predicate r = c" "c \<in> set relation_gate_strong_predicates"
proof -
  have c: "c \<in> set relation_gate_strong_predicates"
    using assms by (auto simp: repoint_stale_edge_def split: if_splits)
  then obtain r where "find_row (\<lambda>r. r_source r = rq_source rq \<and> r_predicate r = c \<and>
      r_target r \<noteq> rq_target rq \<and> live r) (relations d) = Some r" "r_id r = i"
    using assms by (auto simp: repoint_stale_edge_def)
  from find_row_Some[OF this(1)] this(2) c show thesis by (intro that[of r]) simp_all
qed

lemma repointed_ids [simp]: "map r_id (repointed d rq c) = map r_id (relations d)"
  by (simp add: repointed_def split: option.splits)

lemma repointed_live: "r \<in> set (repointed d rq c) \<Longrightarrow> live r \<Longrightarrow> r \<in> set (relations d)"
  using live_invalidate_row by (auto simp: repointed_def split: option.splits)

lemma repointed_closes:
  assumes "distinct (map r_id (relations d))"
  shows "list_all2 closes (relations d) (repointed d rq c)"
proof (cases "repoint_stale_edge d rq c")
  case (Some i)
  then obtain r where "r \<in> set (relations d)" "live r" "r_id r = i"
    by (rule repoint_stale_edge_Some)
  then show ?thesis using Some invalidate_row_closes[OF assms] by (auto simp: repointed_def)
qed (simp add: repointed_def list.rel_refl)

text \<open>After re-pointing, no other live edge of the same strong predicate leaves the source.\<close>

lemma repointed_single:
  assumes "single_target c (relations d)" "c \<in> set relation_gate_strong_predicates"
    "live_edge d (rq_source rq) (rq_target rq) c = None"
    "r \<in> set (repointed d rq c)" "live r" "r_source r = rq_source rq" "r_predicate r = c"
  shows False
proof (cases "repoint_stale_edge d rq c")
  case None
  then have "r \<in> set (relations d)" using assms(4) by (simp add: repointed_def)
  moreover have "r_target r \<noteq> rq_target rq"
    using assms(3,5,6,7) calculation by (auto simp: live_edge_None edge_is_def)
  ultimately show False
    using None assms(2,5,6,7) by (auto simp: repoint_stale_edge_def find_row_None)
next
  case (Some i)
  then obtain q where q: "q \<in> set (relations d)" "live q" "r_id q = i" "r_source q = rq_source rq"
    "r_predicate q = c" by (rule repoint_stale_edge_Some)
  have r: "r \<in> set (relations d)" "r_id r \<noteq> i"
    using assms(4,5) Some live_invalidate_row by (auto simp: repointed_def)
  then have "r = q" using assms(1,5,6,7) q unfolding single_target_def by metis
  then show False using r q by simp
qed

lemma single_target_snoc:
  assumes "single_target p rs"
    "r_predicate n = p \<Longrightarrow> \<forall>r \<in> set rs. \<not> (live r \<and> r_source r = r_source n \<and> r_predicate r = p)"
  shows "single_target p (rs @ [n])"
  using assms unfolding single_target_def by (auto; metis)

lemma uniq_live_snoc:
  assumes "uniq_live rs"
    "\<forall>r \<in> set rs. \<not> (live r \<and> edge_is (r_source n) (r_target n) (r_predicate n) r)"
  shows "uniq_live (rs @ [n])"
  using assms unfolding uniq_live_def edge_is_def by (auto; metis)

lemma store_write_evolves:
  assumes w: "store_relation_write \<Gamma> rq d = (r, d')"
    and c: "store_relation_predicate_error (rq_predicate rq) = None"
    and ends: "rq_source rq \<noteq> rq_target rq" "get_entity d (rq_source rq) \<noteq> None"
      "get_entity d (rq_target rq) \<noteq> None"
    and allow: "rq_allow_core_elaborates_on rq \<longrightarrow> allow"
  shows "rel.evolves allow d d'"
  unfolding rel.evolves_def
proof (rule impI)
  assume inv: "rel_inv d"
  let ?c = "canonical_of d (rq_predicate rq)"
  let ?n = "new_relation rq ?c"
  have ids: "distinct (map r_id (relations d))" and uniq: "uniq_live (relations d)"
    using inv by (simp_all add: rel_inv_def)
  have uniq_r: "uniq_live (repointed d rq ?c)"
    using uniq repointed_live by (rule uniq_live_sub)
  have single_r: "single_target p (repointed d rq ?c)" if "single_target p (relations d)" for p
    using that repointed_live by (rule single_target_sub)
  have sel: "?c \<in> set agent_selectable_predicates" using canonical_selectable[OF c] by simp
  show "rel_inv d' \<and> rel_hist allow d d'"
    using w
  proof (cases rule: store_relation_write_cases)
    case (raised ev e)
    have "rel_inv x \<and> rel_hist allow d x"
      if "x = d\<lparr>relations := repointed d rq ?c, events := events d @ ev\<rparr>" for x
      using that ids uniq_r single_r repointed_closes[OF ids, of rq ?c]
      by (intro conjI rel_histI[of _ _ "repointed d rq ?c" "[]"]) (simp_all add: rel_inv_def)
    then show ?thesis using raised(3) inv rel_hist_refl by blast
  next
    case (created ev)
    have none: "\<forall>r \<in> set (repointed d rq ?c). \<not> (live r \<and> edge_is (rq_source rq) (rq_target rq) ?c r)"
      using created(1) repointed_live by (auto simp: live_edge_None)
    have "uniq_live (repointed d rq ?c @ [?n])"
      using uniq_r none by (intro uniq_live_snoc) simp_all
    moreover have "distinct (map r_id (repointed d rq ?c @ [?n]))"
      using ids created(4) by (auto simp flip: set_map)
    moreover have "single_target p (repointed d rq ?c @ [?n])"
      if "p \<in> set relation_gate_strong_predicates" "single_target p (relations d)" for p
    proof (rule single_target_snoc[OF single_r[OF that(2)]])
      assume "r_predicate ?n = p"
      then have p: "p = ?c" by (simp only: new_relation_fields)
      show "\<forall>r \<in> set (repointed d rq ?c). \<not> (live r \<and> r_source r = r_source ?n \<and> r_predicate r = p)"
        using repointed_single[OF _ _ created(1)] that unfolding p new_relation_fields by blast
    qed
    moreover have "admissible allow d ?n"
      using ends sel created(2) allow
      by (auto simp: admissible_def check_core_relation_guard_def split: if_splits)
    ultimately show ?thesis
      using created(6) repointed_closes[OF ids, of rq ?c]
      by (intro conjI rel_histI[of _ _ "repointed d rq ?c" "[?n]"]) (simp_all add: rel_inv_def)
  qed (use inv rel_hist_refl in auto)
qed

lemma resolve_relation_endpoint_ok:
  assumes "resolve_relation_endpoint d raw label = (r, e)" "truthy r"
  shows "get_entity d (the r) \<noteq> None \<and> r = Some (the r) \<and> the r \<noteq> []"
proof -
  obtain x cs t where x: "resolve_entity_ref d (Some raw) None = (x, cs, t)" by (metis prod_cases3)
  then have "r = x" using assms by (auto simp: resolve_relation_endpoint_def split: if_splits)
  then obtain i where i: "x = Some i" "r = Some i" "i \<noteq> []" using assms(2) by (auto simp: truthy_iff)
  then have "resolvable d None i" using refs.resolved_known x by simp
  then show ?thesis using i by (auto simp: resolvable_def get_entity_def find_row_None)
qed

lemma resolve_store_relation_endpoints_ok:
  assumes "resolve_store_relation_endpoints d s t = Inr (src, tgt)"
  shows "get_entity d src \<noteq> None \<and> get_entity d tgt \<noteq> None \<and> src \<noteq> tgt"
proof -
  obtain a ea b eb where e: "resolve_relation_endpoint d s ''source_id'' = (a, ea)"
    "resolve_relation_endpoint d t ''target_id'' = (b, eb)" by fastforce
  then have "truthy a" "truthy b" "a \<noteq> b" "src = the a" "tgt = the b"
    using assms by (auto simp: resolve_store_relation_endpoints_def split: if_splits)
  then show ?thesis using resolve_relation_endpoint_ok e by metis
qed

lemma resolve_store_relation_endpoints_rejects:
  "resolve_store_relation_endpoints d s t = Inl rej \<Longrightarrow> is_rejected rej"
  by (auto simp: resolve_store_relation_endpoints_def endpoint_rejection_def is_rejected_def
      split: if_splits prod.splits)

lemma store_relation_predicate_error_rejects:
  "store_relation_predicate_error p = Some rej \<Longrightarrow> is_rejected rej"
  by (auto simp: store_relation_predicate_error_def is_rejected_def split: pd_status.splits)

text \<open>
  \<open>store_relation\<close> either refuses before writing, or runs the write on a validated request; an
  exception inside becomes an internal error, with the store rolled back unless the caller owns the
  transaction.
\<close>

definition valid_request :: "db \<Rightarrow> relation_write_request \<Rightarrow> bool" where
  "valid_request d rq \<longleftrightarrow> rq_source rq \<noteq> rq_target rq \<and> get_entity d (rq_source rq) \<noteq> None \<and>
     get_entity d (rq_target rq) \<noteq> None \<and> store_relation_predicate_error (rq_predicate rq) = None"

lemma store_relation_cases:
  assumes "store_relation \<Gamma> locks a d = (res, d')"
  obtains
    (invalid) "is_rejected res" "d' = d"
  | (failed) src tgt e where "valid_request d (store_request \<Gamma> a src tgt)"
      "res = Rejected [error INTERNAL_ERROR None]"
      "sa_in_transaction a \<Longrightarrow> store_relation_write \<Gamma> (store_request \<Gamma> a src tgt) d = (Inl e, d')"
      "\<not> sa_in_transaction a \<Longrightarrow> d' = d"
  | (written) src tgt d1 where "valid_request d (store_request \<Gamma> a src tgt)"
      "resolve_store_relation_endpoints d (the (sa_source a)) (the (sa_target a)) = Inr (src, tgt)"
      "truthy (sa_source a) \<and> truthy (sa_target a) \<and> truthy (sa_predicate a)"
      "store_relation_write \<Gamma> (store_request \<Gamma> a src tgt) d = (Inr res, d1)"
      "d' = (if sa_in_transaction a then d1 else trigger_community_detection d1)"
proof (cases "\<not> truthy (sa_source a) \<or> \<not> truthy (sa_target a) \<or> \<not> truthy (sa_predicate a)")
  case True
  then have "(res, d') = (Rejected [error VALIDATION_ERROR None], d)"
    using assms unfolding store_relation_def if_P[OF True] by simp
  then show thesis by (intro invalid) (simp_all add: is_rejected_def)
next
  case args: False
  note u = assms[unfolded store_relation_def if_not_P[OF args]]
  show thesis
  proof (cases "resolve_store_relation_endpoints d (the (sa_source a)) (the (sa_target a))")
    case (Inl rej)
    then show thesis using u resolve_store_relation_endpoints_rejects[OF Inl] by (intro invalid) auto
  next
    case (Inr p)
    obtain src tgt where p: "p = (src, tgt)" by fastforce
    show thesis
    proof (cases "store_relation_predicate_error (the (sa_predicate a))")
      case (Some rej)
      then show thesis using u Inr p store_relation_predicate_error_rejects[OF Some]
        by (intro invalid) auto
    next
      case None
      let ?rq = "store_request \<Gamma> a src tgt"
      have v: "valid_request d ?rq"
        using resolve_store_relation_endpoints_ok Inr p None
        by (simp add: valid_request_def store_request_def)
      obtain r d1 where w: "(if sa_in_transaction a then store_relation_write \<Gamma> ?rq d
          else write_transaction_retrying locks (store_relation_write \<Gamma> ?rq) d) = (r, d1)" by fastforce
      have rd: "(res, d') = (case r of Inl e \<Rightarrow> (Rejected [error INTERNAL_ERROR None], d1)
          | Inr res \<Rightarrow> (res, if sa_in_transaction a then d1 else trigger_community_detection d1))"
        using u Inr p None w by (simp add: Let_def split: sum.splits)
      show thesis
      proof (cases r)
        case (Inl e)
        then show thesis
          using rd w v retrying_abort by (intro failed[of src tgt e]) (auto split: if_splits)
      next
        case (Inr x)
        then show thesis
          using rd w v args \<open>_ = Inr p\<close> p retrying_commit
          by (intro written[of src tgt d1]) (auto split: if_splits)
      qed
    qed
  qed
qed

lemma evolves_trigger [simp, intro]: "rel.evolves allow d (trigger_community_detection d)"
  by (rule rel.evolvesI; (rule rel_histI[of _ _ "relations d" "[]"])?)
    (simp_all add: trigger_community_detection_def rel_inv_def list.rel_refl)

lemma store_request_fields [simp]:
  "rq_predicate (store_request \<Gamma> a s t) = the (sa_predicate a)"
  "rq_source (store_request \<Gamma> a s t) = s" "rq_target (store_request \<Gamma> a s t) = t"
  "rq_allow_core_elaborates_on (store_request \<Gamma> a s t) = sa_allow_core_elaborates_on a"
  "rq_relation_id (store_request \<Gamma> a s t) = sa_relation_id a"
  by (simp_all add: store_request_def)

lemma store_relation_evolves:
  assumes "store_relation \<Gamma> locks a d = (res, d')" "sa_allow_core_elaborates_on a \<longrightarrow> allow"
  shows "rel.evolves allow d d'"
  using assms(1)
proof (cases rule: store_relation_cases)
  case (failed src tgt e)
  then show ?thesis
    using store_write_evolves[of \<Gamma> "store_request \<Gamma> a src tgt" d "Inl e" d' allow] assms(2)
    by (cases "sa_in_transaction a") (auto simp: valid_request_def)
next
  case (written src tgt d1)
  then have "rel.evolves allow d d1"
    using store_write_evolves[OF written(4)] written(1) assms(2) by (auto simp: valid_request_def)
  then show ?thesis using written(5) by (auto intro: rel.evolves_trans)
qed simp

lemma invalidate_relation_write_cases:
  assumes "invalidate_relation_write src tgt p t now_s d = (r, d')"
  defines "c \<equiv> canonical_of d p"
  obtains
    (missing) "live_edge d src tgt c = None" "r = Inr (Rejected [error NOT_FOUND None])" "d' = d"
  | (already) e where "e \<in> set (relations d)" "edge_is src tgt c e" "r_invalid_at e \<noteq> None"
      "r = Inr (Ok (r_id e) [ALREADY_DONE])" "d' = d"
  | (closed) e where "live_edge d src tgt c = Some e" "r_invalid_at e = None"
      "r = Inr (Ok (r_id e) [])"
      "d' = d\<lparr>relations := invalidate_row (r_id e) (py_or t now_s) (relations d)\<rparr>"
proof (cases "live_edge d src tgt c")
  case (Some e)
  have e: "e \<in> set (relations d)" "edge_is src tgt c e" using live_edge_Some[OF Some] by simp_all
  show thesis
  proof (cases "r_invalid_at e")
    case None
    then have "r = Inr (Ok (r_id e) []) \<and>
        d' = d\<lparr>relations := invalidate_row (r_id e) (py_or t now_s) (relations d)\<rparr>"
      using assms(1) Some unfolding c_def by (simp add: invalidate_relation_write_def)
    then show thesis using Some None by (intro closed) simp_all
  next
    case (Some t')
    then have "r = Inr (Ok (r_id e) [ALREADY_DONE]) \<and> d' = d"
      using assms(1) \<open>live_edge d src tgt c = Some e\<close> unfolding c_def
      by (simp add: invalidate_relation_write_def)
    then show thesis using Some e by (intro already[of e]) simp_all
  qed
next
  case none: None
  let ?q = "find_row (\<lambda>r. edge_is src tgt c r \<and> r_invalid_at r \<noteq> None) (rev (relations d))"
  show thesis
  proof (cases ?q)
    case None
    then have "r = Inr (Rejected [error NOT_FOUND None]) \<and> d' = d"
      using assms(1) none unfolding c_def by (simp add: invalidate_relation_write_def)
    then show thesis using none by (intro missing) simp_all
  next
    case (Some e)
    have e: "e \<in> set (relations d)" "edge_is src tgt c e" "r_invalid_at e \<noteq> None"
      using find_row_Some[OF Some] by simp_all
    then have "r = Inr (Ok (r_id e) [ALREADY_DONE]) \<and> d' = d"
      using assms(1) none Some unfolding c_def by (auto simp: invalidate_relation_write_def)
    then show thesis using e by (intro already[of e]) simp_all
  qed
qed

lemma invalidate_row_evolves:
  assumes "e \<in> set (relations d)" "live e"
  shows "rel.evolves allow d (d\<lparr>relations := invalidate_row (r_id e) t (relations d)\<rparr>)"
  unfolding rel.evolves_def
proof (rule impI)
  assume "rel_inv d"
  then have ids: "distinct (map r_id (relations d))" and uniq: "uniq_live (relations d)"
    by (simp_all add: rel_inv_def)
  let ?rs = "invalidate_row (r_id e) t (relations d)"
  have sub: "r \<in> set ?rs \<Longrightarrow> live r \<Longrightarrow> r \<in> set (relations d)" for r
    using live_invalidate_row by blast
  have "uniq_live ?rs" using uniq sub by (rule uniq_live_sub)
  moreover have "single_target p ?rs" if "single_target p (relations d)" for p
    using that sub by (rule single_target_sub)
  ultimately show "rel_inv (d\<lparr>relations := ?rs\<rparr>) \<and> rel_hist allow d (d\<lparr>relations := ?rs\<rparr>)"
    using ids invalidate_row_closes[OF ids assms, of t]
    by (intro conjI rel_histI[of _ _ ?rs "[]"]) (simp_all add: rel_inv_def)
qed

lemma invalidate_write_evolves:
  assumes "invalidate_relation_write src tgt p t now_s d = (r, d')"
  shows "rel.evolves allow d d'"
  using assms
proof (cases rule: invalidate_relation_write_cases)
  case (closed e)
  then show ?thesis using live_edge_Some[OF closed(1)] invalidate_row_evolves by blast
qed simp_all

lemma invalidate_relation_cases:
  assumes "invalidate_relation \<Gamma> locks a d = (res, d')"
  obtains
    (invalid) "is_rejected res" "d' = d"
  | (written) src tgt d1 where "get_entity d src \<noteq> None" "get_entity d tgt \<noteq> None"
      "invalidate_relation_write src tgt (the (ia_predicate a)) (ia_invalid_at a) (now_iso \<Gamma>) d =
         (Inr res, d1)"
      "d' = (if ia_in_transaction a then d1 else trigger_community_detection d1)"
proof (cases "\<not> truthy (ia_source a) \<or> \<not> truthy (ia_target a) \<or> \<not> truthy (ia_predicate a)")
  case True
  then have "(res, d') = (Rejected [error VALIDATION_ERROR None], d)"
    using assms unfolding invalidate_relation_def if_P[OF True] by simp
  then show thesis by (intro invalid) (simp_all add: is_rejected_def)
next
  case args: False
  note u = assms[unfolded invalidate_relation_def if_not_P[OF args]]
  obtain s es t et where e:
    "resolve_relation_endpoint d (the (ia_source a)) ''source_id'' = (s, es)"
    "resolve_relation_endpoint d (the (ia_target a)) ''target_id'' = (t, et)" by fastforce
  let ?body = "invalidate_relation_write (the s) (the t) (the (ia_predicate a)) (ia_invalid_at a) (now_iso \<Gamma>)"
  show thesis
  proof (cases "truthy s \<and> truthy t")
    case False
    then have "(res, d') = (endpoint_rejection es et, d)" using u e by auto
    then show thesis by (intro invalid) (simp_all add: endpoint_rejection_def is_rejected_def)
  next
    case True
    have ents: "get_entity d (the s) \<noteq> None" "get_entity d (the t) \<noteq> None"
      using True e resolve_relation_endpoint_ok by metis+
    obtain r d1 where w: "(if ia_in_transaction a then ?body d
        else write_transaction_retrying locks ?body d) = (r, d1)" by fastforce
    have rd: "(res, d') = (case r of Inl e \<Rightarrow> (Rejected [error INTERNAL_ERROR None], d1)
        | Inr res \<Rightarrow> (res, if ia_in_transaction a then d1 else trigger_community_detection d1))"
      using u e True w by (simp add: Let_def split: sum.splits)
    show thesis
    proof (cases r)
      case (Inr x)
      then show thesis
        using rd w ents retrying_commit by (intro written[of "the s" "the t" d1]) (auto split: if_splits)
    next
      case (Inl ex)
      have no_raise: "?body d \<noteq> (Inl x, d2)" for x d2
        by (rule notI, erule invalidate_relation_write_cases) auto
      then have "\<not> ia_in_transaction a" using w Inl by (auto split: if_splits)
      then have "d1 = d" using w Inl retrying_abort by auto
      then show thesis using rd Inl by (intro invalid) (simp_all add: is_rejected_def)
    qed
  qed
qed

lemma invalidate_relation_evolves:
  assumes "invalidate_relation \<Gamma> locks a d = (res, d')"
  shows "rel.evolves allow d d'"
  using assms
proof (cases rule: invalidate_relation_cases)
  case (written src tgt d1)
  then show ?thesis
    using invalidate_write_evolves[OF written(3), of allow] by (auto intro: rel.evolves_trans)
qed simp

lemma apply_relation_item_evolves:
  assumes "apply_relation_item \<Gamma> agent ids it d = (r, d')"
  shows "rel.evolves False d d'"
proof -
  obtain res d1 where w: "(if ri_invalidate it then
           invalidate_relation \<Gamma> (\<lambda>_. False)
             \<lparr>ia_source = ri_source it, ia_target = ri_target it, ia_predicate = ri_predicate it,
              ia_invalid_at = ri_invalid_at it, ia_in_transaction = True\<rparr> d
         else
           store_relation \<Gamma> (\<lambda>_. False)
             \<lparr>sa_source = ri_source it, sa_target = ri_target it, sa_predicate = ri_predicate it,
              sa_valid_at = ri_valid_at it, sa_override = ri_override it, sa_agent_id = agent,
              sa_relation_id = fst ids, sa_event_id = snd ids, sa_in_transaction = True,
              sa_allow_core_elaborates_on = False\<rparr> d) = (res, d1)" by fastforce
  then have "d' = d1"
    using assms by (cases res) (auto simp: apply_relation_item_def split: sum.splits)
  then show ?thesis
    using w invalidate_relation_evolves store_relation_evolves[of _ _ _ d res d1 False]
    by (auto split: if_splits)
qed

lemma apply_relation_items_evolves:
  assumes "apply_relation_items \<Gamma> agent gen i items d = (r, d')"
  shows "rel.evolves False d d'"
  using assms
proof (induction \<Gamma> agent gen i items d arbitrary: r d' rule: apply_relation_items.induct)
  case (2 \<Gamma> agent gen i its d)
  then show ?case by (auto split: prod.splits sum.splits)
next
  case (3 \<Gamma> agent gen i it its d)
  obtain r1 d1 where w: "apply_relation_item \<Gamma> agent (gen i) it d = (r1, d1)" by fastforce
  note e = apply_relation_item_evolves[OF w]
  show ?case
  proof (cases r1)
    case (Inl x)
    then show ?thesis using "3.prems" w e by simp
  next
    case (Inr x)
    obtain r2 d2 where w2: "apply_relation_items \<Gamma> agent gen (Suc i) its d1 = (r2, d2)" by fastforce
    then have "d' = d2"
      using "3.prems" w Inr by (cases r2) (auto split: sum.splits prod.splits)
    moreover have "rel.evolves False d1 d2" by (rule "3.IH"[OF w[symmetric] Inr w2])
    ultimately show ?thesis using e rel.evolves_trans by blast
  qed
qed simp

lemma apply_relations_transaction_evolves:
  assumes "apply_relations_transaction \<Gamma> items agent gen d = (r, d')"
  shows "rel.evolves False d d'"
proof -
  obtain r1 d1 where w: "apply_relation_items \<Gamma> agent gen 0 items d = (r1, d1)" by fastforce
  then have "d' = d \<or> d' = d1"
    using assms by (cases r1) (auto simp: apply_relations_transaction_def split: if_splits)
  then show ?thesis using apply_relation_items_evolves[OF w] by auto
qed

lemma apply_relations_evolves:
  assumes "apply_relations \<Gamma> coord locks items agent gen d = (r, d')"
  shows "rel.evolves False d d'"
proof (cases "items = []")
  case True
  then show ?thesis using assms by (simp add: apply_relations_def)
next
  case False
  let ?tx = "apply_relations_transaction \<Gamma> items agent gen"
  obtain r1 d1 where w: "(if coord then ?tx d else write_transaction_retrying locks ?tx d) = (r1, d1)"
    by fastforce
  have "rel.evolves False d d1"
  proof (cases coord)
    case True
    then show ?thesis using w apply_relations_transaction_evolves by simp
  next
    case False
    then have w': "write_transaction_retrying locks ?tx d = (r1, d1)" using w by simp
    show ?thesis
    proof (cases r1)
      case (Inl e)
      then show ?thesis using w' by (auto dest: retrying_abort)
    next
      case (Inr x)
      then show ?thesis using w' by (auto dest: retrying_commit intro: apply_relations_transaction_evolves)
    qed
  qed
  moreover have "d' = d1 \<or> d' = trigger_community_detection d1"
    using assms False w
    by (cases r1) (auto simp: apply_relations_def split: if_splits envelope.splits)
  ultimately show ?thesis by (auto intro: rel.evolves_trans)
qed

section \<open>Running the operations again\<close>

lemma resolve_entities_only:
  "entities d' = entities d \<Longrightarrow> resolve_entity_ref d' raw agent = resolve_entity_ref d raw agent"
  by (simp only: resolve_entity_ref_def resolve_existing_entity_def resolve_entity_id_def
      resolve_visible_title_def resolve_id_prefix_def prefix_rows_def get_entity_def)

lemma endpoints_entities_only:
  assumes "entities d' = entities d"
  shows "resolve_store_relation_endpoints d' s t = resolve_store_relation_endpoints d s t"
    and "resolve_relation_endpoint d' s l = resolve_relation_endpoint d s l"
  by (simp_all add: resolve_store_relation_endpoints_def resolve_relation_endpoint_def
      resolve_entities_only[OF assms])

lemma endpoints_resolve:
  assumes "resolve_store_relation_endpoints d s t = Inr (src, tgt)"
  shows "\<exists>e e'. resolve_relation_endpoint d s ''source_id'' = (Some src, e) \<and>
    resolve_relation_endpoint d t ''target_id'' = (Some tgt, e') \<and> src \<noteq> [] \<and> tgt \<noteq> []"
  using assms by (auto simp: resolve_store_relation_endpoints_def truthy_iff split: if_splits prod.splits)

lemma store_relation_run:
  assumes "truthy (sa_source a) \<and> truthy (sa_target a) \<and> truthy (sa_predicate a)"
    "resolve_store_relation_endpoints d (the (sa_source a)) (the (sa_target a)) = Inr (src, tgt)"
    "store_relation_predicate_error (the (sa_predicate a)) = None"
    "store_relation_write \<Gamma> (store_request \<Gamma> a src tgt) d = (Inr res, d1)" "\<not> locks 0"
  shows "store_relation \<Gamma> locks a d =
    (res, if sa_in_transaction a then d1 else trigger_community_detection d1)"
proof -
  have "write_transaction_retrying locks (store_relation_write \<Gamma> (store_request \<Gamma> a src tgt)) d = (Inr res, d1)"
    using assms(4,5) by (subst retrying_unlocked) (auto simp: write_transaction_def)
  then show ?thesis using assms by (simp add: store_relation_def Let_def)
qed

lemma invalidate_relation_run:
  assumes "truthy (ia_source a) \<and> truthy (ia_target a) \<and> truthy (ia_predicate a)"
    "resolve_relation_endpoint d (the (ia_source a)) ''source_id'' = (Some src, e)" "src \<noteq> []"
    "resolve_relation_endpoint d (the (ia_target a)) ''target_id'' = (Some tgt, e')" "tgt \<noteq> []"
    "invalidate_relation_write src tgt (the (ia_predicate a)) (ia_invalid_at a) (now_iso \<Gamma>) d = (Inr res, d1)"
    "\<not> locks 0"
  shows "invalidate_relation \<Gamma> locks a d =
    (res, if ia_in_transaction a then d1 else trigger_community_detection d1)"
proof -
  have "write_transaction_retrying locks
      (invalidate_relation_write src tgt (the (ia_predicate a)) (ia_invalid_at a) (now_iso \<Gamma>)) d = (Inr res, d1)"
    using assms(6,7) by (subst retrying_unlocked) (auto simp: write_transaction_def)
  then show ?thesis using assms by (simp add: invalidate_relation_def Let_def)
qed

lemma live_edge_cong: "relations d' = relations d \<Longrightarrow> live_edge d' s t p = live_edge d s t p"
  by (simp add: live_edge_def)

lemma store_relation_Ok:
  assumes inv: "rel_inv d" and run: "store_relation \<Gamma> locks a d = (Ok rid ws, d')"
  obtains src tgt r where
    "resolve_store_relation_endpoints d (the (sa_source a)) (the (sa_target a)) = Inr (src, tgt)"
    "truthy (sa_source a) \<and> truthy (sa_target a) \<and> truthy (sa_predicate a)"
    "store_relation_predicate_error (the (sa_predicate a)) = None"
    "live_edge d' src tgt (normalize_predicate_name (sa_predicate a)) = Some r" "r_id r = rid"
    "(ws = [ALREADY_DONE] \<and> relations d' = relations d \<and> events d' = events d) \<or>
     (ws = [] \<and> rid = sa_relation_id a \<and> rid \<notin> r_id ` set (relations d) \<and> r_invalid_at r = None)"
  using run
proof (cases rule: store_relation_cases)
  case invalid
  then show thesis by (simp add: is_rejected_def)
next
  case (failed src tgt e)
  then show thesis by simp
next
  case (written src tgt d1)
  let ?rq = "store_request \<Gamma> a src tgt"
  have p: "store_relation_predicate_error (the (sa_predicate a)) = None"
    using written(1) by (simp add: valid_request_def)
  have c: "canonical_of d (the (sa_predicate a)) = normalize_predicate_name (sa_predicate a)"
    using canonical_selectable(1)[OF p] written(3) by (auto simp: truthy_iff)
  have rel: "relations d' = relations d1" "events d' = events d1"
    using written(5) by (simp_all add: trigger_community_detection_def)
  have "rel_inv d'"
    using store_relation_evolves[OF run, of True] inv by (auto dest: rel.evolves_inv)
  then have uniq: "uniq_live (relations d')" by (simp add: rel_inv_def)
  show thesis
    using written(4)
  proof (cases rule: store_relation_write_cases)
    case (duplicate e)
    then have "live_edge d' src tgt (normalize_predicate_name (sa_predicate a)) = Some e"
      using rel c live_edge_cong[of d' d] by simp
    with duplicate rel show thesis
      by (intro that[OF written(2) written(3) p, of e]) (simp_all)
  next
    case (created ev)
    let ?n = "new_relation ?rq (normalize_predicate_name (sa_predicate a))"
    have "?n \<in> set (relations d')" using created(6) rel c by simp
    then have "live_edge d' src tgt (normalize_predicate_name (sa_predicate a)) = Some ?n"
      using uniq by (intro live_edge_unique) (simp_all add: edge_is_def)
    with created show thesis
      by (intro that[OF written(2) written(3) p, of ?n]) (simp_all add: new_relation_def[of ?rq])
  qed simp_all
qed

section \<open>Frames\<close>

text \<open>The tables a relation write never touches.\<close>

definition same_base :: "db \<Rightarrow> db \<Rightarrow> bool" where
  "same_base d d' \<longleftrightarrow> entities d' = entities d \<and> tags d' = tags d \<and> entity_tags d' = entity_tags d"

lemma same_base_refl [simp]: "same_base d d"
  by (simp add: same_base_def)

lemma same_base_trans: "same_base d d' \<Longrightarrow> same_base d' d'' \<Longrightarrow> same_base d d''"
  by (simp add: same_base_def)

lemma same_base_trigger [simp]: "same_base d (trigger_community_detection d')= same_base d d'"
  by (simp add: same_base_def trigger_community_detection_def)

lemma store_write_frame: "store_relation_write \<Gamma> rq d = (r, d') \<Longrightarrow> same_base d d'"
  by (erule store_relation_write_cases) (auto simp: same_base_def)

lemma store_relation_frame:
  assumes "store_relation \<Gamma> locks a d = (res, d')"
  shows "same_base d d'"
  using assms
proof (cases rule: store_relation_cases)
  case (failed src tgt e)
  then show ?thesis by (cases "sa_in_transaction a") (auto dest: store_write_frame)
next
  case (written src tgt d1)
  then show ?thesis using store_write_frame[OF written(4)] by (cases "sa_in_transaction a") auto
qed simp

lemma invalidate_relation_frame:
  assumes "invalidate_relation \<Gamma> locks a d = (res, d')"
  shows "same_base d d'"
  using assms
proof (cases rule: invalidate_relation_cases)
  case (written src tgt d1)
  from written(3) have "same_base d d1"
    by (cases rule: invalidate_relation_write_cases) (simp_all add: same_base_def)
  then show ?thesis using written(4) by (cases "ia_in_transaction a") auto
qed simp

text \<open>A store changes only live edges that leave the resolved source.\<close>

lemma store_keeps_other_sources:
  assumes inv: "rel_inv d" and run: "store_relation \<Gamma> locks a d = (Ok rid ws, d')"
    and ends: "resolve_store_relation_endpoints d (the (sa_source a)) (the (sa_target a)) = Inr (src, tgt)"
    and r: "r \<in> set (relations d)" "r_source r \<noteq> src"
  shows "r \<in> set (relations d')"
  using run
proof (cases rule: store_relation_cases)
  case (written src' tgt' d1)
  have s: "src' = src" using written(2) ends by simp
  have rel: "relations d' = relations d1" using written(5) by (simp add: trigger_community_detection_def)
  show ?thesis
    using written(4)
  proof (cases rule: store_relation_write_cases)
    case (created ev)
    let ?c = "canonical_of d (rq_predicate (store_request \<Gamma> a src' tgt'))"
    have "r \<in> set (repointed d (store_request \<Gamma> a src' tgt') ?c)"
    proof (cases "repoint_stale_edge d (store_request \<Gamma> a src' tgt') ?c")
      case (Some i)
      then obtain q where q: "q \<in> set (relations d)" "r_id q = i" "r_source q = src"
        using s by (auto elim: repoint_stale_edge_Some)
      have "distinct (map r_id (relations d))" using inv by (simp add: rel_inv_def)
      then have "r_id r \<noteq> i" using q r by (metis distinct_map inj_onD)
      then show ?thesis
        using r(1) unfolding repointed_def Some by (auto simp: invalidate_row_def set_update_where)
    next
      case None
      then show ?thesis using r(1) unfolding repointed_def None by simp
    qed
    then show ?thesis using created(6) rel by simp
  qed (use rel r in simp_all)
qed (simp_all add: is_rejected_def)

section \<open>The batch\<close>

lemma apply_relation_item_kind:
  assumes "apply_relation_item \<Gamma> agent ids it d = (Inr (Inl out), d')"
  shows "ro_item out = it"
  using assms by (auto simp: apply_relation_item_def split: prod.splits envelope.splits sum.splits)

text \<open>With no collected error, every submitted item is an object and has exactly one outcome.\<close>

lemma apply_relation_items_complete:
  assumes "apply_relation_items \<Gamma> agent gen i items d = (Inr (os, []), d')"
  shows "map (\<lambda>out. Item (ro_item out)) os = items"
  using assms
proof (induction \<Gamma> agent gen i items d arbitrary: os d' rule: apply_relation_items.induct)
  case (2 \<Gamma> agent gen i its d)
  then show ?case by (auto split: prod.splits sum.splits)
next
  case (3 \<Gamma> agent gen i it its d)
  obtain r1 d1 where w: "apply_relation_item \<Gamma> agent (gen i) it d = (r1, d1)" by fastforce
  obtain r2 d2 where w2: "apply_relation_items \<Gamma> agent gen (Suc i) its d1 = (r2, d2)" by fastforce
  obtain y where r1: "r1 = Inr y" using "3.prems" w by (cases r1) simp_all
  obtain os' es' where r2: "r2 = Inr (os', es')" using "3.prems" w r1 w2 by (cases r2) auto
  show ?case
  proof (cases y)
    case (Inl out)
    then have "os = out # os'" "es' = []" using "3.prems" w r1 w2 r2 by auto
    moreover have "map (\<lambda>out. Item (ro_item out)) os' = its"
      using "3.IH"[OF w[symmetric] r1, of os'] w2 r2 calculation(2) by simp
    ultimately show ?thesis using apply_relation_item_kind w r1 Inl by simp
  next
    case (Inr ers)
    then have "prefix_relation_errors ers i @ es' = []" using "3.prems" w r1 w2 r2 by auto
    then have "ers = []" by (simp add: prefix_relation_errors_def)
    moreover have "ers \<noteq> []"
      using w r1 Inr by (auto simp: apply_relation_item_def relation_rejection_def Let_def
          split: prod.splits envelope.splits sum.splits if_splits)
    ultimately show ?thesis by simp
  qed
qed simp

lemma count_kinds: "count_kind Created os + count_kind Duplicate os + count_kind Invalidated os = length os"
proof (induction os)
  case (Cons out os)
  then show ?case by (cases "ro_kind out") (simp_all add: count_kind_def)
qed (simp add: count_kind_def)

section \<open>A concrete run\<close>

text \<open>Two memories, one weak edge between them: the input the witnesses below use.\<close>

definition sample_store_args :: store_args where
  "sample_store_args = \<lparr>sa_source = Some ''m1'', sa_target = Some ''m2'', sa_predicate = Some ''related_to'',
     sa_valid_at = None, sa_override = None, sa_agent_id = None, sa_relation_id = ''r1'',
     sa_event_id = ''ev1'', sa_in_transaction = False, sa_allow_core_elaborates_on = False\<rparr>"

definition sample_request :: relation_write_request where
  "sample_request = store_request sample_env sample_store_args ''m1'' ''m2''"

definition stored_db :: db where
  "stored_db = sample_db\<lparr>relations := [new_relation sample_request ''related_to'']\<rparr>"

lemma sample_db_simps [simp]:
  "relations sample_db = []" "events sample_db = []" "predicates sample_db = []"
  by (simp_all add: sample_db_def empty_db_def)

lemma sample_endpoint:
  assumes "i \<in> {''m1'', ''m2''}"
  shows "resolve_relation_endpoint sample_db i l = (Some i, None)"
proof -
  define x where "x = sample_entity\<lparr>e_id := i\<rparr>"
  have e: "x \<in> set (entities sample_db)" "e_id x = i"
    using assms by (auto simp: x_def sample_db_def sample_entity_def)
  have strip: "py_strip i = e_id x"
    unfolding py_strip_def e(2) using assms
    by (intro strip_by_no_effect) (auto simp: py_space_def code_def)
  have "resolve_entity_ref sample_db (Some i) None = (Some (e_id x), [], False)"
    by (rule resolve_exact_id[OF e(1) _ strip]) (use assms e(2) in \<open>auto simp: visible_def\<close>)
  then have "resolve_entity_ref sample_db (Some i) None = (Some i, [], False)" unfolding e(2) .
  then show ?thesis using assms by (auto simp: resolve_relation_endpoint_def)
qed

lemma sample_endpoints:
  "resolve_store_relation_endpoints sample_db ''m1'' ''m2'' = Inr (''m1'', ''m2'')"
  by (simp add: resolve_store_relation_endpoints_def sample_endpoint)

lemma related_to_ok:
  "store_relation_predicate_error ''related_to'' = None"
  "normalize_predicate_name (Some ''related_to'') = ''related_to''"
proof -
  have sel: "''related_to'' \<in> set agent_selectable_predicates"
    by (simp add: agent_selectable_predicates_def)
  show "store_relation_predicate_error ''related_to'' = None"
    by (simp add: store_relation_predicate_error_def classify_selectable[OF sel])
  show "normalize_predicate_name (Some ''related_to'') = ''related_to''"
    by (rule normalize_fixes_normal[OF selectable_normal[OF sel]])
qed

lemma sample_write:
  "store_relation_write sample_env sample_request sample_db = (Inr (Ok ''r1'' []), stored_db)"
proof -
  have c: "canonical_of d ''related_to'' = ''related_to''" for d
    using canonical_selectable(1)[OF related_to_ok(1)] related_to_ok(2) by simp
  have rq: "rq_predicate sample_request = ''related_to''" "rq_relation_id sample_request = ''r1''"
    by (simp_all add: sample_request_def sample_store_args_def)
  show ?thesis
    unfolding store_relation_write_def rq c Let_def
    by (simp add: live_edge_def repoint_stale_edge_def relation_gate_strong_predicates_def
        check_core_relation_guard_def apply_relation_gate_def relation_gate_measurements_def
        gate_violations_def gate_contradictions_def insert_relation_write_def stored_db_def rq)
qed

lemma sample_store:
  "store_relation sample_env (\<lambda>_. False) sample_store_args sample_db =
     (Ok ''r1'' [], trigger_community_detection stored_db)"
  using store_relation_run[of sample_store_args sample_db "''m1''" "''m2''" sample_env "Ok ''r1'' []"
      stored_db "\<lambda>_. False"] sample_endpoints related_to_ok sample_write
  by (simp add: sample_request_def sample_store_args_def)

lemma sample_inv: "rel_inv sample_db"
  by (simp add: rel_inv_def uniq_live_def)

definition sample_item :: relation_item where
  "sample_item = \<lparr>ri_invalidate = False, ri_source = Some ''m1'', ri_target = Some ''m2'',
     ri_predicate = Some ''related_to'', ri_valid_at = None, ri_invalid_at = None, ri_override = None\<rparr>"

abbreviation sample_ids :: "nat \<Rightarrow> string \<times> string" where
  "sample_ids \<equiv> \<lambda>_. (''r1'', ''ev1'')"

lemma sample_item_run:
  "apply_relation_item sample_env None (''r1'', ''ev1'') sample_item sample_db =
     (Inr (Inl \<lparr>ro_kind = Created, ro_item = sample_item, ro_relation_id = ''r1''\<rparr>), stored_db)"
proof -
  let ?a = "sample_store_args\<lparr>sa_in_transaction := True\<rparr>"
  have "store_request sample_env ?a ''m1'' ''m2'' = sample_request"
    by (simp add: sample_request_def store_request_def sample_store_args_def)
  then have "store_relation sample_env (\<lambda>_. False) ?a sample_db = (Ok ''r1'' [], stored_db)"
    using store_relation_run[of ?a sample_db "''m1''" "''m2''" sample_env "Ok ''r1'' []"
        stored_db "\<lambda>_. False"] sample_endpoints related_to_ok sample_write
    by (simp add: sample_store_args_def)
  then show ?thesis
    by (simp add: apply_relation_item_def sample_item_def sample_store_args_def)
qed

lemma sample_batch:
  "apply_relations sample_env False (\<lambda>_. False) [Item sample_item, Not_Object] None sample_ids sample_db =
     (Inr (Rejected [error VALIDATION_ERROR (Some (relations_field 1))]), sample_db)"
  "apply_relations sample_env False (\<lambda>_. False) [Item sample_item] None sample_ids sample_db =
     (Inr (Ok \<lparr>bd_items = [\<lparr>ro_kind = Created, ro_item = sample_item, ro_relation_id = ''r1''\<rparr>],
        bd_created_count = 1, bd_duplicate_count = 0, bd_invalidated_count = 0\<rparr> []),
      trigger_community_detection stored_db)"
  by (simp_all add: apply_relations_def write_transaction_retrying_def retry_from.simps
      attempt_transaction_def write_transaction_def apply_relations_transaction_def sample_item_run
      count_kind_def)

section \<open>Properties\<close>



text \<open>
  C2. The relation table under batches keeps its integrity and its history. Row ids stay unique and
  at most one live edge exists per source, target and predicate. No row is ever deleted or
  rewritten: an old row keeps its place and every field, except that a live one may be closed;
  every new row connects two different existing memories with a vocabulary predicate and is never
  an \<open>elaborates_on\<close> edge into an active core memory; a strong predicate with one live target per
  source before has so afterwards. Entities are untouched and the event ledger only grows.
\<close>

theorem batch_keeps_relation_table:
  assumes "rel_inv d" and run: "apply_relations \<Gamma> coord locks items agent gen d = (r, d')"
  shows "rel_inv d' \<and> rel_hist False d d'"
  using rel.evolves_inv rel.evolves_hist apply_relations_evolves[OF run] assms(1) by blast

theorem batch_keeps_relation_table_witness:
  "rel_inv (trigger_community_detection stored_db) \<and>
   rel_hist False sample_db (trigger_community_detection stored_db)"
  by (rule batch_keeps_relation_table[OF sample_inv sample_batch(2)])

text \<open>
  C3. A successful \<open>store_relation\<close> leaves exactly one live edge between the resolved endpoints for
  the normalised predicate, and its id is the one returned: either a row that was there already
  (then the relation table and the ledger are unchanged and the answer carries ALREADY_DONE), or a
  new row with the drawn id.
\<close>

theorem store_relation_one_live_edge:
  assumes "rel_inv d" and run: "store_relation \<Gamma> locks a d = (Ok rid ws, d')"
  shows "\<exists>src tgt r.
    resolve_store_relation_endpoints d (the (sa_source a)) (the (sa_target a)) = Inr (src, tgt) \<and>
    {x \<in> set (relations d'). live x \<and> edge_is src tgt (normalize_predicate_name (sa_predicate a)) x} = {r} \<and>
    r_id r = rid \<and>
    ((ws = [ALREADY_DONE] \<and> relations d' = relations d \<and> events d' = events d) \<or>
     (ws = [] \<and> rid = sa_relation_id a \<and> rid \<notin> r_id ` set (relations d)))"
proof -
  let ?p = "normalize_predicate_name (sa_predicate a)"
  obtain src tgt r where
    ends: "resolve_store_relation_endpoints d (the (sa_source a)) (the (sa_target a)) = Inr (src, tgt)"
    and r: "live_edge d' src tgt ?p = Some r" "r_id r = rid"
    and ws: "(ws = [ALREADY_DONE] \<and> relations d' = relations d \<and> events d' = events d) \<or>
     (ws = [] \<and> rid = sa_relation_id a \<and> rid \<notin> r_id ` set (relations d) \<and> r_invalid_at r = None)"
    using assms by (rule store_relation_Ok)
  have "uniq_live (relations d')"
    using store_relation_evolves[OF run, of True] assms(1)
    by (auto simp: rel_inv_def dest: rel.evolves_inv)
  then have "x = r" if "x \<in> set (relations d')" "live x" "edge_is src tgt ?p x" for x
    using live_edge_unique[of d' x src tgt ?p] that r(1) by simp
  then have "{x \<in> set (relations d'). live x \<and> edge_is src tgt ?p x} = {r}"
    using live_edge_Some[OF r(1)] by blast
  with ends r(2) ws show ?thesis by blast
qed

theorem store_relation_one_live_edge_witness:
  "\<exists>r. {x \<in> set (relations stored_db). live x \<and> edge_is ''m1'' ''m2'' ''related_to'' x} = {r} \<and> r_id r = ''r1''"
  using store_relation_one_live_edge[OF sample_inv sample_store] sample_endpoints related_to_ok(2)
  by (auto simp: sample_store_args_def trigger_community_detection_def)





text \<open>
  The error code of an unresolvable endpoint is recovered from the message text, which quotes
  the caller's reference: a reference that matches nothing at all but contains the text
  \<open>AMBIGUOUS_ID_PREFIX\<close> is answered with that code and not with \<open>UNKNOWN_ENTITY_ID\<close>.
\<close>

lemma unknown_reference_misreported:
  assumes "resolve_entity_ref d (Some raw) None = (None, [], tr)" "contains raw ''AMBIGUOUS_ID_PREFIX''"
  shows "\<exists>msg. resolve_relation_endpoint d raw label = (None, Some msg) \<and>
    entity_ref_error_code msg = ''AMBIGUOUS_ID_PREFIX''"
proof -
  let ?pre = "''Error: UNKNOWN_ENTITY_ID - could not resolve '' @ label @ '' '' @ [CHR 0x27]"
  have "sublist raw (?pre @ raw @ [CHR 0x27] @ ''.'')" by (rule sublist_appendI)
  with assms(2) have "contains (''Error: UNKNOWN_ENTITY_ID - could not resolve '' @ label @ '' '' @
      quoted raw @ ''.'') ''AMBIGUOUS_ID_PREFIX''"
    unfolding contains_def quoted_def append_assoc by (rule sublist_order.order.trans)
  then show ?thesis
    using assms(1) by (simp add: resolve_relation_endpoint_def entity_ref_error_code_def)
qed

lemma unknown_reference_misreported_witness:
  "\<exists>msg. resolve_relation_endpoint empty_db ''AMBIGUOUS_ID_PREFIX'' ''source_id'' = (None, Some msg) \<and>
    entity_ref_error_code msg = ''AMBIGUOUS_ID_PREFIX''"
proof (rule unknown_reference_misreported)
  show "resolve_entity_ref empty_db (Some ''AMBIGUOUS_ID_PREFIX'') None = (None, [], False)"
    by code_simp
  show "contains ''AMBIGUOUS_ID_PREFIX'' ''AMBIGUOUS_ID_PREFIX''" by (simp add: contains_def)
qed

end
