(* ===== verification/Core_Bootstrap.thy ===== *)
theory Core_Bootstrap
  imports Store "HOL-Library.Multiset"
begin

text \<open>
  The side-effect-free half of
  \<^verbatim>\<open>src/src/saltmdb/domain/services/core_governance_service.py\<close>: validation of the lifecycle fields
  of a core memory, the review date, the detail declarations, the rendering of the bootstrap digest,
  the bounded error report, the invariant check behind the fail-closed bootstrap response, and
  capacity admission with the overdue boundary.

  A timestamp is the number of microseconds since the epoch, in UTC; \<open>fromisoformat\<close> of the record
  \<open>env\<close> is \<open>_parse_iso_utc\<close>'s parser with the conversion to UTC included. All calls of
  \<open>datetime.now(UTC)\<close> in one operation read the same clock. A row handed to the renderer is the
  record \<open>core_entry\<close>; the active cores are \<open>entity\<close> rows.
\<close>

section \<open>Configuration\<close>

definition CORE_MAX_ACTIVE :: nat where "CORE_MAX_ACTIVE = 5"
definition CORE_MAX_CONTENT_CHARS :: nat where "CORE_MAX_CONTENT_CHARS = 2500"
definition CORE_MAX_RENDERED_CHARS :: nat where "CORE_MAX_RENDERED_CHARS = 15000"
definition CORE_REASON_MIN_CHARS :: nat where "CORE_REASON_MIN_CHARS = 20"
definition CORE_REASON_MAX_CHARS :: nat where "CORE_REASON_MAX_CHARS = 500"
definition CORE_EXIT_MIN_CHARS :: nat where "CORE_EXIT_MIN_CHARS = 20"
definition CORE_EXIT_MAX_CHARS :: nat where "CORE_EXIT_MAX_CHARS = 500"
definition CORE_REVIEW_RATIONALE_MIN_CHARS :: nat where "CORE_REVIEW_RATIONALE_MIN_CHARS = 20"
definition CORE_REVIEW_RATIONALE_MAX_CHARS :: nat where "CORE_REVIEW_RATIONALE_MAX_CHARS = 1000"
definition CORE_MAX_DETAIL_MEMORY_IDS :: nat where "CORE_MAX_DETAIL_MEMORY_IDS = 3"
definition CORE_DEFAULT_REVIEW_DAYS :: int where "CORE_DEFAULT_REVIEW_DAYS = 14"
definition CORE_MAX_REVIEW_DAYS :: int where "CORE_MAX_REVIEW_DAYS = 30"
definition CORE_BOOTSTRAP_ERROR_MAX_CHARS :: nat where "CORE_BOOTSTRAP_ERROR_MAX_CHARS = 12000"
definition BOOTSTRAP_ERROR_RESERVE_CHARS :: nat where "BOOTSTRAP_ERROR_RESERVE_CHARS = 300"

lemmas core_limits =
  CORE_MAX_ACTIVE_def CORE_MAX_CONTENT_CHARS_def CORE_MAX_RENDERED_CHARS_def
  CORE_BOOTSTRAP_ERROR_MAX_CHARS_def BOOTSTRAP_ERROR_RESERVE_CHARS_def

text \<open>\<open>timedelta(days=n)\<close>.\<close>

definition days :: "int \<Rightarrow> int" where
  "days n = n * 86400000000"

section \<open>Parsing and bounded text\<close>

text \<open>An argument of any type: what \<open>parse_is_core\<close> distinguishes.\<close>

datatype py_value = Py_None | Py_Bool bool | Py_Other

fun parse_is_core :: "py_value \<Rightarrow> exn + bool option" where
  "parse_is_core Py_None = Inr None"
| "parse_is_core (Py_Bool b) = Inr (Some b)"
| "parse_is_core Py_Other = Inl ValueError"

definition normalize_lifecycle_text :: "env \<Rightarrow> string \<Rightarrow> string" where
  "normalize_lifecycle_text \<Gamma> value =
     redact_secrets \<Gamma> (str_replace [CHR 0x0D] newline (str_replace [CHR 0x0D, CHR 0x0A] newline value))"

definition validate_bounded_text :: "env \<Rightarrow> string option \<Rightarrow> nat \<Rightarrow> nat \<Rightarrow> exn + string" where
  "validate_bounded_text \<Gamma> value min_chars max_chars =
     (if py_strip (py_or value []) = [] then Inl ValueError
      else let normalized = normalize_lifecycle_text \<Gamma> (py_strip (the value)) in
        if min_chars \<le> length normalized \<and> length normalized \<le> max_chars then Inr normalized
        else Inl ValueError)"

definition validate_core_reason :: "env \<Rightarrow> string option \<Rightarrow> exn + string" where
  "validate_core_reason \<Gamma> v = validate_bounded_text \<Gamma> v CORE_REASON_MIN_CHARS CORE_REASON_MAX_CHARS"

definition validate_core_exit_condition :: "env \<Rightarrow> string option \<Rightarrow> exn + string" where
  "validate_core_exit_condition \<Gamma> v = validate_bounded_text \<Gamma> v CORE_EXIT_MIN_CHARS CORE_EXIT_MAX_CHARS"

definition validate_core_review_rationale :: "env \<Rightarrow> string option \<Rightarrow> exn + string" where
  "validate_core_review_rationale \<Gamma> v =
     validate_bounded_text \<Gamma> v CORE_REVIEW_RATIONALE_MIN_CHARS CORE_REVIEW_RATIONALE_MAX_CHARS"

definition validate_core_content_length :: "string \<Rightarrow> exn + unit" where
  "validate_core_content_length content =
     (if length content > CORE_MAX_CONTENT_CHARS then Inl ValueError else Inr ())"

section \<open>Review dates\<close>

definition parse_core_review_after :: "env \<Rightarrow> string option \<Rightarrow> int option \<Rightarrow> exn + string" where
  "parse_core_review_after \<Gamma> value default_days =
     (case (case value of
              None \<Rightarrow> map_option (\<lambda>n. now \<Gamma> + days n) default_days
            | Some v \<Rightarrow> fromisoformat \<Gamma> v) of
        None \<Rightarrow> Inl ValueError
      | Some dt \<Rightarrow>
          if dt \<le> now \<Gamma> then Inl ValueError
          else if dt > now \<Gamma> + days CORE_MAX_REVIEW_DAYS then Inl ValueError
          else Inr (isoformat \<Gamma> dt))"

definition validate_preserved_review_after :: "env \<Rightarrow> string \<Rightarrow> exn + string" where
  "validate_preserved_review_after \<Gamma> value =
     (case fromisoformat \<Gamma> value of None \<Rightarrow> Inl ValueError | Some dt \<Rightarrow> Inr (isoformat \<Gamma> dt))"

definition is_overdue :: "env \<Rightarrow> string option \<Rightarrow> bool" where
  "is_overdue \<Gamma> core_review_after =
     (if \<not> truthy core_review_after then True
      else case fromisoformat \<Gamma> (the core_review_after) of None \<Rightarrow> True | Some dt \<Rightarrow> dt \<le> now \<Gamma>)"

section \<open>Detail declarations\<close>

text \<open>\<open>repr\<close> of a string, as the f-strings below print with \<open>!r\<close>.\<close>

definition hex_digit :: "nat \<Rightarrow> char" where
  "hex_digit n = (if n < 10 then char_of (48 + n) else char_of (87 + n))"

definition py_repr :: "string \<Rightarrow> string" where
  "py_repr s =
     (let q = (if CHR 0x27 \<in> set s \<and> CHR 0x22 \<notin> set s then CHR 0x22 else CHR 0x27);
          esc = (\<lambda>c. if c = CHR 0x5C \<or> c = q then [CHR 0x5C, c]
                     else if c = CHR 0x0A then [CHR 0x5C, CHR ''n'']
                     else if c = CHR 0x0D then [CHR 0x5C, CHR ''r'']
                     else if c = CHR 0x09 then [CHR 0x5C, CHR ''t'']
                     else if code c < 32 \<or> (127 \<le> code c \<and> code c \<le> 160) \<or> code c = 173
                     then [CHR 0x5C, CHR ''x'', hex_digit (code c div 16), hex_digit (code c mod 16)]
                     else [c])
      in [q] @ concat (map esc s) @ [q])"

text \<open>The checks raise \<open>ValueError\<close> with a message, which the bootstrap report shows: \<open>Inl\<close> is it.\<close>

definition validate_detail_reference ::
  "db \<Rightarrow> string \<Rightarrow> string \<Rightarrow> string list \<Rightarrow> string + string option" where
  "validate_detail_reference d raw_id content seen =
     (if \<not> uuid_shape (py_strip raw_id)
      then Inl (''detail_memory_ids must be full UUIDs, not prefixes or other references (got '' @
                py_repr raw_id @ '').'')
      else let uid = py_lower (py_strip raw_id) in
        if uid \<in> set seen then Inr None
        else case get_entity d uid of
          None \<Rightarrow> Inl (''detail_memory_ids references a memory that does not exist: '' @ uid)
        | Some e \<Rightarrow>
            if e_scope e \<noteq> Shared
            then Inl (''detail memory '' @ uid @ '' must be shared -- private core details are prohibited.'')
            else if e_is_core e
            then Inl (''detail memory '' @ uid @
                   '' is itself core -- a core cannot declare another core as a detail memory.'')
            else if \<not> contains content (e_title e) \<or> \<not> contains content uid
            then Inl (''Core content must mention both the canonical title and the full UUID of declared detail memory '' @
                   uid @ '' (title: '' @ py_repr (e_title e) @
                   '') -- a core must stay directly actionable even if a lazy or weaker agent never follows the link.'')
            else Inr (Some uid))"

fun validate_details :: "db \<Rightarrow> string \<Rightarrow> string list \<Rightarrow> string list \<Rightarrow> string + string list" where
  "validate_details d content normalized [] = Inr normalized"
| "validate_details d content normalized (raw # raws) =
     (case validate_detail_reference d raw content normalized of
        Inl m \<Rightarrow> Inl m
      | Inr None \<Rightarrow> validate_details d content normalized raws
      | Inr (Some uid) \<Rightarrow> validate_details d content (normalized @ [uid]) raws)"

definition validate_detail_memory_ids :: "db \<Rightarrow> string list \<Rightarrow> string \<Rightarrow> string + string list" where
  "validate_detail_memory_ids d ids content =
     (if length ids > CORE_MAX_DETAIL_MEMORY_IDS
      then Inl (''A core memory may declare at most '' @ show_nat CORE_MAX_DETAIL_MEMORY_IDS @
                '' detail_memory_ids (got '' @ show_nat (length ids) @ '').'')
      else validate_details d content [] ids)"

section \<open>Rendering\<close>

record core_entry =
  ce_id :: string
  ce_title :: string
  ce_memory_type :: "string option"
  ce_core_reason :: "string option"
  ce_core_exit_condition :: "string option"
  ce_core_review_after :: "string option"
  ce_full_content :: string

definition dq :: string where "dq = [CHR 0x22]"

definition escape_yaml_line :: "string \<Rightarrow> string" where
  "escape_yaml_line value =
     str_replace newline '' '' (str_replace dq [CHR 0x5C, CHR 0x22]
       (str_replace [CHR 0x5C] [CHR 0x5C, CHR 0x5C] value))"

definition show_opt :: "string option \<Rightarrow> string" where
  "show_opt v = (case v of None \<Rightarrow> ''None'' | Some s \<Rightarrow> s)"

definition render_core_entry :: "core_entry \<Rightarrow> bool \<Rightarrow> string" where
  "render_core_entry row due =
     (let title = escape_yaml_line (ce_title row);
          reason = escape_yaml_line (py_or (ce_core_reason row) []);
          exit_condition = escape_yaml_line (py_or (ce_core_exit_condition row) []);
          content = str_replace ''</memory>'' ''&lt;/memory&gt;'' (ce_full_content row);
          memory_type = py_or (ce_memory_type row) ''fact'';
          due_str = (if due then ''true'' else ''false'')
      in join newline
        [''<memory id='' @ dq @ ce_id row @ dq @ '' type='' @ dq @ memory_type @ dq @
           '' is_core='' @ dq @ ''true'' @ dq @ '' review_due='' @ dq @ due_str @ dq @ ''>'',
         ''---'',
         ''title: '' @ dq @ title @ dq,
         ''type: '' @ memory_type,
         ''is_core: true'',
         ''core_reason: '' @ dq @ reason @ dq,
         ''core_exit_condition: '' @ dq @ exit_condition @ dq,
         ''core_review_after: '' @ show_opt (ce_core_review_after row),
         ''review_due: '' @ due_str,
         ''---'',
         [],
         content,
         ''</memory>''])"

definition render_digest :: "env \<Rightarrow> core_entry list \<Rightarrow> bool \<Rightarrow> string" where
  "render_digest \<Gamma> rows pessimistic =
     (if rows = [] then ''<saltmdb-digest>'' @ newline @ newline @ ''</saltmdb-digest>''
      else join newline
        ([''<saltmdb-digest>'', [], ''<core-rules>''] @
         concat (map (\<lambda>row. [[], render_core_entry row
                    (if pessimistic then False else is_overdue \<Gamma> (ce_core_review_after row))]) rows) @
         [[], ''</core-rules>'', [], ''</saltmdb-digest>'']))"

definition render_bootstrap_digest :: "env \<Rightarrow> core_entry list \<Rightarrow> string" where
  "render_bootstrap_digest \<Gamma> rows = render_digest \<Gamma> rows False"

section \<open>Active cores\<close>

definition entry_of :: "entity \<Rightarrow> core_entry" where
  "entry_of e = \<lparr>ce_id = e_id e, ce_title = e_title e,
     ce_memory_type = Some (py_or (e_memory_type e) ''fact''), ce_core_reason = e_core_reason e,
     ce_core_exit_condition = e_core_exit_condition e, ce_core_review_after = e_core_review_after e,
     ce_full_content = e_content e\<rparr>"

definition active_core :: "entity \<Rightarrow> bool" where
  "active_core e \<longleftrightarrow> e_is_core e \<and> e_status e \<noteq> Archived"

definition core_sort_key :: "env \<Rightarrow> entity \<Rightarrow> nat \<times> string \<times> string \<times> string" where
  "core_sort_key \<Gamma> e =
     (if is_overdue \<Gamma> (e_core_review_after e) then 0 else 1,
      py_or (e_core_review_after e) [], e_created_at e, e_id e)"

definition load_active_cores :: "env \<Rightarrow> db \<Rightarrow> entity list" where
  "load_active_cores \<Gamma> d = sort_key (core_sort_key \<Gamma>) (filter active_core (entities d))"

record inventory_item =
  inv_id :: string
  inv_title :: string
  inv_memory_type :: string
  inv_agent_id :: "string option"
  inv_core_review_after :: "string option"
  inv_review_due :: bool
  inv_rendered_chars :: nat

definition build_inventory :: "env \<Rightarrow> entity list \<Rightarrow> inventory_item list" where
  "build_inventory \<Gamma> rows =
     map (\<lambda>e. let due = is_overdue \<Gamma> (e_core_review_after e) in
       \<lparr>inv_id = e_id e, inv_title = e_title e, inv_memory_type = py_or (e_memory_type e) ''fact'',
        inv_agent_id = e_agent_id e, inv_core_review_after = e_core_review_after e,
        inv_review_due = due, inv_rendered_chars = length (render_core_entry (entry_of e) due)\<rparr>) rows"

section \<open>The bounded error report\<close>

definition error_header :: "string list" where
  "error_header =
     [''<saltmdb-digest>'', [], ''<core-bootstrap-error>'',
      ''The active core-memory set fails one or more invariants and cannot be safely injected.'',
      ''No core content was omitted or truncated to make a partial set fit -- this is a full-stop failure.'',
      [], ''Violations:'']"

definition error_footer :: "string list" where
  "error_footer =
     [[],
      ''Rebalance autonomously: demote/archive/shorten/consolidate active core memories via '' @
      ''review_core_memory/store_memory/commit_consolidation until every invariant above holds, '' @
      ''then retry -- capacity management never requires a human decision. Do not guess a '' @
      ''partial working set; fix the violations and let the next bootstrap call re-validate the '' @
      ''full set.'',
      [], ''</core-bootstrap-error>'', [], ''</saltmdb-digest>'']"

text \<open>
  The loop that appends lines while they fit the budget: the lines kept, the characters used, and
  the number of lines left out from the first one that does not fit.
\<close>

fun take_lines :: "nat \<Rightarrow> nat \<Rightarrow> string list \<Rightarrow> string list \<times> nat \<times> nat" where
  "take_lines budget used [] = ([], used, 0)"
| "take_lines budget used (line # lines) =
     (if used + length line + 1 > budget then ([], used, Suc (length lines))
      else case take_lines budget (used + length line + 1) lines of
        (kept, used', omitted) \<Rightarrow> (line # kept, used', omitted))"

definition violation_line :: "string \<Rightarrow> string" where
  "violation_line v = ''  - '' @ escape_yaml_line v"

definition inventory_line :: "inventory_item \<Rightarrow> string" where
  "inventory_line item =
     ''  - id='' @ inv_id item @ '' title='' @ py_repr (escape_yaml_line (inv_title item)) @
     '' type='' @ inv_memory_type item @ '' agent_id='' @ show_opt (inv_agent_id item) @
     '' review_after='' @ show_opt (inv_core_review_after item) @
     '' due='' @ (if inv_review_due item then ''True'' else ''False'') @
     '' rendered_chars='' @ show_nat (inv_rendered_chars item)"

definition error_budget :: nat where
  "error_budget = CORE_BOOTSTRAP_ERROR_MAX_CHARS - length (join newline error_footer) -
     BOOTSTRAP_ERROR_RESERVE_CHARS"

definition error_counts :: "nat \<Rightarrow> nat \<Rightarrow> string list" where
  "error_counts omitted_violations active =
     [''omitted_violation_count='' @ show_nat omitted_violations,
      [],
      ''Active core count: '' @ show_nat active @ '' (limit: '' @ show_nat CORE_MAX_ACTIVE @ '')'',
      ''Compact inventory (no content):'']"

definition error_body :: "env \<Rightarrow> entity list \<Rightarrow> string list \<Rightarrow> string list" where
  "error_body \<Gamma> rows violations =
     (case take_lines error_budget (length (join newline error_header)) (map violation_line violations) of
        (kept, used, omitted_violations) \<Rightarrow>
          let counts = error_counts omitted_violations (length rows);
              used' = used + sum_list (map (\<lambda>l. length l + 1) counts)
          in case take_lines error_budget used' (map inventory_line (build_inventory \<Gamma> rows)) of
               (items, _, omitted_cores) \<Rightarrow>
                 kept @ counts @ items @ [''omitted_core_count='' @ show_nat omitted_cores])"

definition render_bootstrap_error :: "env \<Rightarrow> entity list \<Rightarrow> string list \<Rightarrow> string" where
  "render_bootstrap_error \<Gamma> rows violations =
     (let footer_text = join newline error_footer;
          result = join newline (error_header @ error_body \<Gamma> rows violations @ error_footer)
      in if length result > CORE_BOOTSTRAP_ERROR_MAX_CHARS
         then let allowed_body = CORE_BOOTSTRAP_ERROR_MAX_CHARS - length footer_text - 1
              in py_rstrip (take allowed_body result) @ newline @ footer_text
         else result)"

section \<open>Invariant violations and the bootstrap response\<close>

definition detail_id_violation :: "db \<Rightarrow> entity \<Rightarrow> string option" where
  "detail_id_violation d e =
     (case e_core_detail_memory_ids e of
        Detail_Null \<Rightarrow> None
      | Detail_Malformed \<Rightarrow> Some (e_id e @ '': core_detail_memory_ids is not valid JSON'')
      | Detail_Ids ids \<Rightarrow>
          (case validate_detail_memory_ids d ids (e_content e) of
             Inl m \<Rightarrow> Some (e_id e @ '': core_detail_memory_ids invalid -- '' @ m)
           | Inr _ \<Rightarrow> None))"

definition invariant_row_violations :: "env \<Rightarrow> db \<Rightarrow> entity \<Rightarrow> string list" where
  "invariant_row_violations \<Gamma> d e =
     (if isl (validate_core_reason \<Gamma> (e_core_reason e))
      then [e_id e @ '': core_reason missing or out of bounds''] else []) @
     (if isl (validate_core_exit_condition \<Gamma> (e_core_exit_condition e))
      then [e_id e @ '': core_exit_condition missing or out of bounds''] else []) @
     (if \<not> truthy (e_core_review_after e) then [e_id e @ '': core_review_after missing'']
      else if fromisoformat \<Gamma> (the (e_core_review_after e)) = None
      then [e_id e @ '': core_review_after malformed''] else []) @
     (if length (e_content e) > CORE_MAX_CONTENT_CHARS
      then [e_id e @ '': full_content exceeds '' @ show_nat CORE_MAX_CONTENT_CHARS @ '' characters''] else []) @
     (if e_scope e \<noteq> Shared
      then [e_id e @ '': scope must be shared -- private core memories are prohibited''] else []) @
     (case detail_id_violation d e of None \<Rightarrow> [] | Some v \<Rightarrow> [v])"

definition find_invariant_violations :: "env \<Rightarrow> entity list \<Rightarrow> db \<Rightarrow> string list" where
  "find_invariant_violations \<Gamma> rows d =
     (if length rows > CORE_MAX_ACTIVE
      then [''active core count '' @ show_nat (length rows) @ '' exceeds CORE_MAX_ACTIVE='' @
            show_nat CORE_MAX_ACTIVE] else []) @
     concat (map (invariant_row_violations \<Gamma> d) rows) @
     (let rendered = render_bootstrap_digest \<Gamma> (map entry_of rows) in
      if length rendered > CORE_MAX_RENDERED_CHARS
      then [''rendered digest '' @ show_nat (length rendered) @ '' exceeds CORE_MAX_RENDERED_CHARS='' @
            show_nat CORE_MAX_RENDERED_CHARS] else [])"

definition render_bootstrap_response :: "env \<Rightarrow> db \<Rightarrow> string" where
  "render_bootstrap_response \<Gamma> d =
     (let rows = load_active_cores \<Gamma> d;
          violations = find_invariant_violations \<Gamma> rows d
      in if violations \<noteq> [] then render_bootstrap_error \<Gamma> rows violations
         else render_bootstrap_digest \<Gamma> (map entry_of rows))"

section \<open>Capacity admission\<close>

datatype dimension = Count | Content_Length | Rendered_Size

record capacity_rejection =
  cr_violated :: "dimension list"
  cr_current_count :: nat
  cr_current_rendered :: nat
  cr_proposed_count :: nat
  cr_proposed_rendered :: nat
  cr_required_reduction :: "(dimension \<times> nat) list"
  cr_inventory :: "inventory_item list"

definition prospective_entries :: "env \<Rightarrow> db \<Rightarrow> string list \<Rightarrow> core_entry option \<Rightarrow> core_entry list" where
  "prospective_entries \<Gamma> d exclude_ids new_entry =
     map entry_of (filter (\<lambda>e. e_id e \<notin> set exclude_ids) (load_active_cores \<Gamma> d)) @
     (case new_entry of None \<Rightarrow> [] | Some n \<Rightarrow> [n])"

definition check_capacity_admission ::
  "env \<Rightarrow> db \<Rightarrow> string list \<Rightarrow> core_entry option \<Rightarrow> capacity_rejection option" where
  "check_capacity_admission \<Gamma> d exclude_ids new_entry =
     (let current = load_active_cores \<Gamma> d;
          prospective = prospective_entries \<Gamma> d exclude_ids new_entry;
          content_len = (case new_entry of None \<Rightarrow> 0 | Some n \<Rightarrow> length (ce_full_content n));
          rendered_len = length (render_digest \<Gamma> prospective True);
          violations =
            (if length prospective > CORE_MAX_ACTIVE then [Count] else []) @
            (if content_len > CORE_MAX_CONTENT_CHARS then [Content_Length] else []) @
            (if rendered_len > CORE_MAX_RENDERED_CHARS then [Rendered_Size] else [])
      in if violations = [] then None
         else Some \<lparr>cr_violated = violations, cr_current_count = length current,
           cr_current_rendered = length (render_digest \<Gamma> (map entry_of current) True),
           cr_proposed_count = length prospective, cr_proposed_rendered = rendered_len,
           cr_required_reduction = map (\<lambda>v. (v, case v of
               Count \<Rightarrow> length prospective - CORE_MAX_ACTIVE
             | Content_Length \<Rightarrow> content_len - CORE_MAX_CONTENT_CHARS
             | Rendered_Size \<Rightarrow> rendered_len - CORE_MAX_RENDERED_CHARS)) violations,
           cr_inventory = build_inventory \<Gamma> current\<rparr>)"

definition has_overdue_core :: "env \<Rightarrow> db \<Rightarrow> string option" where
  "has_overdue_core \<Gamma> d =
     map_option e_id (find_row (\<lambda>e. is_overdue \<Gamma> (e_core_review_after e)) (load_active_cores \<Gamma> d))"

definition enforce_overdue_boundary ::
  "env \<Rightarrow> db \<Rightarrow> string option \<Rightarrow> bool \<Rightarrow> bool \<Rightarrow> bool \<Rightarrow> core_entry option \<Rightarrow> exn + unit" where
  "enforce_overdue_boundary \<Gamma> d entity_id effective_is_core is_new_core review_after_changed prospective =
     (if \<not> effective_is_core then Inr ()
      else if \<not> truthy (has_overdue_core \<Gamma> d) then Inr ()
      else if is_new_core then Inl ValueError
      else if review_after_changed then Inl ValueError
      else let existing_len =
             (case (case entity_id of None \<Rightarrow> None | Some i \<Rightarrow> get_entity d i) of
                None \<Rightarrow> 0 | Some e \<Rightarrow> length (render_core_entry (entry_of e) False));
           prospective_len =
             (case prospective of None \<Rightarrow> 0 | Some n \<Rightarrow> length (render_core_entry n False))
      in if prospective_len > existing_len then Inl ValueError else Inr ())"

section \<open>Lemmas: rendering\<close>

lemma render_entry_due_le: "length (render_core_entry e due) \<le> length (render_core_entry e False)"
  by (simp add: render_core_entry_def length_join Let_def)

lemma length_digest:
  "rows \<noteq> [] \<Longrightarrow> length (render_digest \<Gamma> rows pess) = 64 + sum_list (map (\<lambda>row.
     length (render_core_entry row (if pess then False else is_overdue \<Gamma> (ce_core_review_after row))) + 2) rows)"
  (is "_ \<Longrightarrow> _ = _ + sum_list (map ?f rows)")
proof -
  assume "rows \<noteq> []"
  let ?ls = "concat (map (\<lambda>row. [[], render_core_entry row
      (if pess then False else is_overdue \<Gamma> (ce_core_review_after row))]) rows)"
  have "sum_list (map length ?ls) + length ?ls = sum_list (map ?f rows)"
    by (induction rows) auto
  with \<open>rows \<noteq> []\<close> show ?thesis
    by (simp add: render_digest_def length_join)
qed

text \<open>The pessimistic length bounds the real one at every moment and depends only on the multiset of rows.\<close>

lemma digest_pessimistic: "length (render_digest \<Gamma>' rows False) \<le> length (render_digest \<Gamma> rows True)"
proof (cases "rows = []")
  case False
  have "sum_list (map (\<lambda>row. length (render_core_entry row (is_overdue \<Gamma>' (ce_core_review_after row))) + 2) rows)
      \<le> sum_list (map (\<lambda>row. length (render_core_entry row False) + 2) rows)"
    by (rule sum_list_mono) (simp add: render_entry_due_le)
  with False show ?thesis by (simp add: length_digest)
qed (simp add: render_digest_def)

lemma digest_mset:
  assumes "mset rows = mset rows'"
  shows "length (render_digest \<Gamma> rows True) = length (render_digest \<Gamma>' rows' True)"
proof (cases "rows = []")
  case False
  then have "rows' \<noteq> []" using assms by auto
  moreover have "sum_list (map f rows) = sum_list (map f rows')" for f :: "core_entry \<Rightarrow> nat"
    using assms by (metis mset_map sum_mset_sum_list)
  ultimately show ?thesis using False by (simp add: length_digest)
qed (use assms in \<open>simp add: render_digest_def\<close>)

lemma mset_load: "mset (load_active_cores \<Gamma> d) = mset (filter active_core (entities d))"
  by (simp add: load_active_cores_def)

lemma admission_spec:
  "check_capacity_admission \<Gamma> d excl new = None \<longleftrightarrow>
     length (prospective_entries \<Gamma> d excl new) \<le> 5 \<and>
     (case new of None \<Rightarrow> True | Some n \<Rightarrow> length (ce_full_content n) \<le> 2500) \<and>
     length (render_digest \<Gamma> (prospective_entries \<Gamma> d excl new) True) \<le> 15000"
  by (auto simp: check_capacity_admission_def Let_def core_limits split: option.splits)

section \<open>Lemmas: the error report\<close>

abbreviation line_chars :: "string list \<Rightarrow> nat" where
  "line_chars ls \<equiv> sum_list (map (\<lambda>l. length l + 1) ls)"

lemma join_chars: "ls \<noteq> [] \<Longrightarrow> Suc (length (join newline ls)) = line_chars ls"
  by (induction newline ls rule: join.induct) auto

lemma length_show_nat: "n < 10 ^ k \<Longrightarrow> 0 < k \<Longrightarrow> length (show_nat n) \<le> k"
proof (induction k arbitrary: n)
  case (Suc k)
  show ?case
  proof (cases "n < 10")
    case True
    then show ?thesis by (simp add: show_nat.simps[of n])
  next
    case False
    have "k \<noteq> 0" using Suc.prems False by (cases k) auto
    moreover have "n div 10 < 10 ^ k" using Suc.prems(1) by (simp add: less_mult_imp_div_less)
    ultimately show ?thesis using Suc.IH False by (simp add: show_nat.simps[of n])
  qed
qed simp

lemma take_lines_spec:
  assumes "take_lines b u ls = (kept, u', om)"
  shows "u' = u + line_chars kept" "u' \<le> max u b" "kept = take (length kept) ls" "om = length ls - length kept"
    "length kept \<le> length ls"
proof -
  have "u' = u + line_chars kept \<and> u' \<le> max u b \<and> kept = take (length kept) ls \<and>
      om = length ls - length kept \<and> length kept \<le> length ls"
    using assms
  proof (induction b u ls arbitrary: kept u' om rule: take_lines.induct)
    case (2 b u l ls)
    show ?case
    proof (cases "u + length l + 1 > b")
      case False
      obtain k v o' where t: "take_lines b (u + length l + 1) ls = (k, v, o')" by (metis prod_cases3)
      then show ?thesis using "2.IH"[OF False t] "2.prems" False by auto
    qed (use "2.prems" in auto)
  qed simp
  then show "u' = u + line_chars kept" "u' \<le> max u b" "kept = take (length kept) ls"
    "om = length ls - length kept" "length kept \<le> length ls" by simp_all
qed

lemma footer_chars: "length (join newline error_footer) = 396"
  by (simp add: error_footer_def length_join)

lemma header_chars: "length (join newline error_header) = 239"
  by (simp add: error_header_def length_join)

lemma error_body_chars:
  assumes "length vs < 10 ^ 20" "length rows < 10 ^ 20"
  shows "length (join newline (error_header @ error_body \<Gamma> rows vs @ error_footer)) \<le> 12000"
proof -
  obtain kept u ov where k: "take_lines error_budget (length (join newline error_header)) (map violation_line vs) = (kept, u, ov)"
    by (metis prod_cases3)
  define counts where "counts = error_counts ov (length rows)"
  obtain items v oc where i: "take_lines error_budget (u + line_chars counts)
      (map inventory_line (build_inventory \<Gamma> rows)) = (items, v, oc)" by (metis prod_cases3)
  have body: "error_body \<Gamma> rows vs = kept @ counts @ items @ [''omitted_core_count='' @ show_nat oc]"
    using i by (simp add: error_body_def k Let_def counts_def)
  note ks = take_lines_spec[OF k] and si = take_lines_spec[OF i]
  have "ov < 10 ^ 20" "oc < 10 ^ 20" using ks(4) si(4) assms by (simp_all add: build_inventory_def)
  then have digits: "length (show_nat ov) \<le> 20" "length (show_nat oc) \<le> 20" "length (show_nat (length rows)) \<le> 20"
    using assms(2) by (simp_all add: length_show_nat)
  have five: "length (show_nat CORE_MAX_ACTIVE) = 1" by (simp add: CORE_MAX_ACTIVE_def show_nat.simps)
  have counts: "line_chars counts \<le> 160" using digits five by (simp add: counts_def error_counts_def)
  have b: "error_budget = 11304" by (simp add: error_budget_def footer_chars core_limits)
  have u: "u \<le> 11304" using ks(2) by (simp add: b header_chars)
  have v: "v \<le> 11304 + 160" using si(2) u counts by (simp add: b)
  have "line_chars (error_body \<Gamma> rows vs) = v - 239 + Suc (19 + length (show_nat oc))"
    using ks(1) si(1) by (simp add: body header_chars)
  then have "line_chars (error_body \<Gamma> rows vs) \<le> 11304 + 160 - 239 + 40" using v digits by simp
  moreover have "line_chars error_header = 240" "line_chars error_footer = 397"
    using join_chars[of error_header] join_chars[of error_footer] header_chars footer_chars
    by (simp_all add: error_header_def error_footer_def)
  moreover have "Suc (length (join newline (error_header @ error_body \<Gamma> rows vs @ error_footer))) =
      line_chars error_header + line_chars (error_body \<Gamma> rows vs) + line_chars error_footer"
    by (subst join_chars) (simp_all add: error_header_def)
  ultimately show ?thesis by simp
qed

lemma error_suffix: "suffix (join newline error_footer) (render_bootstrap_error \<Gamma> rows vs)"
proof -
  have "suffix (join s ys) (join s (xs @ ys))" if "ys \<noteq> []" for s xs ys
    using that
  proof (induction xs)
    case (Cons x xs)
    then show ?case by (cases "xs @ ys") (auto intro: suffix_appendI)
  qed simp
  from this[of error_footer newline "error_header @ error_body \<Gamma> rows vs"]
  show ?thesis
    by (auto simp: render_bootstrap_error_def Let_def error_footer_def intro: suffix_appendI)
qed

lemma error_chars: "length (render_bootstrap_error \<Gamma> rows vs) \<le> 12000"
proof -
  let ?r = "join newline (error_header @ error_body \<Gamma> rows vs @ error_footer)"
  have "length (py_rstrip (take (12000 - 396 - 1) ?r)) \<le> 12000 - 396 - 1"
    using length_py_rstrip[of "take (12000 - 396 - 1) ?r"] by simp
  then show ?thesis
    by (cases "length ?r > 12000")
      (simp_all add: render_bootstrap_error_def Let_def footer_chars core_limits)
qed

lemma join_sublist: "x \<in> set ls \<Longrightarrow> sublist x (join s ls)"
proof (induction s ls rule: join.induct)
  case (3 s a b ls)
  have tail: "sublist (join s (b # ls)) (a @ s @ join s (b # ls))"
    using sublist_append_leftI[of "join s (b # ls)" "a @ s"] by simp
  show ?case
  proof (cases "x = a")
    case False
    then have "sublist x (join s (b # ls))" using 3 by auto
    then have "sublist x (a @ s @ join s (b # ls))" using tail by (rule sublist_order.order.trans)
    then show ?thesis by simp
  qed simp
qed auto

lemma digest_contains:
  assumes "row \<in> set rows"
  shows "sublist (render_core_entry row (is_overdue \<Gamma> (ce_core_review_after row))) (render_bootstrap_digest \<Gamma> rows)"
proof -
  have "rows \<noteq> []" using assms by auto
  moreover have "render_core_entry row (is_overdue \<Gamma> (ce_core_review_after row)) \<in>
      set ([''<saltmdb-digest>'', [], ''<core-rules>''] @
         concat (map (\<lambda>row. [[], render_core_entry row
                    (if False then False else is_overdue \<Gamma> (ce_core_review_after row))]) rows) @
         [[], ''</core-rules>'', [], ''</saltmdb-digest>''])" using assms by force
  then have "sublist (render_core_entry row (is_overdue \<Gamma> (ce_core_review_after row))) (join newline
      ([''<saltmdb-digest>'', [], ''<core-rules>''] @
         concat (map (\<lambda>row. [[], render_core_entry row
                    (if False then False else is_overdue \<Gamma> (ce_core_review_after row))]) rows) @
         [[], ''</core-rules>'', [], ''</saltmdb-digest>'']))" by (rule join_sublist)
  ultimately show ?thesis unfolding render_bootstrap_digest_def render_digest_def by (simp only: if_False)
qed

section \<open>Lemmas: details\<close>

definition valid_detail :: "db \<Rightarrow> string \<Rightarrow> string \<Rightarrow> bool" where
  "valid_detail d content uid \<longleftrightarrow> uid \<noteq> [] \<and> py_strip uid = uid \<and> (\<exists>e. get_entity d uid = Some e \<and> e_scope e = Shared \<and> \<not> e_is_core e \<and>
     contains content (e_title e) \<and> contains content uid)"

lemma uuid_lower_stripped:
  assumes "uuid_shape s"
  shows "py_lower s \<noteq> [] \<and> py_strip (py_lower s) = py_lower s"
proof -
  have len: "length s = 36" and nth: "\<And>i. i < 36 \<Longrightarrow> s ! i = CHR ''-'' \<or> is_hex (s ! i)"
  proof -
    show "length s = 36" using assms by (simp add: uuid_shape_def)
    fix i :: nat assume "i < 36"
    then have "if i \<in> {8, 13, 18, 23} then s ! i = CHR ''-'' else is_hex (s ! i)"
      using assms unfolding uuid_shape_def list_all_iff by (metis atLeast0LessThan lessThan_iff set_upt)
    then show "s ! i = CHR ''-'' \<or> is_hex (s ! i)" by metis
  qed
  have dash: "\<not> py_space (lower_char (CHR ''-''))" by code_simp
  have cc: "code (char_of m) = m" if "m < 256" for m using that by (simp add: code_def)
  have "\<not> py_space (lower_char c)" if "is_hex c" for c
  proof (cases "65 \<le> code c \<and> code c \<le> 90")
    case True
    then show ?thesis by (simp add: lower_char_def Let_def py_space_def cc)
  next
    case False
    then have "lower_char c = c" using that by (auto simp: is_hex_def is_digit_def lower_char_def Let_def)
    then show ?thesis using that by (auto simp: is_hex_def is_digit_def py_space_def)
  qed
  with dash have ok: "\<not> py_space (lower_char c)" if "c = CHR ''-'' \<or> is_hex c" for c using that by blast
  have char: "\<not> py_space c" if c: "c \<in> set (py_lower s)" for c
  proof -
    obtain b where "b \<in> set s" "c = lower_char b" using c by (auto simp: py_lower_def)
    moreover from this obtain i where "i < 36" "b = s ! i" using len by (metis in_set_conv_nth)
    ultimately show ?thesis using ok nth by blast
  qed
  have ne: "py_lower s \<noteq> []" using len by (auto simp: py_lower_def)
  then have "hd (py_lower s) \<in> set (py_lower s)" "last (py_lower s) \<in> set (py_lower s)" by simp_all
  then have "strip_by py_space (py_lower s) = py_lower s" using char by (intro strip_by_no_effect) blast
  then show ?thesis using ne unfolding py_strip_def by blast
qed

lemma validate_detail_reference_Some:
  "validate_detail_reference d raw content seen = Inr (Some uid) \<Longrightarrow>
     uid \<notin> set seen \<and> uid = py_lower (py_strip raw) \<and> uuid_shape (py_strip raw) \<and> valid_detail d content uid"
  by (auto simp: validate_detail_reference_def valid_detail_def Let_def uuid_lower_stripped
      split: if_splits option.splits)

lemma validate_detail_reference_None:
  "validate_detail_reference d raw content seen = Inr None \<Longrightarrow> py_lower (py_strip raw) \<in> set seen"
  by (auto simp: validate_detail_reference_def Let_def split: if_splits option.splits)

lemma validate_details_spec:
  assumes "validate_details d content nrm raws = Inr ids" "distinct nrm" "\<forall>u \<in> set nrm. valid_detail d content u"
  shows "distinct ids \<and> (\<forall>u \<in> set ids. valid_detail d content u) \<and> length ids \<le> length nrm + length raws \<and>
    set ids = set nrm \<union> (\<lambda>r. py_lower (py_strip r)) ` set raws"
  using assms
proof (induction d content nrm raws rule: validate_details.induct)
  case (2 d content nrm raw raws)
  obtain v where v: "validate_detail_reference d raw content nrm = Inr v"
    using "2.prems"(1) by (cases "validate_detail_reference d raw content nrm") auto
  show ?case
  proof (cases v)
    case None
    then show ?thesis
      using "2.IH"(1)[OF v None] "2.prems" v validate_detail_reference_None[of d raw content nrm] by auto
  next
    case (Some uid)
    note u = validate_detail_reference_Some[OF v[unfolded Some]]
    then show ?thesis
      using "2.IH"(2)[OF v Some] "2.prems" v Some by auto
  qed
qed auto

lemma admission_bounds_digest_gen:
  assumes "check_capacity_admission \<Gamma> d excl new = None"
    and "mset (map entry_of (filter active_core (entities d'))) = mset (prospective_entries \<Gamma> d excl new)"
  shows "length (filter active_core (entities d')) \<le> CORE_MAX_ACTIVE \<and>
    length (render_bootstrap_digest \<Gamma>' (map entry_of (load_active_cores \<Gamma>' d'))) \<le> CORE_MAX_RENDERED_CHARS"
proof -
  have "length (filter active_core (entities d')) = length (prospective_entries \<Gamma> d excl new)"
    using mset_eq_length[OF assms(2)] by simp
  moreover have "mset (map entry_of (load_active_cores \<Gamma>' d')) = mset (prospective_entries \<Gamma> d excl new)"
    using assms(2) mset_load[of \<Gamma>' d'] by simp
  then have "length (render_digest \<Gamma>' (map entry_of (load_active_cores \<Gamma>' d')) True) =
      length (render_digest \<Gamma> (prospective_entries \<Gamma> d excl new) True)" by (rule digest_mset)
  ultimately show ?thesis
    using assms(1) digest_pessimistic[of \<Gamma>' "map entry_of (load_active_cores \<Gamma>' d')" \<Gamma>']
    by (simp add: admission_spec core_limits render_bootstrap_digest_def)
qed

section \<open>Properties\<close>

text \<open>
  The bootstrap error report is bounded: however many violations and corrupt rows there are, the
  text has at most 12000 characters and ends with the complete instructions and closing tags. For
  fewer than \<open>10 ^ 20\<close> violations and rows the budget accounting alone achieves this: the report is
  the untruncated one and the defensive truncation never runs.
\<close>

lemma bootstrap_error_bounded:
  "length (render_bootstrap_error \<Gamma> rows vs) \<le> CORE_BOOTSTRAP_ERROR_MAX_CHARS \<and>
   suffix (join newline error_footer) (render_bootstrap_error \<Gamma> rows vs) \<and>
   (length vs < 10 ^ 20 \<and> length rows < 10 ^ 20 \<longrightarrow>
     render_bootstrap_error \<Gamma> rows vs = join newline (error_header @ error_body \<Gamma> rows vs @ error_footer))"
proof (intro conjI impI)
  show "length (render_bootstrap_error \<Gamma> rows vs) \<le> CORE_BOOTSTRAP_ERROR_MAX_CHARS"
    using error_chars by (simp add: core_limits)
  show "suffix (join newline error_footer) (render_bootstrap_error \<Gamma> rows vs)" by (rule error_suffix)
  assume "length vs < 10 ^ 20 \<and> length rows < 10 ^ 20"
  then show "render_bootstrap_error \<Gamma> rows vs = join newline (error_header @ error_body \<Gamma> rows vs @ error_footer)"
    using error_body_chars[of vs rows \<Gamma>] by (simp add: render_bootstrap_error_def Let_def core_limits)
qed

lemma bootstrap_error_bounded_witness:
  "render_bootstrap_error sample_env [sample_entity] [''x''] =
     join newline (error_header @ error_body sample_env [sample_entity] [''x''] @ error_footer)"
  using bootstrap_error_bounded[of sample_env "[sample_entity]" "[''x'']"] by simp

text \<open>
  C35. The bootstrap response fails closed and never exceeds its envelope of 15000 characters. With
  no invariant violation it is the digest, which contains the whole rendered entry of every active
  core, and there are at most five, all shared, with bounded content and a parseable review
  date; with any violation it is the error report.
\<close>

theorem bootstrap_fails_closed:
  "length (render_bootstrap_response \<Gamma> d) \<le> CORE_MAX_RENDERED_CHARS \<and>
   (find_invariant_violations \<Gamma> (load_active_cores \<Gamma> d) d = [] \<longrightarrow>
      length (filter active_core (entities d)) \<le> CORE_MAX_ACTIVE \<and>
      (\<forall>e \<in> set (entities d). active_core e \<longrightarrow>
         sublist (render_core_entry (entry_of e) (is_overdue \<Gamma> (e_core_review_after e))) (render_bootstrap_response \<Gamma> d) \<and>
         e_scope e = Shared \<and> length (e_content e) \<le> CORE_MAX_CONTENT_CHARS \<and>
         fromisoformat \<Gamma> (the (e_core_review_after e)) \<noteq> None)) \<and>
   (find_invariant_violations \<Gamma> (load_active_cores \<Gamma> d) d \<noteq> [] \<longrightarrow>
      render_bootstrap_response \<Gamma> d =
        render_bootstrap_error \<Gamma> (load_active_cores \<Gamma> d) (find_invariant_violations \<Gamma> (load_active_cores \<Gamma> d) d))"
proof -
  let ?rows = "load_active_cores \<Gamma> d"
  have set: "set ?rows = {e \<in> set (entities d). active_core e}" by (auto simp: load_active_cores_def)
  have len: "length ?rows = length (filter active_core (entities d))"
    by (rule mset_eq_length[OF mset_load])
  show ?thesis
  proof (cases "find_invariant_violations \<Gamma> ?rows d = []")
    case False
    then have r: "render_bootstrap_response \<Gamma> d = render_bootstrap_error \<Gamma> ?rows (find_invariant_violations \<Gamma> ?rows d)"
      by (simp add: render_bootstrap_response_def Let_def)
    then show ?thesis using False error_chars[of \<Gamma> ?rows "find_invariant_violations \<Gamma> ?rows d"]
      unfolding r core_limits by simp
  next
    case True
    then have r: "render_bootstrap_response \<Gamma> d = render_bootstrap_digest \<Gamma> (map entry_of ?rows)"
      by (simp add: render_bootstrap_response_def)
    have count: "length ?rows \<le> CORE_MAX_ACTIVE"
      and chars: "length (render_bootstrap_digest \<Gamma> (map entry_of ?rows)) \<le> CORE_MAX_RENDERED_CHARS"
      and row: "\<forall>e \<in> set ?rows. invariant_row_violations \<Gamma> d e = []"
      using True by (auto simp: find_invariant_violations_def Let_def split: if_splits)
    have "sublist (render_core_entry (entry_of e) (is_overdue \<Gamma> (e_core_review_after e)))
        (render_bootstrap_digest \<Gamma> (map entry_of ?rows))" if "e \<in> set ?rows" for e
      using digest_contains[of "entry_of e" "map entry_of ?rows" \<Gamma>] that by (simp add: entry_of_def)
    moreover have "e_scope e = Shared \<and> length (e_content e) \<le> CORE_MAX_CONTENT_CHARS \<and>
        fromisoformat \<Gamma> (the (e_core_review_after e)) \<noteq> None" if "e \<in> set ?rows" for e
      using row that by (fastforce simp: invariant_row_violations_def split: if_splits)
    ultimately show ?thesis using True count chars len set unfolding r by auto
  qed
qed

theorem bootstrap_fails_closed_witness:
  "render_bootstrap_response sample_env sample_db = ''<saltmdb-digest>'' @ newline @ newline @ ''</saltmdb-digest>'' \<and>
   length (filter active_core (entities sample_db)) \<le> CORE_MAX_ACTIVE"
proof -
  have l: "load_active_cores sample_env sample_db = []"
    by (simp add: load_active_cores_def active_core_def sample_db_def sample_entity_def)
  have "find_invariant_violations sample_env (load_active_cores sample_env sample_db) sample_db = []"
    by (simp add: l find_invariant_violations_def render_bootstrap_digest_def render_digest_def core_limits)
  with bootstrap_fails_closed[of sample_env sample_db] show ?thesis
    by (simp add: l render_bootstrap_response_def render_bootstrap_digest_def render_digest_def)
qed



text \<open>
  A validated detail declaration is sound: it has at most three entries, all different, they
  are exactly the submitted ids in lower case, and each names an existing shared memory that is not
  itself core and whose title and id the core's content mentions.
\<close>

lemma detail_declaration_sound:
  assumes "validate_detail_memory_ids d ids content = Inr out"
  shows "length out \<le> CORE_MAX_DETAIL_MEMORY_IDS \<and> distinct out \<and>
    set out = (\<lambda>r. py_lower (py_strip r)) ` set ids \<and> (\<forall>uid \<in> set out. valid_detail d content uid)"
proof -
  have "length ids \<le> CORE_MAX_DETAIL_MEMORY_IDS" "validate_details d content [] ids = Inr out"
    using assms by (simp_all add: validate_detail_memory_ids_def split: if_splits)
  then show ?thesis using validate_details_spec[of d content "[]" ids out] by auto
qed

definition sample_uuid :: string where
  "sample_uuid = ''0000000a-0000-0000-0000-000000000000''"

definition detail_db :: db where
  "detail_db = empty_db\<lparr>entities := [sample_entity\<lparr>e_id := sample_uuid\<rparr>]\<rparr>"

lemma detail_declaration_sound_witness:
  "valid_detail detail_db (''see First '' @ sample_uuid) sample_uuid"
proof -
  have "validate_detail_memory_ids detail_db [''0000000A-0000-0000-0000-000000000000''] (''see First '' @ sample_uuid) =
      Inr [sample_uuid]"
    by code_simp
  from detail_declaration_sound[OF this] show ?thesis by simp
qed

text \<open>
  A review date the service accepts lies strictly in the future and at most 30 days ahead,
  whether supplied or defaulted. With a clock whose \<open>isoformat\<close> and \<open>fromisoformat\<close> are inverse the
  stored text is not overdue when it is accepted and becomes overdue exactly at that time.
\<close>

lemma review_date_in_window:
  assumes "parse_core_review_after \<Gamma> value default_days = Inr s"
  shows "\<exists>t. s = isoformat \<Gamma> t \<and> now \<Gamma> < t \<and> t \<le> now \<Gamma> + days CORE_MAX_REVIEW_DAYS \<and>
    (fromisoformat \<Gamma> (isoformat \<Gamma> t) = Some t \<and> isoformat \<Gamma> t \<noteq> [] \<longrightarrow>
      (\<forall>u. is_overdue (\<Gamma>\<lparr>now := u\<rparr>) (Some s) \<longleftrightarrow> t \<le> u) \<and> \<not> is_overdue \<Gamma> (Some s))"
proof -
  obtain t where "s = isoformat \<Gamma> t" "now \<Gamma> < t" "t \<le> now \<Gamma> + days CORE_MAX_REVIEW_DAYS"
    using assms by (auto simp: parse_core_review_after_def split: option.splits if_splits)
  then show ?thesis by (intro exI[of _ t]) (simp add: is_overdue_def)
qed

lemma sample_default_review:
  "parse_core_review_after sample_env None (Some CORE_DEFAULT_REVIEW_DAYS) = Inr ''1970-01-15''"
  by (simp add: parse_core_review_after_def sample_env_def days_def CORE_DEFAULT_REVIEW_DAYS_def
      CORE_MAX_REVIEW_DAYS_def)

lemma review_date_in_window_witness:
  "parse_core_review_after sample_env None (Some CORE_DEFAULT_REVIEW_DAYS) = Inr ''1970-01-15'' \<and>
   (\<exists>t. now sample_env < t \<and> t \<le> now sample_env + days CORE_MAX_REVIEW_DAYS)"
  using review_date_in_window[OF sample_default_review] sample_default_review by blast

end
