(* ===== verification/Tags.thy ===== *)
theory Tags
  imports Relations
begin

text \<open>
  Tag names, \<^verbatim>\<open>src/src/saltmdb/domain/services/memory_service/tags.py\<close>: the syntactic
  normalisation, the pre-transaction check, the resolution of a name to a canonical tag row (exact,
  normalised, plural, or a new row), and the \<open>#core\<close> label that
  \<^verbatim>\<open>memory_service/write.py\<close> keeps in step with the \<open>is_core\<close> column.

  Fresh ids are arguments: \<open>tag_id\<close> for the tag row, and a pair of event ids for the two issues the
  sanitiser may log.
\<close>

section \<open>Names\<close>

definition normalize_tag_name :: "string option \<Rightarrow> string" where
  "normalize_tag_name tag_name =
     (let name = py_strip (py_or tag_name []) in
      if name = [] then name
      else if hd name \<noteq> CHR ''#'' then CHR ''#'' # name else name)"

text \<open>The first run of two or more separators, which the rejection message quotes.\<close>

fun long_run :: "string \<Rightarrow> string option" where
  "long_run [] = None"
| "long_run (c # cs) =
     (if sep c then
        (let run = c # takeWhile sep cs in
         if 2 \<le> length run then Some run else long_run (dropWhile sep cs))
      else long_run cs)"

definition dash :: char where
  "dash = CHR ''-''"

definition sanitize_tag_body :: "string \<Rightarrow> string option \<times> string option" where
  "sanitize_tag_body body =
     (case long_run body of
        Some run \<Rightarrow> (None, Some (''tag '' @ quoted (CHR ''#'' # body) @
          '' contains adjacent separator characters ('' @ quoted run @
          '') -- this usually means a typo; check the intended tag name.''))
      | None \<Rightarrow> (Some (strip_by (\<lambda>c. c = dash) (sub_runs sep [dash] body)), None))"

text \<open>A list element that is not a \<open>str\<close> is \<open>None\<close> here; such elements and blank ones are skipped.\<close>

fun validate_tag_names :: "string option list \<Rightarrow> string option" where
  "validate_tag_names [] = None"
| "validate_tag_names (None # ts) = validate_tag_names ts"
| "validate_tag_names (Some t # ts) =
     (if py_strip t = [] then validate_tag_names ts
      else let name = normalize_tag_name (Some t);
               body = py_lower (if hd name = CHR ''#'' then tl name else name)
           in case snd (sanitize_tag_body body) of
                Some rejection \<Rightarrow> Some rejection
              | None \<Rightarrow> validate_tag_names ts)"

definition list_entity_tags :: "db \<Rightarrow> string \<Rightarrow> bool \<Rightarrow> string list" where
  "list_entity_tags d entity_id include_core =
     filter (\<lambda>n. include_core \<or> n \<noteq> ''#core'')
       (sort (concat (map (\<lambda>(e, t). if e = entity_id
                then map t_name (filter (\<lambda>r. t_id r = t) (tags d)) else []) (entity_tags d))))"

section \<open>Resolution\<close>

definition log_tag_issue :: "env \<Rightarrow> string \<Rightarrow> string option \<Rightarrow> string \<Rightarrow> db \<Rightarrow> db" where
  "log_tag_issue \<Gamma> event_id agent content d =
     snd (log_event \<Gamma> event_id (py_or agent ''system'') ''issue'' (Plain_Text content) d)"

definition sanitize_resolution_name ::
  "env \<Rightarrow> string \<times> string \<Rightarrow> string \<Rightarrow> string option \<Rightarrow> db \<Rightarrow> string \<times> db" where
  "sanitize_resolution_name \<Gamma> evs name agent d =
     (let raw_body = py_lower (tl name);
          (sanitized, rejection) = sanitize_tag_body raw_body;
          (body, d1) = (case rejection of
              Some rej \<Rightarrow>
                (filter (\<lambda>c. is_lower_alnum c \<or> c = dash) raw_body,
                 log_tag_issue \<Gamma> (fst evs) agent
                   (''Unexpected tag rejection reached resolve_or_create_tag (should have been caught pre-transaction): '' @ rej) d)
            | None \<Rightarrow> (the sanitized, d));
          name' = (if body \<noteq> [] then CHR ''#'' # body else name)
      in if name' \<noteq> name
         then (name', log_tag_issue \<Gamma> (snd evs) agent
                (''Tag name sanitized during resolve_or_create_tag: '' @ quoted name @ '' -> '' @ quoted name') d1)
         else (name, d1))"

definition canonical_tag_id :: "tag option \<Rightarrow> string option" where
  "canonical_tag_id row = map_option (\<lambda>r. py_or (t_canonical_id r) (t_id r)) row"

definition resolve_exact_tag :: "db \<Rightarrow> string \<Rightarrow> string option" where
  "resolve_exact_tag d name = canonical_tag_id (find_row (\<lambda>r. t_name r = name) (tags d))"

definition resolve_normalized_tag :: "db \<Rightarrow> string \<Rightarrow> string option" where
  "resolve_normalized_tag d nrm =
     canonical_tag_id (find_row (\<lambda>r. t_normalized_name r = Some nrm \<or>
       ascii_lower (filter (\<lambda>c. c \<noteq> CHR ''#'' \<and> c \<noteq> dash \<and> c \<noteq> CHR ''_'') (t_name r)) = nrm) (tags d))"

text \<open>\<open>re.sub(r"[-_\s]+", "", name.lower().lstrip("#"))\<close>.\<close>

definition tag_norm :: "string \<Rightarrow> string" where
  "tag_norm name = filter (\<lambda>c. c \<noteq> dash \<and> c \<noteq> CHR ''_'' \<and> \<not> py_space c)
     (dropWhile (\<lambda>c. c = CHR ''#'') (py_lower name))"

definition rstrip_s :: "string \<Rightarrow> string" where
  "rstrip_s s = rev (dropWhile (\<lambda>c. c = CHR ''s'') (rev s))"

definition resolve_plural_tag :: "db \<Rightarrow> string \<Rightarrow> string option" where
  "resolve_plural_tag d nrm =
     (if length nrm \<le> 3 then None
      else canonical_tag_id (find_row (\<lambda>r.
             let existing = py_or (t_normalized_name r) (tag_norm (t_name r))
             in length existing > 3 \<and> rstrip_s nrm = rstrip_s existing) (tags d)))"

definition find_tag :: "db \<Rightarrow> string \<Rightarrow> string option" where
  "find_tag d name =
     (if truthy (resolve_exact_tag d name) then resolve_exact_tag d name
      else if truthy (resolve_normalized_tag d (tag_norm name)) then resolve_normalized_tag d (tag_norm name)
      else if truthy (resolve_plural_tag d (tag_norm name)) then resolve_plural_tag d (tag_norm name)
      else None)"

definition resolve_or_create_tag ::
  "env \<Rightarrow> string \<Rightarrow> string \<times> string \<Rightarrow> string option \<Rightarrow> string option \<Rightarrow> string option act" where
  "resolve_or_create_tag \<Gamma> tag_id evs tag_name agent d =
     (let name0 = normalize_tag_name tag_name in
      if name0 = [] \<or> name0 = ''#'' then (Inr None, d)
      else case sanitize_resolution_name \<Gamma> evs name0 agent d of
        (name, d1) \<Rightarrow>
          if name = [] \<or> name = ''#'' then (Inr None, d1)
          else case find_tag d1 name of
            Some i \<Rightarrow> (Inr (Some i), d1)
          | None \<Rightarrow>
              if tag_id \<in> t_id ` set (tags d1) \<or> name \<in> t_name ` set (tags d1)
              then (Inl IntegrityError, d1)
              else (Inr (Some tag_id),
                    d1\<lparr>tags := tags d1 @ [\<lparr>t_id = tag_id, t_name = name,
                          t_normalized_name = Some (tag_norm name), t_canonical_id = None\<rparr>]\<rparr>))"

section \<open>The core label\<close>

text \<open>\<open>INSERT OR IGNORE\<close> and \<open>DELETE\<close> on the join table.\<close>

definition attach_tag :: "string \<Rightarrow> string \<Rightarrow> db \<Rightarrow> db" where
  "attach_tag e t d =
     (if (e, t) \<in> set (entity_tags d) then d else d\<lparr>entity_tags := entity_tags d @ [(e, t)]\<rparr>)"

definition detach_tag :: "string \<Rightarrow> string \<Rightarrow> db \<Rightarrow> db" where
  "detach_tag e t d = d\<lparr>entity_tags := filter (\<lambda>p. p \<noteq> (e, t)) (entity_tags d)\<rparr>"

definition sync_raw_core_tag ::
  "env \<Rightarrow> string \<Rightarrow> string \<times> string \<Rightarrow> string \<Rightarrow> string option \<Rightarrow> unit act" where
  "sync_raw_core_tag \<Gamma> tag_id evs entity_id agent d =
     (let is_core = (case get_entity d entity_id of Some e \<Rightarrow> e_is_core e | None \<Rightarrow> False) in
      case resolve_or_create_tag \<Gamma> tag_id evs (Some ''#core'') agent d of
        (Inl e, d1) \<Rightarrow> (Inl e, d1)
      | (Inr t, d1) \<Rightarrow>
          (Inr (), if \<not> truthy t then d1
                   else if is_core then attach_tag entity_id (the t) d1
                   else detach_tag entity_id (the t) d1))"

section \<open>Lemmas: names\<close>

lemma long_run_None: "long_run s = None \<longleftrightarrow> no_double sep s"
proof (induction s rule: long_run.induct)
  case (2 c cs)
  show ?case
  proof (cases cs)
    case (Cons x xs)
    then show ?thesis
      using 2 by (cases "sep c"; cases "sep x") (auto simp: Let_def)
  qed simp
qed simp

lemma sub_runs_no_double:
  "no_double P s \<Longrightarrow> sub_runs P [r] s = map (\<lambda>c. if P c then r else c) s"
proof (induction P s rule: no_double.induct)
  case (3 P c d cs)
  then show ?case by (cases "P d") auto
qed auto

text \<open>A well-formed tag name, the pattern \<open>^#[a-z0-9][a-z0-9-]*$\<close>.\<close>

definition tag_shape :: "string \<Rightarrow> bool" where
  "tag_shape n \<longleftrightarrow> 2 \<le> length n \<and> hd n = CHR ''#'' \<and> is_lower_alnum (n ! 1) \<and>
     (\<forall>c \<in> set (tl n). is_lower_alnum c \<or> c = dash)"

lemma sanitize_shape:
  assumes "sanitize_tag_body body = (Some s, None)" "s \<noteq> []"
  shows "tag_shape (CHR ''#'' # s)"
proof -
  have nd: "no_double sep body" and s: "s = strip_by (\<lambda>c. c = dash) (sub_runs sep [dash] body)"
    using assms(1) by (auto simp: sanitize_tag_body_def long_run_None[symmetric] split: option.splits)
  obtain a b where "sub_runs sep [dash] body = a @ s @ b" using strip_by_infix s by metis
  moreover have "c \<in> set (sub_runs sep [dash] body) \<Longrightarrow> is_lower_alnum c \<or> c = dash" for c
    by (auto simp: sub_runs_no_double[OF nd] split: if_splits)
  ultimately have chars: "\<forall>c \<in> set s. is_lower_alnum c \<or> c = dash" by auto
  then have "is_lower_alnum (hd s)"
    using strip_by_ends[of "\<lambda>c. c = dash" "sub_runs sep [dash] body"] s assms(2) by (metis hd_in_set)
  then show ?thesis
    using chars assms(2) by (cases s) (auto simp: tag_shape_def)
qed

lemma sanitize_tag_body_cases:
  "(\<exists>s. sanitize_tag_body b = (Some s, None)) \<or> (\<exists>m. sanitize_tag_body b = (None, Some m))"
  by (simp add: sanitize_tag_body_def split: option.splits)

section \<open>Lemmas: resolution\<close>

lemma log_tag_issue_frame [frame_simps]:
  "tags (log_tag_issue \<Gamma> ev agent c d) = tags d"
  "entities (log_tag_issue \<Gamma> ev agent c d) = entities d"
  "relations (log_tag_issue \<Gamma> ev agent c d) = relations d"
  "entity_tags (log_tag_issue \<Gamma> ev agent c d) = entity_tags d"
  by (simp_all add: log_tag_issue_def log_event_def Let_def)

text \<open>The sanitised name does not depend on the store, and sanitising only logs.\<close>

lemma sanitize_resolution_frame:
  assumes "sanitize_resolution_name \<Gamma> evs name agent d = (n, d1)"
  shows "tags d1 = tags d \<and> entities d1 = entities d \<and> relations d1 = relations d \<and>
    entity_tags d1 = entity_tags d \<and> n = fst (sanitize_resolution_name \<Gamma>' evs' name agent' d')"
proof -
  obtain s r where sr: "sanitize_tag_body (py_lower (tl name)) = (s, r)" by fastforce
  show ?thesis
    using assms
    by (cases r) (auto simp: sanitize_resolution_name_def sr Let_def frame_simps split: if_splits)
qed

lemma sanitized_name_stable:
  "fst (sanitize_resolution_name \<Gamma> evs name agent d) = fst (sanitize_resolution_name \<Gamma>' evs' name agent' d')"
proof -
  obtain n d1 where "sanitize_resolution_name \<Gamma> evs name agent d = (n, d1)" by fastforce
  from this sanitize_resolution_frame[OF this, of \<Gamma>' evs' agent' d'] show ?thesis by simp
qed

lemma find_tag_cong: "tags d' = tags d \<Longrightarrow> find_tag d' name = find_tag d name"
  by (simp add: find_tag_def resolve_exact_tag_def resolve_normalized_tag_def resolve_plural_tag_def)

lemma find_tag_truthy: "find_tag d name = Some i \<Longrightarrow> i \<noteq> []"
  by (auto simp: find_tag_def truthy_iff split: if_splits)

lemma find_tag_absent:
  assumes "find_tag d name = None" "\<forall>t \<in> set (tags d). t_id t \<noteq> []"
  shows "name \<notin> t_name ` set (tags d)"
proof
  assume "name \<in> t_name ` set (tags d)"
  then have "find_row (\<lambda>r. t_name r = name) (tags d) \<noteq> None" by (auto simp: find_row_None)
  then obtain r where r: "find_row (\<lambda>r. t_name r = name) (tags d) = Some r" by auto
  then have "t_id r \<noteq> []" using assms(2) find_row_Some[OF r] by simp
  then have "truthy (resolve_exact_tag d name)"
    using r by (cases "t_canonical_id r") (simp_all add: resolve_exact_tag_def canonical_tag_id_def)
  then show False using assms(1) by (auto simp: find_tag_def truthy_iff split: if_splits)
qed

abbreviation new_tag :: "string \<Rightarrow> string \<Rightarrow> tag" where
  "new_tag i n \<equiv> \<lparr>t_id = i, t_name = n, t_normalized_name = Some (tag_norm n), t_canonical_id = None\<rparr>"

lemma find_tag_new:
  assumes "name \<notin> t_name ` set (tags d)" "i \<noteq> []" "tags d' = tags d @ [new_tag i name]"
  shows "find_tag d' name = Some i"
proof -
  have "find_row (\<lambda>r. t_name r = name) (tags d) = None" using assms(1) by (auto simp: find_row_None)
  then have "resolve_exact_tag d' name = Some i"
    by (simp add: resolve_exact_tag_def assms(3) find_row_append canonical_tag_id_def)
  then show ?thesis using assms(2) by (simp add: find_tag_def)
qed

lemma resolve_or_create_tag_cases:
  assumes "resolve_or_create_tag \<Gamma> tid evs tn agent d = (r, d')"
  defines "n0 \<equiv> normalize_tag_name tn"
  defines "n \<equiv> fst (sanitize_resolution_name \<Gamma> evs n0 agent d)"
  obtains
    (blank) "r = Inr None" "n0 = [] \<or> n0 = ''#'' \<or> n = [] \<or> n = ''#''" "tags d' = tags d"
      "entities d' = entities d" "relations d' = relations d" "entity_tags d' = entity_tags d"
  | (found) i where "n0 \<noteq> []" "n0 \<noteq> ''#''" "n \<noteq> []" "n \<noteq> ''#''" "find_tag d n = Some i" "r = Inr (Some i)"
      "tags d' = tags d" "entities d' = entities d" "relations d' = relations d" "entity_tags d' = entity_tags d"
  | (clash) "r = Inl IntegrityError" "find_tag d n = None"
      "tid \<in> t_id ` set (tags d) \<or> n \<in> t_name ` set (tags d)" "tags d' = tags d"
      "entities d' = entities d" "relations d' = relations d" "entity_tags d' = entity_tags d"
  | (created) "n0 \<noteq> []" "n0 \<noteq> ''#''" "n \<noteq> []" "n \<noteq> ''#''" "find_tag d n = None" "tid \<notin> t_id ` set (tags d)"
      "n \<notin> t_name ` set (tags d)" "r = Inr (Some tid)" "tags d' = tags d @ [new_tag tid n]"
      "entities d' = entities d" "relations d' = relations d" "entity_tags d' = entity_tags d"
proof (cases "n0 = [] \<or> n0 = ''#''")
  case True
  then have "r = Inr None \<and> d' = d" using assms(1) unfolding n0_def by (auto simp: resolve_or_create_tag_def)
  then show thesis using True by (intro blank) auto
next
  case ne: False
  obtain d1 where s: "sanitize_resolution_name \<Gamma> evs n0 agent d = (n, d1)"
    by (simp add: n_def prod_eq_iff)
  note fr = sanitize_resolution_frame[OF s]
  have run: "(r, d') = (if n = [] \<or> n = ''#'' then (Inr None, d1)
      else case find_tag d1 n of Some i \<Rightarrow> (Inr (Some i), d1)
        | None \<Rightarrow> if tid \<in> t_id ` set (tags d1) \<or> n \<in> t_name ` set (tags d1)
              then (Inl IntegrityError, d1)
              else (Inr (Some tid), d1\<lparr>tags := tags d1 @ [new_tag tid n]\<rparr>))"
    using assms(1)[symmetric] ne s unfolding n0_def
    by (simp add: resolve_or_create_tag_def Let_def)
  show thesis
  proof (cases "n = [] \<or> n = ''#''")
    case True
    then show thesis using run fr by (intro blank) auto
  next
    case nn: False
    show thesis
    proof (cases "find_tag d n")
      case (Some i)
      then show thesis using run nn ne fr find_tag_cong[of d1 d n] by (intro found[of i]) simp_all
    next
      case None
      then have f1: "find_tag d1 n = None" using fr find_tag_cong[of d1 d n] by simp
      show thesis
      proof (cases "tid \<in> t_id ` set (tags d) \<or> n \<in> t_name ` set (tags d)")
        case True
        then show thesis using run nn None f1 fr by (intro clash) simp_all
      next
        case False
        then show thesis using run nn ne None f1 fr by (intro created) simp_all
      qed
    qed
  qed
qed

lemma validated_not_rejected:
  assumes "validate_tag_names ts = None" "Some t \<in> set ts" "py_strip t \<noteq> []"
  shows "snd (sanitize_tag_body (py_lower (tl (normalize_tag_name (Some t))))) = None"
  using assms
proof (induction ts rule: validate_tag_names.induct)
  case (3 u ts)
  have hash: "py_strip u \<noteq> [] \<Longrightarrow> hd (normalize_tag_name (Some u)) = CHR ''#''"
    by (cases "u = []") (simp_all add: normalize_tag_name_def Let_def)
  have rest: "validate_tag_names ts = None"
    using "3.prems"(1) by (simp add: Let_def split: if_splits option.splits)
  show ?case
  proof (cases "u = t")
    case True
    then show ?thesis
      using "3.prems" hash by (simp add: Let_def split: option.splits)
  next
    case False
    then have "Some t \<in> set ts" using "3.prems"(2) by simp
    then show ?thesis
      using "3.IH" "3.prems"(1,3) rest by (simp add: Let_def split: if_splits option.splits)
  qed
qed auto

lemma strip_by_Nil: "strip_by P s = [] \<Longrightarrow> c \<in> set s \<Longrightarrow> P c"
proof -
  assume "strip_by P s = []" "c \<in> set s"
  then have "\<forall>c \<in> set (dropWhile P s). P c"
    by (simp add: strip_by_def)
  then have "dropWhile P s = []"
    by (metis hd_dropWhile hd_in_set)
  then show "P c" using \<open>c \<in> set s\<close> by (metis dropWhile_eq_Nil_conv)
qed

lemma sanitize_empty_body:
  assumes "sanitize_tag_body body = (Some [], None)" "c \<in> set body"
  shows "\<not> is_lower_alnum c"
proof
  assume c: "is_lower_alnum c"
  have nd: "no_double sep body" and s: "strip_by (\<lambda>c. c = dash) (sub_runs sep [dash] body) = []"
    using assms(1) by (auto simp: sanitize_tag_body_def long_run_None[symmetric] split: option.splits)
  have "c \<in> set (sub_runs sep [dash] body)"
    using assms(2) c by (force simp: sub_runs_no_double[OF nd])
  then have "c = dash" by (rule strip_by_Nil[OF s])
  then show False using c by (simp add: dash_def is_lower_alnum_def code_def)
qed

lemma sanitized_shape:
  assumes "snd (sanitize_tag_body (py_lower (tl name))) = None"
  shows "tag_shape (fst (sanitize_resolution_name \<Gamma> evs name agent d)) \<or>
    fst (sanitize_resolution_name \<Gamma> evs name agent d) = name \<and>
      (\<forall>c \<in> set (py_lower (tl name)). \<not> is_lower_alnum c)"
proof -
  obtain s where s: "sanitize_tag_body (py_lower (tl name)) = (Some s, None)"
    using sanitize_tag_body_cases[of "py_lower (tl name)"] assms by auto
  show ?thesis
  proof (cases "s = []")
    case True
    then show ?thesis using s sanitize_empty_body by (auto simp: sanitize_resolution_name_def Let_def)
  next
    case False
    then show ?thesis
      using s sanitize_shape[OF s] by (auto simp: sanitize_resolution_name_def Let_def)
  qed
qed

lemma core_name:
  "normalize_tag_name (Some ''#core'') = ''#core''"
  "fst (sanitize_resolution_name \<Gamma> evs ''#core'' agent d) = ''#core''"
proof -
  have "sanitize_tag_body (py_lower ''core'') = (Some ''core'', None)" by code_simp
  then show "fst (sanitize_resolution_name \<Gamma> evs ''#core'' agent d) = ''#core''"
    by (simp add: sanitize_resolution_name_def Let_def)
qed code_simp

section \<open>Properties\<close>

text \<open>
  Tag resolution is stable and keeps the tag table. A call that returns an id either found a
  canonical tag or appended one row whose name is new; existing rows are never changed. Resolving
  the same name again, with whatever fresh ids, returns the same id and appends nothing.
\<close>

lemma resolve_tag_stable:
  assumes run: "resolve_or_create_tag \<Gamma> tid evs tn agent d = (Inr (Some i), d1)" and "tid \<noteq> []"
  shows "(tags d1 = tags d \<or>
      (\<exists>n. tags d1 = tags d @ [new_tag tid n] \<and> i = tid \<and> tid \<notin> t_id ` set (tags d) \<and>
         n \<notin> t_name ` set (tags d))) \<and>
    (\<exists>d2. resolve_or_create_tag \<Gamma>' tid' evs' tn agent' d1 = (Inr (Some i), d2) \<and> tags d2 = tags d1)"
proof -
  let ?raw = "normalize_tag_name tn"
  let ?clean = "fst (sanitize_resolution_name \<Gamma> evs ?raw agent d)"
  have same: "fst (sanitize_resolution_name \<Gamma>' evs' ?raw agent' d1) = ?clean"
    by (rule sanitized_name_stable)
  have facts: "(tags d1 = tags d \<or>
      (\<exists>n. tags d1 = tags d @ [new_tag tid n] \<and> i = tid \<and> tid \<notin> t_id ` set (tags d) \<and>
         n \<notin> t_name ` set (tags d))) \<and> find_tag d1 ?clean = Some i \<and>
      ?raw \<noteq> [] \<and> ?raw \<noteq> ''#'' \<and> ?clean \<noteq> [] \<and> ?clean \<noteq> ''#''"
    using run
  proof (cases rule: resolve_or_create_tag_cases)
    case (found i')
    then show ?thesis using find_tag_cong[of d1 d] by simp
  next
    case created
    then show ?thesis using find_tag_new[OF created(7) assms(2) created(9)] by auto
  qed simp_all
  obtain r d2 where r2: "resolve_or_create_tag \<Gamma>' tid' evs' tn agent' d1 = (r, d2)" by fastforce
  then have "r = Inr (Some i) \<and> tags d2 = tags d1"
    by (cases rule: resolve_or_create_tag_cases) (use facts same in simp_all)
  then show ?thesis using facts r2 by simp
qed

lemma resolve_tag_stable_witness:
  "\<exists>d1 d2. resolve_or_create_tag sample_env ''t1'' (''v'', ''w'') (Some ''Hot Topics'') None empty_db = (Inr (Some ''t1''), d1) \<and>
     resolve_or_create_tag sample_env ''t2'' (''x'', ''y'') (Some ''Hot Topics'') None d1 = (Inr (Some ''t1''), d2) \<and>
     tags d2 = tags d1"
proof -
  have e: "tags empty_db = []" by (simp add: empty_db_def)
  have n0: "normalize_tag_name (Some ''Hot Topics'') = ''#Hot Topics''" by code_simp
  obtain n dn where s: "sanitize_resolution_name sample_env (''v'', ''w'') ''#Hot Topics'' None empty_db = (n, dn)"
    by fastforce
  have b: "sanitize_tag_body (py_lower ''Hot Topics'') = (Some ''hot-topics'', None)" by code_simp
  then have n: "n = ''#hot-topics''" using s by (simp add: sanitize_resolution_name_def Let_def)
  obtain r d1 where run: "resolve_or_create_tag sample_env ''t1'' (''v'', ''w'') (Some ''Hot Topics'') None empty_db = (r, d1)"
    by fastforce
  have "find_tag empty_db n = None" for n
    by (simp add: find_tag_def resolve_exact_tag_def resolve_normalized_tag_def resolve_plural_tag_def
        canonical_tag_id_def e)
  with run have "r = Inr (Some ''t1'')"
    by (cases rule: resolve_or_create_tag_cases) (use n0 s n in \<open>simp_all add: e\<close>)
  with run have run1: "resolve_or_create_tag sample_env ''t1'' (''v'', ''w'') (Some ''Hot Topics'') None empty_db =
      (Inr (Some ''t1''), d1)" by simp
  from resolve_tag_stable[OF run1, of sample_env "''t2''" "(''x'', ''y'')" None] run1 show ?thesis by auto
qed

text \<open>
  The pre-transaction check is the right one: for a tag list that \<open>validate_tag_names\<close> accepts,
  resolving any of its names never meets the separator rejection inside the transaction, and a
  row it appends has a name of the shape \<open>#[a-z0-9][a-z0-9-]*\<close>, except that a name without a
  single letter or digit is taken over verbatim.
\<close>

lemma validated_tags_well_formed:
  assumes "validate_tag_names ts = None" "Some t \<in> set ts" "py_strip t \<noteq> []"
    and run: "resolve_or_create_tag \<Gamma> tid evs (Some t) agent d = (r, d')"
  shows "snd (sanitize_tag_body (py_lower (tl (normalize_tag_name (Some t))))) = None \<and>
    (\<forall>n. tags d' = tags d @ [new_tag tid n] \<longrightarrow> tag_shape n \<or>
       n = normalize_tag_name (Some t) \<and> (\<forall>c \<in> set (py_lower (tl n)). \<not> is_lower_alnum c))"
proof (intro conjI allI impI)
  show ok: "snd (sanitize_tag_body (py_lower (tl (normalize_tag_name (Some t))))) = None"
    using assms(1-3) by (rule validated_not_rejected)
  fix n assume n: "tags d' = tags d @ [new_tag tid n]"
  show "tag_shape n \<or>
       n = normalize_tag_name (Some t) \<and> (\<forall>c \<in> set (py_lower (tl n)). \<not> is_lower_alnum c)"
    using run
  proof (cases rule: resolve_or_create_tag_cases)
    case created
    then show ?thesis using n sanitized_shape[OF ok, of \<Gamma> evs agent d] by auto
  qed (use n in simp_all)
qed

lemma validated_tags_well_formed_witness:
  "validate_tag_names [None, Some ''Hot Topics''] = None \<and>
   snd (sanitize_tag_body (py_lower (tl (normalize_tag_name (Some ''Hot Topics''))))) = None"
proof -
  have v: "validate_tag_names [None, Some ''Hot Topics''] = None" by code_simp
  obtain r d' where "resolve_or_create_tag sample_env ''t1'' (''v'', ''w'') (Some ''Hot Topics'') None empty_db = (r, d')"
    by fastforce
  moreover have "py_strip ''Hot Topics'' \<noteq> []" by code_simp
  ultimately show ?thesis using validated_tags_well_formed[OF v, of "''Hot Topics''"] v by simp
qed

text \<open>
  The \<open>#core\<close> label follows the \<open>is_core\<close> column: after \<open>_sync_raw_core_tag\<close> an existing memory
  carries the canonical \<open>#core\<close> tag exactly when it is core, and no other label of any memory
  changed.
\<close>

lemma core_tag_synced:
  assumes run: "sync_raw_core_tag \<Gamma> tid evs eid agent d = (Inr (), d')"
    and e: "get_entity d eid = Some e" and tid: "tid \<noteq> []"
  shows "\<exists>t. find_tag d' ''#core'' = Some t \<and> ((eid, t) \<in> set (entity_tags d') \<longleftrightarrow> e_is_core e) \<and>
    (\<forall>p. p \<noteq> (eid, t) \<longrightarrow> p \<in> set (entity_tags d') \<longleftrightarrow> p \<in> set (entity_tags d)) \<and>
    entities d' = entities d"
proof -
  obtain r d1 where r: "resolve_or_create_tag \<Gamma> tid evs (Some ''#core'') agent d = (r, d1)" by fastforce
  then have facts: "\<exists>t. (isl r \<or> r = Inr (Some t) \<and> t \<noteq> [] \<and> find_tag d1 ''#core'' = Some t) \<and>
      entity_tags d1 = entity_tags d \<and> entities d1 = entities d"
  proof (cases rule: resolve_or_create_tag_cases)
    case (found i)
    then have "find_tag d1 ''#core'' = Some i" using find_tag_cong[of d1 d] by (simp add: core_name)
    then show ?thesis using found find_tag_truthy by blast
  next
    case created
    then have "find_tag d1 ''#core'' = Some tid"
      using find_tag_new[OF _ tid] by (simp add: core_name)
    then show ?thesis using created tid by blast
  qed (simp_all add: core_name)
  obtain t where t: "r = Inr (Some t)" "t \<noteq> []" "find_tag d1 ''#core'' = Some t"
    "entity_tags d1 = entity_tags d" "entities d1 = entities d"
    using facts run r by (auto simp: sync_raw_core_tag_def isl_def)
  have d': "d' = (if e_is_core e then attach_tag eid t d1 else detach_tag eid t d1)"
    using run r t e by (cases "e_is_core e") (simp_all add: sync_raw_core_tag_def)
  have "tags d' = tags d1" "entities d' = entities d1" "(eid, t) \<in> set (entity_tags d') \<longleftrightarrow> e_is_core e"
    "\<forall>p. p \<noteq> (eid, t) \<longrightarrow> p \<in> set (entity_tags d') \<longleftrightarrow> p \<in> set (entity_tags d1)"
    unfolding d' by (auto simp: attach_tag_def detach_tag_def)
  then show ?thesis using t find_tag_cong[of d' d1] by auto
qed

lemma core_tag_synced_witness:
  "\<exists>d' t. sync_raw_core_tag sample_env ''t1'' (''v'', ''w'') ''m1'' None sample_db = (Inr (), d') \<and>
    find_tag d' ''#core'' = Some t \<and> (''m1'', t) \<notin> set (entity_tags d')"
proof -
  have e: "get_entity sample_db ''m1'' = Some sample_entity"
    by (simp add: get_entity_def sample_db_def sample_entity_def)
  have tags: "tags sample_db = []" by (simp add: sample_db_def empty_db_def)
  obtain r d1 where r: "resolve_or_create_tag sample_env ''t1'' (''v'', ''w'') (Some ''#core'') None sample_db = (r, d1)"
    by fastforce
  then have "\<not> isl r"
    by (cases rule: resolve_or_create_tag_cases) (use tags in simp_all)
  then obtain d' where run: "sync_raw_core_tag sample_env ''t1'' (''v'', ''w'') ''m1'' None sample_db = (Inr (), d')"
    using r by (cases r) (simp_all add: sync_raw_core_tag_def)
  have "\<not> e_is_core sample_entity" by (simp add: sample_entity_def)
  with core_tag_synced[OF run e] run show ?thesis by blast
qed

text \<open>
  A tag name without any letter or digit is not refused: on a store without tags the name
  \<open>-\<close> creates the row \<open>#-\<close>, where the documentation of \<open>resolve_or_create_tag\<close> promises \<open>None\<close> for a
  name that is unsalvageable after sanitisation.
\<close>

lemma unsalvageable_tag_created:
  assumes "tags d = []"
  shows "\<exists>d'. resolve_or_create_tag \<Gamma> tid evs (Some ''-'') agent d = (Inr (Some tid), d') \<and>
    map t_name (tags d') = [''#-'']"
proof -
  have n: "normalize_tag_name (Some ''-'') = ''#-''" by code_simp
  have "sanitize_tag_body (py_lower ''-'') = (Some [], None)" by code_simp
  then have s: "fst (sanitize_resolution_name \<Gamma> evs ''#-'' agent d) = ''#-''"
    by (simp add: sanitize_resolution_name_def)
  have f: "find_tag d x = None" for x
    by (simp add: find_tag_def resolve_exact_tag_def resolve_normalized_tag_def resolve_plural_tag_def
        canonical_tag_id_def assms)
  obtain r d' where run: "resolve_or_create_tag \<Gamma> tid evs (Some ''-'') agent d = (r, d')" by fastforce
  then have "r = Inr (Some tid) \<and> map t_name (tags d') = [''#-'']"
    by (cases rule: resolve_or_create_tag_cases) (use n s f assms in simp_all)
  then show ?thesis using run by simp
qed

lemma unsalvageable_tag_created_witness:
  "\<exists>d'. resolve_or_create_tag sample_env ''t1'' (''v'', ''w'') (Some ''-'') None empty_db = (Inr (Some ''t1''), d') \<and>
    map t_name (tags d') = [''#-'']"
  by (rule unsalvageable_tag_created) (simp add: empty_db_def)

end
