(* ===== verification/Core_Governance.thy ===== *)
theory Core_Governance
  imports Core_Bootstrap Tags
begin

text \<open>
  The state-changing half of
  \<^verbatim>\<open>src/src/saltmdb/domain/services/core_governance_service.py\<close>: resolution of the core state a write
  will persist (store, consolidation, derived replacement), the promotion \<open>set_core_memory\<close> with its
  detail edges and \<open>#core\<close> label, and \<open>review_core_memory\<close> with its three outcomes; with
  \<open>_owned_memory_target\<close> and \<open>_archive_entity_unchecked\<close> of \<^verbatim>\<open>memory_service/lifecycle.py\<close>.

  The embedding-job tables that archiving also clears are not modelled. A removed detail edge is
  invalidated in the order of the previous declaration, where the code iterates over a set.
\<close>

section \<open>Resolving the core state of a write\<close>

record core_state =
  cs_is_core :: bool
  cs_is_new_core :: bool
  cs_review_after_changed :: bool
  cs_core_reason :: "string option"
  cs_core_exit_condition :: "string option"
  cs_core_review_after :: "string option"
  cs_core_detail_memory_ids :: "string list"
  cs_previous_detail_memory_ids :: "string list"

definition resolve_effective_memory_type :: "db \<Rightarrow> string option \<Rightarrow> string option \<Rightarrow> string" where
  "resolve_effective_memory_type d entity_id requested =
     (case requested of
        Some t \<Rightarrow> t
      | None \<Rightarrow>
          if truthy entity_id then
            (case get_entity d (the entity_id) of
               Some e \<Rightarrow> py_or (e_memory_type e) ''fact''
             | None \<Rightarrow> ''fact'')
          else ''fact'')"

definition non_core_state :: "string list \<Rightarrow> core_state" where
  "non_core_state previous =
     \<lparr>cs_is_core = False, cs_is_new_core = False, cs_review_after_changed = False,
      cs_core_reason = None, cs_core_exit_condition = None, cs_core_review_after = None,
      cs_core_detail_memory_ids = [], cs_previous_detail_memory_ids = previous\<rparr>"

text \<open>\<open>json.loads(row[4]) if row[4] else []\<close>: a malformed column raises.\<close>

fun load_details :: "detail_column \<Rightarrow> exn + string list" where
  "load_details Detail_Null = Inr []"
| "load_details (Detail_Ids ids) = Inr ids"
| "load_details Detail_Malformed = Inl ValueError"

record existing_core =
  xc_is_core :: bool
  xc_core_reason :: "string option"
  xc_core_exit_condition :: "string option"
  xc_core_review_after :: "string option"
  xc_core_detail_memory_ids :: "string list"

definition load_existing_core_state :: "db \<Rightarrow> string option \<Rightarrow> exn + existing_core option" where
  "load_existing_core_state d entity_id =
     (if \<not> truthy entity_id then Inr None
      else case get_entity d (the entity_id) of
        None \<Rightarrow> Inr None
      | Some e \<Rightarrow>
          (case load_details (e_core_detail_memory_ids e) of
             Inl x \<Rightarrow> Inl x
           | Inr ids \<Rightarrow> Inr (Some \<lparr>xc_is_core = e_is_core e, xc_core_reason = e_core_reason e,
               xc_core_exit_condition = e_core_exit_condition e,
               xc_core_review_after = e_core_review_after e, xc_core_detail_memory_ids = ids\<rparr>)))"

text \<open>A supplied value is validated; an omitted one is preserved and validated all the same.\<close>

definition supplied_or_preserved ::
  "(string option \<Rightarrow> exn + string) \<Rightarrow> string option \<Rightarrow> string option \<Rightarrow> exn + string" where
  "supplied_or_preserved validate supplied preserved =
     (if supplied \<noteq> None then validate supplied
      else if truthy preserved then validate preserved
      else Inl ValueError)"

definition resolve_core_reason_exit ::
  "env \<Rightarrow> existing_core option \<Rightarrow> string option \<Rightarrow> string option \<Rightarrow> exn + string \<times> string" where
  "resolve_core_reason_exit \<Gamma> existing core_reason core_exit_condition =
     (case supplied_or_preserved (validate_core_reason \<Gamma>) core_reason
             (case existing of None \<Rightarrow> None | Some x \<Rightarrow> xc_core_reason x) of
        Inl e \<Rightarrow> Inl e
      | Inr reason \<Rightarrow>
          (case supplied_or_preserved (validate_core_exit_condition \<Gamma>) core_exit_condition
                  (case existing of None \<Rightarrow> None | Some x \<Rightarrow> xc_core_exit_condition x) of
             Inl e \<Rightarrow> Inl e
           | Inr exit_condition \<Rightarrow> Inr (reason, exit_condition)))"

definition resolve_core_review :: "env \<Rightarrow> existing_core option \<Rightarrow> string option \<Rightarrow> exn + string \<times> bool" where
  "resolve_core_review \<Gamma> existing core_review_after =
     (let previous = (case existing of None \<Rightarrow> None | Some x \<Rightarrow> xc_core_review_after x) in
      if core_review_after \<noteq> None then
        (case parse_core_review_after \<Gamma> core_review_after None of
           Inl e \<Rightarrow> Inl e
         | Inr review_after \<Rightarrow>
             Inr (review_after, existing \<noteq> None \<and> previous \<noteq> None \<and> previous \<noteq> Some review_after))
      else if truthy previous then
        (case validate_preserved_review_after \<Gamma> (the previous) of Inl e \<Rightarrow> Inl e | Inr r \<Rightarrow> Inr (r, False))
      else
        (case parse_core_review_after \<Gamma> None (Some CORE_DEFAULT_REVIEW_DAYS) of
           Inl e \<Rightarrow> Inl e | Inr r \<Rightarrow> Inr (r, False)))"

definition resolve_core_lifecycle ::
  "env \<Rightarrow> existing_core option \<Rightarrow> string option \<Rightarrow> string option \<Rightarrow> string option \<Rightarrow>
   exn + string \<times> string \<times> string \<times> bool" where
  "resolve_core_lifecycle \<Gamma> existing core_reason core_exit_condition core_review_after =
     (case resolve_core_reason_exit \<Gamma> existing core_reason core_exit_condition of
        Inl e \<Rightarrow> Inl e
      | Inr (reason, exit_condition) \<Rightarrow>
          (case resolve_core_review \<Gamma> existing core_review_after of
             Inl e \<Rightarrow> Inl e
           | Inr (review_after, changed) \<Rightarrow> Inr (reason, exit_condition, review_after, changed)))"

definition detail_result :: "string + string list \<Rightarrow> exn + string list" where
  "detail_result r = (case r of Inl _ \<Rightarrow> Inl ValueError | Inr ids \<Rightarrow> Inr ids)"

definition resolve_store_core_state ::
  "env \<Rightarrow> db \<Rightarrow> string option \<Rightarrow> bool option \<Rightarrow> string \<Rightarrow> scope \<Rightarrow> string option \<Rightarrow> string option \<Rightarrow>
   string option \<Rightarrow> string list option \<Rightarrow> exn + core_state" where
  "resolve_store_core_state \<Gamma> d entity_id is_core_requested content sc core_reason core_exit_condition
       core_review_after detail_memory_ids =
     (case load_existing_core_state d entity_id of
        Inl e \<Rightarrow> Inl e
      | Inr existing \<Rightarrow>
          let previous = (case existing of None \<Rightarrow> [] | Some x \<Rightarrow> xc_core_detail_memory_ids x);
              effective_is_core = (case is_core_requested of
                  None \<Rightarrow> (case existing of None \<Rightarrow> False | Some x \<Rightarrow> xc_is_core x)
                | Some b \<Rightarrow> b)
          in if \<not> effective_is_core then
               (if core_reason \<noteq> None \<or> core_exit_condition \<noteq> None \<or> core_review_after \<noteq> None \<or>
                   detail_memory_ids \<noteq> None
                then Inl ValueError else Inr (non_core_state previous))
             else if sc \<noteq> Shared then Inl ValueError
             else case resolve_core_lifecycle \<Gamma> existing core_reason core_exit_condition core_review_after of
               Inl e \<Rightarrow> Inl e
             | Inr (reason, exit_condition, review_after, changed) \<Rightarrow>
                 (case validate_core_content_length content of
                    Inl e \<Rightarrow> Inl e
                  | Inr _ \<Rightarrow>
                      (case detail_result (validate_detail_memory_ids d
                              (case detail_memory_ids of None \<Rightarrow> previous | Some ids \<Rightarrow> ids) content) of
                         Inl e \<Rightarrow> Inl e
                       | Inr details \<Rightarrow>
                           Inr \<lparr>cs_is_core = True,
                                cs_is_new_core = (case existing of None \<Rightarrow> True | Some x \<Rightarrow> \<not> xc_is_core x),
                                cs_review_after_changed = changed, cs_core_reason = Some reason,
                                cs_core_exit_condition = Some exit_condition,
                                cs_core_review_after = Some review_after,
                                cs_core_detail_memory_ids = details,
                                cs_previous_detail_memory_ids = previous\<rparr>)))"

section \<open>Consolidation\<close>

text \<open>
  \<open>CoreDecisionRequired\<close> carries the fragment that keeps the result core, \<open>CoreGovernanceRejected\<close>
  a capacity payload or a text.
\<close>

datatype core_exn =
    Core_Value_Error
  | Core_Decision_Required "string option" "string option" "scope option"
  | Core_Governance_Capacity capacity_rejection
  | Core_Governance_Text

definition core_value :: "exn + 'a \<Rightarrow> core_exn + 'a" where
  "core_value r = (case r of Inl _ \<Rightarrow> Inl Core_Value_Error | Inr x \<Rightarrow> Inr x)"

definition resolve_omitted_consolidation_core ::
  "db \<Rightarrow> string list \<Rightarrow> scope \<Rightarrow> core_exn + core_state" where
  "resolve_omitted_consolidation_core d parents sc =
     (case List.map_filter (\<lambda>i. case get_entity d i of
              Some e \<Rightarrow> if active_core e then Some e else None | None \<Rightarrow> None) parents of
        [] \<Rightarrow> Inr (non_core_state [])
      | e # _ \<Rightarrow> Inl (Core_Decision_Required (e_core_reason e) (e_core_exit_condition e)
                   (if sc \<noteq> Shared then Some Shared else None)))"

definition resolve_consolidation_core_state ::
  "env \<Rightarrow> db \<Rightarrow> string list \<Rightarrow> bool option \<Rightarrow> string \<Rightarrow> scope \<Rightarrow> string option \<Rightarrow> string option \<Rightarrow>
   string option \<Rightarrow> string list option \<Rightarrow> core_exn + core_state" where
  "resolve_consolidation_core_state \<Gamma> d parents is_core_requested content sc core_reason
       core_exit_condition core_review_after detail_memory_ids =
     (case is_core_requested of
        None \<Rightarrow> resolve_omitted_consolidation_core d parents sc
      | Some False \<Rightarrow> Inr (non_core_state [])
      | Some True \<Rightarrow>
          if sc \<noteq> Shared then Inl Core_Value_Error
          else case core_value (validate_core_reason \<Gamma> core_reason) of Inl e \<Rightarrow> Inl e
          | Inr reason \<Rightarrow>
          (case core_value (validate_core_exit_condition \<Gamma> core_exit_condition) of Inl e \<Rightarrow> Inl e
          | Inr exit_condition \<Rightarrow>
          (case core_value (parse_core_review_after \<Gamma> core_review_after (Some CORE_DEFAULT_REVIEW_DAYS)) of
             Inl e \<Rightarrow> Inl e
          | Inr review_after \<Rightarrow>
          (case core_value (validate_core_content_length content) of Inl e \<Rightarrow> Inl e
          | Inr _ \<Rightarrow>
          (case (case detail_memory_ids of
                   Some (i # ids) \<Rightarrow> core_value (detail_result (validate_detail_memory_ids d (i # ids) content))
                 | _ \<Rightarrow> Inr []) of
             Inl e \<Rightarrow> Inl e
          | Inr details \<Rightarrow>
              Inr \<lparr>cs_is_core = True, cs_is_new_core = True, cs_review_after_changed = False,
                   cs_core_reason = Some reason, cs_core_exit_condition = Some exit_condition,
                   cs_core_review_after = Some review_after, cs_core_detail_memory_ids = details,
                   cs_previous_detail_memory_ids = []\<rparr>)))))"

definition resolve_derived_core_state ::
  "env \<Rightarrow> db \<Rightarrow> string list \<Rightarrow> bool option \<Rightarrow> string \<Rightarrow> scope \<Rightarrow> string option \<Rightarrow> string option \<Rightarrow>
   string option \<Rightarrow> string list option \<Rightarrow> core_entry \<Rightarrow> core_exn + core_state" where
  "resolve_derived_core_state \<Gamma> d source_ids is_core content sc core_reason core_exit_condition
       core_review_after detail_memory_ids new_entry =
     (let checked =
        (case resolve_consolidation_core_state \<Gamma> d source_ids is_core content sc core_reason
                core_exit_condition core_review_after detail_memory_ids of
           Inl e \<Rightarrow> Inl e
         | Inr state \<Rightarrow>
             if \<not> cs_is_core state then Inr state
             else case core_value (enforce_overdue_boundary \<Gamma> d None True (cs_is_new_core state) False None) of
               Inl e \<Rightarrow> Inl e
             | Inr _ \<Rightarrow>
                 (case check_capacity_admission \<Gamma> d source_ids (Some new_entry) of
                    Some rej \<Rightarrow> Inl (Core_Governance_Capacity rej)
                  | None \<Rightarrow> Inr state))
      in case checked of
           Inl Core_Value_Error \<Rightarrow> Inl Core_Governance_Text
         | r \<Rightarrow> r)"

section \<open>Detail edges\<close>

definition detail_args :: "string \<Rightarrow> string option \<Rightarrow> string \<times> string \<Rightarrow> string \<Rightarrow> store_args" where
  "detail_args core_id agent ids detail_id =
     \<lparr>sa_source = Some detail_id, sa_target = Some core_id, sa_predicate = Some ''elaborates_on'',
      sa_valid_at = None, sa_override = None, sa_agent_id = agent, sa_relation_id = fst ids,
      sa_event_id = snd ids, sa_in_transaction = True, sa_allow_core_elaborates_on = True\<rparr>"

fun link_details ::
  "env \<Rightarrow> string \<Rightarrow> string option \<Rightarrow> (nat \<Rightarrow> string \<times> string) \<Rightarrow> nat \<Rightarrow> string list \<Rightarrow> unit act" where
  "link_details \<Gamma> core_id agent gen i [] d = (Inr (), d)"
| "link_details \<Gamma> core_id agent gen i (detail # details) d =
     (case store_relation \<Gamma> (\<lambda>_. False) (detail_args core_id agent (gen i) detail) d of
        (res, d1) \<Rightarrow>
          if is_rejected res then (Inl RuntimeError, d1)
          else link_details \<Gamma> core_id agent gen (Suc i) details d1)"

definition unlink_detail :: "env \<Rightarrow> string \<Rightarrow> string \<Rightarrow> db \<Rightarrow> db" where
  "unlink_detail \<Gamma> core_id detail d =
     snd (invalidate_relation \<Gamma> (\<lambda>_. False)
       \<lparr>ia_source = Some detail, ia_target = Some core_id, ia_predicate = Some ''elaborates_on'',
        ia_invalid_at = None, ia_in_transaction = True\<rparr> d)"

definition reconcile_detail_relations ::
  "env \<Rightarrow> (nat \<Rightarrow> string \<times> string) \<Rightarrow> string \<Rightarrow> string option \<Rightarrow> string list \<Rightarrow> string list \<Rightarrow> unit act" where
  "reconcile_detail_relations \<Gamma> gen core_id agent new_ids previous_ids d =
     (case link_details \<Gamma> core_id agent gen 0 new_ids d of
        (Inl e, d1) \<Rightarrow> (Inl e, d1)
      | (Inr _, d1) \<Rightarrow>
          (Inr (), fold (unlink_detail \<Gamma> core_id)
             (remdups (filter (\<lambda>i. i \<notin> set new_ids) previous_ids)) d1))"

section \<open>Promotion\<close>

definition owned_memory_target ::
  "db \<Rightarrow> string \<Rightarrow> string option \<Rightarrow> string \<Rightarrow> 'a envelope + string" where
  "owned_memory_target d entity_id agent foreign_code =
     (case resolve_entity_ref d (Some entity_id) agent of
        (resolved, cands, truncated) \<Rightarrow>
          if cands \<noteq> [] then Inl (Rejected [error ''AMBIGUOUS_ID_PREFIX'' (Some ''entity_id'')])
          else if \<not> truthy resolved then Inl (Rejected [error NOT_FOUND (Some ''entity_id'')])
          else case agent of
            None \<Rightarrow> Inr (the resolved)
          | Some a \<Rightarrow>
              (case get_entity d (the resolved) of
                 None \<Rightarrow> Inl (Rejected [error NOT_FOUND (Some ''entity_id'')])
               | Some e \<Rightarrow>
                   if e_agent_id e = Some a then Inr (the resolved)
                   else Inl (Rejected [error (if e_scope e = Shared then foreign_code else NOT_FOUND)
                          (Some ''entity_id'')])))"

record core_inputs =
  ci_core_reason :: string
  ci_core_exit_condition :: string
  ci_detail_memory_ids :: "string list option"

record core_result =
  co_id :: string
  co_core_review_after :: "string option"

definition set_core_target_row ::
  "db \<Rightarrow> string \<Rightarrow> string \<Rightarrow> exn + (core_result envelope + string \<times> entity \<times> string list)" where
  "set_core_target_row d entity_id agent =
     (case owned_memory_target d entity_id (Some agent) ''IMMUTABLE_MEMORY'' of
        Inl rej \<Rightarrow> Inr (Inl rej)
      | Inr i \<Rightarrow>
          (case get_entity d i of
             None \<Rightarrow> Inr (Inl (Rejected [error NOT_FOUND (Some ''entity_id'')]))
           | Some e \<Rightarrow>
               (case load_details (e_core_detail_memory_ids e) of
                  Inl x \<Rightarrow> Inl x
                | Inr ids \<Rightarrow> Inr (Inr (i, e, ids)))))"

definition set_core_state :: "env \<Rightarrow> db \<Rightarrow> string \<Rightarrow> entity \<Rightarrow> core_inputs \<Rightarrow> exn + core_state" where
  "set_core_state \<Gamma> d i e inp =
     (let details = (if \<not> e_is_core e \<and> ci_detail_memory_ids inp = None then Some []
                     else ci_detail_memory_ids inp)
      in if (case details of None \<Rightarrow> False | Some ids \<Rightarrow> i \<in> set ids) then Inl ValueError
         else resolve_store_core_state \<Gamma> d (Some i) (Some True) (e_content e) (e_scope e)
                (Some (ci_core_reason inp)) (Some (ci_core_exit_condition inp)) None details)"

definition set_core_entry :: "string \<Rightarrow> entity \<Rightarrow> core_state \<Rightarrow> core_entry" where
  "set_core_entry i e state =
     \<lparr>ce_id = i, ce_title = e_title e, ce_memory_type = Some (py_or (e_memory_type e) ''fact''),
      ce_core_reason = cs_core_reason state, ce_core_exit_condition = cs_core_exit_condition state,
      ce_core_review_after = cs_core_review_after state, ce_full_content = e_content e\<rparr>"

definition set_core_admission ::
  "env \<Rightarrow> db \<Rightarrow> string \<Rightarrow> entity \<Rightarrow> core_state \<Rightarrow> core_result envelope option" where
  "set_core_admission \<Gamma> d i e state =
     (let entry = set_core_entry i e state in
      case enforce_overdue_boundary \<Gamma> d (Some i) True (cs_is_new_core state) False (Some entry) of
        Inl _ \<Rightarrow> Some (Rejected [error VALIDATION_ERROR (Some ''core'')])
      | Inr _ \<Rightarrow>
          (case check_capacity_admission \<Gamma> d [i] (Some entry) of
             None \<Rightarrow> None
           | Some _ \<Rightarrow> Some (Rejected [error ''CORE_CAPACITY_EXCEEDED'' None])))"

text \<open>\<open>UPDATE entities SET ... WHERE id = i\<close>.\<close>

definition update_entity :: "string \<Rightarrow> (entity \<Rightarrow> entity) \<Rightarrow> db \<Rightarrow> db" where
  "update_entity i f d = d\<lparr>entities := update_where (\<lambda>e. e_id e = i) f (entities d)\<rparr>"

definition declare_core :: "env \<Rightarrow> core_state \<Rightarrow> entity \<Rightarrow> entity" where
  "declare_core \<Gamma> state e = e\<lparr>e_is_core := True, e_core_reason := cs_core_reason state,
     e_core_exit_condition := cs_core_exit_condition state,
     e_core_review_after := cs_core_review_after state,
     e_core_detail_memory_ids := (if cs_core_detail_memory_ids state = [] then Detail_Null
                                  else Detail_Ids (cs_core_detail_memory_ids state)),
     e_updated_at := now_iso \<Gamma>\<rparr>"

record fresh_ids =
  fr_relations :: "nat \<Rightarrow> string \<times> string"
  fr_tag :: string
  fr_events :: "string \<times> string"

definition set_core_write ::
  "env \<Rightarrow> fresh_ids \<Rightarrow> string \<Rightarrow> core_state \<Rightarrow> string \<Rightarrow> core_result envelope act" where
  "set_core_write \<Gamma> fr i state agent d =
     (case reconcile_detail_relations \<Gamma> (fr_relations fr) i (Some agent)
             (cs_core_detail_memory_ids state) (cs_previous_detail_memory_ids state)
             (update_entity i (declare_core \<Gamma> state) d) of
        (Inl e, d1) \<Rightarrow> (Inl e, d1)
      | (Inr _, d1) \<Rightarrow>
          (case sync_raw_core_tag \<Gamma> (fr_tag fr) (fr_events fr) i (Some agent) d1 of
             (Inl e, d2) \<Rightarrow> (Inl e, d2)
           | (Inr _, d2) \<Rightarrow>
               (Inr (Ok \<lparr>co_id = i, co_core_review_after = cs_core_review_after state\<rparr> []), d2)))"

definition set_core_apply ::
  "env \<Rightarrow> fresh_ids \<Rightarrow> string \<Rightarrow> entity \<Rightarrow> string list \<Rightarrow> string \<Rightarrow> core_inputs \<Rightarrow> core_result envelope act" where
  "set_core_apply \<Gamma> fr i e details agent inp d =
     (if e_status e \<noteq> Raw then (Inr (Rejected [error CONFLICT (Some ''entity_id'')]), d)
      else case set_core_state \<Gamma> d i e inp of
        Inl _ \<Rightarrow> (Inr (Rejected [error VALIDATION_ERROR (Some ''core'')]), d)
      | Inr state \<Rightarrow>
          if e_is_core e \<and> cs_core_reason state = e_core_reason e \<and>
             cs_core_exit_condition state = e_core_exit_condition e \<and>
             cs_core_detail_memory_ids state = details
          then (Inr (Ok \<lparr>co_id = i, co_core_review_after = cs_core_review_after state\<rparr> [ALREADY_DONE]), d)
          else case set_core_admission \<Gamma> d i e state of
            Some rej \<Rightarrow> (Inr rej, d)
          | None \<Rightarrow> set_core_write \<Gamma> fr i state agent d)"

definition set_core_transaction ::
  "env \<Rightarrow> fresh_ids \<Rightarrow> string \<Rightarrow> string \<Rightarrow> core_inputs \<Rightarrow> core_result envelope act" where
  "set_core_transaction \<Gamma> fr entity_id agent inp d =
     (case set_core_target_row d entity_id agent of
        Inl x \<Rightarrow> (Inl x, d)
      | Inr (Inl rej) \<Rightarrow> (Inr rej, d)
      | Inr (Inr (i, e, details)) \<Rightarrow> set_core_apply \<Gamma> fr i e details agent inp d)"

text \<open>An argument \<open>detail_memory_ids\<close> that is neither null nor a list.\<close>

datatype detail_arg = No_Details | Not_A_List | Details "string list"

definition set_core_memory ::
  "env \<Rightarrow> (nat \<Rightarrow> bool) \<Rightarrow> fresh_ids \<Rightarrow> string \<Rightarrow> string \<Rightarrow> string option \<Rightarrow> string option \<Rightarrow> detail_arg \<Rightarrow>
   core_result envelope act" where
  "set_core_memory \<Gamma> locks fr entity_id agent core_reason core_exit_condition details d =
     (if py_strip (py_or core_reason []) = []
      then (Inr (Rejected [error VALIDATION_ERROR (Some ''core_reason'')]), d)
      else if py_strip (py_or core_exit_condition []) = []
      then (Inr (Rejected [error VALIDATION_ERROR (Some ''core_exit_condition'')]), d)
      else if details = Not_A_List
      then (Inr (Rejected [error VALIDATION_ERROR (Some ''detail_memory_ids'')]), d)
      else if agent = [] then (Inr (Rejected [error VALIDATION_ERROR (Some ''agent_id'')]), d)
      else write_transaction_retrying locks (set_core_transaction \<Gamma> fr entity_id agent
             \<lparr>ci_core_reason = the core_reason, ci_core_exit_condition = the core_exit_condition,
              ci_detail_memory_ids = (case details of Details ids \<Rightarrow> Some ids | _ \<Rightarrow> None)\<rparr>) d)"

section \<open>Review\<close>

datatype review_outcome = Retain | Demote | Archive

definition review_retain ::
  "env \<Rightarrow> string \<Rightarrow> entity \<Rightarrow> string \<Rightarrow> string \<Rightarrow> string option \<Rightarrow> string envelope act" where
  "review_retain \<Gamma> i e rationale agent core_review_after d =
     (if \<not> e_is_core e \<or> e_status e = Archived
      then (Inr (Rejected [error CONFLICT (Some ''entity_id'')]), d)
      else case (case core_review_after of
                   None \<Rightarrow> parse_core_review_after \<Gamma> None (Some CORE_DEFAULT_REVIEW_DAYS)
                 | Some _ \<Rightarrow> parse_core_review_after \<Gamma> core_review_after None) of
        Inl _ \<Rightarrow> (Inr (Rejected [error VALIDATION_ERROR (Some ''core_review_after'')]), d)
      | Inr next_review \<Rightarrow>
          (Inr (Ok i []), update_entity i (\<lambda>x. x\<lparr>e_core_review_after := Some next_review,
             e_core_last_reviewed_at := Some (now_iso \<Gamma>), e_core_last_reviewed_by := Some agent,
             e_core_review_rationale := Some rationale, e_updated_at := now_iso \<Gamma>\<rparr>) d))"

definition review_demote :: "env \<Rightarrow> string \<Rightarrow> entity \<Rightarrow> string \<Rightarrow> string \<Rightarrow> string envelope act" where
  "review_demote \<Gamma> i e rationale agent d =
     (if \<not> e_is_core e then (Inr (Ok i [ALREADY_DONE]), d)
      else let d1 = update_entity i (\<lambda>x. x\<lparr>e_is_core := False, e_core_review_after := None,
             e_core_last_reviewed_at := Some (now_iso \<Gamma>), e_core_last_reviewed_by := Some agent,
             e_core_review_rationale := Some rationale, e_updated_at := now_iso \<Gamma>\<rparr>) d
      in (Inr (Ok i []),
          case find_row (\<lambda>t. t_name t = ''#core'') (tags d) of
            None \<Rightarrow> d1 | Some t \<Rightarrow> detach_tag i (t_id t) d1))"

definition archive_entity_unchecked :: "env \<Rightarrow> string \<Rightarrow> db \<Rightarrow> db" where
  "archive_entity_unchecked \<Gamma> i d =
     (let t = now_iso \<Gamma>;
          d1 = d\<lparr>entities := update_where (\<lambda>e. e_id e = i \<and> e_status e \<noteq> Archived)
                 (\<lambda>e. e\<lparr>e_status := Archived, e_embedding_status := ''archived'', e_updated_at := t,
                        e_valid_to := Some t\<rparr>) (entities d)\<rparr>
      in d1\<lparr>relations := update_where (\<lambda>r. (r_source r = i \<or> r_target r = i) \<and> live r)
              (\<lambda>r. r\<lparr>r_valid_to := Some t\<rparr>) (relations d1)\<rparr>)"

definition review_archive :: "env \<Rightarrow> string \<Rightarrow> entity \<Rightarrow> string \<Rightarrow> string \<Rightarrow> string envelope act" where
  "review_archive \<Gamma> i e rationale agent d =
     (if \<not> e_is_core e then (Inr (Rejected [error CONFLICT (Some ''entity_id'')]), d)
      else if e_status e = Archived then (Inr (Ok i [ALREADY_DONE]), d)
      else (Inr (Ok i []), update_entity i (\<lambda>x. x\<lparr>e_core_last_reviewed_at := Some (now_iso \<Gamma>),
             e_core_last_reviewed_by := Some agent, e_core_review_rationale := Some rationale\<rparr>)
             (archive_entity_unchecked \<Gamma> i d)))"

definition review_write ::
  "env \<Rightarrow> string \<Rightarrow> review_outcome \<Rightarrow> string \<Rightarrow> string \<Rightarrow> string option \<Rightarrow> string envelope act" where
  "review_write \<Gamma> i outcome rationale agent core_review_after d =
     (case get_entity d i of
        None \<Rightarrow> (Inr (Rejected [error NOT_FOUND (Some ''entity_id'')]), d)
      | Some e \<Rightarrow>
          (case outcome of
             Retain \<Rightarrow> review_retain \<Gamma> i e rationale agent core_review_after d
           | Demote \<Rightarrow> review_demote \<Gamma> i e rationale agent d
           | Archive \<Rightarrow> review_archive \<Gamma> i e rationale agent d))"

text \<open>\<open>outcome\<close> is \<open>None\<close> for any text that is not one of the three.\<close>

definition review_core_memory ::
  "env \<Rightarrow> (nat \<Rightarrow> bool) \<Rightarrow> string option \<Rightarrow> review_outcome option \<Rightarrow> string option \<Rightarrow> string \<Rightarrow> string option \<Rightarrow>
   string envelope act" where
  "review_core_memory \<Gamma> locks entity_id outcome review_rationale agent core_review_after d =
     (case outcome of
        None \<Rightarrow> (Inr (Rejected [error VALIDATION_ERROR (Some ''outcome'')]), d)
      | Some out \<Rightarrow>
          if agent = [] then (Inr (Rejected [error VALIDATION_ERROR (Some ''agent_id'')]), d)
          else if out \<noteq> Retain \<and> core_review_after \<noteq> None
          then (Inr (Rejected [error VALIDATION_ERROR (Some ''core_review_after'')]), d)
          else case validate_core_review_rationale \<Gamma> review_rationale of
            Inl _ \<Rightarrow> (Inr (Rejected [error VALIDATION_ERROR (Some ''review_rationale'')]), d)
          | Inr rationale \<Rightarrow>
              let resolved = resolve_entity_id d entity_id in
              if \<not> truthy resolved then (Inr (Rejected [error NOT_FOUND (Some ''entity_id'')]), d)
              else write_transaction_retrying locks
                     (review_write \<Gamma> (the resolved) out rationale agent core_review_after) d)"

section \<open>Lemmas: frames\<close>

lemma link_details_frame:
  "link_details \<Gamma> c agent gen i ids d = (r, d') \<Longrightarrow> same_base d d'"
proof (induction \<Gamma> c agent gen i ids d arbitrary: r d' rule: link_details.induct)
  case (2 \<Gamma> c agent gen i x xs d)
  obtain res d1 where s: "store_relation \<Gamma> (\<lambda>_. False) (detail_args c agent (gen i) x) d = (res, d1)" by fastforce
  note f = store_relation_frame[OF s]
  show ?case
  proof (cases "is_rejected res")
    case True
    then show ?thesis using "2.prems" s f by simp
  next
    case False
    then have "link_details \<Gamma> c agent gen (Suc i) xs d1 = (r, d')" using "2.prems" s by simp
    then show ?thesis using "2.IH"[OF s[symmetric] False] f same_base_trans by blast
  qed
qed simp

lemma unlink_detail_frame: "same_base d (unlink_detail \<Gamma> c x d)"
  unfolding unlink_detail_def by (metis invalidate_relation_frame prod.collapse)

lemma unlink_details_frame: "same_base d (fold (unlink_detail \<Gamma> c) xs d)"
proof (induction xs arbitrary: d)
  case (Cons x xs)
  then show ?case using unlink_detail_frame same_base_trans by fastforce
qed simp

lemma reconcile_frame:
  assumes "reconcile_detail_relations \<Gamma> gen c agent new prev d = (r, d')"
  shows "same_base d d'"
proof -
  obtain r1 d1 where l: "link_details \<Gamma> c agent gen 0 new d = (r1, d1)" by fastforce
  then have "d' = d1 \<or> (\<exists>xs. d' = fold (unlink_detail \<Gamma> c) xs d1)"
    using assms by (cases r1) (auto simp: reconcile_detail_relations_def)
  then show ?thesis using link_details_frame[OF l] unlink_details_frame same_base_trans by blast
qed

lemma sync_frame:
  assumes "sync_raw_core_tag \<Gamma> tid evs i agent d = (r, d')"
  shows "entities d' = entities d \<and> relations d' = relations d"
proof -
  obtain r1 d1 where w: "resolve_or_create_tag \<Gamma> tid evs (Some ''#core'') agent d = (r1, d1)" by fastforce
  then have "entities d1 = entities d \<and> relations d1 = relations d"
    by (cases rule: resolve_or_create_tag_cases) simp_all
  moreover have "entities d' = entities d1 \<and> relations d' = relations d1"
    using assms w by (cases r1) (auto simp: sync_raw_core_tag_def attach_tag_def detach_tag_def)
  ultimately show ?thesis by simp
qed

lemma set_core_write_entities:
  assumes "set_core_write \<Gamma> fr i state agent d = (Inr res, d')"
  shows "entities d' = update_where (\<lambda>e. e_id e = i) (declare_core \<Gamma> state) (entities d) \<and>
    res = Ok \<lparr>co_id = i, co_core_review_after = cs_core_review_after state\<rparr> []"
proof -
  obtain r1 d1 where w: "reconcile_detail_relations \<Gamma> (fr_relations fr) i (Some agent)
      (cs_core_detail_memory_ids state) (cs_previous_detail_memory_ids state)
      (update_entity i (declare_core \<Gamma> state) d) = (r1, d1)" by fastforce
  then obtain x where r1: "r1 = Inr x" using assms by (cases r1) (simp_all add: set_core_write_def)
  obtain r2 d2 where w2: "sync_raw_core_tag \<Gamma> (fr_tag fr) (fr_events fr) i (Some agent) d1 = (r2, d2)" by fastforce
  then obtain y where r2: "r2 = Inr y" using assms w r1 by (cases r2) (simp_all add: set_core_write_def)
  then have "d' = d2 \<and> res = Ok \<lparr>co_id = i, co_core_review_after = cs_core_review_after state\<rparr> []"
    using assms w r1 w2 by (simp add: set_core_write_def)
  then show ?thesis
    using sync_frame[OF w2] reconcile_frame[OF w] by (simp add: same_base_def update_entity_def)
qed

section \<open>Lemmas: promotion\<close>

lemma owned_memory_target_ok:
  "owned_memory_target d x (Some a) fc = Inr i \<Longrightarrow> \<exists>e. get_entity d i = Some e \<and> e_agent_id e = Some a"
  by (auto simp: owned_memory_target_def split: prod.splits if_splits option.splits)

text \<open>\<open>set_core_memory\<close> refuses, raises, finds nothing to do, or writes; only the last changes the store.\<close>

lemma set_core_memory_cases:
  assumes "set_core_memory \<Gamma> locks fr eid agent reason exit details d = (r, d')"
  obtains
    (kept) "d' = d" "isl r \<or> (\<exists>es. r = Inr (Rejected es)) \<or> (\<exists>out. r = Inr (Ok out [ALREADY_DONE]))"
  | (written) i e inp state where "get_entity d i = Some e" "e_agent_id e = Some agent" "e_status e = Raw"
      "set_core_state \<Gamma> d i e inp = Inr state" "set_core_admission \<Gamma> d i e state = None"
      "set_core_write \<Gamma> fr i state agent d = (r, d')"
      "r = Inr (Ok \<lparr>co_id = i, co_core_review_after = cs_core_review_after state\<rparr> [])"
      "entities d' = update_where (\<lambda>x. e_id x = i) (declare_core \<Gamma> state) (entities d)"
proof -
  let ?inp = "\<lparr>ci_core_reason = the reason, ci_core_exit_condition = the exit,
    ci_detail_memory_ids = (case details of Details ids \<Rightarrow> Some ids | _ \<Rightarrow> None)\<rparr>"
  let ?tx = "set_core_transaction \<Gamma> fr eid agent ?inp"
  show thesis
  proof (cases "(\<exists>es. r = Inr (Rejected es)) \<and> d' = d")
    case True
    then show thesis by (intro kept) auto
  next
    case False
    then have w: "write_transaction_retrying locks ?tx d = (r, d')"
      using assms by (auto simp: set_core_memory_def split: if_splits)
    show thesis
    proof (cases r)
      case (Inl x)
      then show thesis using w retrying_abort by (intro kept) auto
    next
      case (Inr res)
      then have tx: "?tx d = (Inr res, d')" using w retrying_commit by auto
      obtain i e ds where t: "set_core_target_row d eid agent = Inr (Inr (i, e, ds))"
        and own: "owned_memory_target d eid (Some agent) ''IMMUTABLE_MEMORY'' = Inr i \<or> (\<exists>es. res = Rejected es) \<and> d' = d"
        and e: "get_entity d i = Some e \<or> (\<exists>es. res = Rejected es) \<and> d' = d"
        using tx False Inr
        by (auto simp: set_core_transaction_def set_core_target_row_def owned_memory_target_def
            split: sum.splits prod.splits option.splits if_splits)
      then have own: "get_entity d i = Some e" "e_agent_id e = Some agent"
        using False Inr owned_memory_target_ok by fastforce+
      have ap: "set_core_apply \<Gamma> fr i e ds agent ?inp d = (Inr res, d')"
        using tx t by (simp add: set_core_transaction_def)
      show thesis
      proof (cases "e_status e = Raw")
        case raw: True
        obtain state where st: "set_core_state \<Gamma> d i e ?inp = Inr state"
          using ap False Inr raw by (auto simp: set_core_apply_def split: sum.splits)
        show thesis
        proof (cases "(\<exists>out. res = Ok out [ALREADY_DONE]) \<and> d' = d")
          case True
          then show thesis using Inr by (intro kept) auto
        next
          case work: False
          have adm: "set_core_admission \<Gamma> d i e state = None"
            using ap False Inr raw st work
            by (auto simp: set_core_apply_def set_core_admission_def Let_def split: sum.splits option.splits if_splits)
          then have wr: "set_core_write \<Gamma> fr i state agent d = (Inr res, d')"
            using ap raw st work by (auto simp: set_core_apply_def split: if_splits)
          show thesis
            using written[OF own raw st adm] wr set_core_write_entities[OF wr] Inr by simp
        qed
      next
        case False
        then show thesis using ap Inr by (intro kept) (auto simp: set_core_apply_def)
      qed
    qed
  qed
qed

text \<open>Rewriting the one row with id \<open>i\<close> exchanges its entry in the multiset of active cores.\<close>

lemma update_one_active:
  assumes "distinct (map e_id es)" "e \<in> set es" "e_id e = i" "active_core (f e)"
  shows "mset (map entry_of (filter active_core (update_where (\<lambda>x. e_id x = i) f es))) =
    mset (map entry_of (filter (\<lambda>x. e_id x \<noteq> i) (filter active_core es))) + {#entry_of (f e)#}"
proof -
  obtain xs ys where es: "es = xs @ e # ys" using assms(2) by (meson split_list)
  have other: "\<forall>x \<in> set xs \<union> set ys. e_id x \<noteq> i" using assms(1,3) unfolding es by (force simp: image_iff)
  have u: "update_where (\<lambda>x. e_id x = i) f zs = zs" if "\<forall>x \<in> set zs. e_id x \<noteq> i" for zs
    using that by (simp add: update_where_def map_idI)
  have k: "filter (\<lambda>x. e_id x \<noteq> i) (filter active_core zs) = filter active_core zs"
    if "\<forall>x \<in> set zs. e_id x \<noteq> i" for zs
    using that by (auto simp: filter_filter intro!: filter_cong)
  have "update_where (\<lambda>x. e_id x = i) f es = xs @ f e # ys"
    using u[of xs] u[of ys] other assms(3) by (simp add: es update_where_def)
  then have upd: "filter active_core (update_where (\<lambda>x. e_id x = i) f es) =
      filter active_core xs @ f e # filter active_core ys" using assms(4) by simp
  have "filter (\<lambda>x. e_id x \<noteq> i) (filter active_core es) = filter active_core xs @ filter active_core ys"
    using k[of xs] k[of ys] other assms(3) unfolding es by simp
  then show ?thesis unfolding upd by simp
qed

lemma mset_prospective:
  "mset (prospective_entries \<Gamma> d [i] (Some n)) =
     mset (map entry_of (filter (\<lambda>x. e_id x \<noteq> i) (filter active_core (entities d)))) + {#n#}"
  by (simp add: prospective_entries_def load_active_cores_def filter_filter_mset conj_commute)

definition entity_keys :: "db \<Rightarrow> bool" where
  "entity_keys d \<longleftrightarrow> distinct (map e_id (entities d)) \<and> (\<forall>e \<in> set (entities d). e_id e \<noteq> [])"

text \<open>The capacity promise: at most five active cores and, at whatever time, a digest that fits.\<close>

definition core_capacity :: "db \<Rightarrow> bool" where
  "core_capacity d \<longleftrightarrow> length (filter active_core (entities d)) \<le> CORE_MAX_ACTIVE \<and>
     (\<forall>\<Gamma>. length (render_bootstrap_digest \<Gamma> (map entry_of (load_active_cores \<Gamma> d))) \<le> CORE_MAX_RENDERED_CHARS)"

lemma declare_core_fields [simp]:
  "e_id (declare_core \<Gamma> st e) = e_id e" "e_status (declare_core \<Gamma> st e) = e_status e"
  "e_is_core (declare_core \<Gamma> st e)" "e_title (declare_core \<Gamma> st e) = e_title e"
  "e_content (declare_core \<Gamma> st e) = e_content e" "e_scope (declare_core \<Gamma> st e) = e_scope e"
  "e_agent_id (declare_core \<Gamma> st e) = e_agent_id e"
  "e_core_reason (declare_core \<Gamma> st e) = cs_core_reason st"
  "e_core_exit_condition (declare_core \<Gamma> st e) = cs_core_exit_condition st"
  "e_core_review_after (declare_core \<Gamma> st e) = cs_core_review_after st"
  by (simp_all add: declare_core_def)

lemma entry_declare: "e_id e = i \<Longrightarrow> entry_of (declare_core \<Gamma> st e) = set_core_entry i e st"
  by (simp add: entry_of_def set_core_entry_def declare_core_def)

lemma set_core_admission_None:
  assumes "set_core_admission \<Gamma> d i e st = None"
  shows "check_capacity_admission \<Gamma> d [i] (Some (set_core_entry i e st)) = None"
    and "enforce_overdue_boundary \<Gamma> d (Some i) True (cs_is_new_core st) False (Some (set_core_entry i e st)) = Inr ()"
  using assms by (auto simp: set_core_admission_def Let_def split: sum.splits option.splits)

lemma get_entity_unique:
  assumes "entity_keys d" "e \<in> set (entities d)"
  shows "get_entity d (e_id e) = Some e"
  unfolding get_entity_def
  using assms by (intro find_row_unique) (auto simp: entity_keys_def distinct_map inj_on_def)

lemma entity_keys_update:
  assumes "entity_keys d" "entities d' = update_where P f (entities d)" "\<And>x. e_id (f x) = e_id x"
  shows "entity_keys d'" "map e_id (entities d') = map e_id (entities d)"
proof -
  show m: "map e_id (entities d') = map e_id (entities d)"
    unfolding assms(2) by (rule map_update_where) (rule assms(3))
  show "entity_keys d'"
    unfolding entity_keys_def m
    using assms(1) arg_cong[OF m, of set] unfolding entity_keys_def by (metis (no_types, lifting) imageE image_eqI set_map)
qed

lemma set_core_capacity:
  assumes keys: "entity_keys d" and e: "get_entity d i = Some e" "e_status e = Raw"
    and adm: "set_core_admission \<Gamma> d i e st = None"
    and d': "entities d' = update_where (\<lambda>x. e_id x = i) (declare_core \<Gamma> st) (entities d)"
  shows "core_capacity d'"
proof -
  have ei: "e \<in> set (entities d)" "e_id e = i" using get_entity_Some[OF e(1)] by simp_all
  have act: "active_core (declare_core \<Gamma> st e)" using e(2) by (simp add: active_core_def)
  have "mset (map entry_of (filter active_core (entities d'))) =
      mset (prospective_entries \<Gamma> d [i] (Some (set_core_entry i e st)))"
    using update_one_active[where f = "declare_core \<Gamma> st", OF _ ei act] keys
    unfolding d' mset_prospective entity_keys_def by (simp add: entry_declare[OF ei(2)])
  from admission_bounds_digest_gen[OF set_core_admission_None(1)[OF adm] this] show ?thesis
    unfolding core_capacity_def by blast
qed

lemma no_overdue:
  assumes "enforce_overdue_boundary \<Gamma> d i True True chg p = Inr ()" "entity_keys d" "x \<in> set (entities d)" "active_core x"
  shows "\<not> is_overdue \<Gamma> (e_core_review_after x)"
proof
  assume o: "is_overdue \<Gamma> (e_core_review_after x)"
  have "\<not> truthy (has_overdue_core \<Gamma> d)"
    using assms(1) by (simp add: enforce_overdue_boundary_def split: if_splits)
  moreover have "x \<in> set (load_active_cores \<Gamma> d)" using assms(3,4) by (simp add: load_active_cores_def)
  then obtain y where y: "find_row (\<lambda>e. is_overdue \<Gamma> (e_core_review_after e)) (load_active_cores \<Gamma> d) = Some y"
    using o by (metis find_row_None not_None_eq)
  moreover have "e_id y \<noteq> []"
    using find_row_Some[OF y] assms(2) by (auto simp: load_active_cores_def entity_keys_def)
  ultimately show False by (simp add: has_overdue_core_def)
qed

lemma bounded_text:
  "validate_bounded_text \<Gamma> v lo hi = Inr s \<Longrightarrow> lo \<le> length s \<and> length s \<le> hi"
  by (auto simp: validate_bounded_text_def Let_def split: if_splits)

lemma resolve_core_reason_exit_ok:
  assumes "resolve_core_reason_exit \<Gamma> x r ex = Inr (reason, exit_condition)"
  shows "20 \<le> length reason \<and> length reason \<le> 500 \<and> 20 \<le> length exit_condition \<and> length exit_condition \<le> 500"
  using assms
  by (auto simp: resolve_core_reason_exit_def supplied_or_preserved_def validate_core_reason_def
      validate_core_exit_condition_def CORE_REASON_MIN_CHARS_def CORE_REASON_MAX_CHARS_def
      CORE_EXIT_MIN_CHARS_def CORE_EXIT_MAX_CHARS_def dest!: bounded_text split: sum.splits if_splits)

lemma set_core_state_ok:
  assumes "set_core_state \<Gamma> d i e inp = Inr st" "get_entity d i = Some e" "i \<noteq> []"
  shows "cs_is_new_core st = (\<not> e_is_core e)" "e_scope e = Shared" "length (e_content e) \<le> CORE_MAX_CONTENT_CHARS"
    "\<exists>reason ex. cs_core_reason st = Some reason \<and> cs_core_exit_condition st = Some ex \<and>
       20 \<le> length reason \<and> length reason \<le> 500 \<and> 20 \<le> length ex \<and> length ex \<le> 500"
    "\<exists>ids. validate_detail_memory_ids d ids (e_content e) = Inr (cs_core_detail_memory_ids st)"
    "load_details (e_core_detail_memory_ids e) = Inr (cs_previous_detail_memory_ids st)"
proof -
  obtain details where r: "resolve_store_core_state \<Gamma> d (Some i) (Some True) (e_content e) (e_scope e)
      (Some (ci_core_reason inp)) (Some (ci_core_exit_condition inp)) None details = Inr st"
    using assms(1) by (auto simp: set_core_state_def Let_def split: if_splits)
  obtain prev where ld: "load_details (e_core_detail_memory_ids e) = Inr prev"
    using r assms(2,3)
    by (cases "load_details (e_core_detail_memory_ids e)")
      (simp_all add: resolve_store_core_state_def Let_def load_existing_core_state_def)
  define x where "x = \<lparr>xc_is_core = e_is_core e, xc_core_reason = e_core_reason e,
    xc_core_exit_condition = e_core_exit_condition e, xc_core_review_after = e_core_review_after e,
    xc_core_detail_memory_ids = prev\<rparr>"
  have x: "load_existing_core_state d (Some i) = Inr (Some x)" "xc_is_core x = e_is_core e"
    "load_details (e_core_detail_memory_ids e) = Inr (xc_core_detail_memory_ids x)"
    using ld assms(2,3) by (simp_all add: load_existing_core_state_def x_def)
  have sc: "e_scope e = Shared" using r x(1) by (auto simp: resolve_store_core_state_def Let_def split: if_splits)
  obtain reason ex rv ch where l: "resolve_core_lifecycle \<Gamma> (Some x) (Some (ci_core_reason inp))
      (Some (ci_core_exit_condition inp)) None = Inr (reason, ex, rv, ch)"
    using r x(1) sc by (auto simp: resolve_store_core_state_def Let_def split: sum.splits)
  have re: "resolve_core_reason_exit \<Gamma> (Some x) (Some (ci_core_reason inp)) (Some (ci_core_exit_condition inp)) = Inr (reason, ex)"
    using l by (auto simp: resolve_core_lifecycle_def split: sum.splits)
  have len: "length (e_content e) \<le> CORE_MAX_CONTENT_CHARS"
    using r x(1) sc l by (auto simp: resolve_store_core_state_def Let_def validate_core_content_length_def split: if_splits)
  obtain ids out where v: "validate_detail_memory_ids d ids (e_content e) = Inr out" and
    st: "st = \<lparr>cs_is_core = True, cs_is_new_core = (\<not> xc_is_core x), cs_review_after_changed = ch,
      cs_core_reason = Some reason, cs_core_exit_condition = Some ex, cs_core_review_after = Some rv,
      cs_core_detail_memory_ids = out, cs_previous_detail_memory_ids = xc_core_detail_memory_ids x\<rparr>"
    using r x(1) sc l len
    by (auto simp: resolve_store_core_state_def Let_def validate_core_content_length_def detail_result_def
        split: sum.splits)
  show "cs_is_new_core st = (\<not> e_is_core e)" "e_scope e = Shared" "length (e_content e) \<le> CORE_MAX_CONTENT_CHARS"
    using x(2) sc len by (simp_all add: st)
  show "\<exists>reason ex. cs_core_reason st = Some reason \<and> cs_core_exit_condition st = Some ex \<and>
       20 \<le> length reason \<and> length reason \<le> 500 \<and> 20 \<le> length ex \<and> length ex \<le> 500"
    using resolve_core_reason_exit_ok[OF re] by (simp add: st)
  show "\<exists>ids. validate_detail_memory_ids d ids (e_content e) = Inr (cs_core_detail_memory_ids st)"
    using v by (auto simp: st)
  show "load_details (e_core_detail_memory_ids e) = Inr (cs_previous_detail_memory_ids st)"
    using x(3) by (simp add: st)
qed

section \<open>Lemmas: review\<close>

lemma review_core_memory_cases:
  assumes "review_core_memory \<Gamma> locks eid outcome why agent ra d = (r, d')"
  obtains
    (refused) "d' = d" "isl r \<or> (\<exists>es. r = Inr (Rejected es))"
  | (reviewed) i e out rationale where "get_entity d i = Some e" "outcome = Some out"
      "validate_core_review_rationale \<Gamma> why = Inr rationale"
      "review_write \<Gamma> i out rationale agent ra d = (r, d')"
proof (cases "d' = d \<and> (isl r \<or> (\<exists>es. r = Inr (Rejected es)))")
  case True
  then show thesis by (intro refused) auto
next
  case False
  then obtain out rationale where o: "outcome = Some out"
    "validate_core_review_rationale \<Gamma> why = Inr rationale"
    "write_transaction_retrying locks
       (review_write \<Gamma> (the (resolve_entity_id d eid)) out rationale agent ra) d = (r, d')"
    using assms by (auto simp: review_core_memory_def Let_def split: option.splits if_splits sum.splits)
  let ?i = "the (resolve_entity_id d eid)"
  obtain res where r: "r = Inr res" using False o(3) by (cases r) (auto dest: retrying_abort)
  then have w: "review_write \<Gamma> ?i out rationale agent ra d = (r, d')" using o(3) retrying_commit by auto
  then obtain e where "get_entity d ?i = Some e"
    using False r by (cases "get_entity d ?i") (auto simp: review_write_def)
  then show thesis using o w by (intro reviewed) auto
qed

text \<open>What no core operation changes about a row: its identity, text, owner and scope.\<close>

definition same_body :: "entity \<Rightarrow> entity \<Rightarrow> bool" where
  "same_body e e' \<longleftrightarrow> e_id e' = e_id e \<and> e_title e' = e_title e \<and> e_content e' = e_content e \<and>
     e_scope e' = e_scope e \<and> e_agent_id e' = e_agent_id e \<and> e_created_at e' = e_created_at e \<and>
     e_memory_type e' = e_memory_type e \<and> (e_status e' = e_status e \<or> e_status e' = Archived)"

definition core_hist :: "db \<Rightarrow> db \<Rightarrow> bool" where
  "core_hist d d' \<longleftrightarrow> list_all2 same_body (entities d) (entities d')"

definition core_ok :: "db \<Rightarrow> bool" where
  "core_ok d \<longleftrightarrow> entity_keys d \<and> length (filter active_core (entities d)) \<le> CORE_MAX_ACTIVE"

lemma same_body_refl [simp]: "same_body e e"
  by (simp add: same_body_def)

lemma core_hist_update:
  assumes "entities d' = update_where P f (entities d)" "\<And>x. same_body x (f x)"
  shows "core_hist d d'"
  unfolding core_hist_def assms(1) update_where_def
  by (simp add: list.rel_map(2) list.rel_refl_strong assms(2))

interpretation core: evolution core_ok core_hist
proof
  show "core_hist d d" for d by (simp add: core_hist_def list.rel_refl)
  show "core_hist d u" if "core_hist d t" "core_hist t u" for d t u
    using that unfolding core_hist_def
    by (rule list_all2_trans[of same_body same_body same_body, rotated]) (auto simp: same_body_def)
qed

lemma count_map_le: "(\<And>x. A (g x) \<Longrightarrow> A x) \<Longrightarrow> length (filter A (map g es)) \<le> length (filter A es)"
  by (induction es) auto

lemma core_update_evolves:
  assumes "entities d' = update_where P f (entities d)" "\<And>x. same_body x (f x)"
    "\<And>x. active_core (f x) \<Longrightarrow> active_core x"
  shows "core.evolves d d'"
  unfolding core.evolves_def
proof (intro impI conjI)
  assume ok: "core_ok d"
  show "core_hist d d'" using assms(1,2) by (rule core_hist_update)
  have "length (filter active_core (entities d')) \<le> length (filter active_core (entities d))"
    unfolding assms(1) update_where_def by (rule count_map_le) (auto split: if_splits intro: assms(3))
  moreover have "entity_keys d'"
    using ok assms(1,2) by (intro entity_keys_update(1)[of d d' P f]) (auto simp: core_ok_def same_body_def)
  ultimately show "core_ok d'" using ok by (simp add: core_ok_def)
qed

lemma detach_entities [simp]: "entities (detach_tag i t d) = entities d"
  by (simp add: detach_tag_def)

lemma review_write_evolves:
  assumes "review_write \<Gamma> i out rationale agent ra d = (r, d')"
  shows "core.evolves d d'"
proof (cases "get_entity d i")
  case None
  then show ?thesis using assms by (simp add: review_write_def)
next
  case (Some e)
  have upd: "core.evolves x (update_entity i f x)"
    if "\<And>y. same_body y (f y)" "\<And>y. active_core (f y) \<Longrightarrow> active_core y" for f x
    by (rule core_update_evolves[where P = "\<lambda>y. e_id y = i" and f = f]) (simp_all add: update_entity_def that)
  show ?thesis
  proof (cases out)
    case Retain
    then show ?thesis
      using assms Some
      by (auto simp: review_write_def review_retain_def split: if_splits sum.splits
          intro!: upd simp: same_body_def active_core_def)
  next
    case Demote
    let ?f = "\<lambda>x. x\<lparr>e_is_core := False, e_core_review_after := None,
      e_core_last_reviewed_at := Some (now_iso \<Gamma>), e_core_last_reviewed_by := Some agent,
      e_core_review_rationale := Some rationale, e_updated_at := now_iso \<Gamma>\<rparr>"
    have "d' = d \<or> entities d' = update_where (\<lambda>y. e_id y = i) ?f (entities d)"
      using assms Some Demote
      by (auto simp: review_write_def review_demote_def Let_def update_entity_def split: if_splits option.splits)
    then show ?thesis
      using core_update_evolves[where f = ?f] by (auto simp: same_body_def active_core_def)
  next
    case Archive
    have "d' = d \<or> d' = update_entity i (\<lambda>x. x\<lparr>e_core_last_reviewed_at := Some (now_iso \<Gamma>),
             e_core_last_reviewed_by := Some agent, e_core_review_rationale := Some rationale\<rparr>)
             (archive_entity_unchecked \<Gamma> i d)"
      using assms Some Archive by (auto simp: review_write_def review_archive_def split: if_splits)
    moreover have "core.evolves d (archive_entity_unchecked \<Gamma> i d)"
      by (rule core_update_evolves[where P = "\<lambda>e. e_id e = i \<and> e_status e \<noteq> Archived" and
          f = "\<lambda>e. e\<lparr>e_status := Archived, e_embedding_status := ''archived'', e_updated_at := now_iso \<Gamma>,
                 e_valid_to := Some (now_iso \<Gamma>)\<rparr>"])
        (simp_all add: archive_entity_unchecked_def Let_def same_body_def active_core_def)
    ultimately show ?thesis
      by (auto intro!: core.evolves_trans[OF _ upd] simp: same_body_def active_core_def)
  qed
qed

lemma review_evolves:
  assumes "review_core_memory \<Gamma> locks eid outcome why agent ra d = (r, d')"
  shows "core.evolves d d'"
  using assms
proof (cases rule: review_core_memory_cases)
  case (reviewed i e out rationale)
  then show ?thesis by (intro review_write_evolves)
qed simp

lemma set_core_evolves:
  assumes "set_core_memory \<Gamma> locks fr eid agent reason exit details d = (r, d')"
  shows "core.evolves d d'"
  using assms
proof (cases rule: set_core_memory_cases)
  case (written i e inp st)
  show ?thesis unfolding core.evolves_def
  proof (intro impI conjI)
    assume ok: "core_ok d"
    then have keys: "entity_keys d" by (simp add: core_ok_def)
    show "core_hist d d'"
      by (rule core_hist_update[OF written(8)]) (simp add: same_body_def declare_core_def)
    have "entity_keys d'" by (rule entity_keys_update(1)[OF keys written(8)]) simp
    moreover have "core_capacity d'" by (rule set_core_capacity[OF keys written(1,3,5,8)])
    ultimately show "core_ok d'" by (simp add: core_ok_def core_capacity_def)
  qed
qed simp

text \<open>The governance operations as a transition system.\<close>

inductive core_step :: "db \<Rightarrow> db \<Rightarrow> bool" where
  set_core: "set_core_memory \<Gamma> locks fr eid agent reason exit details d = (r, d') \<Longrightarrow> core_step d d'"
| review: "review_core_memory \<Gamma> locks eid outcome why agent ra d = (r, d') \<Longrightarrow> core_step d d'"

lemma core_step_evolves: "core_step d d' \<Longrightarrow> core.evolves d d'"
  by (induction rule: core_step.induct) (rule set_core_evolves, assumption, rule review_evolves, assumption)

lemma get_entity_update:
  assumes "entities d' = update_where P f (entities d)" "\<And>x. e_id (f x) = e_id x"
  shows "get_entity d' i = map_option (\<lambda>x. if P x then f x else x) (get_entity d i)"
proof -
  have "find_row (\<lambda>e. e_id e = i) (map (\<lambda>x. if P x then f x else x) es) =
      map_option (\<lambda>x. if P x then f x else x) (find_row (\<lambda>e. e_id e = i) es)" for es
    by (induction es) (auto simp: assms(2))
  then show ?thesis by (simp add: get_entity_def assms(1) update_where_def)
qed

lemma written_row:
  assumes "get_entity d i = Some e"
    "entities d' = update_where (\<lambda>x. e_id x = i) (declare_core \<Gamma> st) (entities d)"
  shows "get_entity d' i = Some (declare_core \<Gamma> st e)"
  using get_entity_update[OF assms(2)] assms(1) get_entity_Some[OF assms(1)] by simp

lemma review_retain_ok:
  assumes "review_retain \<Gamma> i e rationale agent ra d = (Inr (Ok j []), d')" "get_entity d i = Some e"
  shows "j = i \<and> (\<exists>t e'. get_entity d' i = Some e' \<and> active_core e' \<and> e_core_last_reviewed_by e' = Some agent \<and>
    e_core_review_rationale e' = Some rationale \<and> e_core_review_after e' = Some (isoformat \<Gamma> t) \<and>
    now \<Gamma> < t \<and> t \<le> now \<Gamma> + days CORE_MAX_REVIEW_DAYS)"
proof -
  have act: "active_core e" and j: "j = i" using assms(1)
    by (auto simp: review_retain_def active_core_def split: if_splits sum.splits)
  obtain v dd s where p: "parse_core_review_after \<Gamma> v dd = Inr s"
    and d': "d' = update_entity i (\<lambda>x. x\<lparr>e_core_review_after := Some s,
             e_core_last_reviewed_at := Some (now_iso \<Gamma>), e_core_last_reviewed_by := Some agent,
             e_core_review_rationale := Some rationale, e_updated_at := now_iso \<Gamma>\<rparr>) d"
    using assms(1) by (auto simp: review_retain_def split: if_splits sum.splits option.splits)
  obtain t where t: "s = isoformat \<Gamma> t" "now \<Gamma> < t" "t \<le> now \<Gamma> + days CORE_MAX_REVIEW_DAYS"
    using p by (auto simp: parse_core_review_after_def split: option.splits if_splits)
  let ?e = "e\<lparr>e_core_review_after := Some s, e_core_last_reviewed_at := Some (now_iso \<Gamma>),
    e_core_last_reviewed_by := Some agent, e_core_review_rationale := Some rationale, e_updated_at := now_iso \<Gamma>\<rparr>"
  have "get_entity d' i = Some ?e"
    using get_entity_update[of d' "\<lambda>x. e_id x = i" _ d i] assms(2) get_entity_Some[OF assms(2)]
    by (simp add: d' update_entity_def)
  moreover have "active_core ?e" using act by (simp add: active_core_def)
  ultimately show ?thesis using j t by (intro conjI exI[of _ t] exI[of _ ?e]) simp_all
qed

lemma review_demote_ok:
  assumes "review_demote \<Gamma> i e rationale agent d = (Inr (Ok j []), d')" "get_entity d i = Some e"
  shows "j = i \<and> (\<exists>e'. get_entity d' i = Some e' \<and> e_core_last_reviewed_by e' = Some agent \<and>
    e_core_review_rationale e' = Some rationale \<and> \<not> e_is_core e' \<and> e_core_review_after e' = None)"
proof -
  let ?f = "\<lambda>x. x\<lparr>e_is_core := False, e_core_review_after := None,
      e_core_last_reviewed_at := Some (now_iso \<Gamma>), e_core_last_reviewed_by := Some agent,
      e_core_review_rationale := Some rationale, e_updated_at := now_iso \<Gamma>\<rparr>"
  have "j = i \<and> entities d' = update_where (\<lambda>y. e_id y = i) ?f (entities d)"
    using assms(1) by (auto simp: review_demote_def Let_def update_entity_def split: if_splits option.splits)
  then show ?thesis
    using get_entity_update[of d' "\<lambda>x. e_id x = i" ?f d i] assms(2) get_entity_Some[OF assms(2)] by simp
qed

lemma review_archive_ok:
  assumes "review_archive \<Gamma> i e rationale agent d = (Inr (Ok j []), d')" "get_entity d i = Some e"
  shows "j = i \<and> (\<exists>e'. get_entity d' i = Some e' \<and> e_core_last_reviewed_by e' = Some agent \<and>
    e_core_review_rationale e' = Some rationale \<and> e_status e' = Archived) \<and>
    (\<forall>x \<in> set (relations d'). live x \<longrightarrow> r_source x \<noteq> i \<and> r_target x \<noteq> i)"
proof -
  let ?h = "\<lambda>e. e\<lparr>e_status := Archived, e_embedding_status := ''archived'', e_updated_at := now_iso \<Gamma>,
    e_valid_to := Some (now_iso \<Gamma>)\<rparr>"
  let ?f = "\<lambda>x. x\<lparr>e_core_last_reviewed_at := Some (now_iso \<Gamma>), e_core_last_reviewed_by := Some agent,
    e_core_review_rationale := Some rationale\<rparr>"
  let ?d1 = "archive_entity_unchecked \<Gamma> i d"
  have st: "e_status e \<noteq> Archived" and d': "d' = update_entity i ?f ?d1" and j: "j = i"
    using assms(1) by (auto simp: review_archive_def split: if_splits)
  have "get_entity ?d1 i = Some (?h e)"
    using get_entity_update[of ?d1 "\<lambda>x. e_id x = i \<and> e_status x \<noteq> Archived" ?h d i] assms(2)
      get_entity_Some[OF assms(2)] st by (simp add: archive_entity_unchecked_def Let_def)
  then have "get_entity d' i = Some (?f (?h e))"
    using get_entity_update[of d' "\<lambda>x. e_id x = i" ?f ?d1 i] get_entity_Some[OF assms(2)]
    by (simp add: d' update_entity_def)
  moreover have "relations d' = update_where (\<lambda>r. (r_source r = i \<or> r_target r = i) \<and> live r)
      (\<lambda>r. r\<lparr>r_valid_to := Some (now_iso \<Gamma>)\<rparr>) (relations d)"
    by (simp add: d' update_entity_def archive_entity_unchecked_def Let_def)
  then have "\<forall>x \<in> set (relations d'). live x \<longrightarrow> r_source x \<noteq> i \<and> r_target x \<noteq> i"
    by (auto simp: set_update_where live_def)
  ultimately show ?thesis using j by simp
qed

section \<open>Lemmas: linking details\<close>

lemma endpoint_self:
  assumes "get_entity d x \<noteq> None" "py_strip x = x" "x \<noteq> []"
  shows "resolve_relation_endpoint d x l = (Some x, None)"
proof -
  obtain e where e: "e \<in> set (entities d)" "e_id e = x" using assms(1) get_entity_Some by blast
  have "resolve_entity_ref d (Some x) None = (Some (e_id e), [], False)"
    by (rule resolve_exact_id[OF e(1)]) (use assms e(2) in \<open>simp_all add: visible_def\<close>)
  then show ?thesis using assms(3) unfolding e(2) by (simp add: resolve_relation_endpoint_def)
qed

lemma endpoints_self:
  assumes "get_entity d x \<noteq> None" "py_strip x = x" "x \<noteq> []" "get_entity d y \<noteq> None" "py_strip y = y" "y \<noteq> []" "x \<noteq> y"
  shows "resolve_store_relation_endpoints d x y = Inr (x, y)"
  using assms endpoint_self by (simp add: resolve_store_relation_endpoints_def)

lemma elaborates_on_normal: "normalize_predicate_name (Some ''elaborates_on'') = ''elaborates_on''"
  by (rule normalize_fixes_normal[OF selectable_normal]) (simp add: agent_selectable_predicates_def)

text \<open>A name that resolves to itself in every store with the same entities.\<close>

definition self_ref :: "db \<Rightarrow> string \<Rightarrow> bool" where
  "self_ref d x \<longleftrightarrow> get_entity d x \<noteq> None \<and> py_strip x = x \<and> x \<noteq> []"

lemma self_ref_frame: "same_base d d' \<Longrightarrow> self_ref d' x = self_ref d x"
  by (simp add: self_ref_def same_base_def get_entity_def)

lemma link_details_links:
  assumes "link_details \<Gamma> c agent gen k ids d = (Inr u, d')" "rel_inv d" "self_ref d c"
    "\<forall>x \<in> set ids. self_ref d x" "distinct ids"
  shows "rel_inv d' \<and> (\<forall>x \<in> set ids. live_edge d' x c ''elaborates_on'' \<noteq> None) \<and>
    (\<forall>r \<in> set (relations d). r_source r \<notin> set ids \<longrightarrow> r \<in> set (relations d'))"
  using assms
proof (induction \<Gamma> c agent gen k ids d arbitrary: d' rule: link_details.induct)
  case (2 \<Gamma> c agent gen k x xs d)
  let ?a = "detail_args c agent (gen k) x"
  obtain res d1 where s: "store_relation \<Gamma> (\<lambda>_. False) ?a d = (res, d1)" by fastforce
  then have nr: "\<not> is_rejected res" and rest: "link_details \<Gamma> c agent gen (Suc k) xs d1 = (Inr u, d')"
    using "2.prems"(1) by (auto split: if_splits)
  then obtain rid ws where ok: "store_relation \<Gamma> (\<lambda>_. False) ?a d = (Ok rid ws, d1)"
    using s by (cases res) (simp_all add: is_rejected_def)
  have no_rej: "\<not> isl (resolve_store_relation_endpoints d x c)"
    using "2.prems"(2) ok by (rule store_relation_Ok) (simp add: detail_args_def)
  have "x \<noteq> c"
  proof
    assume "x = c"
    then have "resolve_store_relation_endpoints d x c = Inl (Rejected [error VALIDATION_ERROR None])"
      using "2.prems"(3) endpoint_self[of d c] by (simp add: resolve_store_relation_endpoints_def self_ref_def)
    then show False using no_rej by simp
  qed
  then have ends: "resolve_store_relation_endpoints d (the (sa_source ?a)) (the (sa_target ?a)) = Inr (x, c)"
    using "2.prems"(3,4) endpoints_self[of d x c] by (auto simp: detail_args_def self_ref_def)
  have inv1: "rel_inv d1"
    using store_relation_evolves[OF s, of True] "2.prems"(2) by (auto dest: rel.evolves_inv)
  have fr: "same_base d d1" by (rule store_relation_frame[OF s])
  obtain r where r: "live_edge d1 x c ''elaborates_on'' = Some r"
    using "2.prems"(2) ok
    by (rule store_relation_Ok) (use ends in \<open>simp add: detail_args_def elaborates_on_normal\<close>)
  have IH: "rel_inv d' \<and> (\<forall>y \<in> set xs. live_edge d' y c ''elaborates_on'' \<noteq> None) \<and>
      (\<forall>r \<in> set (relations d1). r_source r \<notin> set xs \<longrightarrow> r \<in> set (relations d'))"
    using "2.IH"[OF s[symmetric] nr rest inv1] "2.prems"(3-5) self_ref_frame[OF fr] by simp
  have "r \<in> set (relations d1)" "edge_is x c ''elaborates_on'' r" "live r"
    using live_edge_Some[OF r] by simp_all
  moreover have "x \<notin> set xs" using "2.prems"(5) by simp
  ultimately have "r \<in> set (relations d')" using IH by (auto simp: edge_is_def)
  then have "live_edge d' x c ''elaborates_on'' \<noteq> None"
    using \<open>edge_is x c ''elaborates_on'' r\<close> \<open>live r\<close> unfolding live_edge_None by blast
  moreover have "q \<in> set (relations d')" if "q \<in> set (relations d)" "r_source q \<notin> set (x # xs)" for q
    using store_keeps_other_sources[OF "2.prems"(2) ok ends that(1)] that(2) IH by simp
  ultimately show ?case using IH by simp
qed simp

section \<open>A concrete promotion\<close>

text \<open>The owner of \<open>m1\<close> promotes it in the two-memory store: the input of the witnesses below.\<close>

definition sample_reason :: string where "sample_reason = ''needed in every session''"
definition sample_exit :: string where "sample_exit = ''until the migration is done''"

definition sample_fresh :: fresh_ids where
  "sample_fresh = \<lparr>fr_relations = (\<lambda>_. (''r'', ''ev'')), fr_tag = ''t1'', fr_events = (''v'', ''w'')\<rparr>"

definition sample_state :: core_state where
  "sample_state = \<lparr>cs_is_core = True, cs_is_new_core = True, cs_review_after_changed = False,
     cs_core_reason = Some sample_reason, cs_core_exit_condition = Some sample_exit,
     cs_core_review_after = Some ''1970-01-15'', cs_core_detail_memory_ids = [],
     cs_previous_detail_memory_ids = []\<rparr>"

definition sample_inputs :: core_inputs where
  "sample_inputs = \<lparr>ci_core_reason = sample_reason, ci_core_exit_condition = sample_exit,
     ci_detail_memory_ids = None\<rparr>"

lemma sample_m1: "get_entity sample_db ''m1'' = Some sample_entity"
  by (simp add: get_entity_def sample_db_def sample_entity_def)

lemma sample_keys: "entity_keys sample_db"
  by (simp add: entity_keys_def sample_db_def sample_entity_def)

lemma sample_no_core: "filter active_core (entities sample_db) = []" "load_active_cores \<Gamma> sample_db = []"
  by (simp_all add: load_active_cores_def active_core_def sample_db_def sample_entity_def)

lemma sample_capacity: "core_capacity sample_db"
  by (simp add: core_capacity_def sample_no_core render_bootstrap_digest_def render_digest_def core_limits)

lemma sample_target: "set_core_target_row sample_db ''m1'' ''a'' = Inr (Inr (''m1'', sample_entity, []))"
proof -
  have "resolve_entity_ref sample_db (Some ''m1'') (Some ''a'') = (Some (e_id sample_entity), [], False)"
  proof (rule resolve_exact_id)
    show "py_strip ''m1'' = e_id sample_entity" by code_simp
  qed (simp_all add: sample_db_def visible_def sample_entity_def)
  then show ?thesis
    by (simp add: set_core_target_row_def owned_memory_target_def sample_m1 sample_entity_def)
qed

lemma sample_set_core_state: "set_core_state sample_env sample_db ''m1'' sample_entity sample_inputs = Inr sample_state"
proof -
  have t: "validate_core_reason sample_env (Some sample_reason) = Inr sample_reason"
    "validate_core_exit_condition sample_env (Some sample_exit) = Inr sample_exit"
    by code_simp+
  show ?thesis
    by (simp add: set_core_state_def resolve_store_core_state_def load_existing_core_state_def sample_m1
        sample_inputs_def sample_entity_def resolve_core_lifecycle_def resolve_core_reason_exit_def
        resolve_core_review_def supplied_or_preserved_def t sample_default_review Let_def
        validate_core_content_length_def detail_result_def validate_detail_memory_ids_def
        sample_state_def core_limits)
qed

lemma sample_admission: "set_core_admission sample_env sample_db ''m1'' sample_entity sample_state = None"
proof -
  have r: "length (render_digest sample_env [set_core_entry ''m1'' sample_entity sample_state] True) \<le> 15000"
    by code_simp
  have p: "prospective_entries sample_env sample_db [''m1''] (Some x) = [x]" for x
    by (simp add: prospective_entries_def sample_no_core)
  have "check_capacity_admission sample_env sample_db [''m1''] (Some (set_core_entry ''m1'' sample_entity sample_state)) = None"
    using r by (simp add: admission_spec p) (simp add: set_core_entry_def sample_entity_def)
  then show ?thesis
    by (simp add: set_core_admission_def enforce_overdue_boundary_def has_overdue_core_def sample_no_core Let_def)
qed

lemma sample_promotion:
  "\<exists>d'. set_core_memory sample_env (\<lambda>_. False) sample_fresh ''m1'' ''a'' (Some sample_reason)
     (Some sample_exit) No_Details sample_db =
     (Inr (Ok \<lparr>co_id = ''m1'', co_core_review_after = Some ''1970-01-15''\<rparr> []), d')"
proof -
  let ?d0 = "update_entity ''m1'' (declare_core sample_env sample_state) sample_db"
  obtain r d1 where s: "sync_raw_core_tag sample_env ''t1'' (''v'', ''w'') ''m1'' (Some ''a'') ?d0 = (r, d1)" by fastforce
  obtain r0 d0 where t: "resolve_or_create_tag sample_env ''t1'' (''v'', ''w'') (Some ''#core'') (Some ''a'') ?d0 = (r0, d0)"
    by fastforce
  then have "\<not> isl r0"
    by (cases rule: resolve_or_create_tag_cases) (simp_all add: update_entity_def sample_db_def empty_db_def)
  then have "r = Inr ()" using s t by (cases r0) (simp_all add: sync_raw_core_tag_def)
  then have w: "set_core_write sample_env sample_fresh ''m1'' sample_state ''a'' sample_db =
      (Inr (Ok \<lparr>co_id = ''m1'', co_core_review_after = Some ''1970-01-15''\<rparr> []), d1)"
    using s by (simp add: set_core_write_def reconcile_detail_relations_def sample_state_def sample_fresh_def)
  have a: "set_core_transaction sample_env sample_fresh ''m1'' ''a'' sample_inputs sample_db =
      (Inr (Ok \<lparr>co_id = ''m1'', co_core_review_after = Some ''1970-01-15''\<rparr> []), d1)"
    using w by (simp add: set_core_transaction_def sample_target set_core_apply_def sample_set_core_state
        sample_admission) (simp add: sample_entity_def)
  have b: "py_strip sample_reason \<noteq> []" "py_strip sample_exit \<noteq> []" "sample_reason \<noteq> []" "sample_exit \<noteq> []"
    by code_simp+
  have "write_transaction_retrying (\<lambda>_. False) (set_core_transaction sample_env sample_fresh ''m1'' ''a'' sample_inputs) sample_db =
      (Inr (Ok \<lparr>co_id = ''m1'', co_core_review_after = Some ''1970-01-15''\<rparr> []), d1)"
    using a by (subst retrying_unlocked) (auto simp: write_transaction_def)
  then show ?thesis using b by (simp add: set_core_memory_def sample_inputs_def)
qed

section \<open>Properties\<close>

text \<open>
  C7. Promotion keeps the capacity promise. Whatever \<open>set_core_memory\<close> answers, at most five active
  cores exist afterwards and the bootstrap digest, rendered at any later time, has at most 15000
  characters; a rejection or an exception changes nothing at all; ids stay unique.
\<close>

theorem set_core_keeps_capacity:
  assumes "entity_keys d" "core_capacity d"
    and run: "set_core_memory \<Gamma> locks fr eid agent reason exit details d = (r, d')"
  shows "core_capacity d' \<and> entity_keys d' \<and> (isl r \<or> (\<exists>es. r = Inr (Rejected es)) \<longrightarrow> d' = d)"
  using run
proof (cases rule: set_core_memory_cases)
  case kept
  then show ?thesis using assms(1,2) by simp
next
  case (written i e inp st)
  have "entity_keys d'" by (rule entity_keys_update(1)[OF assms(1) written(8)]) simp
  moreover have "core_capacity d'" by (rule set_core_capacity[OF assms(1) written(1,3,5,8)])
  ultimately show ?thesis using written(7) by simp
qed

theorem set_core_keeps_capacity_witness:
  "\<exists>out d'. set_core_memory sample_env (\<lambda>_. False) sample_fresh ''m1'' ''a'' (Some sample_reason)
     (Some sample_exit) No_Details sample_db = (Inr (Ok out []), d') \<and> core_capacity d' \<and> entity_keys d'"
  using sample_promotion set_core_keeps_capacity[OF sample_keys sample_capacity] by blast

text \<open>
  C8. A successful promotion is governed: the memory is the caller's own, raw and shared, its
  content and its two declaration texts are within their bounds, and it is core afterwards, while
  every other row is untouched. A memory that was not core before is promoted only when no active
  core is overdue for review.
\<close>

theorem promotion_governed:
  assumes "entity_keys d"
    and run: "set_core_memory \<Gamma> locks fr eid agent reason exit details d = (Inr (Ok out []), d')"
  shows "\<exists>e e' rs ex. get_entity d (co_id out) = Some e \<and> e_agent_id e = Some agent \<and> e_status e = Raw \<and>
    e_scope e = Shared \<and> length (e_content e) \<le> CORE_MAX_CONTENT_CHARS \<and>
    get_entity d' (co_id out) = Some e' \<and> active_core e' \<and>
    e_core_reason e' = Some rs \<and> 20 \<le> length rs \<and> length rs \<le> 500 \<and>
    e_core_exit_condition e' = Some ex \<and> 20 \<le> length ex \<and> length ex \<le> 500 \<and>
    (\<forall>x. e_id x \<noteq> co_id out \<longrightarrow> x \<in> set (entities d') \<longleftrightarrow> x \<in> set (entities d)) \<and>
    (\<not> e_is_core e \<longrightarrow> (\<forall>x \<in> set (entities d). active_core x \<longrightarrow> \<not> is_overdue \<Gamma> (e_core_review_after x)))"
  using run
proof (cases rule: set_core_memory_cases)
  case kept
  then show ?thesis by simp
next
  case (written i e inp st)
  have i: "co_id out = i" using written(7) by auto
  have ei: "e \<in> set (entities d)" "e_id e = i" using get_entity_Some[OF written(1)] by simp_all
  then have ne: "i \<noteq> []" using assms(1) by (auto simp: entity_keys_def)
  note st = set_core_state_ok[OF written(4,1) ne]
  note g = written_row[OF written(1,8)]
  have others: "\<forall>x. e_id x \<noteq> i \<longrightarrow> x \<in> set (entities d') \<longleftrightarrow> x \<in> set (entities d)"
    unfolding written(8) set_update_where by auto
  have "\<forall>x \<in> set (entities d). active_core x \<longrightarrow> \<not> is_overdue \<Gamma> (e_core_review_after x)" if "\<not> e_is_core e"
  proof -
    have "cs_is_new_core st" using st(1) that by simp
    then have "enforce_overdue_boundary \<Gamma> d (Some i) True True False (Some (set_core_entry i e st)) = Inr ()"
      using set_core_admission_None(2)[OF written(5)] by simp
    then show ?thesis using no_overdue assms(1) by blast
  qed
  with g others st(2,3,4) written(1,2,3) show ?thesis
    unfolding i by (auto simp: active_core_def)
qed

theorem promotion_governed_witness:
  "\<exists>d' e'. set_core_memory sample_env (\<lambda>_. False) sample_fresh ''m1'' ''a'' (Some sample_reason)
     (Some sample_exit) No_Details sample_db =
     (Inr (Ok \<lparr>co_id = ''m1'', co_core_review_after = Some ''1970-01-15''\<rparr> []), d') \<and>
     get_entity d' ''m1'' = Some e' \<and> active_core e'"
proof -
  obtain d' where run: "set_core_memory sample_env (\<lambda>_. False) sample_fresh ''m1'' ''a'' (Some sample_reason)
     (Some sample_exit) No_Details sample_db =
     (Inr (Ok \<lparr>co_id = ''m1'', co_core_review_after = Some ''1970-01-15''\<rparr> []), d')"
    using sample_promotion by blast
  show ?thesis using promotion_governed[OF sample_keys run] run by auto
qed

text \<open>
  The first promotion of a memory links its declared details: in a store with a sound relation
  table every declared detail has a live \<open>elaborates_on\<close> edge into the new core afterwards.
\<close>

lemma promotion_links_details:
  assumes "entity_keys d" "rel_inv d"
    and run: "set_core_memory \<Gamma> locks fr eid agent reason exit details d = (Inr (Ok out []), d')"
    and e: "get_entity d (co_id out) = Some e" "\<not> e_is_core e" "e_core_detail_memory_ids e = Detail_Null"
      "py_strip (co_id out) = co_id out"
  shows "\<exists>e' ids. get_entity d' (co_id out) = Some e' \<and>
    load_details (e_core_detail_memory_ids e') = Inr ids \<and> length ids \<le> CORE_MAX_DETAIL_MEMORY_IDS \<and>
    (\<forall>x \<in> set ids. live_edge d' x (co_id out) ''elaborates_on'' \<noteq> None)"
  using run
proof (cases rule: set_core_memory_cases)
  case kept
  then show ?thesis by simp
next
  case (written i e0 inp st)
  have i: "co_id out = i" using written(7) by auto
  have e0: "e0 = e" using e(1) written(1) by (simp add: i)
  have ei: "e \<in> set (entities d)" "e_id e = i" using get_entity_Some[OF e(1)] by (simp_all add: i)
  then have ne: "i \<noteq> []" using assms(1) by (auto simp: entity_keys_def)
  note st = set_core_state_ok[OF written(4,1) ne, unfolded e0]
  let ?ids = "cs_core_detail_memory_ids st" and ?d0 = "update_entity i (declare_core \<Gamma> st) d"
  obtain raw where v: "validate_detail_memory_ids d raw (e_content e) = Inr ?ids" using st(5) by blast
  then have len: "length raw \<le> CORE_MAX_DETAIL_MEMORY_IDS" "validate_details d (e_content e) [] raw = Inr ?ids"
    by (simp_all add: validate_detail_memory_ids_def split: if_splits)
  note vd = validate_details_spec[OF len(2), simplified]
  have prev: "cs_previous_detail_memory_ids st = []" using st(6) e(3) by simp
  obtain r1 d1 where l: "link_details \<Gamma> i (Some agent) (fr_relations fr) 0 ?ids ?d0 = (r1, d1)" by fastforce
  have ok: "\<exists>u. r1 = Inr u \<and> relations d' = relations d1"
  proof -
    obtain u where u: "r1 = Inr u"
      using written(6,7) l by (cases r1) (simp_all add: set_core_write_def reconcile_detail_relations_def)
    obtain r2 d2 where s: "sync_raw_core_tag \<Gamma> (fr_tag fr) (fr_events fr) i (Some agent) d1 = (r2, d2)" by fastforce
    then have "d' = d2"
      using written(6,7) l u prev
      by (cases r2) (simp_all add: set_core_write_def reconcile_detail_relations_def)
    then show ?thesis using u sync_frame[OF s] by simp
  qed
  then obtain u where u: "link_details \<Gamma> i (Some agent) (fr_relations fr) 0 ?ids ?d0 = (Inr u, d1)"
    and rel: "relations d' = relations d1" using l by auto
  have "map e_id (entities ?d0) = map e_id (entities d)"
    by (rule entity_keys_update(2)[OF assms(1), of _ "\<lambda>x. e_id x = i" "declare_core \<Gamma> st"])
      (simp_all add: update_entity_def)
  then have ids0: "e_id ` set (entities ?d0) = e_id ` set (entities d)" by (metis set_map)
  have "get_entity x y \<noteq> None \<longleftrightarrow> y \<in> e_id ` set (entities x)" for x y
    by (auto simp: get_entity_def find_row_None)
  then have ex: "get_entity ?d0 y \<noteq> None \<longleftrightarrow> get_entity d y \<noteq> None" for y using ids0 by metis
  have "rel_inv ?d0" using assms(2) by (simp add: rel_inv_def update_entity_def)
  moreover have "self_ref ?d0 i" using ex[of i] e(1,4) ne by (simp add: self_ref_def i)
  moreover have "\<forall>x \<in> set ?ids. self_ref ?d0 x" using vd ex unfolding self_ref_def valid_detail_def by blast
  moreover have "distinct ?ids" using vd by simp
  ultimately have links: "\<forall>x \<in> set ?ids. live_edge d1 x i ''elaborates_on'' \<noteq> None"
    using link_details_links[OF u] by blast
  have "live_edge d' x i ''elaborates_on'' = live_edge d1 x i ''elaborates_on''" for x
    using rel by (rule live_edge_cong)
  moreover have "load_details (e_core_detail_memory_ids (declare_core \<Gamma> st e)) = Inr ?ids"
    by (simp add: declare_core_def)
  moreover have "length ?ids \<le> CORE_MAX_DETAIL_MEMORY_IDS" using vd len(1) by simp
  ultimately show ?thesis
    using links written_row[OF written(1,8)] unfolding i e0 by auto
qed

lemma promotion_links_details_witness:
  "\<exists>d' e' ids. set_core_memory sample_env (\<lambda>_. False) sample_fresh ''m1'' ''a'' (Some sample_reason)
     (Some sample_exit) No_Details sample_db =
     (Inr (Ok \<lparr>co_id = ''m1'', co_core_review_after = Some ''1970-01-15''\<rparr> []), d') \<and>
     get_entity d' ''m1'' = Some e' \<and> load_details (e_core_detail_memory_ids e') = Inr ids \<and>
     length ids \<le> CORE_MAX_DETAIL_MEMORY_IDS"
proof -
  obtain d' where run: "set_core_memory sample_env (\<lambda>_. False) sample_fresh ''m1'' ''a'' (Some sample_reason)
     (Some sample_exit) No_Details sample_db =
     (Inr (Ok \<lparr>co_id = ''m1'', co_core_review_after = Some ''1970-01-15''\<rparr> []), d')"
    using sample_promotion by blast
  have "py_strip ''m1'' = ''m1''" by code_simp
  moreover have "\<not> e_is_core sample_entity" "e_core_detail_memory_ids sample_entity = Detail_Null"
    by (simp_all add: sample_entity_def)
  ultimately show ?thesis
    using promotion_links_details[OF sample_keys sample_inv run, of sample_entity] sample_m1 run by auto
qed

text \<open>
  C6. The core set as a state machine. Along any run of promotions and reviews, with whatever
  arguments, clocks and lock contention, at most five memories are active cores at every point, no
  row is added or removed, and no row's id, title, content, owner, scope or type ever changes; a
  status only ever changes to archived.
\<close>

theorem core_runs_bounded:
  assumes "core_step\<^sup>*\<^sup>* d d'" "core_ok d"
  shows "core_ok d' \<and> core_hist d d'"
  using core.evolves_steps[OF core_step_evolves assms(1)] assms(2) core.evolves_inv core.evolves_hist
  by blast

theorem core_runs_bounded_witness:
  "\<exists>d'. core_step\<^sup>*\<^sup>* sample_db d' \<and> core_ok d' \<and> core_hist sample_db d'"
proof -
  obtain out d' where "set_core_memory sample_env (\<lambda>_. False) sample_fresh ''m1'' ''a'' (Some sample_reason)
     (Some sample_exit) No_Details sample_db = (Inr (Ok out []), d')" using sample_promotion by blast
  then have "core_step\<^sup>*\<^sup>* sample_db d'" by (intro r_into_rtranclp core_step.set_core)
  moreover have "core_ok sample_db" using sample_keys sample_capacity by (simp add: core_ok_def core_capacity_def)
  ultimately show ?thesis using core_runs_bounded by blast
qed



end
