(* ===== verification/Traces.thy ===== *)
theory Traces
  imports Store "HOL-Library.Multiset"
begin

text \<open>
  Conversation traces, \<^verbatim>\<open>src/src/saltmdb/domain/services/trace_service.py\<close>, with the prompt labels of
  \<^verbatim>\<open>src/src/saltmdb/utils/trace_labels.py\<close> and the snippets and content hash of
  \<^verbatim>\<open>src/src/saltmdb/utils/text.py\<close>: capture of a turn, of messages sent while it runs, of the
  memories it wrote, its completion, the sweep of abandoned turns, and the paginated read side.

  The ids that \<open>uuid7\<close> draws are arguments. The sweep that a read submits to the write coordinator
  is run directly.
\<close>

section \<open>Text\<close>

definition compute_content_hash :: "env \<Rightarrow> string \<Rightarrow> string" where
  "compute_content_hash \<Gamma> text =
     (if text = [] then []
      else let normalized = py_lower (py_strip text) in
        if normalized = [] then [] else sha256 \<Gamma> normalized)"

text \<open>The first occurrence of a pattern: the text before and after it.\<close>

fun find_sub :: "string \<Rightarrow> string \<Rightarrow> (string \<times> string) option" where
  "find_sub pat [] = (if pat = [] then Some ([], []) else None)"
| "find_sub pat (c # cs) =
     (if prefix pat (c # cs) then Some ([], drop (length pat) (c # cs))
      else map_option (\<lambda>(a, b). (c # a, b)) (find_sub pat cs))"

text \<open>\<open>re.search(open + "(.*?)" + close, s, DOTALL)\<close>: group 1.\<close>

definition between :: "string \<Rightarrow> string \<Rightarrow> string \<Rightarrow> string option" where
  "between opening closing s =
     (case find_sub opening s of
        None \<Rightarrow> None
      | Some (_, rest) \<Rightarrow> map_option fst (find_sub closing rest))"

text \<open>\<open>^[^"]*"(.*)"([^"]*)$\<close>: the text between the first and the last quote, and what follows.\<close>

definition quoted_description :: "string \<Rightarrow> (string \<times> string) option" where
  "quoted_description s =
     (let rest = dropWhile (\<lambda>c. c \<noteq> CHR 0x22) s;
          back = dropWhile (\<lambda>c. c \<noteq> CHR 0x22) (rev rest)
      in if length back < 2 then None
         else Some (tl (rev (tl back)), rev (takeWhile (\<lambda>c. c \<noteq> CHR 0x22) (rev rest))))"

fun exit_code :: "string \<Rightarrow> string option" where
  "exit_code [] = None"
| "exit_code (c # cs) =
     (if prefix ''exit code '' (c # cs) \<and> takeWhile is_digit (drop 10 (c # cs)) \<noteq> []
      then Some (takeWhile is_digit (drop 10 (c # cs))) else exit_code cs)"

definition label_task_notification :: "string \<Rightarrow> string" where
  "label_task_notification prompt =
     (if \<not> prefix ''<task-notification>'' prompt then prompt
      else let label = (case between ''<status>'' ''</status>'' prompt of
               Some st \<Rightarrow> ''[background task '' @ py_strip st @ '']''
             | None \<Rightarrow> ''[background task]'')
      in case between ''<summary>'' ''</summary>'' prompt of
           None \<Rightarrow> label @ '' '' @ prompt
         | Some summary \<Rightarrow>
             let text = py_strip summary in
             case quoted_description text of
               None \<Rightarrow> label @ '' '' @ text
             | Some (description, trailer) \<Rightarrow>
                 label @ '' '' @ description @
                 (case exit_code trailer of
                    Some n \<Rightarrow> if n \<noteq> ''0'' then '' (exit '' @ n @ '')'' else []
                  | None \<Rightarrow> []))"

text \<open>\<open>str.splitlines\<close>, with a CR LF pair as one boundary.\<close>

definition line_break :: "char \<Rightarrow> bool" where
  "line_break c \<longleftrightarrow> code c \<in> {10, 11, 12, 13, 28, 29, 30, 133}"

fun splitlines_from :: "string \<Rightarrow> string \<Rightarrow> string list" where
  "splitlines_from acc [] = (if acc = [] then [] else [rev acc])"
| "splitlines_from acc (c # cs) =
     (if code c = 13 \<and> cs \<noteq> [] \<and> code (hd cs) = 10 then rev acc # splitlines_from [] (tl cs)
      else if line_break c then rev acc # splitlines_from [] cs
      else splitlines_from (c # acc) cs)"

definition extract_title :: "string list \<Rightarrow> string" where
  "extract_title lines =
     (let headings = filter (\<lambda>t. t \<noteq> []) (map (\<lambda>l. py_strip (dropWhile (\<lambda>c. c = CHR ''#'') l))
                       (filter (\<lambda>l. prefix ''#'' l) lines));
          title = (case headings of [] \<Rightarrow> ''Untitled'' | t # _ \<Rightarrow> t)
      in if title = ''Untitled'' \<and> lines \<noteq> []
         then (if length (hd lines) > 60 then take 57 (hd lines) @ ''...'' else hd lines)
         else title)"

definition extract_snippet :: "string list \<Rightarrow> string" where
  "extract_snippet lines =
     (let snippet = join '' '' (take 3 (filter (\<lambda>l. \<not> prefix ''#'' l) lines))
      in if length snippet > 150 then take 147 snippet @ ''...'' else snippet)"

definition extract_title_and_snippet :: "string \<Rightarrow> string \<times> string" where
  "extract_title_and_snippet text =
     (if text = [] then (''Untitled'', [])
      else let lines = filter (\<lambda>l. l \<noteq> []) (map py_strip (splitlines_from [] text))
           in (extract_title lines, extract_snippet lines))"

section \<open>The sweep\<close>

definition mark_incomplete :: "string \<Rightarrow> (trace \<Rightarrow> bool) \<Rightarrow> trace list \<Rightarrow> trace list" where
  "mark_incomplete t P = update_where P (\<lambda>tr. tr\<lparr>tr_status := Incomplete, tr_updated_at := t\<rparr>)"

definition sweep_scope :: "string option \<Rightarrow> string option \<Rightarrow> trace \<Rightarrow> bool" where
  "sweep_scope session agent tr \<longleftrightarrow> tr_status tr = Pending \<and>
     (session = None \<or> session = Some (tr_agent_session_id tr)) \<and>
     (agent = None \<or> agent = Some (tr_agent_id tr))"

definition session_ended :: "db \<Rightarrow> string \<Rightarrow> bool" where
  "session_ended d s \<longleftrightarrow> list_ex (\<lambda>a. as_session_id a = s \<and> as_ended_at a \<noteq> None) (agent_sessions d)"

definition sweep_write :: "env \<Rightarrow> string option \<Rightarrow> string option \<Rightarrow> int \<Rightarrow> nat act" where
  "sweep_write \<Gamma> session agent timeout_seconds d =
     (let t = now_iso \<Gamma>;
          cutoff = isoformat \<Gamma> (now \<Gamma> - timeout_seconds * 1000000);
          ended = (\<lambda>tr. sweep_scope session agent tr \<and> session_ended d (tr_agent_session_id tr));
          after_end = mark_incomplete t ended (traces d);
          stale = (\<lambda>tr. sweep_scope session agent tr \<and> tr_created_at tr < cutoff)
      in (Inr (length (filter ended (traces d)) + length (filter stale after_end)),
          d\<lparr>traces := mark_incomplete t stale after_end\<rparr>))"

definition sweep_abandoned_traces ::
  "env \<Rightarrow> (nat \<Rightarrow> bool) \<Rightarrow> string option \<Rightarrow> string option \<Rightarrow> int \<Rightarrow> nat act" where
  "sweep_abandoned_traces \<Gamma> locks session agent timeout_seconds =
     write_transaction_retrying locks (sweep_write \<Gamma> session agent timeout_seconds)"

section \<open>Capture\<close>

definition turn_is :: "string \<Rightarrow> string \<Rightarrow> trace \<Rightarrow> bool" where
  "turn_is session turn tr \<longleftrightarrow> tr_agent_session_id tr = session \<and> tr_harness_turn_id tr = turn"

definition messages_of :: "db \<Rightarrow> string \<Rightarrow> turn_message list" where
  "messages_of d trace_id = filter (\<lambda>m. tm_trace_id m = trace_id) (turn_messages d)"

definition append_turn_message ::
  "string \<Rightarrow> string \<Rightarrow> string \<Rightarrow> string \<Rightarrow> string \<Rightarrow> bool act" where
  "append_turn_message msg_id trace_id message message_hash t d =
     (if message_hash \<in> tm_message_hash ` set (messages_of d trace_id) then (Inr False, d)
      else if msg_id \<in> tm_id ` set (turn_messages d) then (Inl IntegrityError, d)
      else (Inr True, d\<lparr>turn_messages := turn_messages d @
             [\<lparr>tm_id = msg_id, tm_trace_id = trace_id,
               tm_seq = Max (insert 0 (tm_seq ` set (messages_of d trace_id))) + 1,
               tm_message = message, tm_message_hash = message_hash, tm_created_at = t\<rparr>]\<rparr>))"

record start_args =
  st_agent_session_id :: string
  st_agent_id :: string
  st_harness :: string
  st_harness_session_id :: string
  st_harness_turn_id :: string
  st_user_prompt :: string
  st_trace_id :: string
  st_message_id :: string

definition new_trace :: "start_args \<Rightarrow> string \<Rightarrow> string \<Rightarrow> string \<Rightarrow> trace" where
  "new_trace a prompt prompt_hash t =
     \<lparr>tr_id = st_trace_id a, tr_agent_session_id = st_agent_session_id a, tr_agent_id = st_agent_id a,
      tr_harness = st_harness a, tr_harness_session_id = st_harness_session_id a,
      tr_harness_turn_id = st_harness_turn_id a, tr_status = Pending, tr_user_prompt = prompt,
      tr_user_prompt_hash = prompt_hash, tr_final_assistant_message = None,
      tr_final_assistant_message_hash = None, tr_created_at = t, tr_updated_at = t,
      tr_completed_at = None\<rparr>"

text \<open>The harnesses that the check constraint of the table admits.\<close>

definition trace_harnesses :: "string list" where
  "trace_harnesses = [''codex'', ''claude_code'', ''omp'', ''copilot'', ''hermes'', ''opencode'']"

definition start_write :: "start_args \<Rightarrow> string \<Rightarrow> string \<Rightarrow> string \<Rightarrow> (string \<times> bool) act" where
  "start_write a prompt prompt_hash t d =
     (if st_harness a \<notin> set trace_harnesses then (Inl IntegrityError, d)
      else case find_row (turn_is (st_agent_session_id a) (st_harness_turn_id a)) (traces d) of
        None \<Rightarrow>
          if st_trace_id a \<in> tr_id ` set (traces d) then (Inl IntegrityError, d)
          else (Inr (st_trace_id a, False), d\<lparr>traces := traces d @ [new_trace a prompt prompt_hash t]\<rparr>)
      | Some tr \<Rightarrow>
          if tr_user_prompt_hash tr \<noteq> prompt_hash then
            (case append_turn_message (st_message_id a) (tr_id tr) prompt prompt_hash t d of
               (Inl e, d') \<Rightarrow> (Inl e, d')
             | (Inr appended, d') \<Rightarrow> (Inr (tr_id tr, appended), d'))
          else (Inr (tr_id tr, False), d))"

definition start_prompt :: "start_args \<Rightarrow> string" where
  "start_prompt a =
     (if st_harness a = ''claude_code'' then label_task_notification (st_user_prompt a)
      else st_user_prompt a)"

text \<open>The envelope data: the trace id and whether the text was appended.\<close>

definition capture_trace_start ::
  "env \<Rightarrow> (nat \<Rightarrow> bool) \<Rightarrow> (nat \<Rightarrow> bool) \<Rightarrow> start_args \<Rightarrow> db \<Rightarrow> (string \<times> bool) envelope \<times> db" where
  "capture_trace_start \<Gamma> locks1 locks2 a d =
     (case sweep_abandoned_traces \<Gamma> locks1 (Some (st_agent_session_id a)) None 3600 d of
        (Inl e, d1) \<Rightarrow> (Rejected [error ''TRACE_CAPTURE_FAILED'' None], d1)
      | (Inr _, d1) \<Rightarrow>
          (case write_transaction_retrying locks2
                  (start_write a (start_prompt a) (compute_content_hash \<Gamma> (start_prompt a)) (now_iso \<Gamma>)) d1 of
             (Inl e, d2) \<Rightarrow> (Rejected [error ''TRACE_CAPTURE_FAILED'' None], d2)
           | (Inr res, d2) \<Rightarrow> (Ok res [], d2)))"

datatype link_outcome = Unknown_Trace | Unknown_Entity | Linked string string bool

definition link_operations :: "string list" where
  "link_operations = [''store_memory'', ''revise_memory'', ''supersede_memory'', ''consolidate_memories'']"

definition link_operation :: "string \<Rightarrow> entity \<Rightarrow> string" where
  "link_operation tool e =
     (if tool = ''store_memory''
      then (if e_created_at e = e_updated_at e then ''store_memory_new'' else ''store_memory_update'')
      else tool)"

definition owned_turn :: "string \<Rightarrow> string \<Rightarrow> string \<Rightarrow> trace \<Rightarrow> bool" where
  "owned_turn session agent turn tr \<longleftrightarrow> turn_is session turn tr \<and> tr_agent_id tr = agent"

definition link_write ::
  "env \<Rightarrow> string \<Rightarrow> string \<Rightarrow> string \<Rightarrow> string \<Rightarrow> string \<Rightarrow> string \<Rightarrow> link_outcome act" where
  "link_write \<Gamma> link_id session agent turn entity_id tool d =
     (case find_row (owned_turn session agent turn) (traces d) of
        None \<Rightarrow> (Inr Unknown_Trace, d)
      | Some tr \<Rightarrow>
          (case get_entity d entity_id of
             None \<Rightarrow> (Inr Unknown_Entity, d)
           | Some e \<Rightarrow>
               let op = link_operation tool e in
               if e_content_hash e = None then (Inl IntegrityError, d)
               else if list_ex (\<lambda>l. tl_trace_id l = tr_id tr \<and> tl_entity_id l = entity_id \<and>
                             tl_content_hash l = e_content_hash e) (trace_links d)
               then (Inr (Linked (tr_id tr) op False), d)
               else if link_id \<in> tl_id ` set (trace_links d) then (Inl IntegrityError, d)
               else (Inr (Linked (tr_id tr) op True),
                     d\<lparr>trace_links := trace_links d @ [\<lparr>tl_id = link_id, tl_trace_id = tr_id tr,
                         tl_entity_id = entity_id, tl_content_hash = e_content_hash e,
                         tl_write_operation = op, tl_created_at = now_iso \<Gamma>\<rparr>]\<rparr>)))"

definition capture_trace_memory_link ::
  "env \<Rightarrow> (nat \<Rightarrow> bool) \<Rightarrow> string \<Rightarrow> string \<Rightarrow> string \<Rightarrow> string \<Rightarrow> string \<Rightarrow> string \<Rightarrow> db \<Rightarrow>
   (string \<times> string \<times> string \<times> bool) envelope \<times> db" where
  "capture_trace_memory_link \<Gamma> locks link_id session agent turn entity_id tool d =
     (if tool \<notin> set link_operations then (Rejected [error ''INVALID_WRITE_OPERATION'' None], d)
      else case write_transaction_retrying locks (link_write \<Gamma> link_id session agent turn entity_id tool) d of
        (Inl e, d') \<Rightarrow> (Rejected [error ''TRACE_CAPTURE_FAILED'' None], d')
      | (Inr Unknown_Trace, d') \<Rightarrow> (Rejected [error ''UNKNOWN_TRACE'' None], d')
      | (Inr Unknown_Entity, d') \<Rightarrow> (Rejected [error ''UNKNOWN_ENTITY_ID'' None], d')
      | (Inr (Linked t op linked), d') \<Rightarrow> (Ok (t, entity_id, op, linked) [], d'))"

definition complete_row :: "string \<Rightarrow> string \<Rightarrow> string \<Rightarrow> trace \<Rightarrow> trace" where
  "complete_row message message_hash t tr =
     tr\<lparr>tr_status := Completed, tr_final_assistant_message := Some message,
        tr_final_assistant_message_hash := Some message_hash, tr_completed_at := Some t,
        tr_updated_at := t\<rparr>"

definition complete_write ::
  "string \<Rightarrow> string \<Rightarrow> string \<Rightarrow> string \<Rightarrow> string \<Rightarrow> string \<Rightarrow> ((string \<times> trace_status) \<times> bool) option act" where
  "complete_write session agent turn message message_hash t d =
     (case find_row (owned_turn session agent turn) (traces d) of
        None \<Rightarrow> (Inr None, d)
      | Some tr \<Rightarrow>
          if tr_status tr \<noteq> Pending then (Inr (Some ((tr_id tr, tr_status tr), False)), d)
          else let d' = d\<lparr>traces := update_where (\<lambda>x. owned_turn session agent turn x \<and> tr_status x = Pending)
                     (complete_row message message_hash t) (traces d)\<rparr>
               in (Inr (map_option (\<lambda>x. ((tr_id x, tr_status x), True))
                          (find_row (owned_turn session agent turn) (traces d'))), d'))"

text \<open>The status text of the answer: a trace status, or \<open>unknown\<close> when there is no such trace.\<close>

definition capture_trace_complete ::
  "env \<Rightarrow> (nat \<Rightarrow> bool) \<Rightarrow> string \<Rightarrow> string \<Rightarrow> string \<Rightarrow> string \<Rightarrow> db \<Rightarrow>
   (string option \<times> trace_status option) envelope \<times> db" where
  "capture_trace_complete \<Gamma> locks session agent turn message d =
     (case write_transaction_retrying locks
             (complete_write session agent turn message (compute_content_hash \<Gamma> message) (now_iso \<Gamma>)) d of
        (Inl e, d') \<Rightarrow> (Rejected [error ''TRACE_CAPTURE_FAILED'' None], d')
      | (Inr None, d') \<Rightarrow> (Ok (None, None) [''UNKNOWN_TRACE''], d')
      | (Inr (Some ((i, st), transitioned)), d') \<Rightarrow>
          (Ok (Some i, Some st) (if transitioned then [] else [''ALREADY_TERMINAL'']), d'))"

section \<open>Reading\<close>

definition run_read_sweep :: "env \<Rightarrow> (nat \<Rightarrow> bool) \<Rightarrow> db \<Rightarrow> (exn + nat) \<times> db" where
  "run_read_sweep \<Gamma> locks d = sweep_abandoned_traces \<Gamma> locks None None 3600 d"

text \<open>\<open>int(text)\<close>: surrounding white space, a sign, and single underscores between digits are allowed.\<close>

definition nat_of_digits :: "string \<Rightarrow> nat" where
  "nat_of_digits s = foldl (\<lambda>n c. n * 10 + (code c - 48)) 0 (filter is_digit s)"

definition digit_string :: "string \<Rightarrow> bool" where
  "digit_string s \<longleftrightarrow> s \<noteq> [] \<and> is_digit (hd s) \<and> is_digit (last s) \<and>
     list_all (\<lambda>c. is_digit c \<or> c = CHR ''_'') s \<and> \<not> contains s ''__''"

definition py_int :: "string \<Rightarrow> int option" where
  "py_int text =
     (let s = py_strip text;
          negative = prefix ''-'' s;
          body = (if prefix ''-'' s \<or> prefix ''+'' s then tl s else s)
      in if digit_string body
         then Some (if negative then - int (nat_of_digits body) else int (nat_of_digits body))
         else None)"

definition parse_offset :: "string option \<Rightarrow> nat" where
  "parse_offset cursor =
     (if \<not> truthy cursor \<or> \<not> prefix ''offset:'' (the cursor) then 0
      else case py_int (drop 7 (the cursor)) of None \<Rightarrow> 0 | Some n \<Rightarrow> nat n)"

definition matching_traces :: "db \<Rightarrow> string option \<Rightarrow> string option \<Rightarrow> trace list" where
  "matching_traces d session entity_id =
     sort_desc (\<lambda>tr. (tr_created_at tr, tr_id tr))
       (filter (\<lambda>tr. (session = None \<or> session = Some (tr_agent_session_id tr)) \<and>
          (case entity_id of None \<Rightarrow> True | Some i \<Rightarrow>
             list_ex (\<lambda>l. tl_trace_id l = tr_id tr \<and> tl_entity_id l = i) (trace_links d))) (traces d))"

definition trace_search_rows ::
  "db \<Rightarrow> string option \<Rightarrow> string option \<Rightarrow> nat \<Rightarrow> nat \<Rightarrow> trace list" where
  "trace_search_rows d session entity_id page_size offset =
     take (page_size + 1) (drop offset (matching_traces d session entity_id))"

definition links_in_order :: "db \<Rightarrow> string \<Rightarrow> trace_link list" where
  "links_in_order d trace_id =
     sort_key (\<lambda>l. (tl_created_at l, tl_id l)) (filter (\<lambda>l. tl_trace_id l = trace_id) (trace_links d))"

record trace_preview =
  tp_trace_id :: string
  tp_harness :: string
  tp_status :: trace_status
  tp_created_at :: string
  tp_completed_at :: "string option"
  tp_user_prompt_snippet :: string
  tp_final_assistant_message_snippet :: string
  tp_linked_entity_ids :: "string list"

definition trace_search_results :: "db \<Rightarrow> trace list \<Rightarrow> trace_preview list" where
  "trace_search_results d rows =
     map (\<lambda>tr. \<lparr>tp_trace_id = tr_id tr, tp_harness = tr_harness tr, tp_status = tr_status tr,
        tp_created_at = tr_created_at tr, tp_completed_at = tr_completed_at tr,
        tp_user_prompt_snippet = snd (extract_title_and_snippet (tr_user_prompt tr)),
        tp_final_assistant_message_snippet =
          snd (extract_title_and_snippet (py_or (tr_final_assistant_message tr) [])),
        tp_linked_entity_ids =
          fold (\<lambda>l vs. if tl_entity_id l \<notin> set vs \<and> length vs < 10 then vs @ [tl_entity_id l] else vs)
            (links_in_order d (tr_id tr)) []\<rparr>) rows"

record search_data =
  sd_results :: "trace_preview list"
  sd_next_cursor :: "string option"

definition offset_cursor :: "nat \<Rightarrow> string" where
  "offset_cursor n = ''offset:'' @ show_nat n"

definition search_page ::
  "db \<Rightarrow> string option \<Rightarrow> string option \<Rightarrow> nat \<Rightarrow> nat \<Rightarrow> search_data" where
  "search_page d session entity_id page_size offset =
     (let rows = trace_search_rows d session entity_id page_size offset
      in \<lparr>sd_results = trace_search_results d (take page_size rows),
          sd_next_cursor = (if length rows > page_size then Some (offset_cursor (offset + page_size)) else None)\<rparr>)"

definition search_traces ::
  "env \<Rightarrow> (nat \<Rightarrow> bool) \<Rightarrow> string option \<Rightarrow> string option \<Rightarrow> string option \<Rightarrow> int option \<Rightarrow> string option \<Rightarrow>
   db \<Rightarrow> search_data envelope \<times> db" where
  "search_traces \<Gamma> locks session entity_id query_keywords limit cursor d =
     (case run_read_sweep \<Gamma> locks d of
        (Inl e, d1) \<Rightarrow> (Rejected [error ''TRACE_READ_FAILED'' None], d1)
      | (Inr _, d1) \<Rightarrow>
          let page_size = (case limit of None \<Rightarrow> 5 | Some n \<Rightarrow> nat n);
              offset = parse_offset cursor
          in (Ok (search_page d1 session entity_id page_size offset)
                (if query_keywords \<noteq> None then [''TRACE_SEARCH_NOT_YET_SEMANTIC''] else []), d1))"

record trace_detail =
  td_trace :: trace
  td_mid_turn_messages :: "turn_message list"
  td_links :: "trace_link list"

definition get_trace :: "env \<Rightarrow> (nat \<Rightarrow> bool) \<Rightarrow> string \<Rightarrow> db \<Rightarrow> trace_detail envelope \<times> db" where
  "get_trace \<Gamma> locks trace_id d =
     (case run_read_sweep \<Gamma> locks d of
        (Inl e, d1) \<Rightarrow> (Rejected [error ''TRACE_READ_FAILED'' None], d1)
      | (Inr _, d1) \<Rightarrow>
          (case find_row (\<lambda>tr. tr_id tr = trace_id) (traces d1) of
             None \<Rightarrow> (Rejected [error ''UNKNOWN_TRACE_ID'' None], d1)
           | Some tr \<Rightarrow>
               (Ok \<lparr>td_trace = tr,
                    td_mid_turn_messages = sort_key tm_seq (messages_of d1 trace_id),
                    td_links = links_in_order d1 trace_id\<rparr> [], d1)))"

definition entity_trace_provenance :: "db \<Rightarrow> string \<Rightarrow> nat \<Rightarrow> (string \<times> string \<times> string \<times> trace_status) list" where
  "entity_trace_provenance d entity_id limit =
     take limit (map (\<lambda>tr. (tr_id tr, tr_harness tr, tr_created_at tr, tr_status tr))
       (sort_desc (\<lambda>tr. (tr_created_at tr, tr_id tr))
         (concat (map (\<lambda>l. filter (\<lambda>tr. tr_id tr = tl_trace_id l) (traces d))
            (filter (\<lambda>l. tl_entity_id l = entity_id) (trace_links d))))))"

section \<open>Invariant and history\<close>

text \<open>
  One trace per session and turn; one message per trace and hash, numbered from 1 without gaps in
  arrival order; one link per trace, memory and content hash; a trace has a final message and a
  completion time exactly when it is completed.
\<close>

definition row_ok :: "trace \<Rightarrow> bool" where
  "row_ok tr \<longleftrightarrow> (tr_final_assistant_message tr \<noteq> None \<longleftrightarrow> tr_status tr = Completed) \<and>
     (tr_completed_at tr \<noteq> None \<longleftrightarrow> tr_status tr = Completed)"

definition trace_inv :: "db \<Rightarrow> bool" where
  "trace_inv d \<longleftrightarrow> distinct (map tr_id (traces d)) \<and>
     distinct (map (\<lambda>tr. (tr_agent_session_id tr, tr_harness_turn_id tr)) (traces d)) \<and>
     (\<forall>tr \<in> set (traces d). row_ok tr) \<and>
     distinct (map (\<lambda>m. (tm_trace_id m, tm_message_hash m)) (turn_messages d)) \<and>
     (\<forall>i. map tm_seq (messages_of d i) = [1..<Suc (length (messages_of d i))]) \<and>
     distinct (map (\<lambda>l. (tl_trace_id l, tl_entity_id l, tl_content_hash l)) (trace_links d))"

text \<open>A pending trace may be completed or marked incomplete; everything else about a row is final.\<close>

definition trace_moves :: "trace \<Rightarrow> trace \<Rightarrow> bool" where
  "trace_moves tr tr' \<longleftrightarrow> tr' = tr \<or> tr_status tr = Pending \<and>
     (\<exists>t. tr' = tr\<lparr>tr_status := Incomplete, tr_updated_at := t\<rparr> \<or>
        (\<exists>msg h. tr' = complete_row msg h t tr))"

definition trace_hist :: "db \<Rightarrow> db \<Rightarrow> bool" where
  "trace_hist d d' \<longleftrightarrow> (\<exists>old fresh. traces d' = old @ fresh \<and> list_all2 trace_moves (traces d) old) \<and>
     prefix (turn_messages d) (turn_messages d') \<and> prefix (trace_links d) (trace_links d') \<and>
     entities d' = entities d \<and> relations d' = relations d"

lemma trace_moves_refl [simp]: "trace_moves tr tr"
  by (simp add: trace_moves_def)

lemma trace_moves_trans: "trace_moves a b \<Longrightarrow> trace_moves b c \<Longrightarrow> trace_moves a c"
  by (auto simp: trace_moves_def complete_row_def)

lemma trace_moves_fields:
  "trace_moves tr tr' \<Longrightarrow> tr_id tr' = tr_id tr \<and> tr_agent_session_id tr' = tr_agent_session_id tr \<and>
    tr_harness_turn_id tr' = tr_harness_turn_id tr \<and> tr_agent_id tr' = tr_agent_id tr \<and>
    tr_user_prompt tr' = tr_user_prompt tr \<and> tr_user_prompt_hash tr' = tr_user_prompt_hash tr \<and>
    (tr_status tr \<noteq> Pending \<longrightarrow> tr' = tr)"
  by (auto simp: trace_moves_def complete_row_def)

lemma trace_histI:
  assumes "traces d' = old @ fresh" "list_all2 trace_moves (traces d) old"
    "prefix (turn_messages d) (turn_messages d')" "prefix (trace_links d) (trace_links d')"
    "entities d' = entities d" "relations d' = relations d"
  shows "trace_hist d d'"
  using assms unfolding trace_hist_def by blast

interpretation tr: evolution trace_inv trace_hist
proof
  show "trace_hist d d" for d
    by (rule trace_histI[of _ "traces d" "[]"]) (simp_all add: list.rel_refl)
  show "trace_hist d u" if a: "trace_hist d t" and b: "trace_hist t u" for d t u
  proof -
    obtain o1 f1 where o1: "traces t = o1 @ f1" "list_all2 trace_moves (traces d) o1"
      using a unfolding trace_hist_def by blast
    obtain o2 f2 where o2: "traces u = o2 @ f2" "list_all2 trace_moves (o1 @ f1) o2"
      using b o1(1) unfolding trace_hist_def by metis
    obtain x y where xy: "o2 = x @ y" "list_all2 trace_moves o1 x"
      using o2(2) by (auto simp: list_all2_append1)
    have "list_all2 trace_moves (traces d) x"
      using o1(2) xy(2) by (rule list_all2_trans[of trace_moves trace_moves trace_moves, rotated]) (rule trace_moves_trans)
    then show ?thesis
      using o2(1) xy(1) a b by (intro trace_histI[of u x "y @ f2"]) (auto simp: trace_hist_def intro: prefix_order.trans)
  qed
qed

section \<open>Every operation evolves the traces\<close>

lemma update_traces_evolves:
  assumes "\<And>tr. P tr \<Longrightarrow> trace_moves tr (f tr)" "\<And>tr. P tr \<Longrightarrow> row_ok tr \<Longrightarrow> row_ok (f tr)"
  shows "tr.evolves d (d\<lparr>traces := update_where P f (traces d)\<rparr>)"
  unfolding tr.evolves_def
proof (intro impI conjI)
  assume inv: "trace_inv d"
  let ?g = "\<lambda>x. if P x then f x else x"
  have moves: "trace_moves x (?g x)" for x using assms(1) by simp
  have "map tr_id (update_where P f (traces d)) = map tr_id (traces d)"
    "map (\<lambda>tr. (tr_agent_session_id tr, tr_harness_turn_id tr)) (update_where P f (traces d)) =
     map (\<lambda>tr. (tr_agent_session_id tr, tr_harness_turn_id tr)) (traces d)"
    by (simp_all add: update_where_def) (auto dest: trace_moves_fields[OF assms(1)])
  moreover have "\<forall>tr \<in> set (update_where P f (traces d)). row_ok tr"
    using inv assms(2) by (auto simp: trace_inv_def set_update_where)
  ultimately show "trace_inv (d\<lparr>traces := update_where P f (traces d)\<rparr>)"
    using inv by (simp add: trace_inv_def messages_of_def)
  have "list_all2 trace_moves (traces d) (update_where P f (traces d))"
    unfolding update_where_def using moves by (simp add: list.rel_map(2) list.rel_refl_strong)
  then show "trace_hist d (d\<lparr>traces := update_where P f (traces d)\<rparr>)"
    by (intro trace_histI[of _ "update_where P f (traces d)" "[]"]) simp_all
qed

lemma mark_incomplete_evolves:
  assumes "\<And>tr. P tr \<Longrightarrow> tr_status tr = Pending"
  shows "tr.evolves d (d\<lparr>traces := mark_incomplete t P (traces d)\<rparr>)"
  unfolding mark_incomplete_def
  by (rule update_traces_evolves) (auto simp: trace_moves_def row_ok_def dest: assms)

lemma sweep_write_evolves:
  assumes "sweep_write \<Gamma> s a n d = (r, d')"
  shows "tr.evolves d d'"
proof -
  let ?e = "\<lambda>tr. sweep_scope s a tr \<and> session_ended d (tr_agent_session_id tr)"
  let ?d1 = "d\<lparr>traces := mark_incomplete (now_iso \<Gamma>) ?e (traces d)\<rparr>"
  let ?s = "\<lambda>tr. sweep_scope s a tr \<and> tr_created_at tr < isoformat \<Gamma> (now \<Gamma> - n * 1000000)"
  have "d' = ?d1\<lparr>traces := mark_incomplete (now_iso \<Gamma>) ?s (traces ?d1)\<rparr>"
    using assms by (auto simp: sweep_write_def Let_def)
  moreover have "tr.evolves d ?d1" by (rule mark_incomplete_evolves) (simp add: sweep_scope_def)
  moreover have "tr.evolves ?d1 (?d1\<lparr>traces := mark_incomplete (now_iso \<Gamma>) ?s (traces ?d1)\<rparr>)"
    by (rule mark_incomplete_evolves) (simp add: sweep_scope_def)
  ultimately show ?thesis using tr.evolves_trans by metis
qed

lemma append_turn_message_evolves:
  assumes "append_turn_message mid i msg h t d = (r, d')"
  shows "tr.evolves d d'"
  unfolding tr.evolves_def
proof (rule impI)
  assume inv: "trace_inv d"
  show "trace_inv d' \<and> trace_hist d d'"
  proof (cases "d' = d")
    case True
    then show ?thesis using inv tr.hist_refl by simp
  next
    case False
    define n where "n = length (messages_of d i)"
    have "map tm_seq (messages_of d i) = [1..<Suc n]" using inv by (simp add: trace_inv_def n_def)
    then have "tm_seq ` set (messages_of d i) = {1..n}" by (metis atLeastLessThanSuc_atLeastAtMost set_map set_upt)
    moreover have "insert 0 {1..n} = {0..n}" by auto
    moreover have "Max {0..n} = n" by (rule Max_eqI) auto
    ultimately have "Max (insert 0 (tm_seq ` set (messages_of d i))) = n" by simp
    then obtain m where d': "d' = d\<lparr>turn_messages := turn_messages d @ [m]\<rparr>" and
      m: "tm_trace_id m = i" "tm_seq m = Suc n" "tm_message_hash m = h" and
      h: "h \<notin> tm_message_hash ` set (messages_of d i)"
      using assms False by (auto simp: append_turn_message_def split: if_splits)
    have "(i, h) \<notin> (\<lambda>m. (tm_trace_id m, tm_message_hash m)) ` set (turn_messages d)"
      using h by (auto simp: messages_of_def)
    then have "distinct (map (\<lambda>m. (tm_trace_id m, tm_message_hash m)) (turn_messages d @ [m]))"
      using inv m by (simp add: trace_inv_def)
    moreover have "map tm_seq (messages_of d' j) = [1..<Suc (length (messages_of d' j))]" for j
    proof (cases "j = i")
      case True
      then have "messages_of d' j = messages_of d i @ [m]" by (simp add: messages_of_def d' m)
      then show ?thesis using inv m by (simp add: trace_inv_def n_def)
    next
      case False
      then have "messages_of d' j = messages_of d j" by (auto simp: messages_of_def d' m)
      then show ?thesis using inv by (simp add: trace_inv_def)
    qed
    ultimately have "trace_inv d'" using inv by (simp add: trace_inv_def d')
    moreover have "trace_hist d d'"
      by (rule trace_histI[of _ "traces d" "[]"]) (simp_all add: d' list.rel_refl)
    ultimately show ?thesis by simp
  qed
qed

lemma start_write_evolves:
  assumes "start_write a prompt h t d = (r, d')"
  shows "tr.evolves d d'"
proof (cases "find_row (turn_is (st_agent_session_id a) (st_harness_turn_id a)) (traces d)")
  case (Some x)
  then have "d' = d \<or> (\<exists>r0. append_turn_message (st_message_id a) (tr_id x) prompt h t d = (r0, d'))"
    using assms by (auto simp: start_write_def split: if_splits prod.splits sum.splits)
  then show ?thesis using append_turn_message_evolves by auto
next
  case None
  let ?n = "new_trace a prompt h t"
  have none: "\<forall>x \<in> set (traces d). \<not> turn_is (st_agent_session_id a) (st_harness_turn_id a) x"
    using None by (simp add: find_row_None)
  consider "d' = d" | "d' = d\<lparr>traces := traces d @ [?n]\<rparr>" "st_trace_id a \<notin> tr_id ` set (traces d)"
    using assms None by (auto simp: start_write_def split: if_splits)
  then show ?thesis
  proof cases
    case 2
    show ?thesis unfolding tr.evolves_def
    proof (intro impI conjI)
      assume inv: "trace_inv d"
      have "(st_agent_session_id a, st_harness_turn_id a) \<notin>
          (\<lambda>tr. (tr_agent_session_id tr, tr_harness_turn_id tr)) ` set (traces d)"
        using none by (auto simp: turn_is_def)
      then show "trace_inv d'" using inv 2 by (auto simp: trace_inv_def new_trace_def row_ok_def messages_of_def)
      show "trace_hist d d'"
        by (rule trace_histI[of _ "traces d" "[?n]"]) (simp_all add: 2 list.rel_refl)
    qed
  qed simp
qed

lemma link_write_evolves:
  assumes "link_write \<Gamma> lid s a turn e tool d = (r, d')"
  shows "tr.evolves d d'"
  unfolding tr.evolves_def
proof (intro impI)
  assume inv: "trace_inv d"
  consider "d' = d" | l where "d' = d\<lparr>trace_links := trace_links d @ [l]\<rparr>"
    "\<forall>k \<in> set (trace_links d). \<not> (tl_trace_id k = tl_trace_id l \<and> tl_entity_id k = tl_entity_id l \<and>
       tl_content_hash k = tl_content_hash l)"
    using assms by (auto simp: link_write_def Let_def list_ex_iff split: option.splits if_splits)
  then show "trace_inv d' \<and> trace_hist d d'"
  proof cases
    case 1
    then show ?thesis using inv tr.hist_refl by simp
  next
    case (2 l)
    then have "trace_inv d'" using inv by (auto simp: trace_inv_def messages_of_def)
    moreover have "trace_hist d d'"
      by (rule trace_histI[of _ "traces d" "[]"]) (simp_all add: 2 list.rel_refl)
    ultimately show ?thesis by simp
  qed
qed

lemma complete_write_evolves:
  assumes "complete_write s a turn msg h t d = (r, d')"
  shows "tr.evolves d d'"
proof -
  let ?P = "\<lambda>x. owned_turn s a turn x \<and> tr_status x = Pending"
  have "d' = d \<or> d' = d\<lparr>traces := update_where ?P (complete_row msg h t) (traces d)\<rparr>"
    using assms by (auto simp: complete_write_def Let_def split: option.splits if_splits)
  moreover have "tr.evolves d (d\<lparr>traces := update_where ?P (complete_row msg h t) (traces d)\<rparr>)"
    by (rule update_traces_evolves) (auto simp: trace_moves_def row_ok_def complete_row_def)
  ultimately show ?thesis by auto
qed

text \<open>A retried transaction evolves the store when its body does.\<close>

lemma retrying_evolves:
  assumes "write_transaction_retrying locks f d = (r, d')" "\<And>x e. f d = (x, e) \<Longrightarrow> tr.evolves d e"
  shows "tr.evolves d d'"
proof (cases r)
  case (Inl e)
  then show ?thesis using assms(1) by (auto dest: retrying_abort)
next
  case (Inr x)
  then show ?thesis using assms by (auto dest: retrying_commit)
qed

lemma sweep_evolves: "sweep_abandoned_traces \<Gamma> locks s a n d = (r, d') \<Longrightarrow> tr.evolves d d'"
  unfolding sweep_abandoned_traces_def by (erule retrying_evolves) (rule sweep_write_evolves)

lemma capture_start_evolves:
  assumes "capture_trace_start \<Gamma> l1 l2 a d = (res, d')"
  shows "tr.evolves d d'"
proof -
  obtain r1 d1 where s: "sweep_abandoned_traces \<Gamma> l1 (Some (st_agent_session_id a)) None 3600 d = (r1, d1)" by fastforce
  obtain r2 d2 where w: "write_transaction_retrying l2
      (start_write a (start_prompt a) (compute_content_hash \<Gamma> (start_prompt a)) (now_iso \<Gamma>)) d1 = (r2, d2)" by fastforce
  have "d' = d1 \<or> d' = d2"
    using assms s w by (cases r1; cases r2) (auto simp: capture_trace_start_def)
  moreover have "tr.evolves d1 d2" using w by (rule retrying_evolves) (rule start_write_evolves)
  ultimately show ?thesis using sweep_evolves[OF s] tr.evolves_trans by blast
qed

lemma capture_link_evolves:
  assumes "capture_trace_memory_link \<Gamma> l lid s a turn e tool d = (res, d')"
  shows "tr.evolves d d'"
proof -
  obtain r1 d1 where w: "write_transaction_retrying l (link_write \<Gamma> lid s a turn e tool) d = (r1, d1)" by fastforce
  have "d' = d \<or> d' = d1"
    using assms w by (auto simp: capture_trace_memory_link_def split: if_splits sum.splits link_outcome.splits)
  moreover have "tr.evolves d d1" using w by (rule retrying_evolves) (rule link_write_evolves)
  ultimately show ?thesis by auto
qed

lemma capture_complete_evolves:
  assumes "capture_trace_complete \<Gamma> l s a turn msg d = (res, d')"
  shows "tr.evolves d d'"
proof -
  obtain r1 d1 where w: "write_transaction_retrying l
      (complete_write s a turn msg (compute_content_hash \<Gamma> msg) (now_iso \<Gamma>)) d = (r1, d1)" by fastforce
  have "d' = d1"
    using assms w by (auto simp: capture_trace_complete_def split: sum.splits option.splits prod.splits)
  moreover have "tr.evolves d d1" using w by (rule retrying_evolves) (rule complete_write_evolves)
  ultimately show ?thesis by simp
qed

lemma search_evolves: "search_traces \<Gamma> l s e q lm c d = (res, d') \<Longrightarrow> tr.evolves d d'"
  by (auto simp: search_traces_def run_read_sweep_def split: prod.splits sum.splits intro: sweep_evolves)

lemma get_trace_evolves: "get_trace \<Gamma> l i d = (res, d') \<Longrightarrow> tr.evolves d d'"
  by (auto simp: get_trace_def run_read_sweep_def split: prod.splits sum.splits option.splits intro: sweep_evolves)

inductive trace_step :: "db \<Rightarrow> db \<Rightarrow> bool" where
  start: "capture_trace_start \<Gamma> l1 l2 a d = (res, d') \<Longrightarrow> trace_step d d'"
| link: "capture_trace_memory_link \<Gamma> l lid s ag turn e tool d = (res', d') \<Longrightarrow> trace_step d d'"
| complete: "capture_trace_complete \<Gamma> l s ag turn msg d = (res'', d') \<Longrightarrow> trace_step d d'"
| sweep: "sweep_abandoned_traces \<Gamma> l so ao n d = (r, d') \<Longrightarrow> trace_step d d'"
| search: "search_traces \<Gamma> l so eo q lm c d = (res3, d') \<Longrightarrow> trace_step d d'"
| get: "get_trace \<Gamma> l i d = (res4, d') \<Longrightarrow> trace_step d d'"

lemma trace_step_evolves: "trace_step d d' \<Longrightarrow> tr.evolves d d'"
  by (induction rule: trace_step.induct)
    (erule capture_start_evolves capture_link_evolves capture_complete_evolves sweep_evolves
      search_evolves get_trace_evolves)+

section \<open>Lemmas: repeating an operation\<close>

lemma find_row_map:
  assumes "\<And>x. P (g x) = P x"
  shows "find_row P (map g xs) = map_option g (find_row P xs)"
  by (induction xs) (auto simp: assms)

text \<open>A sweep only moves rows: it keeps every turn, its id and its opening prompt.\<close>

lemma sweep_frame:
  assumes "sweep_abandoned_traces \<Gamma> locks s a n d = (r, d')"
  shows "turn_messages d' = turn_messages d \<and> map tr_id (traces d') = map tr_id (traces d) \<and>
    map_option (\<lambda>x. (tr_id x, tr_user_prompt_hash x)) (find_row (turn_is u v) (traces d')) =
    map_option (\<lambda>x. (tr_id x, tr_user_prompt_hash x)) (find_row (turn_is u v) (traces d))"
proof (cases r)
  case (Inl e)
  then show ?thesis using assms by (auto simp: sweep_abandoned_traces_def dest!: retrying_abort)
next
  case (Inr k)
  then have "sweep_write \<Gamma> s a n d = (Inr k, d')"
    using assms by (auto simp: sweep_abandoned_traces_def dest!: retrying_commit)
  then obtain g where d': "d' = d\<lparr>traces := map g (traces d)\<rparr>" and
    g: "\<And>x. tr_id (g x) = tr_id x \<and> tr_user_prompt_hash (g x) = tr_user_prompt_hash x \<and>
      turn_is u v (g x) = turn_is u v x"
    by (auto simp: sweep_write_def Let_def mark_incomplete_def update_where_def turn_is_def)
  then have "find_row (turn_is u v) (traces d') = map_option g (find_row (turn_is u v) (traces d))"
    by (simp add: find_row_map)
  then show ?thesis using g by (simp add: d' option.map_comp o_def)
qed

lemma sweep_runs: "\<not> locks 0 \<Longrightarrow> \<exists>k d'. sweep_abandoned_traces \<Gamma> locks s a n d = (Inr k, d')"
  unfolding sweep_abandoned_traces_def
  by (subst retrying_unlocked) (auto simp: sweep_write_def write_transaction_def Let_def)

text \<open>A turn whose text has been captured: as its opening prompt, or as one of its messages.\<close>

definition captured :: "db \<Rightarrow> string \<Rightarrow> string \<Rightarrow> string \<Rightarrow> string \<Rightarrow> bool" where
  "captured d session turn h i \<longleftrightarrow> (\<exists>ph. map_option (\<lambda>x. (tr_id x, tr_user_prompt_hash x))
       (find_row (turn_is session turn) (traces d)) = Some (i, ph) \<and>
     (ph = h \<or> h \<in> tm_message_hash ` set (messages_of d i)))"

lemma append_turn_message_stores:
  assumes "append_turn_message mid i msg h t d = (Inr ap, d')"
  shows "traces d' = traces d" "h \<in> tm_message_hash ` set (messages_of d' i)"
proof -
  consider "d' = d" "h \<in> tm_message_hash ` set (messages_of d i)"
    | m where "d' = d\<lparr>turn_messages := turn_messages d @ [m]\<rparr>" "tm_trace_id m = i" "tm_message_hash m = h"
    using assms by (auto simp: append_turn_message_def split: if_splits)
  then show "traces d' = traces d" "h \<in> tm_message_hash ` set (messages_of d' i)"
    by (cases; force simp: messages_of_def)+
qed

lemma start_write_captures:
  assumes "start_write a prompt h t d = (Inr (i, ap), d')"
  shows "captured d' (st_agent_session_id a) (st_harness_turn_id a) h i"
proof (cases "find_row (turn_is (st_agent_session_id a) (st_harness_turn_id a)) (traces d)")
  case None
  let ?n = "new_trace a prompt h t"
  have d': "d' = d\<lparr>traces := traces d @ [?n]\<rparr>" "i = st_trace_id a"
    using assms None by (auto simp: start_write_def split: if_splits)
  have "find_row (turn_is (st_agent_session_id a) (st_harness_turn_id a)) (xs @ [?n]) = Some ?n"
    if "find_row (turn_is (st_agent_session_id a) (st_harness_turn_id a)) xs = None" for xs
    using that by (induction xs) (auto simp: turn_is_def new_trace_def split: if_splits)
  from this[OF None] show ?thesis by (simp add: captured_def d' new_trace_def)
next
  case (Some x)
  show ?thesis
  proof (cases "tr_user_prompt_hash x = h")
    case True
    then show ?thesis using assms Some by (auto simp: start_write_def captured_def split: if_splits)
  next
    case False
    obtain r0 d0 where ap: "append_turn_message (st_message_id a) (tr_id x) prompt h t d = (r0, d0)" by fastforce
    then have "append_turn_message (st_message_id a) (tr_id x) prompt h t d = (Inr ap, d')" "i = tr_id x"
      using assms Some False by (cases r0; auto simp: start_write_def split: if_splits)+
    then have "traces d' = traces d" "h \<in> tm_message_hash ` set (messages_of d' (tr_id x))"
      using append_turn_message_stores by blast+
    then show ?thesis using Some \<open>i = tr_id x\<close> by (simp add: captured_def)
  qed
qed

lemma captured_start_write:
  assumes "captured d (st_agent_session_id a) (st_harness_turn_id a) h i" "st_harness a \<in> set trace_harnesses"
  shows "start_write a prompt h t d = (Inr (i, False), d)"
  using assms by (auto simp: captured_def start_write_def append_turn_message_def)

lemma captured_sweep:
  assumes "captured d u v h i" "sweep_abandoned_traces \<Gamma> locks s a n d = (r, d')"
  shows "captured d' u v h i"
  using assms(1) sweep_frame[OF assms(2), of u v] by (auto simp: captured_def messages_of_def)

section \<open>Lemmas: cursors\<close>

lemma show_nat_digits: "list_all is_digit (show_nat n) \<and> show_nat n \<noteq> []"
proof (induction n rule: show_nat.induct)
  case (1 n)
  have "is_digit (char_of (48 + m))" if "m < 10" for m :: nat
    using that by (simp add: is_digit_def code_def)
  then show ?case using 1 by (subst (1 2) show_nat.simps) auto
qed

lemma nat_of_show_nat: "nat_of_digits (show_nat n) = n"
proof (induction n rule: show_nat.induct)
  case (1 n)
  have c: "code (char_of (48 + m)) - 48 = m" "is_digit (char_of (48 + m))" if "m < 10" for m :: nat
    using that by (simp_all add: code_def is_digit_def)
  show ?case
  proof (cases "n < 10")
    case True
    then show ?thesis using c[OF True] by (simp add: show_nat.simps[of n] nat_of_digits_def)
  next
    case False
    have "nat_of_digits (show_nat n) = nat_of_digits (show_nat (n div 10)) * 10 + n mod 10"
      using c[of "n mod 10"] False by (simp add: show_nat.simps[of n] nat_of_digits_def)
    then show ?thesis using 1 False by simp
  qed
qed

lemma parse_offset_cursor: "parse_offset (Some (offset_cursor n)) = n"
proof -
  have d: "\<forall>c \<in> set (show_nat n). is_digit c" "show_nat n \<noteq> []"
    using show_nat_digits[of n] by (auto simp: list_all_iff)
  have ns: "is_digit c \<Longrightarrow> \<not> py_space c \<and> c \<noteq> CHR ''-'' \<and> c \<noteq> CHR ''+'' \<and> c \<noteq> CHR ''_''" for c
    by (auto simp: is_digit_def py_space_def code_def)
  have hl: "is_digit (hd (show_nat n))" "is_digit (last (show_nat n))" using d by simp_all
  have strip: "py_strip (show_nat n) = show_nat n"
    unfolding py_strip_def by (rule strip_by_no_effect) (use hl ns in blast)
  have "\<not> prefix ''-'' (show_nat n)" "\<not> prefix ''+'' (show_nat n)"
    using hl(1) ns d(2) by (cases "show_nat n"; auto)+
  moreover have "\<not> contains (show_nat n) ''__''"
  proof
    assume "contains (show_nat n) ''__''"
    then have "CHR ''_'' \<in> set (show_nat n)" by (auto simp: contains_def sublist_def)
    then show False using d(1) ns by blast
  qed
  then have "digit_string (show_nat n)" using d hl by (auto simp: digit_string_def list_all_iff)
  ultimately have "py_int (show_nat n) = Some (int n)"
    by (simp add: py_int_def strip nat_of_show_nat)
  then show ?thesis by (simp add: parse_offset_def offset_cursor_def)
qed

text \<open>
  A client that follows \<open>next_cursor\<close> until there is none. Every page is a call of its own, with its
  own sweep at its own time, so the statuses may change between two pages.
\<close>

fun walk_traces ::
  "(env \<times> (nat \<Rightarrow> bool)) list \<Rightarrow> string option \<Rightarrow> string option \<Rightarrow> int option \<Rightarrow> string option \<Rightarrow> db \<Rightarrow>
   string list option" where
  "walk_traces [] s e limit c d = None"
| "walk_traces ((\<Gamma>, locks) # calls) s e limit c d =
     (case search_traces \<Gamma> locks s e None limit c d of
        (Ok r _, d') \<Rightarrow>
          (case sd_next_cursor r of
             None \<Rightarrow> Some (map tp_trace_id (sd_results r))
           | Some c' \<Rightarrow> map_option (\<lambda>ids. map tp_trace_id (sd_results r) @ ids)
                          (walk_traces calls s e limit (Some c') d'))
      | _ \<Rightarrow> None)"

lemma filter_map_same:
  assumes "\<And>x. P (g x) = P x"
  shows "filter P (map g xs) = map g (filter P xs)"
  by (induction xs) (simp_all add: assms)

lemma insort_key_map:
  assumes "\<And>x. f (g x) = f x"
  shows "insort_key f (g y) (map g xs) = map g (insort_key f y xs)"
  by (induction xs) (auto simp: assms)

lemma sort_key_map:
  assumes "\<And>x. f (g x) = f x"
  shows "sort_key f (map g xs) = map g (sort_key f xs)"
  by (induction xs) (simp_all add: insort_key_map[of f g, OF assms])

lemma sweep_keeps_order:
  assumes "sweep_abandoned_traces \<Gamma> locks so ao n d = (r, d')"
  shows "map tr_id (matching_traces d' s e) = map tr_id (matching_traces d s e)"
proof (cases r)
  case (Inl x)
  then show ?thesis using assms by (auto simp: sweep_abandoned_traces_def dest!: retrying_abort)
next
  case (Inr k)
  then have "sweep_write \<Gamma> so ao n d = (Inr k, d')"
    using assms by (auto simp: sweep_abandoned_traces_def dest!: retrying_commit)
  then obtain g where d': "d' = d\<lparr>traces := map g (traces d)\<rparr>" and
    g: "\<And>x. tr_id (g x) = tr_id x" "\<And>x. tr_created_at (g x) = tr_created_at x"
      "\<And>x. tr_agent_session_id (g x) = tr_agent_session_id x"
    by (auto simp: sweep_write_def Let_def mark_incomplete_def update_where_def)
  let ?P = "\<lambda>tr. (s = None \<or> s = Some (tr_agent_session_id tr)) \<and>
    (case e of None \<Rightarrow> True | Some i \<Rightarrow>
       list_ex (\<lambda>l. tl_trace_id l = tr_id tr \<and> tl_entity_id l = i) (trace_links d))"
  let ?K = "\<lambda>tr. (tr_created_at tr, tr_id tr)"
  have f: "filter ?P (map g (traces d)) = map g (filter ?P (traces d))"
    by (rule filter_map_same) (cases e; simp add: g)
  have k: "sort_key ?K (map g xs) = map g (sort_key ?K xs)" for xs
    by (rule sort_key_map) (simp add: g)
  have "matching_traces d' s e = rev (sort_key ?K (rev (filter ?P (map g (traces d)))))"
    unfolding matching_traces_def sort_desc_def d' by (cases e) simp_all
  also have "\<dots> = map g (matching_traces d s e)"
    unfolding f matching_traces_def sort_desc_def by (simp only: rev_map k)
  finally have "matching_traces d' s e = map g (matching_traces d s e)" .
  then show ?thesis by (simp add: g o_def)
qed

lemma search_page_ids:
  "map tp_trace_id (sd_results (search_page d s e n k)) = take n (drop k (map tr_id (matching_traces d s e)))"
  by (simp add: search_page_def trace_search_rows_def trace_search_results_def Let_def take_map drop_map o_def)

lemma search_page_next:
  "sd_next_cursor (search_page d s e n k) =
     (if k + n < length (matching_traces d s e) then Some (offset_cursor (k + n)) else None)"
  by (auto simp: search_page_def trace_search_rows_def Let_def)

lemma search_traces_unlocked:
  assumes "\<not> locks 0"
  obtains d' where
    "search_traces \<Gamma> locks s e None (Some (int n)) c d = (Ok (search_page d' s e n (parse_offset c)) [], d')"
    "map tr_id (matching_traces d' s e) = map tr_id (matching_traces d s e)"
proof -
  obtain k d' where s: "sweep_abandoned_traces \<Gamma> locks None None 3600 d = (Inr k, d')"
    using sweep_runs[of locks, OF assms] by blast
  then show thesis
    by (intro that[of d'] sweep_keeps_order[OF s]) (simp add: search_traces_def run_read_sweep_def Let_def)
qed

lemma walk_from:
  assumes "0 < n" "\<forall>(\<Gamma>, locks) \<in> set calls. \<not> locks 0"
    "length (matching_traces d s e) - parse_offset c < length calls"
  shows "walk_traces calls s e (Some (int n)) c d =
    Some (drop (parse_offset c) (map tr_id (matching_traces d s e)))"
  using assms(2,3)
proof (induction calls arbitrary: c d)
  case (Cons call calls)
  obtain \<Gamma> locks where call: "call = (\<Gamma>, locks)" by fastforce
  define k where "k = parse_offset c"
  obtain d' where
    page: "search_traces \<Gamma> locks s e None (Some (int n)) c d = (Ok (search_page d' s e n k) [], d')" and
    same: "map tr_id (matching_traces d' s e) = map tr_id (matching_traces d s e)"
    using search_traces_unlocked Cons.prems(1) call unfolding k_def by (metis (no_types, lifting) case_prodD list.set_intros(1))
  have len: "length (matching_traces d' s e) = length (matching_traces d s e)"
    using same by (rule map_eq_imp_length_eq)
  show ?case
  proof (cases "k + n < length (matching_traces d s e)")
    case True
    have po: "parse_offset (Some (offset_cursor (k + n))) = k + n" by (rule parse_offset_cursor)
    have "walk_traces calls s e (Some (int n)) (Some (offset_cursor (k + n))) d' =
        Some (drop (k + n) (map tr_id (matching_traces d' s e)))"
      using Cons.IH[of d' "Some (offset_cursor (k + n))"] Cons.prems(1) Cons.prems(2)[folded k_def] True assms(1)
      by (simp add: po len)
    then show ?thesis
      using True page by (simp add: call search_page_ids search_page_next len same k_def
        append_take_drop_id add.commute flip: drop_drop)
  next
    case False
    then show ?thesis
      using page by (simp add: call search_page_ids search_page_next len same k_def)
  qed
qed simp

section \<open>Lemmas: captured text and completed turns in later states\<close>

lemma find_row_moves:
  assumes "list_all2 trace_moves xs ys" "\<And>x y. trace_moves x y \<Longrightarrow> P y = P x"
  shows "rel_option trace_moves (find_row P xs) (find_row P ys)"
  using assms(1) by (induction rule: list_all2_induct) (auto simp: assms(2))

lemma find_row_hist:
  assumes "trace_hist d d'" "\<And>x y. trace_moves x y \<Longrightarrow> P y = P x" "find_row P (traces d) = Some x"
  obtains y where "find_row P (traces d') = Some y" "trace_moves x y"
proof -
  obtain old fresh where o: "traces d' = old @ fresh" "list_all2 trace_moves (traces d) old"
    using assms(1) unfolding trace_hist_def by blast
  then obtain y where "find_row P old = Some y" "trace_moves x y"
    using find_row_moves[of "traces d" old P] assms(2,3) by (auto simp: option_rel_Some1)
  then show thesis using that o(1) by (simp add: find_row_append)
qed

lemma turn_is_moves: "trace_moves x y \<Longrightarrow> turn_is u v y = turn_is u v x"
  using trace_moves_fields by (simp add: turn_is_def)

lemma owned_turn_moves: "trace_moves x y \<Longrightarrow> owned_turn u a v y = owned_turn u a v x"
  using trace_moves_fields turn_is_moves by (simp add: owned_turn_def)

lemma captured_hist:
  assumes "captured d u v h i" "trace_hist d d'"
  shows "captured d' u v h i"
proof -
  obtain x where x: "find_row (turn_is u v) (traces d) = Some x" "tr_id x = i"
    and h: "tr_user_prompt_hash x = h \<or> h \<in> tm_message_hash ` set (messages_of d i)"
    using assms(1) by (auto simp: captured_def)
  obtain y where y: "find_row (turn_is u v) (traces d') = Some y" "trace_moves x y"
    using find_row_hist[OF assms(2) _ x(1)] turn_is_moves by blast
  have "set (messages_of d i) \<subseteq> set (messages_of d' i)"
    using assms(2) by (auto simp: trace_hist_def messages_of_def dest: set_mono_prefix)
  then show ?thesis using x h y trace_moves_fields[OF y(2)] by (auto simp: captured_def)
qed

lemma trace_steps_hist:
  assumes "trace_step\<^sup>*\<^sup>* d d'" "trace_inv d"
  shows "trace_inv d'" "trace_hist d d'"
  using tr.evolves_steps[OF trace_step_evolves assms(1)] assms(2) by (auto simp: tr.evolves_def)

lemma capture_start_captures:
  assumes "capture_trace_start \<Gamma> l1 l2 a d = (Ok (i, ap) ws, d')"
  shows "captured d' (st_agent_session_id a) (st_harness_turn_id a)
    (compute_content_hash \<Gamma> (start_prompt a)) i" "st_harness a \<in> set trace_harnesses"
proof -
  obtain d1 where "write_transaction_retrying l2
      (start_write a (start_prompt a) (compute_content_hash \<Gamma> (start_prompt a)) (now_iso \<Gamma>)) d1 = (Inr (i, ap), d')"
    using assms by (auto simp: capture_trace_start_def split: prod.splits sum.splits)
  then have "start_write a (start_prompt a) (compute_content_hash \<Gamma> (start_prompt a)) (now_iso \<Gamma>) d1 = (Inr (i, ap), d')"
    by (rule retrying_commit)
  then show "captured d' (st_agent_session_id a) (st_harness_turn_id a) (compute_content_hash \<Gamma> (start_prompt a)) i"
    "st_harness a \<in> set trace_harnesses"
    by (rule start_write_captures, simp add: start_write_def split: if_splits)
qed

lemma captured_capture_start:
  assumes "captured d (st_agent_session_id b) (st_harness_turn_id b) (compute_content_hash \<Gamma> (start_prompt b)) i"
    "\<not> m1 0" "\<not> m2 0" "st_harness b \<in> set trace_harnesses"
  obtains d' where "capture_trace_start \<Gamma> m1 m2 b d = (Ok (i, False) [], d')"
    "turn_messages d' = turn_messages d" "map tr_id (traces d') = map tr_id (traces d)"
proof -
  obtain k d1 where s: "sweep_abandoned_traces \<Gamma> m1 (Some (st_agent_session_id b)) None 3600 d = (Inr k, d1)"
    using sweep_runs[of m1, OF assms(2)] by blast
  have "start_write b (start_prompt b) (compute_content_hash \<Gamma> (start_prompt b)) (now_iso \<Gamma>) d1 = (Inr (i, False), d1)"
    using captured_start_write captured_sweep[OF assms(1) s] assms(4) by blast
  then have "capture_trace_start \<Gamma> m1 m2 b d = (Ok (i, False) [], d1)"
    using s by (simp add: capture_trace_start_def retrying_unlocked[of m2, OF assms(3)] write_transaction_def)
  then show thesis using that sweep_frame[OF s] by blast
qed

lemma complete_write_pending:
  assumes "find_row (owned_turn s a turn) (traces d) = Some x" "tr_status x = Pending"
  shows "\<exists>d'. complete_write s a turn msg h t d = (Inr (Some ((tr_id x, Completed), True)), d') \<and>
    find_row (owned_turn s a turn) (traces d') = Some (complete_row msg h t x)"
proof -
  let ?P = "\<lambda>x. owned_turn s a turn x \<and> tr_status x = Pending"
  have "owned_turn s a turn (complete_row msg h t y) = owned_turn s a turn y" for y
    by (simp add: owned_turn_def turn_is_def complete_row_def)
  then have "find_row (owned_turn s a turn) (update_where ?P (complete_row msg h t) xs) =
      map_option (\<lambda>y. if ?P y then complete_row msg h t y else y) (find_row (owned_turn s a turn) xs)" for xs
    unfolding update_where_def by (intro find_row_map) auto
  then show ?thesis
    using assms find_row_Some[OF assms(1)] by (simp add: complete_write_def Let_def complete_row_def)
qed

section \<open>Properties\<close>

definition sample_start :: start_args where
  "sample_start = \<lparr>st_agent_session_id = ''s'', st_agent_id = ''a'', st_harness = ''codex'',
     st_harness_session_id = ''h'', st_harness_turn_id = ''t'', st_user_prompt = ''Yes'',
     st_trace_id = ''x1'', st_message_id = ''m1''\<rparr>"

lemma trace_inv_empty: "trace_inv empty_db"
  by (simp add: trace_inv_def empty_db_def messages_of_def)

lemma sample_capture:
  "capture_trace_start sample_env (\<lambda>_. False) (\<lambda>_. False) sample_start empty_db =
   (Ok (''x1'', False) [], empty_db\<lparr>traces := [new_trace sample_start ''Yes'' ''yes'' ''1970-01-01'']\<rparr>)"
  by code_simp

text \<open>
  C37. Over any sequence of captures, links, completions, sweeps and reads the trace tables stay
  well-formed, and they only grow: no trace, message or link disappears or changes its text, a trace
  leaves the pending state at most once, and memories and relations are untouched.
\<close>

theorem trace_runs_keep_history:
  assumes "trace_step\<^sup>*\<^sup>* d d'" "trace_inv d"
  shows "trace_inv d' \<and> trace_hist d d'"
  using trace_steps_hist[OF assms] by blast

theorem trace_runs_keep_history_witness:
  "trace_inv (snd (capture_trace_start sample_env (\<lambda>_. False) (\<lambda>_. False) sample_start empty_db)) \<and>
   trace_hist empty_db (snd (capture_trace_start sample_env (\<lambda>_. False) (\<lambda>_. False) sample_start empty_db))"
proof -
  have "trace_step empty_db (snd (capture_trace_start sample_env (\<lambda>_. False) (\<lambda>_. False) sample_start empty_db))"
    by (rule trace_step.start[OF surjective_pairing])
  then show ?thesis by (intro trace_runs_keep_history r_into_rtranclp trace_inv_empty)
qed

text \<open>
  C38. Capturing a turn is idempotent across the whole later history: once a text of a turn has been
  captured, delivering it again, at any later time and after any other operations, answers with the
  same trace id, reports that nothing was appended and adds neither a trace nor a message.
\<close>

theorem capture_start_idempotent:
  assumes "capture_trace_start \<Gamma> l1 l2 a d = (Ok (i, ap) ws, d1)" "trace_inv d"
    "trace_step\<^sup>*\<^sup>* d1 d2" "\<not> m1 0" "\<not> m2 0"
  shows "\<exists>d3. capture_trace_start (\<Gamma>\<lparr>now := u\<rparr>) m1 m2 (a\<lparr>st_trace_id := x, st_message_id := y\<rparr>) d2 =
      (Ok (i, False) [], d3) \<and>
    turn_messages d3 = turn_messages d2 \<and> map tr_id (traces d3) = map tr_id (traces d2)"
proof -
  let ?b = "a\<lparr>st_trace_id := x, st_message_id := y\<rparr>" and ?G = "\<Gamma>\<lparr>now := u\<rparr>"
  have "trace_inv d1" using capture_start_evolves[OF assms(1)] assms(2) by (rule tr.evolves_inv)
  then have "captured d2 (st_agent_session_id a) (st_harness_turn_id a) (compute_content_hash \<Gamma> (start_prompt a)) i"
    using captured_hist[OF capture_start_captures(1)[OF assms(1)]] trace_steps_hist(2)[OF assms(3)] by blast
  moreover have "start_prompt ?b = start_prompt a" by (simp add: start_prompt_def)
  moreover have "compute_content_hash ?G p = compute_content_hash \<Gamma> p" for p
    by (simp add: compute_content_hash_def Let_def)
  ultimately have "captured d2 (st_agent_session_id ?b) (st_harness_turn_id ?b)
      (compute_content_hash ?G (start_prompt ?b)) i" by simp
  from captured_capture_start[OF this, of m1 m2] assms(4,5) capture_start_captures(2)[OF assms(1)] show ?thesis by auto
qed

theorem capture_start_idempotent_witness:
  "\<exists>d3. capture_trace_start (sample_env\<lparr>now := 5\<rparr>) (\<lambda>_. False) (\<lambda>_. False)
      (sample_start\<lparr>st_trace_id := ''x2'', st_message_id := ''m2''\<rparr>)
      (empty_db\<lparr>traces := [new_trace sample_start ''Yes'' ''yes'' ''1970-01-01'']\<rparr>) = (Ok (''x1'', False) [], d3) \<and>
    turn_messages d3 = [] \<and> map tr_id (traces d3) = [''x1'']"
  using capture_start_idempotent[OF sample_capture trace_inv_empty rtranclp.rtrancl_refl,
    of "\<lambda>_. False" "\<lambda>_. False" 5 "''m2''" "''x2''"]
  by (simp add: empty_db_def new_trace_def sample_start_def)

text \<open>
  C39. Completing the pending turn of an agent stores the final message and reports the transition;
  every later completion of that turn, after any other operations, changes nothing and answers
  ALREADY_TERMINAL, and the stored row is still there.
\<close>

theorem completion_final:
  assumes "trace_inv d" "find_row (owned_turn s a turn) (traces d) = Some x" "tr_status x = Pending" "\<not> l 0"
    "capture_trace_complete \<Gamma> l s a turn msg d = (res, d1)" "trace_step\<^sup>*\<^sup>* d1 d2" "\<not> l' 0"
  shows "res = Ok (Some (tr_id x), Some Completed) [] \<and>
    capture_trace_complete \<Gamma>' l' s a turn msg' d2 =
      (Ok (Some (tr_id x), Some Completed) [''ALREADY_TERMINAL''], d2) \<and>
    complete_row msg (compute_content_hash \<Gamma> msg) (now_iso \<Gamma>) x \<in> set (traces d2)"
proof -
  let ?h = "compute_content_hash \<Gamma> msg" and ?t = "now_iso \<Gamma>"
  let ?y = "complete_row msg ?h ?t x"
  obtain e where e: "complete_write s a turn msg ?h ?t d = (Inr (Some ((tr_id x, Completed), True)), e)"
    and row: "find_row (owned_turn s a turn) (traces e) = Some ?y"
    using complete_write_pending[OF assms(2,3)] by blast
  have res: "res = Ok (Some (tr_id x), Some Completed) []" and d1: "d1 = e"
    using assms(5) e by (auto simp: capture_trace_complete_def retrying_unlocked[of l, OF assms(4)] write_transaction_def)
  have "trace_inv d1" using capture_complete_evolves[OF assms(5)] assms(1) by (rule tr.evolves_inv)
  then have "trace_hist d1 d2" using trace_steps_hist(2)[OF assms(6)] by blast
  then obtain z where z: "find_row (owned_turn s a turn) (traces d2) = Some z" "trace_moves ?y z"
    using find_row_hist[of d1 d2 "owned_turn s a turn" ?y] row d1 owned_turn_moves by blast
  have "z = ?y" using trace_moves_fields[OF z(2)] by (simp add: complete_row_def)
  then have "find_row (owned_turn s a turn) (traces d2) = Some ?y" using z(1) by simp
  then have "complete_write s a turn msg' h t d2 = (Inr (Some ((tr_id x, Completed), False)), d2)" for h t
    by (simp add: complete_write_def complete_row_def)
  then have "capture_trace_complete \<Gamma>' l' s a turn msg' d2 =
      (Ok (Some (tr_id x), Some Completed) [''ALREADY_TERMINAL''], d2)"
    by (simp add: capture_trace_complete_def retrying_unlocked[of l', OF assms(7)] write_transaction_def)
  then show ?thesis using res find_row_Some[OF z(1)] \<open>z = ?y\<close> by blast
qed

theorem completion_final_witness:
  "fst (capture_trace_complete sample_env (\<lambda>_. False) ''s'' ''a'' ''t'' ''Done.''
      (empty_db\<lparr>traces := [new_trace sample_start ''Yes'' ''yes'' ''1970-01-01'']\<rparr>)) =
     Ok (Some ''x1'', Some Completed) [] \<and>
   fst (capture_trace_complete sample_env (\<lambda>_. False) ''s'' ''a'' ''t'' ''Again.''
      (snd (capture_trace_complete sample_env (\<lambda>_. False) ''s'' ''a'' ''t'' ''Done.''
        (empty_db\<lparr>traces := [new_trace sample_start ''Yes'' ''yes'' ''1970-01-01'']\<rparr>)))) =
     Ok (Some ''x1'', Some Completed) [''ALREADY_TERMINAL'']"
proof -
  let ?n = "new_trace sample_start ''Yes'' ''yes'' ''1970-01-01''"
  let ?d = "empty_db\<lparr>traces := [?n]\<rparr>"
  have "trace_inv ?d" using capture_start_evolves[OF sample_capture] trace_inv_empty by (rule tr.evolves_inv)
  moreover have "find_row (owned_turn ''s'' ''a'' ''t'') (traces ?d) = Some ?n" "tr_status ?n = Pending" "tr_id ?n = ''x1''"
    by (simp_all add: owned_turn_def turn_is_def new_trace_def sample_start_def)
  ultimately show ?thesis
    using completion_final[of ?d "''s''" "''a''" "''t''" ?n "\<lambda>_. False" sample_env "''Done.''" _ _ _ "\<lambda>_. False"
      sample_env "''Again.''", OF _ _ _ _ surjective_pairing rtranclp.rtrancl_refl] by simp
qed

text \<open>
  C40. A client that follows \<open>next_cursor\<close> reads every matching trace exactly once, newest first,
  whatever the page size and although every page runs a sweep of its own in between; one call per
  trace plus one is always enough.
\<close>

theorem trace_pages_complete:
  assumes "trace_inv d" "0 < n" "\<forall>(\<Gamma>, locks) \<in> set calls. \<not> locks 0"
    "length (matching_traces d s e) < length calls"
  shows "walk_traces calls s e (Some (int n)) None d = Some (map tr_id (matching_traces d s e)) \<and>
    distinct (map tr_id (matching_traces d s e)) \<and>
    (\<forall>tr. tr \<in> set (matching_traces d s e) \<longleftrightarrow> tr \<in> set (traces d) \<and>
       (s = None \<or> s = Some (tr_agent_session_id tr)) \<and>
       (case e of None \<Rightarrow> True | Some i \<Rightarrow>
          \<exists>l \<in> set (trace_links d). tl_trace_id l = tr_id tr \<and> tl_entity_id l = i))"
proof -
  have "walk_traces calls s e (Some (int n)) None d = Some (map tr_id (matching_traces d s e))"
    using walk_from[OF assms(2,3), of d s e None] assms(4) by (simp add: parse_offset_def)
  moreover have "distinct (map tr_id (matching_traces d s e))"
    using assms(1) unfolding trace_inv_def matching_traces_def sort_desc_def
    by (auto simp: distinct_map inj_on_def distinct_sort)
  ultimately show ?thesis by (auto simp: matching_traces_def list_ex_iff split: option.splits)
qed

theorem trace_pages_complete_witness:
  "walk_traces (replicate 3 (sample_env, \<lambda>_. False)) None None (Some 1) None
     (empty_db\<lparr>traces := [new_trace sample_start ''Yes'' ''yes'' ''1970-01-01'',
        new_trace (sample_start\<lparr>st_harness_turn_id := ''u'', st_trace_id := ''x2''\<rparr>) ''Yes'' ''yes'' ''1970-01-01'']\<rparr>) =
   Some [''x2'', ''x1'']"
proof -
  let ?d = "empty_db\<lparr>traces := [new_trace sample_start ''Yes'' ''yes'' ''1970-01-01'',
        new_trace (sample_start\<lparr>st_harness_turn_id := ''u'', st_trace_id := ''x2''\<rparr>) ''Yes'' ''yes'' ''1970-01-01'']\<rparr>"
  have "map tr_id (matching_traces ?d None None) = [''x2'', ''x1'']" by code_simp
  moreover have "length (matching_traces ?d None None) = 2" by code_simp
  moreover have "trace_inv ?d"
    by (simp add: trace_inv_def empty_db_def messages_of_def new_trace_def sample_start_def row_ok_def)
  ultimately show ?thesis
    using trace_pages_complete[of ?d 1 "replicate 3 (sample_env, \<lambda>_. False)" None None] by simp
qed

text \<open>
  A text that differs from an already captured one only in letter case or in outer white space
  counts as a repetition: it is dropped, although it is a different message.
\<close>

lemma near_duplicate_message_dropped:
  assumes "capture_trace_start \<Gamma> l1 l2 a d = (Ok (i, ap) ws, d1)"
    "st_agent_session_id b = st_agent_session_id a" "st_harness_turn_id b = st_harness_turn_id a"
    "start_prompt b \<noteq> start_prompt a" "start_prompt a \<noteq> []" "start_prompt b \<noteq> []"
    "py_lower (py_strip (start_prompt b)) = py_lower (py_strip (start_prompt a))" "\<not> m1 0" "\<not> m2 0"
    "st_harness b = st_harness a"
  shows "\<exists>d2. capture_trace_start \<Gamma> m1 m2 b d1 = (Ok (i, False) [], d2) \<and>
    turn_messages d2 = turn_messages d1 \<and> map tr_id (traces d2) = map tr_id (traces d1)"
proof -
  have "compute_content_hash \<Gamma> (start_prompt b) = compute_content_hash \<Gamma> (start_prompt a)"
    using assms(5-7) by (simp add: compute_content_hash_def Let_def)
  then have "captured d1 (st_agent_session_id b) (st_harness_turn_id b) (compute_content_hash \<Gamma> (start_prompt b)) i"
    using capture_start_captures(1)[OF assms(1)] assms(2,3) by simp
  from captured_capture_start[OF this, of m1 m2] assms(8-10) capture_start_captures(2)[OF assms(1)] show ?thesis by auto
qed

lemma near_duplicate_message_dropped_witness:
  "\<exists>d2. capture_trace_start sample_env (\<lambda>_. False) (\<lambda>_. False) (sample_start\<lparr>st_user_prompt := ''YES''\<rparr>)
      (empty_db\<lparr>traces := [new_trace sample_start ''Yes'' ''yes'' ''1970-01-01'']\<rparr>) = (Ok (''x1'', False) [], d2) \<and>
    turn_messages d2 = [] \<and> map tr_id (traces d2) = [''x1'']"
proof -
  let ?b = "sample_start\<lparr>st_user_prompt := ''YES''\<rparr>"
  have p: "start_prompt ?b = ''YES''" "start_prompt sample_start = ''Yes''"
    by (simp_all add: start_prompt_def sample_start_def)
  have "py_lower (py_strip ''YES'') = py_lower (py_strip ''Yes'')" by code_simp
  then show ?thesis
    using near_duplicate_message_dropped[OF sample_capture, of ?b "\<lambda>_. False" "\<lambda>_. False"] p
    by (simp add: sample_start_def empty_db_def new_trace_def)
qed

end
