(* ===== verification/Write_Coordinator.thy ===== *)
theory Write_Coordinator
  imports Store "HOL-Library.Multiset"
begin

text \<open>
  The daemon's single database writer, \<^verbatim>\<open>src/src/saltmdb/daemon/db_write_coordinator.py\<close>.

  Client threads, draining threads and the writer thread interleave. A step is one region that runs
  under the admission lock, or one action on a future, or one job: between \<open>put\<close> and \<open>notify\<close> of a
  submission, between the locked part of \<open>begin_draining\<close> and each of its \<open>set_exception\<close> calls, and
  between the lines of \<open>_wait_for_job\<close> other threads may run. \<open>notifies\<close> counts the clients that have
  put a job and not yet notified; \<open>drains\<close> holds the jobs that each running \<open>begin_draining\<close> still
  has to answer.

  Left out: the vector extension, exceptions outside \<open>Exception\<close>, callbacks of a future (a callback
  that submits is a later submission), and the join timeout.
\<close>

section \<open>State\<close>

datatype 'v task = Transaction "'v act" | Maintenance "'v act"

record 'v job =
  j_label :: string
  j_task :: "'v task"
  j_future :: nat
  j_enqueued_at :: int

datatype failure = Raised exn | CoordinatorUsageError string

datatype 'v future = Waiting | Cancelled | Finished "failure + 'v"

text \<open>Where the writer thread is in \<open>_run\<close>, \<open>_wait_for_job\<close> and \<open>_execute_job\<close>.\<close>

datatype 'v phase =
    Unstarted
  | Opening
  | Polling
  | Taking
  | Rechecking
  | Parking
  | Parked
  | Holding "'v job"
  | Running "'v job"
  | Settling "'v job" "failure + 'v"
  | Exiting
  | Closing "'v job list" bool
  | Stopped

record 'v coord =
  foreground :: "'v job list"
  background :: "'v job list"
  stopping :: bool
  started :: bool
  phase :: "'v phase"
  foreground_run :: nat
  active_label :: "string option"
  active_transaction :: bool
  conn_open :: bool
  completed :: nat
  failed :: nat
  futures :: "nat \<rightharpoonup> 'v future"
  next_future :: nat
  notifies :: nat
  drains :: "'v job list list"
  store :: db

definition coord_init :: "db \<Rightarrow> 'v coord" where
  "coord_init d = \<lparr>foreground = [], background = [], stopping = False, started = False,
     phase = Unstarted, foreground_run = 0, active_label = None, active_transaction = False,
     conn_open = False, completed = 0, failed = 0, futures = Map.empty, next_future = 0,
     notifies = 0, drains = [], store = d\<rparr>"

section \<open>Client operations\<close>

definition start :: "'v coord \<Rightarrow> 'v coord" where
  "start c = (if started c then c else c\<lparr>started := True, phase := Opening\<rparr>)"

definition in_transaction :: "bool \<Rightarrow> 'v coord \<Rightarrow> bool" where
  "in_transaction on_writer c \<longleftrightarrow> on_writer \<and> active_transaction c"

definition put_job :: "bool \<Rightarrow> 'v job \<Rightarrow> 'v coord \<Rightarrow> 'v coord" where
  "put_job fg j c =
     (if fg then c\<lparr>foreground := foreground c @ [j]\<rparr> else c\<lparr>background := background c @ [j]\<rparr>)"

definition enqueue :: "bool \<Rightarrow> string \<Rightarrow> 'v task \<Rightarrow> int \<Rightarrow> 'v coord \<Rightarrow> (failure + nat) \<times> 'v coord" where
  "enqueue fg label task t c =
     (if \<not> started c then (Inl (CoordinatorUsageError ''DbWriteCoordinator has not been started''), c)
      else if stopping c then (Inl (CoordinatorUsageError ''DAEMON_SHUTTING_DOWN''), c)
      else let f = next_future c;
               j = \<lparr>j_label = label, j_task = task, j_future = f, j_enqueued_at = t\<rparr>
           in (Inr f, (put_job fg j c)\<lparr>futures := (futures c)(f \<mapsto> Waiting), next_future := Suc f,
                 notifies := Suc (notifies c)\<rparr>))"

datatype 'v submitted = Direct "exn + 'v" | Queued nat

definition submit ::
  "bool \<Rightarrow> bool \<Rightarrow> string \<Rightarrow> 'v act \<Rightarrow> int \<Rightarrow> 'v coord \<Rightarrow> (failure + 'v submitted) \<times> 'v coord" where
  "submit on_writer fg label fn t c =
     (if in_transaction on_writer c then
        (if \<not> conn_open c then (Inl (CoordinatorUsageError ''writer transaction has no connection''), c)
         else case fn (store c) of (r, s) \<Rightarrow> (Inr (Direct r), c\<lparr>store := s\<rparr>))
      else case enqueue fg label (Transaction fn) t c of
        (Inl e, c') \<Rightarrow> (Inl e, c')
      | (Inr f, c') \<Rightarrow> (Inr (Queued f), c'))"

definition submit_maintenance ::
  "bool \<Rightarrow> string \<Rightarrow> 'v act \<Rightarrow> int \<Rightarrow> 'v coord \<Rightarrow> (failure + nat) \<times> 'v coord" where
  "submit_maintenance on_writer label fn t c =
     (if in_transaction on_writer c
      then (Inl (CoordinatorUsageError ''maintenance cannot run inside a transaction''), c)
      else enqueue False label (Maintenance fn) t c)"

text \<open>\<open>notify\<close> and \<open>notify_all\<close>: the writer is the only thread that waits on the condition.\<close>

definition wake :: "'v coord \<Rightarrow> 'v coord" where
  "wake c = (case phase c of Parked \<Rightarrow> c\<lparr>phase := Polling\<rparr> | _ \<Rightarrow> c)"

definition notify :: "'v coord \<Rightarrow> 'v coord" where
  "notify c = wake (c\<lparr>notifies := notifies c - 1\<rparr>)"

text \<open>\<open>Future.set_result\<close> and \<open>set_exception\<close>: None is the \<open>InvalidStateError\<close> of a future that is done.\<close>

definition settle_future :: "nat \<Rightarrow> failure + 'v \<Rightarrow> 'v coord \<Rightarrow> 'v coord option" where
  "settle_future f r c =
     (case futures c f of
        Some Waiting \<Rightarrow> Some (c\<lparr>futures := (futures c)(f \<mapsto> Finished r)\<rparr>)
      | _ \<Rightarrow> None)"

definition cancel_future :: "nat \<Rightarrow> 'v coord \<Rightarrow> 'v coord" where
  "cancel_future f c =
     (if futures c f = Some Waiting then c\<lparr>futures := (futures c)(f \<mapsto> Cancelled)\<rparr> else c)"

abbreviation shutting_down :: "failure + 'v" where
  "shutting_down \<equiv> Inl (CoordinatorUsageError ''DAEMON_SHUTTING_DOWN'')"

text \<open>The locked part of \<open>begin_draining\<close>: the jobs to cancel and the emptied lanes.\<close>

definition drain_lanes :: "'v coord \<Rightarrow> 'v job list \<times> 'v coord" where
  "drain_lanes c =
     (foreground c @ background c, c\<lparr>stopping := True, foreground := [], background := []\<rparr>)"

definition begin_draining :: "'v coord \<Rightarrow> 'v coord" where
  "begin_draining c = (case drain_lanes c of (js, c') \<Rightarrow> c'\<lparr>drains := js # drains c\<rparr>)"

text \<open>One action of the rest of \<open>begin_draining\<close>, for the call at index \<open>i\<close>.\<close>

definition drain_step :: "nat \<Rightarrow> 'v coord \<Rightarrow> 'v coord" where
  "drain_step i c =
     (case drains c ! i of
        [] \<Rightarrow> wake (c\<lparr>drains := take i (drains c) @ drop (Suc i) (drains c)\<rparr>)
      | j # js \<Rightarrow>
          (case settle_future (j_future j) shutting_down c of
             Some c' \<Rightarrow> c'\<lparr>drains := (drains c)[i := js]\<rparr>
           | None \<Rightarrow> c\<lparr>drains := take i (drains c) @ drop (Suc i) (drains c)\<rparr>))"

record telemetry_data =
  foreground_queue_depth :: nat
  background_queue_depth :: nat
  queue_depth :: nat
  oldest_queued_age :: int
  t_completed :: nat
  t_failed :: nat
  t_active_label :: "string option"

definition telemetry :: "int \<Rightarrow> 'v coord \<Rightarrow> telemetry_data" where
  "telemetry t c =
     (let queued = foreground c @ background c
      in \<lparr>foreground_queue_depth = length (foreground c), background_queue_depth = length (background c),
          queue_depth = length queued,
          oldest_queued_age = (if queued = [] then 0 else Max ((\<lambda>j. t - j_enqueued_at j) ` set queued)),
          t_completed = completed c, t_failed = failed c, t_active_label = active_label c\<rparr>)"

section \<open>The writer thread\<close>

definition next_job :: "'v coord \<Rightarrow> (bool \<times> 'v job) option \<times> 'v coord" where
  "next_job c =
     (if foreground_run c \<ge> 8 \<and> background c \<noteq> []
      then (Some (False, hd (background c)), c\<lparr>background := tl (background c), foreground_run := 0\<rparr>)
      else if foreground c \<noteq> []
      then (Some (True, hd (foreground c)),
            c\<lparr>foreground := tl (foreground c), foreground_run := foreground_run c + 1\<rparr>)
      else if background c \<noteq> []
      then (Some (False, hd (background c)), c\<lparr>background := tl (background c), foreground_run := 0\<rparr>)
      else (None, c))"

fun run_task :: "(nat \<Rightarrow> bool) \<Rightarrow> 'v task \<Rightarrow> 'v act" where
  "run_task locks (Transaction f) d = write_transaction_retrying locks f d"
| "run_task locks (Maintenance f) d = f d"

definition execute_job :: "(nat \<Rightarrow> bool) \<Rightarrow> 'v job \<Rightarrow> 'v coord \<Rightarrow> 'v coord" where
  "execute_job locks j c =
     (case run_task locks (j_task j) (store c) of
        (Inl e, d) \<Rightarrow> c\<lparr>store := d, failed := failed c + 1, active_transaction := False,
                         phase := Settling j (Inl (Raised e))\<rparr>
      | (Inr v, d) \<Rightarrow> c\<lparr>store := d, completed := completed c + 1, active_transaction := False,
                         phase := Settling j (Inr v)\<rparr>)"

definition settle_job :: "'v job \<Rightarrow> failure + 'v \<Rightarrow> 'v coord \<Rightarrow> 'v coord" where
  "settle_job j r c =
     (case settle_future (j_future j) r c of
        Some c' \<Rightarrow> c'\<lparr>active_label := None, phase := Polling\<rparr>
      | None \<Rightarrow> c\<lparr>active_label := None, phase := Exiting\<rparr>)"

datatype 'v coord_event =
    Accepted bool "'v job"
  | Dispatched bool "'v job"
  | Executed "'v job" "nat \<Rightarrow> bool"
  | Answering nat "failure + 'v"
  | Cancelling nat
  | Tick

text \<open>
  One action of the writer. \<open>opens\<close> says whether the connection can be opened, \<open>locks\<close> which attempts
  of a transaction find the database locked.
\<close>

definition worker_step :: "bool \<Rightarrow> (nat \<Rightarrow> bool) \<Rightarrow> 'v coord \<Rightarrow> ('v coord_event \<times> 'v coord) option" where
  "worker_step opens locks c =
     (case phase c of
        Unstarted \<Rightarrow> None
      | Parked \<Rightarrow> None
      | Stopped \<Rightarrow> None
      | Opening \<Rightarrow>
          Some (Tick, if opens then c\<lparr>conn_open := True, foreground_run := 0, phase := Polling\<rparr>
                      else case drain_lanes c of (js, c') \<Rightarrow> c'\<lparr>phase := Closing js True\<rparr>)
      | Polling \<Rightarrow> Some (Tick, c\<lparr>phase := (if stopping c then Exiting else Taking)\<rparr>)
      | Taking \<Rightarrow>
          (case next_job c of
             (None, c') \<Rightarrow> Some (Tick, c'\<lparr>phase := Rechecking\<rparr>)
           | (Some (fg, j), c') \<Rightarrow> Some (Dispatched fg j, c'\<lparr>phase := Holding j\<rparr>))
      | Rechecking \<Rightarrow> Some (Tick, c\<lparr>phase := (if stopping c then Exiting else Parking)\<rparr>)
      | Parking \<Rightarrow>
          Some (Tick, c\<lparr>phase := (if foreground c = [] \<and> background c = [] \<and> \<not> stopping c
                                  then Parked else Polling)\<rparr>)
      | Holding j \<Rightarrow>
          Some (Tick, if futures c (j_future j) = Some Cancelled then c\<lparr>phase := Polling\<rparr>
                      else c\<lparr>active_label := Some (j_label j), active_transaction := True,
                             phase := Running j\<rparr>)
      | Running j \<Rightarrow> Some (Executed j locks, execute_job locks j c)
      | Settling j r \<Rightarrow> Some (Answering (j_future j) r, settle_job j r c)
      | Exiting \<Rightarrow> Some (Tick, case drain_lanes c of (js, c') \<Rightarrow> c'\<lparr>phase := Closing js False\<rparr>)
      | Closing js failed_open \<Rightarrow>
          (case js of
             [] \<Rightarrow> Some (Tick, if failed_open then c\<lparr>started := False, phase := Stopped\<rparr>
                               else c\<lparr>conn_open := False, phase := Stopped\<rparr>)
           | j # js' \<Rightarrow>
               (case settle_future (j_future j) shutting_down c of
                  Some c' \<Rightarrow> Some (Answering (j_future j) shutting_down, c'\<lparr>phase := Closing js' failed_open\<rparr>)
                | None \<Rightarrow> Some (Tick, c\<lparr>phase := Stopped\<rparr>))))"

section \<open>Steps\<close>

text \<open>
  Internal steps: the writer, the end of a submission, the rest of a \<open>begin_draining\<close>. External
  steps: a start, a submission, a shutdown, a cancelled future.
\<close>

inductive internal_step :: "'v coord \<Rightarrow> 'v coord_event \<Rightarrow> 'v coord \<Rightarrow> bool" where
  worker: "worker_step opens locks c = Some (e, c') \<Longrightarrow> internal_step c e c'"
| notified: "0 < notifies c \<Longrightarrow> internal_step c Tick (notify c)"
| drained: "i < length (drains c) \<Longrightarrow> internal_step c Tick (drain_step i c)"

inductive coord_step :: "'v coord \<Rightarrow> 'v coord_event \<Rightarrow> 'v coord \<Rightarrow> bool" where
  internal: "internal_step c e c' \<Longrightarrow> coord_step c e c'"
| started: "coord_step c Tick (start c)"
| accepted: "enqueue fg label task t c = (Inr f, c') \<Longrightarrow>
    coord_step c (Accepted fg \<lparr>j_label = label, j_task = task, j_future = f, j_enqueued_at = t\<rparr>) c'"
| refused: "enqueue fg label task t c = (Inl e, c') \<Longrightarrow> coord_step c Tick c'"
| stop: "coord_step c Tick (begin_draining c)"
| cancel: "coord_step c (Cancelling f) (cancel_future f c)"

inductive coord_run :: "'v coord \<Rightarrow> 'v coord_event list \<Rightarrow> 'v coord \<Rightarrow> bool" where
  run_Nil: "coord_run c [] c"
| run_Cons: "coord_step c e c' \<Longrightarrow> coord_run c' es c'' \<Longrightarrow> coord_run c (e # es) c''"

inductive_cases coord_run_NilE: "coord_run c [] c'"
inductive_cases coord_run_ConsE: "coord_run c (e # es) c'"

section \<open>Invariant\<close>

text \<open>The accepted jobs that are not answered yet.\<close>

fun held :: "'v phase \<Rightarrow> 'v job list" where
  "held (Holding j) = [j]"
| "held (Running j) = [j]"
| "held (Settling j r) = [j]"
| "held (Closing js b) = js"
| "held _ = []"

definition in_flight :: "'v coord \<Rightarrow> 'v job list" where
  "in_flight c = foreground c @ background c @ held (phase c) @ concat (drains c)"

text \<open>The answered and unanswered futures.\<close>

definition futures_ok :: "'v coord \<Rightarrow> bool" where
  "futures_ok c \<longleftrightarrow> distinct (map j_future (in_flight c)) \<and>
     (\<forall>f. futures c f = Some Waiting \<longleftrightarrow> f \<in> j_future ` set (in_flight c)) \<and>
     (\<forall>f. futures c f \<noteq> Some Cancelled) \<and> (\<forall>f \<in> dom (futures c). f < next_future c)"

text \<open>A parked writer with something to do is about to be woken.\<close>

definition wakeup_ok :: "'v coord \<Rightarrow> bool" where
  "wakeup_ok c \<longleftrightarrow> phase c = Parked \<longrightarrow>
     foreground c = [] \<and> background c = [] \<and> \<not> stopping c \<or> 0 < notifies c \<or> drains c \<noteq> []"

definition phase_ok :: "'v coord \<Rightarrow> bool" where
  "phase_ok c \<longleftrightarrow> (stopping c \<longrightarrow> foreground c = [] \<and> background c = []) \<and>
     (phase c \<in> {Exiting, Stopped} \<or> (\<exists>js b. phase c = Closing js b) \<longrightarrow> stopping c) \<and>
     (phase c = Unstarted \<longrightarrow> \<not> started c \<and> foreground c = [] \<and> background c = []) \<and>
     (\<not> started c \<longrightarrow> phase c \<in> {Unstarted, Stopped}) \<and>
     (active_transaction c \<longleftrightarrow> (\<exists>j. phase c = Running j))"

definition coord_inv :: "'v coord \<Rightarrow> bool" where
  "coord_inv c \<longleftrightarrow> futures_ok c \<and> wakeup_ok c \<and> phase_ok c"

lemma coord_inv_init: "coord_inv (coord_init d)"
  by (simp add: coord_inv_def futures_ok_def wakeup_ok_def phase_ok_def coord_init_def in_flight_def)

lemma futures_ok_cong:
  assumes "futures_ok c" "mset (in_flight c') = mset (in_flight c)" "futures c' = futures c"
    "next_future c' = next_future c"
  shows "futures_ok c'"
proof -
  have "mset (map j_future (in_flight c')) = mset (map j_future (in_flight c))"
    using assms(2) by simp
  then have "distinct (map j_future (in_flight c')) = distinct (map j_future (in_flight c))"
    by (metis mset_eq_imp_distinct_iff)
  moreover have "set (in_flight c') = set (in_flight c)" using assms(2) by (rule mset_eq_setD)
  ultimately show ?thesis using assms unfolding futures_ok_def by auto
qed

lemma in_flight_waiting:
  assumes "futures_ok c" "j \<in> set (in_flight c)"
  shows "futures c (j_future j) = Some Waiting" "j_future j < next_future c"
proof -
  show w: "futures c (j_future j) = Some Waiting"
    using assms unfolding futures_ok_def by blast
  show "j_future j < next_future c"
    using assms(1) w unfolding futures_ok_def by (meson domI)
qed

text \<open>Answering one job takes exactly it out of flight.\<close>

lemma futures_ok_settle:
  assumes "futures_ok c" "mset (in_flight c) = add_mset j (mset (in_flight c'))"
    "futures c' = (futures c)(j_future j \<mapsto> Finished r)" "next_future c' = next_future c"
  shows "futures_ok c'"
proof -
  have m: "mset (in_flight c) = mset (j # in_flight c')" using assms(2) by simp
  then have "mset (map j_future (in_flight c)) = mset (map j_future (j # in_flight c'))"
    by (simp add: assms(2))
  then have "distinct (map j_future (j # in_flight c'))"
    using assms(1) unfolding futures_ok_def by (metis mset_eq_imp_distinct_iff)
  moreover have "set (in_flight c) = set (j # in_flight c')" using m by (rule mset_eq_setD)
  moreover have "j_future j < next_future c"
    using in_flight_waiting(2)[OF assms(1), of j] calculation(2) by simp
  ultimately show ?thesis using assms(1,3,4) unfolding futures_ok_def by auto
qed

lemma settle_in_flight:
  assumes "futures_ok c" "j \<in> set (in_flight c)"
  shows "settle_future (j_future j) r c = Some (c\<lparr>futures := (futures c)(j_future j \<mapsto> Finished r)\<rparr>)"
  using in_flight_waiting(1)[OF assms] by (simp add: settle_future_def)

lemma in_flight_drain:
  assumes "i < length (drains c)" "drains c ! i = j # js"
  shows "mset (in_flight c) = add_mset j (mset (concat ((drains c)[i := js])) +
    mset (foreground c @ background c @ held (phase c)))"
proof -
  have "drains c = take i (drains c) @ (j # js) # drop (Suc i) (drains c)"
    using assms by (metis id_take_nth_drop)
  then have "concat (drains c) = concat (take i (drains c)) @ (j # js) @ concat (drop (Suc i) (drains c))"
    by (metis concat.simps(2) concat_append)
  moreover have "concat ((drains c)[i := js]) = concat (take i (drains c)) @ js @ concat (drop (Suc i) (drains c))"
    using assms(1) by (simp add: upd_conv_take_nth_drop)
  ultimately show ?thesis by (simp add: in_flight_def)
qed

lemma next_job_cases:
  obtains "foreground c = []" "background c = []" "next_job c = (None, c)"
  | j js where "foreground c = j # js" "foreground_run c < 8 \<or> background c = []"
      "next_job c = (Some (True, j), c\<lparr>foreground := js, foreground_run := foreground_run c + 1\<rparr>)"
  | j js where "background c = j # js" "8 \<le> foreground_run c \<or> foreground c = []"
      "next_job c = (Some (False, j), c\<lparr>background := js, foreground_run := 0\<rparr>)"
  by (cases "foreground c"; cases "background c"; cases "8 \<le> foreground_run c") (auto simp: next_job_def)

lemmas coord_inv_defs = coord_inv_def wakeup_ok_def phase_ok_def

lemma drain_lanes_eq [simp]:
  "drain_lanes c = (foreground c @ background c, c\<lparr>stopping := True, foreground := [], background := []\<rparr>)"
  by (simp add: drain_lanes_def)

text \<open>The steps that move the writer without touching a future.\<close>

lemma move_inv:
  assumes "coord_inv c" "mset (in_flight c') = mset (in_flight c)" "futures c' = futures c"
    "next_future c' = next_future c" "wakeup_ok c'" "phase_ok c'"
  shows "coord_inv c'"
  using assms futures_ok_cong[of c c'] by (simp add: coord_inv_def)

lemma settle_inv:
  assumes "coord_inv c" "mset (in_flight c) = add_mset j (mset (in_flight c'))"
    "futures c' = (futures c)(j_future j \<mapsto> Finished r)" "next_future c' = next_future c"
    "wakeup_ok c'" "phase_ok c'"
  shows "coord_inv c'"
  using assms futures_ok_settle[of c j c' r] by (simp add: coord_inv_def)

lemma worker_step_inv:
  assumes inv: "coord_inv c" and step: "worker_step opens locks c = Some (e, c')"
  shows "coord_inv c'"
proof (cases "phase c")
  case Opening
  then show ?thesis using step inv
    by (intro move_inv[OF inv]; cases opens) (auto simp: worker_step_def coord_inv_defs in_flight_def)
next
  case Polling
  then show ?thesis using step inv
    by (intro move_inv[OF inv]; cases "stopping c") (auto simp: worker_step_def coord_inv_defs in_flight_def)
next
  case Taking
  show ?thesis
    by (rule next_job_cases[of c]; use step inv Taking in
      \<open>intro move_inv[OF inv]; auto simp: worker_step_def coord_inv_defs in_flight_def\<close>)
next
  case Rechecking
  then show ?thesis using step inv
    by (intro move_inv[OF inv]; cases "stopping c") (auto simp: worker_step_def coord_inv_defs in_flight_def)
next
  case Parking
  then consider "c' = c\<lparr>phase := Parked\<rparr>" "foreground c = []" "background c = []" "\<not> stopping c"
    | "c' = c\<lparr>phase := Polling\<rparr>"
    using step by (auto simp: worker_step_def split: if_splits)
  then show ?thesis using inv Parking
    by (cases; intro move_inv[OF inv]) (simp_all add: coord_inv_defs in_flight_def)
next
  case (Holding j)
  have "futures c (j_future j) = Some Waiting"
    using in_flight_waiting(1)[of c j] inv Holding by (simp add: coord_inv_def in_flight_def)
  then show ?thesis using step inv Holding
    by (intro move_inv[OF inv]) (auto simp: worker_step_def coord_inv_defs in_flight_def)
next
  case (Running j)
  then show ?thesis using step inv
    by (intro move_inv[OF inv])
      (auto simp: worker_step_def execute_job_def coord_inv_defs in_flight_def split: prod.splits sum.splits)
next
  case (Settling j r)
  then have "settle_future (j_future j) r c = Some (c\<lparr>futures := (futures c)(j_future j \<mapsto> Finished r)\<rparr>)"
    using settle_in_flight[of c j r] inv by (simp add: coord_inv_def in_flight_def)
  then show ?thesis using step inv Settling
    by (intro settle_inv[OF inv, of j]) (auto simp: worker_step_def settle_job_def coord_inv_defs in_flight_def)
next
  case Exiting
  then show ?thesis using step inv
    by (intro move_inv[OF inv]) (auto simp: worker_step_def coord_inv_defs in_flight_def)
next
  case (Closing js b)
  show ?thesis
  proof (cases js)
    case Nil
    then show ?thesis using step inv Closing
      by (intro move_inv[OF inv]; cases b) (auto simp: worker_step_def coord_inv_defs in_flight_def)
  next
    case (Cons j js')
    then have "settle_future (j_future j) shutting_down c = Some (c\<lparr>futures := (futures c)(j_future j \<mapsto> Finished shutting_down)\<rparr>)"
      using settle_in_flight[of c j shutting_down] inv Closing by (simp add: coord_inv_def in_flight_def)
    then show ?thesis using step inv Closing Cons
      by (intro settle_inv[OF inv, of j]) (auto simp: worker_step_def coord_inv_defs in_flight_def)
  qed
qed (use step in \<open>simp_all add: worker_step_def\<close>)

lemma wake_inv:
  assumes "futures_ok c" "phase_ok c" "phase c \<noteq> Parked \<longrightarrow> wakeup_ok c"
  shows "coord_inv (wake c)"
proof (cases "phase c = Parked")
  case True
  then have "futures_ok (wake c)"
    by (intro futures_ok_cong[OF assms(1)]) (simp_all add: wake_def in_flight_def)
  then show ?thesis using True assms by (auto simp: coord_inv_defs wake_def)
next
  case False
  then have "wake c = c" by (simp add: wake_def split: phase.splits)
  then show ?thesis using False assms by (simp add: coord_inv_def)
qed

lemma notify_inv: "coord_inv c \<Longrightarrow> coord_inv (notify c)"
  unfolding notify_def
  by (rule wake_inv) (auto intro: futures_ok_cong simp: coord_inv_defs in_flight_def)

lemma drain_step_inv:
  assumes inv: "coord_inv c" and i: "i < length (drains c)"
  shows "coord_inv (drain_step i c)"
proof (cases "drains c ! i")
  case Nil
  have "drains c = take i (drains c) @ drains c ! i # drop (Suc i) (drains c)"
    using i by (rule id_take_nth_drop)
  then have "concat (drains c) = concat (take i (drains c) @ drop (Suc i) (drains c))"
    using Nil by (metis append_Nil concat.simps(2) concat_append)
  then show ?thesis using Nil inv unfolding drain_step_def
    by (simp, intro wake_inv) (auto intro: futures_ok_cong simp: coord_inv_defs in_flight_def)
next
  case (Cons j js)
  have "j \<in> set (concat (drains c))"
    using Cons nth_mem[OF i] by (auto intro!: bexI[of _ "j # js"])
  then have s: "settle_future (j_future j) shutting_down c = Some (c\<lparr>futures := (futures c)(j_future j \<mapsto> Finished shutting_down)\<rparr>)"
    using settle_in_flight[of c j shutting_down] inv by (simp add: coord_inv_def in_flight_def)
  show ?thesis
    by (rule settle_inv[OF inv, of j])
      (use s Cons inv i in_flight_drain[OF i Cons] in \<open>auto simp: drain_step_def coord_inv_defs in_flight_def\<close>)
qed

lemma enqueue_inv:
  assumes inv: "coord_inv c" and en: "enqueue fg label task t c = (r, c')"
  shows "coord_inv c'"
proof (cases "started c \<and> \<not> stopping c")
  case True
  define j where "j = \<lparr>j_label = label, j_task = task, j_future = next_future c, j_enqueued_at = t\<rparr>"
  have c': "c' = (put_job fg j c)\<lparr>futures := (futures c)(next_future c \<mapsto> Waiting),
      next_future := Suc (next_future c), notifies := Suc (notifies c)\<rparr>"
    using en True by (simp add: enqueue_def Let_def j_def)
  have new: "next_future c \<notin> j_future ` set (in_flight c)"
    using in_flight_waiting(2) inv unfolding coord_inv_def by (metis image_iff less_irrefl)
  have m: "mset (in_flight c') = add_mset j (mset (in_flight c))"
    by (simp add: c' put_job_def in_flight_def)
  then have st: "set (in_flight c') = insert j (set (in_flight c))" by (metis set_mset_add_mset_insert set_mset_mset)
  have "mset (map j_future (in_flight c')) = mset (next_future c # map j_future (in_flight c))"
    using m by (simp add: j_def)
  moreover have "distinct (next_future c # map j_future (in_flight c))"
    using new inv by (simp add: coord_inv_def futures_ok_def)
  ultimately have "distinct (map j_future (in_flight c'))"
    by (metis mset_eq_imp_distinct_iff)
  then have "futures_ok c'"
    using inv st new unfolding futures_ok_def coord_inv_def
    by (auto simp: c' put_job_def j_def less_SucI)
  then show ?thesis using inv True by (auto simp: coord_inv_defs c' put_job_def)
next
  case False
  then have "c' = c" using en by (auto simp: enqueue_def split: if_splits)
  then show ?thesis using inv by simp
qed

lemma begin_draining_inv: "coord_inv c \<Longrightarrow> coord_inv (begin_draining c)"
  by (rule move_inv) (auto simp: begin_draining_def coord_inv_defs in_flight_def)

lemma start_inv:
  assumes "coord_inv c"
  shows "coord_inv (start c)"
  using assms by (intro move_inv[OF assms]) (auto simp: start_def coord_inv_defs in_flight_def)

lemma internal_step_inv: "internal_step c e c' \<Longrightarrow> coord_inv c \<Longrightarrow> coord_inv c'"
  by (induction rule: internal_step.induct) (auto intro: worker_step_inv notify_inv drain_step_inv)

lemma coord_step_inv: "coord_step c e c' \<Longrightarrow> \<forall>f. e \<noteq> Cancelling f \<Longrightarrow> coord_inv c \<Longrightarrow> coord_inv c'"
  by (induction rule: coord_step.induct)
    (auto intro: internal_step_inv start_inv enqueue_inv begin_draining_inv)

lemma coord_run_inv:
  "coord_run c es c' \<Longrightarrow> \<forall>f. Cancelling f \<notin> set es \<Longrightarrow> coord_inv c \<Longrightarrow> coord_inv c'"
  by (induction rule: coord_run.induct) (auto dest: coord_step_inv)

section \<open>Termination of the internal steps\<close>

definition lanes_busy :: "'v coord \<Rightarrow> bool" where
  "lanes_busy c \<longleftrightarrow> foreground c \<noteq> [] \<or> background c \<noteq> []"

fun phase_weight :: "bool \<Rightarrow> bool \<Rightarrow> 'v phase \<Rightarrow> nat" where
  "phase_weight busy stop Unstarted = 0"
| "phase_weight busy stop Opening = 17"
| "phase_weight busy stop Polling = (if busy \<or> stop then 8 else 4)"
| "phase_weight busy stop Taking = (if busy \<or> stop then 7 else 3)"
| "phase_weight busy stop Rechecking = (if stop then 6 else if busy then 10 else 2)"
| "phase_weight busy stop Parking = (if busy \<or> stop then 9 else 1)"
| "phase_weight busy stop Parked = 0"
| "phase_weight busy stop (Holding j) = 14"
| "phase_weight busy stop (Running j) = 13"
| "phase_weight busy stop (Settling j r) = 12"
| "phase_weight busy stop Exiting = 5"
| "phase_weight busy stop (Closing js b) = 1 + length js"
| "phase_weight busy stop Stopped = 0"

text \<open>What is left to do when nobody submits, starts, stops or cancels any more.\<close>

definition work_left :: "'v coord \<Rightarrow> nat" where
  "work_left c = 20 * (length (foreground c) + length (background c) + notifies c +
      sum_list (map (\<lambda>js. 1 + length js) (drains c))) +
    phase_weight (lanes_busy c) (stopping c) (phase c)"

lemma sum_drains_update:
  fixes g :: "'a \<Rightarrow> nat"
  assumes "i < length xs"
  shows "sum_list (map g xs) = g (xs ! i) + sum_list (map g (take i xs @ drop (Suc i) xs))"
  by (subst id_take_nth_drop[OF assms]) simp

lemma worker_step_decreases:
  assumes inv: "coord_inv c" and step: "worker_step opens locks c = Some (e, c')"
  shows "work_left c' < work_left c"
proof (cases "phase c")
  case Opening
  then show ?thesis using step inv
    by (cases opens; cases "foreground c"; cases "background c")
      (auto simp: worker_step_def work_left_def lanes_busy_def coord_inv_defs)
next
  case Taking
  show ?thesis
    by (rule next_job_cases[of c]; use step inv Taking in
      \<open>auto simp: worker_step_def work_left_def lanes_busy_def coord_inv_defs\<close>)
next
  case (Holding j)
  have "futures c (j_future j) = Some Waiting"
    using in_flight_waiting(1)[of c j] inv Holding by (simp add: coord_inv_def in_flight_def)
  then show ?thesis using step Holding
    by (auto simp: worker_step_def work_left_def lanes_busy_def)
next
  case (Running j)
  then show ?thesis using step
    by (auto simp: worker_step_def execute_job_def work_left_def lanes_busy_def split: prod.splits sum.splits)
next
  case (Settling j r)
  then have "settle_future (j_future j) r c = Some (c\<lparr>futures := (futures c)(j_future j \<mapsto> Finished r)\<rparr>)"
    using settle_in_flight[of c j r] inv by (simp add: coord_inv_def in_flight_def)
  then show ?thesis using step Settling
    by (auto simp: worker_step_def settle_job_def work_left_def lanes_busy_def)
next
  case Exiting
  then show ?thesis using step inv
    by (auto simp: worker_step_def work_left_def lanes_busy_def coord_inv_defs)
next
  case (Closing js b)
  show ?thesis
  proof (cases js)
    case Nil
    then show ?thesis using step Closing
      by (cases b) (auto simp: worker_step_def work_left_def lanes_busy_def)
  next
    case (Cons j js')
    then have "settle_future (j_future j) shutting_down c = Some (c\<lparr>futures := (futures c)(j_future j \<mapsto> Finished shutting_down)\<rparr>)"
      using settle_in_flight[of c j shutting_down] inv Closing by (simp add: coord_inv_def in_flight_def)
    then show ?thesis using step Closing Cons by (auto simp: worker_step_def work_left_def lanes_busy_def)
  qed
next
  case Parking
  then show ?thesis using step
    by (cases "lanes_busy c"; cases "stopping c") (auto simp: worker_step_def work_left_def lanes_busy_def)
qed (use step in \<open>auto simp: worker_step_def work_left_def lanes_busy_def\<close>)

lemma wake_weight:
  "work_left (wake c) \<le> work_left c + 8"
  by (simp add: wake_def work_left_def lanes_busy_def split: phase.splits)

lemma internal_step_decreases:
  assumes "internal_step c e c'" "coord_inv c"
  shows "work_left c' < work_left c"
  using assms
proof (cases rule: internal_step.cases)
  case (worker opens locks)
  then show ?thesis using worker_step_decreases assms(2) by blast
next
  case notified
  let ?d = "c\<lparr>notifies := notifies c - 1\<rparr>"
  have "work_left ?d + 20 = work_left c"
    using notified by (cases "notifies c") (auto simp: work_left_def lanes_busy_def)
  then show ?thesis using wake_weight[of ?d] notified by (simp add: notify_def)
next
  case (drained i)
  show ?thesis
  proof (cases "drains c ! i")
    case Nil
    let ?d = "c\<lparr>drains := take i (drains c) @ drop (Suc i) (drains c)\<rparr>"
    have "work_left ?d + 20 = work_left c"
      using sum_drains_update[OF drained(3), of "\<lambda>js. 1 + length js"] Nil
      by (simp add: work_left_def lanes_busy_def)
    then show ?thesis using wake_weight[of ?d] drained Nil by (simp add: drain_step_def)
  next
    case (Cons j js)
    have "j \<in> set (concat (drains c))"
      using Cons nth_mem[OF drained(3)] by (auto intro!: bexI[of _ "j # js"])
    then have s: "settle_future (j_future j) shutting_down c = Some (c\<lparr>futures := (futures c)(j_future j \<mapsto> Finished shutting_down)\<rparr>)"
      using settle_in_flight[of c j shutting_down] assms(2) by (simp add: coord_inv_def in_flight_def)
    have "sum_list (map (\<lambda>js. 1 + length js) (drains c)) =
        1 + sum_list (map (\<lambda>js. 1 + length js) ((drains c)[i := js]))"
      using sum_drains_update[OF drained(3), of "\<lambda>js. 1 + length js"]
        sum_drains_update[of i "(drains c)[i := js]" "\<lambda>js. 1 + length js"] drained(3) Cons by simp
    then show ?thesis using drained s Cons by (simp add: drain_step_def work_left_def lanes_busy_def)
  qed
qed

text \<open>No internal step is possible only when every accepted job has been answered.\<close>

lemma quiescent_answered:
  assumes inv: "coord_inv c" and stuck: "\<And>e c'. \<not> internal_step c e c'"
  shows "in_flight c = [] \<and> (phase c \<in> {Unstarted, Parked, Stopped})"
proof -
  have n: "notifies c = 0" using stuck internal_step.notified by (metis gr0I)
  have d: "drains c = []" using stuck internal_step.drained by (metis length_greater_0_conv)
  have w: "worker_step True (\<lambda>_. False) c = None"
    using stuck internal_step.worker by (metis option.exhaust surj_pair)
  then have p: "phase c \<in> {Unstarted, Parked, Stopped}"
    by (auto simp: worker_step_def split: phase.splits prod.splits option.splits list.splits)
  then show ?thesis using inv n d by (auto simp: coord_inv_defs in_flight_def)
qed

end
