(* ===== verification/Coordinator_Runs.thy ===== *)
theory Coordinator_Runs
  imports Write_Coordinator "HOL-Library.Sublist"
begin

text \<open>
  What a run of the write coordinator does: jobs of a lane start in the order of their acceptance,
  one at a time, the store is the result of the executed jobs in their order, no job waits for more
  than a bounded number of others, every accepted job is answered, and what a cancelled future does
  to the others.
\<close>

section \<open>The history of a run\<close>

fun accepted_on :: "bool \<Rightarrow> 'v coord_event list \<Rightarrow> 'v job list" where
  "accepted_on fg [] = []"
| "accepted_on fg (Accepted fg' j # es) = (if fg = fg' then [j] else []) @ accepted_on fg es"
| "accepted_on fg (_ # es) = accepted_on fg es"

fun dispatched_on :: "bool \<Rightarrow> 'v coord_event list \<Rightarrow> 'v job list" where
  "dispatched_on fg [] = []"
| "dispatched_on fg (Dispatched fg' j # es) = (if fg = fg' then [j] else []) @ dispatched_on fg es"
| "dispatched_on fg (_ # es) = dispatched_on fg es"

fun dispatched :: "'v coord_event list \<Rightarrow> 'v job list" where
  "dispatched [] = []"
| "dispatched (Dispatched fg j # es) = j # dispatched es"
| "dispatched (_ # es) = dispatched es"

fun executed :: "'v coord_event list \<Rightarrow> ('v job \<times> (nat \<Rightarrow> bool)) list" where
  "executed [] = []"
| "executed (Executed j locks # es) = (j, locks) # executed es"
| "executed (_ # es) = executed es"

lemma accepted_Cons: "accepted_on fg (e # es) = accepted_on fg [e] @ accepted_on fg es"
  by (cases e) simp_all

lemma dispatched_on_Cons: "dispatched_on fg (e # es) = dispatched_on fg [e] @ dispatched_on fg es"
  by (cases e) simp_all

lemma dispatched_Cons: "dispatched (e # es) = dispatched [e] @ dispatched es"
  by (cases e) simp_all

lemma executed_Cons: "executed (e # es) = executed [e] @ executed es"
  by (cases e) simp_all

definition lane :: "bool \<Rightarrow> 'v coord \<Rightarrow> 'v job list" where
  "lane fg c = (if fg then foreground c else background c)"

text \<open>Everything but the writer's own steps leaves lanes, store and counters alone or only adds to them.\<close>

lemma settle_frame:
  "settle_future f r c = Some c' \<Longrightarrow> \<exists>F. c' = c\<lparr>futures := F\<rparr>"
  by (auto simp: settle_future_def split: option.splits future.splits)

lemma wake_frame [simp]:
  "foreground (wake c) = foreground c" "background (wake c) = background c" "store (wake c) = store c"
  "stopping (wake c) = stopping c" "foreground_run (wake c) = foreground_run c" "started (wake c) = started c"
  "completed (wake c) = completed c" "failed (wake c) = failed c" "futures (wake c) = futures c"
  by (simp_all add: wake_def split: phase.splits)

lemma drain_step_frame:
  "foreground (drain_step i c) = foreground c \<and> background (drain_step i c) = background c \<and>
   store (drain_step i c) = store c \<and> stopping (drain_step i c) = stopping c \<and>
   foreground_run (drain_step i c) = foreground_run c \<and> started (drain_step i c) = started c \<and>
   completed (drain_step i c) = completed c \<and> failed (drain_step i c) = failed c"
  by (auto simp: drain_step_def dest!: settle_frame split: list.splits option.splits)

lemma drain_step_phase: "phase (drain_step i c) = phase c \<or> phase c = Parked \<and> phase (drain_step i c) = Polling"
  by (auto simp: drain_step_def wake_def dest!: settle_frame split: list.splits option.splits phase.splits)

text \<open>The steps of the writer, by their event.\<close>

lemma worker_step_dispatch:
  assumes "worker_step opens locks c = Some (Dispatched fg j, c')"
  obtains c1 where "phase c = Taking" "next_job c = (Some (fg, j), c1)" "c' = c1\<lparr>phase := Holding j\<rparr>"
proof -
  have p: "phase c = Taking"
    using assms by (auto simp: worker_step_def split: phase.splits list.splits option.splits)
  obtain c1 where "next_job c = (Some (fg, j), c1)" "c' = c1\<lparr>phase := Holding j\<rparr>"
    using assms p by (auto simp: worker_step_def split: prod.splits option.splits)
  then show thesis using that p by blast
qed

lemma worker_step_execute:
  assumes "worker_step opens locks c = Some (Executed j l, c')"
  shows "phase c = Running j" "c' = execute_job l j c"
  using assms by (auto simp: worker_step_def split: phase.splits list.splits option.splits prod.splits)

lemma worker_step_quiet:
  assumes "worker_step opens locks c = Some (e, c')" "\<And>fg j. e \<noteq> Dispatched fg j" "\<And>j l. e \<noteq> Executed j l"
  shows "store c' = store c \<and> completed c' = completed c \<and> failed c' = failed c \<and>
    (lane fg c' = lane fg c \<and> stopping c' = stopping c \<or> stopping c' \<and> foreground c' = [] \<and> background c' = []) \<and>
    accepted_on fg [e] = [] \<and> (stopping c \<longrightarrow> stopping c') \<and>
    (foreground_run c' = foreground_run c \<or> phase c = Opening \<and> foreground_run c' = 0)"
  using assms
  by (auto simp: worker_step_def settle_job_def lane_def next_job_def dest!: settle_frame
      split: phase.splits list.splits option.splits prod.splits if_splits)

section \<open>Order\<close>

lemma next_job_lane:
  assumes "next_job c = (Some (fg, j), c')"
  shows "lane fg c = j # lane fg c'" "lane (\<not> fg) c' = lane (\<not> fg) c" "stopping c' = stopping c"
    "store c' = store c" "completed c' = completed c" "failed c' = failed c"
  by (rule next_job_cases[of c]; use assms in \<open>auto simp: lane_def\<close>)+

lemma worker_step_lanes:
  assumes "worker_step opens locks c = Some (e, c')"
  shows "(lane fg c = dispatched_on fg [e] @ lane fg c' \<and> stopping c' = stopping c \<or>
      stopping c' \<and> foreground c' = [] \<and> background c' = [] \<and> dispatched_on fg [e] = []) \<and>
    accepted_on fg [e] = [] \<and> (stopping c \<longrightarrow> stopping c')"
proof (cases e)
  case (Dispatched g j)
  then obtain c1 where c1: "next_job c = (Some (g, j), c1)" "c' = c1\<lparr>phase := Holding j\<rparr>"
    using worker_step_dispatch assms by blast
  from next_job_lane[OF c1(1)] show ?thesis
    using Dispatched by (cases "fg = g") (auto simp: lane_def c1(2))
next
  case (Executed j l)
  then have "c' = execute_job l j c" using worker_step_execute(2) assms by blast
  then show ?thesis using Executed
    by (auto simp: execute_job_def lane_def split: prod.splits sum.splits)
qed (use worker_step_quiet[OF assms, of fg] in auto)

text \<open>A lane gains the accepted jobs at its end and loses the dispatched ones at its front, until it is drained.\<close>

lemma coord_step_lanes:
  assumes "coord_step c e c'"
  shows "(lane fg c @ accepted_on fg [e] = dispatched_on fg [e] @ lane fg c' \<and> stopping c' = stopping c \<or>
      stopping c' \<and> foreground c' = [] \<and> background c' = [] \<and> dispatched_on fg [e] = [] \<and>
      accepted_on fg [e] = []) \<and>
    (stopping c \<longrightarrow> stopping c' \<and> accepted_on fg [e] = [])"
  using assms
proof (cases rule: coord_step.cases)
  case internal
  from internal(1) show ?thesis
  proof (cases rule: internal_step.cases)
    case (worker opens locks)
    then show ?thesis using worker_step_lanes[of opens locks c e c' fg] by auto
  next
    case notified
    then show ?thesis by (simp add: notify_def lane_def)
  next
    case (drained i)
    then show ?thesis using drain_step_frame[of i c] by (simp add: lane_def)
  qed
next
  case started
  then show ?thesis by (auto simp: start_def lane_def)
next
  case (accepted g label task t f)
  then show ?thesis by (auto simp: enqueue_def put_job_def lane_def Let_def split: if_splits)
next
  case (refused g label task t x)
  then show ?thesis by (auto simp: enqueue_def Let_def lane_def split: if_splits)
next
  case stop
  then show ?thesis by (auto simp: begin_draining_def lane_def)
next
  case (cancel f)
  then show ?thesis by (auto simp: cancel_future_def lane_def)
qed

lemma stopped_run:
  assumes "coord_run c es c'" "stopping c" "foreground c = []" "background c = []"
  shows "accepted_on fg es = [] \<and> dispatched_on fg es = [] \<and> stopping c' \<and> foreground c' = [] \<and> background c' = []"
  using assms
proof (induction rule: coord_run.induct)
  case (run_Cons c e c' es c'')
  have "accepted_on fg [e] = []" "dispatched_on fg [e] = []" "stopping c'" "foreground c' = []" "background c' = []"
    using coord_step_lanes[OF run_Cons.hyps(1), of fg] coord_step_lanes[OF run_Cons.hyps(1), of True]
      coord_step_lanes[OF run_Cons.hyps(1), of False] run_Cons.prems
    by (auto simp: lane_def split: if_splits)
  then show ?case using run_Cons.IH by (simp add: accepted_Cons[of fg e es] dispatched_on_Cons[of fg e es])
qed simp

lemma stop_empties:
  assumes "coord_run c es c'" "stopping c \<longrightarrow> foreground c = [] \<and> background c = []"
  shows "stopping c' \<longrightarrow> foreground c' = [] \<and> background c' = []"
  using assms
proof (induction rule: coord_run.induct)
  case (run_Cons c e c' es c'')
  have "stopping c' \<longrightarrow> foreground c' = [] \<and> background c' = []"
    using coord_step_lanes[OF run_Cons.hyps(1), of True] coord_step_lanes[OF run_Cons.hyps(1), of False]
      run_Cons.prems by (auto simp: lane_def)
  then show ?case by (rule run_Cons.IH)
qed

lemma coord_run_lanes:
  assumes "coord_run c es c'"
  shows "\<exists>dropped. lane fg c @ accepted_on fg es = dispatched_on fg es @ dropped @ lane fg c' \<and>
    (dropped \<noteq> [] \<longrightarrow> stopping c')"
  using assms
proof (induction rule: coord_run.induct)
  case (run_Cons c e c' es c'')
  consider "lane fg c @ accepted_on fg [e] = dispatched_on fg [e] @ lane fg c'"
    | "stopping c'" "foreground c' = []" "background c' = []" "dispatched_on fg [e] = []" "accepted_on fg [e] = []"
    using coord_step_lanes[OF run_Cons.hyps(1), of fg] by blast
  then show ?case
  proof cases
    case 1
    obtain dropped where d: "lane fg c' @ accepted_on fg es = dispatched_on fg es @ dropped @ lane fg c''"
      "dropped \<noteq> [] \<longrightarrow> stopping c''" using run_Cons.IH by blast
    have "lane fg c @ accepted_on fg (e # es) = dispatched_on fg [e] @ lane fg c' @ accepted_on fg es"
      using 1 by (metis accepted_Cons append_assoc)
    then show ?thesis using d by (metis dispatched_on_Cons append_assoc)
  next
    case 2
    from stopped_run[OF run_Cons.hyps(2) 2(1-3), of fg] 2 show ?thesis
      by (intro exI[of _ "lane fg c"])
        (simp add: accepted_Cons[of fg e es] dispatched_on_Cons[of fg e es] lane_def)
  qed
qed simp

section \<open>One job at a time\<close>

definition run_jobs :: "('v job \<times> (nat \<Rightarrow> bool)) list \<Rightarrow> db \<Rightarrow> db" where
  "run_jobs = fold (\<lambda>(j, locks) d. snd (run_task locks (j_task j) d))"

lemma coord_step_store:
  assumes "coord_step c e c'"
  shows "store c' = run_jobs (executed [e]) (store c) \<and>
    completed c' + failed c' = completed c + failed c + length (executed [e])"
  using assms
proof (cases rule: coord_step.cases)
  case internal
  from internal(1) show ?thesis
  proof (cases rule: internal_step.cases)
    case (worker opens locks)
    show ?thesis
    proof (cases e)
      case (Dispatched g j)
      then obtain c1 where c1: "next_job c = (Some (g, j), c1)" "c' = c1\<lparr>phase := Holding j\<rparr>"
        using worker_step_dispatch worker by blast
      then show ?thesis using Dispatched next_job_lane[OF c1(1)] by (simp add: run_jobs_def)
    next
      case (Executed j l)
      then show ?thesis using worker worker_step_execute(2)[of opens locks c j l c']
        by (auto simp: execute_job_def run_jobs_def split: prod.splits sum.splits)
    qed (use worker_step_quiet[OF worker(1)] in \<open>auto simp: run_jobs_def\<close>)
  next
    case notified
    then show ?thesis by (simp add: notify_def run_jobs_def)
  next
    case (drained i)
    then show ?thesis using drain_step_frame[of i c] by (simp add: run_jobs_def)
  qed
qed (auto simp: start_def enqueue_def put_job_def begin_draining_def cancel_future_def run_jobs_def Let_def
    split: if_splits)

lemma coord_run_store:
  assumes "coord_run c es c'"
  shows "store c' = run_jobs (executed es) (store c) \<and>
    completed c' + failed c' = completed c + failed c + length (executed es)"
  using assms
proof (induction rule: coord_run.induct)
  case (run_Cons c e c' es c'')
  then show ?case using coord_step_store[OF run_Cons.hyps(1)]
    by (simp add: executed_Cons[of e es] run_jobs_def)
qed (simp add: run_jobs_def)

text \<open>The job the writer has taken and not run yet.\<close>

fun taken :: "'v phase \<Rightarrow> 'v job list" where
  "taken (Holding j) = [j]"
| "taken (Running j) = [j]"
| "taken _ = []"

lemma taken_wake [simp]: "taken (phase (wake c)) = taken (phase c)"
  by (simp add: wake_def split: phase.splits)

lemma worker_step_taken:
  assumes "worker_step opens locks c = Some (e, c')"
  shows "subseq (map fst (executed [e]) @ taken (phase c')) (taken (phase c) @ dispatched [e])"
proof (cases "phase c")
  case Taking
  show ?thesis
    by (rule next_job_cases[of c]; use assms Taking in \<open>auto simp: worker_step_def\<close>)
qed (use assms in \<open>auto simp: worker_step_def execute_job_def settle_job_def dest!: settle_frame
    split: prod.splits sum.splits option.splits list.splits if_splits\<close>)

lemma coord_step_taken:
  assumes "coord_step c e c'"
  shows "subseq (map fst (executed [e]) @ taken (phase c')) (taken (phase c) @ dispatched [e])"
  using assms
proof (cases rule: coord_step.cases)
  case internal
  from internal(1) show ?thesis
  proof (cases rule: internal_step.cases)
    case (drained i)
    then show ?thesis using drain_step_phase[of i c] by auto
  qed (auto simp: notify_def intro: worker_step_taken)
qed (auto simp: start_def enqueue_def put_job_def begin_draining_def cancel_future_def Let_def split: if_splits)

lemma coord_run_taken:
  assumes "coord_run c es c'"
  shows "subseq (map fst (executed es) @ taken (phase c')) (taken (phase c) @ dispatched es)"
  using assms
proof (induction rule: coord_run.induct)
  case (run_Cons c e c' es c'')
  have "subseq (map fst (executed [e]) @ map fst (executed es) @ taken (phase c''))
      (map fst (executed [e]) @ taken (phase c') @ dispatched es)"
    using list_emb_append_mono[OF subseq_order.order_refl run_Cons.IH] .
  moreover have "subseq ((map fst (executed [e]) @ taken (phase c')) @ dispatched es)
      ((taken (phase c) @ dispatched [e]) @ dispatched es)"
    using coord_step_taken[OF run_Cons.hyps(1)] by (rule list_emb_append_mono) simp
  ultimately show ?case
    by (simp add: executed_Cons[of e es] dispatched_Cons[of e es])
qed simp

section \<open>Waiting time\<close>

text \<open>The counter of \<open>_run\<close> is 0 when its loop begins.\<close>

definition run_ok :: "'v coord \<Rightarrow> bool" where
  "run_ok c \<longleftrightarrow> (\<not> started c \<longrightarrow> phase c \<in> {Unstarted, Stopped}) \<and>
     (\<not> started c \<or> phase c \<in> {Unstarted, Opening} \<or> (\<exists>js. phase c = Closing js True) \<longrightarrow> foreground_run c = 0)"

lemma worker_step_run_ok:
  assumes "worker_step opens locks c = Some (e, c')" "run_ok c"
  shows "run_ok c'"
proof (cases "phase c")
  case Taking
  show ?thesis
    by (rule next_job_cases[of c]; use assms Taking in \<open>auto simp: worker_step_def run_ok_def\<close>)
next
  case Opening
  then show ?thesis using assms by (cases opens) (auto simp: worker_step_def run_ok_def)
next
  case (Closing js b)
  then show ?thesis using assms
    by (cases js; cases b) (auto simp: worker_step_def run_ok_def dest!: settle_frame split: option.splits)
qed (use assms in \<open>auto simp: worker_step_def execute_job_def settle_job_def run_ok_def dest!: settle_frame
    split: prod.splits sum.splits option.splits if_splits\<close>)

lemma coord_step_run_ok: "coord_step c e c' \<Longrightarrow> run_ok c \<Longrightarrow> run_ok c'"
proof (induction rule: coord_step.induct)
  case (internal c e c')
  from internal(1) show ?case
  proof (cases rule: internal_step.cases)
    case (worker opens locks)
    then show ?thesis using worker_step_run_ok internal(2) by blast
  next
    case notified
    then show ?thesis using internal(2) by (auto simp: run_ok_def notify_def wake_def split: phase.splits)
  next
    case (drained i)
    then show ?thesis using internal(2) drain_step_frame[of i c] drain_step_phase[of i c]
      by (elim disjE) (simp_all add: run_ok_def)
  qed
qed (auto simp: run_ok_def start_def enqueue_def put_job_def begin_draining_def cancel_future_def Let_def
    split: if_splits)

lemma coord_run_run_ok: "coord_run c es c' \<Longrightarrow> run_ok c \<Longrightarrow> run_ok c'"
  by (induction rule: coord_run.induct) (auto dest: coord_step_run_ok)

text \<open>How many jobs may start before the one at position \<open>k\<close> of a lane.\<close>

definition wait_bound :: "bool \<Rightarrow> 'v coord \<Rightarrow> nat \<Rightarrow> nat" where
  "wait_bound fg c k =
     (if fg then (if foreground_run c < 8 then 2 * k else 2 * k + 1)
      else 9 * k + (8 - min 8 (foreground_run c)))"

lemma next_job_bound:
  assumes "next_job c = (Some (g, j), c')" "lane fg c = pre @ b # post"
  shows "g = fg \<and> pre = [] \<and> j = b \<or>
    (\<exists>pre'. lane fg c' = pre' @ b # post \<and> wait_bound fg c' (length pre') < wait_bound fg c (length pre))"
proof (cases rule: next_job_cases[of c])
  case 1
  then show ?thesis using assms by simp
next
  case (2 k ks)
  then show ?thesis using assms
    by (cases fg; cases pre) (auto simp: lane_def wait_bound_def)
next
  case (3 k ks)
  then show ?thesis using assms
    by (cases fg; cases pre) (auto simp: lane_def wait_bound_def)
qed

lemma coord_step_run_counter:
  assumes "coord_step c e c'" "run_ok c" "dispatched [e] = []"
  shows "foreground_run c' = foreground_run c"
  using assms(1)
proof (cases rule: coord_step.cases)
  case internal
  from internal(1) show ?thesis
  proof (cases rule: internal_step.cases)
    case (worker opens locks)
    show ?thesis
    proof (cases e)
      case (Executed j l)
      then show ?thesis using worker worker_step_execute(2)[of opens locks c j l c']
        by (auto simp: execute_job_def split: prod.splits sum.splits)
    qed (use worker_step_quiet[OF worker(1)] assms in \<open>auto simp: run_ok_def\<close>)
  next
    case notified
    then show ?thesis by (simp add: notify_def)
  next
    case (drained i)
    then show ?thesis using drain_step_frame[of i c] by simp
  qed
qed (auto simp: start_def enqueue_def put_job_def begin_draining_def cancel_future_def Let_def split: if_splits)

lemma dispatched_step:
  assumes "coord_step c e c'" "dispatched [e] \<noteq> []"
  obtains g j c1 where "e = Dispatched g j" "next_job c = (Some (g, j), c1)" "c' = c1\<lparr>phase := Holding j\<rparr>"
proof -
  obtain g j where e: "e = Dispatched g j" using assms(2) by (cases e) auto
  from assms(1) obtain opens locks where "worker_step opens locks c = Some (e, c')"
    by (cases rule: coord_step.cases) (auto simp: e elim: internal_step.cases)
  then show thesis unfolding e by (rule worker_step_dispatch) (rule that[OF e])
qed

lemma dispatched_on_subset: "dispatched_on True es = [] \<Longrightarrow> dispatched_on False es = [] \<Longrightarrow> dispatched es = []"
  by (induction es rule: dispatched.induct) (auto split: if_splits)

text \<open>While a job waits in its lane, every other job that starts lowers its bound.\<close>

lemma coord_run_wait:
  assumes "coord_run c es c'" "run_ok c" "lane fg c = pre @ b # post"
  shows "b \<in> set (dispatched_on fg es) \<or> length (dispatched es) \<le> wait_bound fg c (length pre)"
  using assms
proof (induction arbitrary: pre post rule: coord_run.induct)
  case (run_Cons c e c' es c'')
  have ok: "run_ok c'" using coord_step_run_ok run_Cons.hyps(1) run_Cons.prems(1) by blast
  show ?case
  proof (cases "dispatched [e] = []")
    case True
    then have d: "dispatched (e # es) = dispatched es" using dispatched_Cons[of e es] by simp
    have b: "wait_bound fg c' k = wait_bound fg c k" for k
      using coord_step_run_counter[OF run_Cons.hyps(1) run_Cons.prems(1) True] by (simp add: wait_bound_def)
    consider "lane fg c @ accepted_on fg [e] = dispatched_on fg [e] @ lane fg c'"
      | "stopping c'" "foreground c' = []" "background c' = []"
      using coord_step_lanes[OF run_Cons.hyps(1), of fg] by blast
    then show ?thesis
    proof cases
      case 1
      have "dispatched_on fg [e] = []" using True by (cases e) auto
      then have "lane fg c' = pre @ b # (post @ accepted_on fg [e])" using 1 run_Cons.prems(2) by simp
      from run_Cons.IH[OF ok this] show ?thesis using d b dispatched_on_Cons[of fg e es] by auto
    next
      case 2
      from stopped_run[OF run_Cons.hyps(2) 2, of True] stopped_run[OF run_Cons.hyps(2) 2, of False]
      have "dispatched es = []" using dispatched_on_subset by blast
      then show ?thesis using d by simp
    qed
  next
    case False
    obtain g j c1 where e: "e = Dispatched g j" and n: "next_job c = (Some (g, j), c1)"
      and c': "c' = c1\<lparr>phase := Holding j\<rparr>" by (rule dispatched_step[OF run_Cons.hyps(1) False])
    have l: "lane fg c' = lane fg c1" "wait_bound fg c' k = wait_bound fg c1 k" for k
      by (simp_all add: c' lane_def wait_bound_def)
    consider "g = fg" "j = b"
      | pre' where "lane fg c' = pre' @ b # post" "wait_bound fg c' (length pre') < wait_bound fg c (length pre)"
      using next_job_bound[OF n run_Cons.prems(2)] l by auto
    then show ?thesis
    proof cases
      case 1
      then show ?thesis by (simp add: e)
    next
      case 2
      from run_Cons.IH[OF ok 2(1)] 2(2) show ?thesis by (auto simp: e)
    qed
  qed
qed simp

section \<open>Answers\<close>

text \<open>The futures that are ever touched are those of jobs in flight, or new.\<close>

lemma settle_futures:
  "settle_future f r c = Some c' \<Longrightarrow> c' = c\<lparr>futures := (futures c)(f \<mapsto> Finished r)\<rparr>"
  by (auto simp: settle_future_def split: option.splits future.splits)

lemma worker_step_futures:
  assumes "worker_step opens locks c = Some (e, c')"
  shows "set (in_flight c') \<subseteq> set (in_flight c) \<and> next_future c' = next_future c \<and>
    (futures c' = futures c \<or> (\<exists>j r. j \<in> set (in_flight c) \<and> futures c' = (futures c)(j_future j \<mapsto> Finished r)))"
proof (cases "phase c")
  case Taking
  show ?thesis
    by (rule next_job_cases[of c]; use assms Taking in \<open>auto simp: worker_step_def in_flight_def\<close>)
next
  case (Closing js b)
  show ?thesis
  proof (cases js)
    case Nil
    then show ?thesis using assms Closing by (cases b) (auto simp: worker_step_def in_flight_def)
  next
    case (Cons j ks)
    then have "futures c' = futures c \<or> futures c' = (futures c)(j_future j \<mapsto> Finished shutting_down)"
      and "set (in_flight c') \<subseteq> set (in_flight c)" and "next_future c' = next_future c"
      using assms Closing by (auto simp: worker_step_def in_flight_def dest!: settle_futures split: option.splits)
    moreover have "j \<in> set (in_flight c)" using Closing Cons by (simp add: in_flight_def)
    ultimately show ?thesis by blast
  qed
next
  case (Settling j r)
  then have "futures c' = futures c \<or> futures c' = (futures c)(j_future j \<mapsto> Finished r)"
    and "set (in_flight c') \<subseteq> set (in_flight c)" and "next_future c' = next_future c"
    using assms by (auto simp: worker_step_def settle_job_def in_flight_def dest!: settle_futures split: option.splits)
  moreover have "j \<in> set (in_flight c)" using Settling by (simp add: in_flight_def)
  ultimately show ?thesis by blast
next
  case Opening
  then show ?thesis using assms by (cases opens) (auto simp: worker_step_def in_flight_def)
qed (use assms in \<open>auto simp: worker_step_def execute_job_def in_flight_def
    split: prod.splits sum.splits option.splits if_splits\<close>)

lemma drain_step_futures:
  assumes "i < length (drains c)"
  shows "set (in_flight (drain_step i c)) \<subseteq> set (in_flight c) \<and> next_future (drain_step i c) = next_future c \<and>
    (futures (drain_step i c) = futures c \<or>
     (\<exists>j r. j \<in> set (in_flight c) \<and> futures (drain_step i c) = (futures c)(j_future j \<mapsto> Finished r)))"
proof -
  have held: "held (phase (wake x)) = held (phase x)" and nf: "next_future (wake x) = next_future x"
    and dr: "drains (wake x) = drains x" for x :: "'v coord"
    by (simp_all add: wake_def split: phase.splits)
  have cut: "set (concat (take i (drains c) @ drop (Suc i) (drains c))) \<subseteq> set (concat (drains c))"
    by (auto dest: in_set_takeD in_set_dropD)
  show ?thesis
  proof (cases "drains c ! i")
    case Nil
    then show ?thesis using cut by (auto simp: drain_step_def in_flight_def held nf dr)
  next
    case (Cons j js)
    have mem: "j # js \<in> set (drains c)" using Cons nth_mem[OF assms] by simp
    have "set ((drains c)[i := js]) \<subseteq> insert js (set (drains c))" by (rule set_update_subset_insert)
    then have "x \<in> set (concat (drains c))" if "l \<in> set ((drains c)[i := js])" "x \<in> set l" for x l
      using mem that by (cases "l = js") (auto intro: bexI[of _ "j # js"])
    then have "set (concat ((drains c)[i := js])) \<subseteq> set (concat (drains c))" by fastforce
    then have "futures (drain_step i c) = futures c \<or>
        futures (drain_step i c) = (futures c)(j_future j \<mapsto> Finished shutting_down)"
      and "set (in_flight (drain_step i c)) \<subseteq> set (in_flight c)" and "next_future (drain_step i c) = next_future c"
      using Cons cut by (cases "settle_future (j_future j) shutting_down c";
        auto simp: drain_step_def in_flight_def dest!: settle_futures)+
    moreover have "j \<in> set (in_flight c)" using mem by (force simp: in_flight_def)
    ultimately show ?thesis by blast
  qed
qed

lemma internal_step_futures:
  assumes "internal_step c e c'"
  shows "set (in_flight c') \<subseteq> set (in_flight c) \<and> next_future c' = next_future c \<and>
    (futures c' = futures c \<or> (\<exists>j r. j \<in> set (in_flight c) \<and> futures c' = (futures c)(j_future j \<mapsto> Finished r)))"
  using assms
proof (cases rule: internal_step.cases)
  case notified
  then show ?thesis by (auto simp: notify_def wake_def in_flight_def split: phase.splits)
qed (use worker_step_futures drain_step_futures in blast)+

lemma internal_steps_dom:
  assumes "(\<lambda>a b. \<exists>e. internal_step a e b)\<^sup>*\<^sup>* c c'" "coord_inv c"
  shows "coord_inv c' \<and> dom (futures c) \<subseteq> dom (futures c')"
  using assms
proof (induction rule: rtranclp_induct)
  case (step y z)
  then show ?case using internal_step_inv internal_step_futures by fastforce
qed simp

lemma internal_steps_bounded:
  assumes "((\<lambda>a b. \<exists>e. internal_step a e b) ^^ n) c c'" "coord_inv c"
  shows "n + work_left c' \<le> work_left c"
  using assms
proof (induction n arbitrary: c')
  case (Suc n)
  then obtain y e where y: "((\<lambda>a b. \<exists>e. internal_step a e b) ^^ n) c y" "internal_step y e c'" by auto
  then have "coord_inv y" using internal_steps_dom relpowp_imp_rtranclp Suc.prems(2) by metis
  then show ?case using Suc.IH[OF y(1) Suc.prems(2)] internal_step_decreases[OF y(2)] by simp
qed simp

lemma internal_steps_finish:
  assumes "coord_inv c"
  shows "\<exists>c'. (\<lambda>a b. \<exists>e. internal_step a e b)\<^sup>*\<^sup>* c c' \<and> (\<forall>e y. \<not> internal_step c' e y)"
  using assms
proof (induction c rule: measure_induct_rule[of work_left])
  case (less c)
  show ?case
  proof (cases "\<exists>e y. internal_step c e y")
    case True
    then obtain e y where y: "internal_step c e y" by blast
    then obtain c' where "(\<lambda>a b. \<exists>e. internal_step a e b)\<^sup>*\<^sup>* y c'" "\<forall>e y. \<not> internal_step c' e y"
      using less internal_step_decreases internal_step_inv by metis
    then show ?thesis using y by (metis (mono_tags, lifting) converse_rtranclp_into_rtranclp)
  qed blast
qed

text \<open>A future whose job is no longer in flight is never answered.\<close>

lemma orphan_step:
  assumes "coord_step c e c'" "e \<noteq> Cancelling f"
    "futures c f = Some Waiting" "f \<notin> j_future ` set (in_flight c)" "f < next_future c"
  shows "futures c' f = Some Waiting" "f \<notin> j_future ` set (in_flight c')" "f < next_future c'"
proof -
  have "futures c' f = Some Waiting \<and> f \<notin> j_future ` set (in_flight c') \<and> f < next_future c'"
    using assms(1)
  proof (cases rule: coord_step.cases)
    case internal
    then show ?thesis using internal_step_futures[OF internal] assms(3-5) by auto
  next
    case (accepted g label task t h)
    then show ?thesis using assms(3-5)
      by (auto simp: enqueue_def put_job_def in_flight_def Let_def split: if_splits)
  qed (use assms in \<open>auto simp: start_def enqueue_def put_job_def begin_draining_def cancel_future_def in_flight_def Let_def
    split: if_splits\<close>)
  then show "futures c' f = Some Waiting" "f \<notin> j_future ` set (in_flight c')" "f < next_future c'" by auto
qed

lemma orphan_run:
  assumes "coord_run c es c'" "Cancelling f \<notin> set es"
    "futures c f = Some Waiting" "f \<notin> j_future ` set (in_flight c)" "f < next_future c"
  shows "futures c' f = Some Waiting"
  using assms
proof (induction rule: coord_run.induct)
  case (run_Cons c e c' es c'')
  have "e \<noteq> Cancelling f" using run_Cons.prems(1) by auto
  from orphan_step[OF run_Cons.hyps(1) this run_Cons.prems(2-4)] show ?case
    using run_Cons.IH run_Cons.prems(1) by simp
qed simp

section \<open>Properties\<close>

definition sample_act :: "nat act" where
  "sample_act d = (Inr 7, d\<lparr>community_triggers := 1\<rparr>)"

definition sample_job :: "nat job" where
  "sample_job = \<lparr>j_label = ''w'', j_task = Transaction sample_act, j_future = 0, j_enqueued_at = 0\<rparr>"

text \<open>A started coordinator with one accepted background job.\<close>

definition sample_coord :: "nat coord" where
  "sample_coord = (coord_init empty_db)\<lparr>started := True, phase := Opening, background := [sample_job],
     futures := [0 \<mapsto> Waiting], next_future := 1, notifies := 1\<rparr>"

lemma sample_coord_run: "coord_run (coord_init empty_db) [Tick, Accepted False sample_job] sample_coord"
proof -
  have "coord_run (start (coord_init empty_db)) [Accepted False sample_job] sample_coord"
    by (rule coord_run.run_Cons[OF coord_step.accepted[of False "''w''" "Transaction sample_act" 0 _ 0] coord_run.run_Nil, folded sample_job_def])
      (simp add: enqueue_def start_def coord_init_def put_job_def sample_coord_def sample_job_def Let_def)
  then show ?thesis by (rule coord_run.run_Cons[OF coord_step.started])
qed

text \<open>The writer opens its connection, polls and takes the job.\<close>

lemma sample_dispatch:
  "\<exists>c. coord_run sample_coord [Tick, Tick, Dispatched False sample_job] c"
proof -
  let ?c1 = "sample_coord\<lparr>conn_open := True, phase := Polling\<rparr>"
  let ?c2 = "sample_coord\<lparr>conn_open := True, phase := Taking\<rparr>"
  have "coord_step sample_coord Tick ?c1"
    by (intro coord_step.internal internal_step.worker[of True "\<lambda>_. False"])
      (simp add: worker_step_def sample_coord_def coord_init_def)
  moreover have "coord_step ?c1 Tick ?c2"
    by (intro coord_step.internal internal_step.worker[of True "\<lambda>_. False"])
      (simp add: worker_step_def sample_coord_def coord_init_def)
  moreover have "\<exists>c. coord_step ?c2 (Dispatched False sample_job) c"
    by (intro exI coord_step.internal internal_step.worker[of True "\<lambda>_. False"])
      (simp add: worker_step_def next_job_def sample_coord_def coord_init_def)
  ultimately show ?thesis by (meson coord_run.intros)
qed

text \<open>
  C18. Every accepted write is answered. From any state of the daemon's life without a cancelled
  future: the writer, the notifying clients and the draining threads together can only take a bounded
  number of steps, in every interleaving; they can come to rest; and wherever they come to rest, every
  accepted job's future has a result or an exception. In particular no wake-up is lost.
\<close>

theorem every_write_answered:
  assumes "coord_run (coord_init d) es c" "\<forall>f. Cancelling f \<notin> set es"
  shows "(\<forall>n c'. ((\<lambda>a b. \<exists>e. internal_step a e b) ^^ n) c c' \<longrightarrow> n \<le> work_left c) \<and>
    (\<exists>c'. (\<lambda>a b. \<exists>e. internal_step a e b)\<^sup>*\<^sup>* c c' \<and> (\<forall>e y. \<not> internal_step c' e y)) \<and>
    (\<forall>c'. (\<lambda>a b. \<exists>e. internal_step a e b)\<^sup>*\<^sup>* c c' \<and> (\<forall>e y. \<not> internal_step c' e y) \<longrightarrow>
       (\<forall>f \<in> dom (futures c). \<exists>r. futures c' f = Some (Finished r)))"
proof (intro conjI allI impI)
  have inv: "coord_inv c" using coord_run_inv assms coord_inv_init by blast
  show "n \<le> work_left c" if "((\<lambda>a b. \<exists>e. internal_step a e b) ^^ n) c c'" for n c'
    using internal_steps_bounded[OF that inv] by simp
  show "\<exists>c'. (\<lambda>a b. \<exists>e. internal_step a e b)\<^sup>*\<^sup>* c c' \<and> (\<forall>e y. \<not> internal_step c' e y)"
    using internal_steps_finish[OF inv] .
  show "\<forall>f \<in> dom (futures c). \<exists>r. futures c' f = Some (Finished r)"
    if c': "(\<lambda>a b. \<exists>e. internal_step a e b)\<^sup>*\<^sup>* c c' \<and> (\<forall>e y. \<not> internal_step c' e y)" for c'
  proof
    fix f assume "f \<in> dom (futures c)"
    then obtain v where v: "futures c' f = Some v" using internal_steps_dom[OF _ inv, of c'] c' by blast
    have "coord_inv c'" "in_flight c' = []"
      using internal_steps_dom[OF _ inv] quiescent_answered c' by blast+
    then have "v \<noteq> Waiting" "v \<noteq> Cancelled" using v by (auto simp: coord_inv_def futures_ok_def)
    then show "\<exists>r. futures c' f = Some (Finished r)" using v by (cases v) auto
  qed
qed

theorem every_write_answered_witness:
  "\<exists>c' r. (\<lambda>a b. \<exists>e. internal_step a e b)\<^sup>*\<^sup>* sample_coord c' \<and> futures c' 0 = Some (Finished r)"
proof -
  have "0 \<in> dom (futures sample_coord)" by (simp add: sample_coord_def)
  then show ?thesis using every_write_answered[OF sample_coord_run] by (simp, blast)
qed

text \<open>
  C19. No lane starves: the job at position \<open>k\<close> of the background lane starts before more than
  \<open>9k + 8\<close> other jobs do, the one at position \<open>k\<close> of the foreground lane before more than \<open>2k + 1\<close> do,
  whatever is submitted in between.
\<close>

theorem lanes_are_fair:
  assumes "coord_run (coord_init d) es c" "coord_run c es' c'" "lane fg c = pre @ b # post"
  shows "b \<in> set (dispatched_on fg es') \<or>
    length (dispatched es') \<le> (if fg then 2 * length pre + 1 else 9 * length pre + 8)"
proof -
  have "run_ok c" using coord_run_run_ok[OF assms(1)] by (simp add: run_ok_def coord_init_def)
  moreover have "wait_bound fg c k \<le> (if fg then 2 * k + 1 else 9 * k + 8)" for k
    by (simp add: wait_bound_def)
  ultimately show ?thesis using coord_run_wait[OF assms(2) _ assms(3)] order_trans by blast
qed

theorem lanes_are_fair_witness:
  "\<exists>c. coord_run sample_coord [Tick, Tick, Dispatched False sample_job] c \<and>
     (sample_job \<in> set (dispatched_on False [Tick, Tick, Dispatched False sample_job]) \<or>
      length (dispatched [Tick, Tick, Dispatched False sample_job]) \<le> 8)"
proof -
  obtain c where c: "coord_run sample_coord [Tick, Tick, Dispatched False sample_job] c"
    using sample_dispatch by blast
  have "lane False sample_coord = [] @ sample_job # []" by (simp add: lane_def sample_coord_def)
  from lanes_are_fair[OF sample_coord_run c this] c show ?thesis by auto
qed

text \<open>
  C20. The writer is a serial executor with first-in first-out lanes: the jobs that start from a lane
  are the first ones accepted on it, in that order; the jobs that run are among those that started, in
  the order they started; the store is the result of running them one after the other and the
  counters count them; after a shutdown has begun both lanes are empty and nothing is accepted.
\<close>

theorem writer_is_serial:
  assumes "coord_run (coord_init d) es c"
  shows "prefix (dispatched_on fg es) (accepted_on fg es) \<and> subseq (map fst (executed es)) (dispatched es) \<and>
    store c = run_jobs (executed es) d \<and> completed c + failed c = length (executed es) \<and>
    (stopping c \<longrightarrow> foreground c = [] \<and> background c = [] \<and>
       (\<forall>es' c'. coord_run c es' c' \<longrightarrow> accepted_on fg es' = [] \<and> dispatched_on fg es' = []))"
proof (intro conjI allI impI)
  obtain dropped where "accepted_on fg es = dispatched_on fg es @ dropped @ lane fg c"
    using coord_run_lanes[OF assms, of fg] by (auto simp: coord_init_def lane_def split: if_splits)
  then show "prefix (dispatched_on fg es) (accepted_on fg es)" by simp
  have "subseq (map fst (executed es) @ taken (phase c)) (dispatched es)"
    using coord_run_taken[OF assms] by (simp add: coord_init_def)
  then show "subseq (map fst (executed es)) (dispatched es)"
    by (rule subseq_order.order_trans[OF list_emb_prefix[OF subseq_order.order_refl]])
  show "store c = run_jobs (executed es) d" "completed c + failed c = length (executed es)"
    using coord_run_store[OF assms] by (simp_all add: coord_init_def)
  show "accepted_on fg es' = []" "dispatched_on fg es' = []"
    if "stopping c" "coord_run c es' c'" for es' c'
    using stopped_run[of c es' c'] stop_empties[OF assms] that by (auto simp: coord_init_def)
  show "foreground c = []" "background c = []" if "stopping c"
    using stop_empties[OF assms] that by (auto simp: coord_init_def)
qed

theorem writer_is_serial_witness:
  "prefix (dispatched_on False [Tick, Accepted False sample_job]) [sample_job] \<and>
   store sample_coord = empty_db"
  using writer_is_serial[OF sample_coord_run, of False] by (simp add: run_jobs_def)

text \<open>
  A cancelled future breaks its neighbours. When the client of the first foreground job cancels
  its future and a shutdown then drains the lanes, setting the exception on the cancelled future
  raises, the drain is abandoned, and every other drained job stays unanswered forever: its client
  waits for ever, whatever happens later.
\<close>

lemma cancelled_future_strands_others:
  assumes "coord_inv c" "foreground c = j # js" "k \<in> set (js @ background c)" "drains c = []"
    "coord_run (drain_step 0 (begin_draining (cancel_future (j_future j) c))) es c'"
    "Cancelling (j_future k) \<notin> set es"
  shows "futures c' (j_future k) = Some Waiting"
proof -
  let ?d = "drain_step 0 (begin_draining (cancel_future (j_future j) c))"
  have ok: "futures_ok c" using assms(1) by (simp add: coord_inv_def)
  have j: "futures c (j_future j) = Some Waiting"
    by (rule in_flight_waiting(1)[OF ok]) (simp add: in_flight_def assms(2))
  have k: "futures c (j_future k) = Some Waiting" "j_future k < next_future c"
    by (rule in_flight_waiting[OF ok], use assms(2,3) in \<open>auto simp: in_flight_def\<close>)+
  have dist: "distinct (map j_future (j # js @ background c @ held (phase c)))"
    using ok by (simp add: futures_ok_def in_flight_def assms(2,4))
  then have ne: "j_future k \<noteq> j_future j" using assms(3) by (auto simp: image_iff)
  have d: "foreground ?d = []" "background ?d = []" "phase ?d = phase c" "drains ?d = []"
    "futures ?d = (futures c)(j_future j \<mapsto> Cancelled)" "next_future ?d = next_future c"
    by (simp_all add: drain_step_def begin_draining_def cancel_future_def settle_future_def j assms(2,4))
  have "j_future k \<notin> j_future ` set (held (phase c))"
    using dist assms(3) by (auto simp: image_iff)
  then have "j_future k \<notin> j_future ` set (in_flight ?d)" by (simp add: in_flight_def d)
  from orphan_run[OF assms(5,6) _ this] show ?thesis using k ne by (simp add: d)
qed

lemma cancelled_future_strands_others_witness:
  "\<exists>c :: nat coord. length (foreground c) = 2 \<and> coord_inv c \<and>
     futures (drain_step 0 (begin_draining (cancel_future 0 c))) 1 = Some Waiting \<and>
     in_flight (drain_step 0 (begin_draining (cancel_future 0 c))) = []"
proof -
  let ?k = "sample_job\<lparr>j_future := 1\<rparr>"
  let ?c = "sample_coord\<lparr>foreground := [sample_job, ?k], background := [], futures := [0 \<mapsto> Waiting, 1 \<mapsto> Waiting],
    next_future := 2, notifies := 2\<rparr>"
  have inv: "coord_inv ?c"
    by (auto simp: coord_inv_defs futures_ok_def in_flight_def sample_coord_def sample_job_def coord_init_def
        split: if_splits)
  have "futures (drain_step 0 (begin_draining (cancel_future (j_future sample_job) ?c))) (j_future ?k) = Some Waiting"
    by (rule cancelled_future_strands_others[OF inv, of sample_job "[?k]" ?k "[]", OF _ _ _ coord_run.run_Nil])
      (simp_all add: sample_coord_def coord_init_def)
  moreover have "in_flight (drain_step 0 (begin_draining (cancel_future 0 ?c))) = []"
    by (simp add: drain_step_def begin_draining_def cancel_future_def settle_future_def in_flight_def
        sample_coord_def sample_job_def coord_init_def)
  ultimately show ?thesis using inv
    by (intro exI[of _ ?c]) (simp add: sample_job_def)
qed

end
