(* ===== verification/Protocol.thy ===== *)
theory Protocol
  imports Salt_Prelude "HOL-Library.Word"
begin

text \<open>
  The wire protocol of the daemon, \<^verbatim>\<open>src/src/saltmdb/daemon/protocol.py\<close>: the tool classification,
  length-prefixed frames over a byte stream, and the request and response objects.

  A socket is the list of the segments that will arrive on it until the peer closes the connection;
  one \<open>recv\<close> returns at most one segment. The JSON text codec is not part of the sources: \<open>dumps\<close> is
  \<open>json.dumps(obj).encode("utf-8")\<close>, \<open>loads\<close> is \<open>json.loads(body.decode("utf-8"))\<close> with None for
  \<open>ValueError\<close> and \<open>RecursionError\<close>, both arguments of the definitions that use them.
\<close>

section \<open>Values and tools\<close>

type_synonym byte = "8 word"

datatype json = JNull | JBool bool | JInt int | JStr string | JList "json list" | JObj "(string \<times> json) list"

fun is_dict :: "json \<Rightarrow> bool" where
  "is_dict (JObj _) = True"
| "is_dict _ = False"

text \<open>\<open>dict.get\<close> on an object: a missing key is None, as is a null value.\<close>

fun jget :: "string \<Rightarrow> json \<Rightarrow> json" where
  "jget k (JObj kvs) = (case map_of kvs k of None \<Rightarrow> JNull | Some v \<Rightarrow> v)"
| "jget k _ = JNull"

fun jhas :: "string \<Rightarrow> json \<Rightarrow> bool" where
  "jhas k (JObj kvs) = (map_of kvs k \<noteq> None)"
| "jhas k _ = False"

fun jtruthy :: "json \<Rightarrow> bool" where
  "jtruthy JNull = False"
| "jtruthy (JBool b) = b"
| "jtruthy (JInt n) = (n \<noteq> 0)"
| "jtruthy (JStr s) = (s \<noteq> [])"
| "jtruthy (JList xs) = (xs \<noteq> [])"
| "jtruthy (JObj kvs) = (kvs \<noteq> [])"

definition WRITE_TOOLS :: "string list" where
  "WRITE_TOOLS = [''store_memory'', ''log_event'', ''merge_tags'', ''archive_memory'', ''manage_relation'',
     ''revise_memory'', ''supersede_memory'', ''consolidate_memories'', ''set_core_memory'',
     ''review_core_memory'', ''update_memory_metadata'', ''capture_trace_start'',
     ''capture_trace_memory_link'', ''capture_trace_complete'']"

definition READ_TOOLS :: "string list" where
  "READ_TOOLS = [''search_memory'', ''search_tags'', ''list_predicates'', ''get_memory'', ''get_memories'',
     ''get_lineage'', ''get_related_memories'', ''retrieve_context'', ''get_events'', ''search_traces'',
     ''get_trace'', ''get_core_bootstrap_digest'', ''get_last_session_digest'', ''find_related_memories'']"

definition DAEMON_RPC_MAX_MESSAGE_BYTES :: nat where
  "DAEMON_RPC_MAX_MESSAGE_BYTES = 33554432"

section \<open>Frames\<close>

datatype frame_error = Closed_Early | Incoming_Too_Long nat | Outgoing_Too_Long nat | Malformed_Json | Not_An_Object

text \<open>\<open>Struct(">I")\<close>\<close>

definition pack_length :: "nat \<Rightarrow> byte list" where
  "pack_length n = map (\<lambda>k. word_of_nat (n div 256 ^ k)) [3, 2, 1, 0]"

definition unpack_length :: "byte list \<Rightarrow> nat" where
  "unpack_length bs = foldl (\<lambda>n b. n * 256 + unat b) 0 bs"

definition recv :: "nat \<Rightarrow> byte list list \<Rightarrow> byte list \<times> byte list list" where
  "recv n segs =
     (case dropWhile (\<lambda>s. s = []) segs of
        [] \<Rightarrow> ([], [])
      | s # rest \<Rightarrow> (take n s, drop n s # rest))"

lemma recv_Nil: "0 < n \<Longrightarrow> fst (recv n segs) = [] \<longleftrightarrow> concat segs = []"
  by (induction segs) (auto simp: recv_def)

function recv_exact :: "nat \<Rightarrow> byte list list \<Rightarrow> (frame_error + byte list) \<times> byte list list" where
  "recv_exact remaining segs =
     (if remaining = 0 then (Inr [], segs)
      else case recv remaining segs of
        (chunk, segs') \<Rightarrow>
          if chunk = [] then (Inl Closed_Early, segs')
          else case recv_exact (remaining - length chunk) segs' of
            (Inl e, segs'') \<Rightarrow> (Inl e, segs'')
          | (Inr rest, segs'') \<Rightarrow> (Inr (chunk @ rest), segs''))"
  by pat_completeness auto
termination by (relation "measure fst") (auto simp: recv_def split: list.splits)

declare recv_exact.simps [simp del]

definition send_frame :: "(json \<Rightarrow> byte list) \<Rightarrow> json \<Rightarrow> frame_error + byte list" where
  "send_frame dumps obj =
     (let body = dumps obj
      in if length body > DAEMON_RPC_MAX_MESSAGE_BYTES then Inl (Outgoing_Too_Long (length body))
         else Inr (pack_length (length body) @ body))"

definition recv_frame ::
  "(byte list \<Rightarrow> json option) \<Rightarrow> byte list list \<Rightarrow> (frame_error + json) \<times> byte list list" where
  "recv_frame loads segs =
     (case recv_exact 4 segs of
        (Inl e, segs1) \<Rightarrow> (Inl e, segs1)
      | (Inr header, segs1) \<Rightarrow>
          let len = unpack_length header in
          if len > DAEMON_RPC_MAX_MESSAGE_BYTES then (Inl (Incoming_Too_Long len), segs1)
          else case recv_exact len segs1 of
            (Inl e, segs2) \<Rightarrow> (Inl e, segs2)
          | (Inr body, segs2) \<Rightarrow>
              (case loads body of
                 None \<Rightarrow> (Inl Malformed_Json, segs2)
               | Some obj \<Rightarrow> (if is_dict obj then Inr obj else Inl Not_An_Object, segs2)))"

section \<open>Requests and responses\<close>

definition jopt :: "string option \<Rightarrow> json" where
  "jopt s = (case s of None \<Rightarrow> JNull | Some x \<Rightarrow> JStr x)"

definition build_request :: "string \<Rightarrow> string \<Rightarrow> json \<Rightarrow> string option \<Rightarrow> json" where
  "build_request fresh_id meth params token =
     JObj [(''id'', JStr fresh_id), (''token'', jopt token), (''method'', JStr meth), (''params'', params)]"

definition build_ok_response :: "json \<Rightarrow> json \<Rightarrow> json" where
  "build_ok_response request_id result = JObj [(''id'', request_id), (''ok'', JBool True), (''result'', result)]"

definition build_error_response :: "json \<Rightarrow> string \<Rightarrow> string \<Rightarrow> json" where
  "build_error_response request_id err_code message =
     JObj [(''id'', request_id), (''ok'', JBool False),
       (''error'', JObj [(''code'', JStr err_code), (''message'', JStr message)])]"

abbreviation "AUTH_FAILED \<equiv> ''AUTH_FAILED''"
abbreviation "UNKNOWN_METHOD \<equiv> ''UNKNOWN_METHOD''"
abbreviation "UNKNOWN_TOOL \<equiv> ''UNKNOWN_TOOL''"
abbreviation "MALFORMED_REQUEST \<equiv> ''MALFORMED_REQUEST''"
abbreviation "INTERNAL_ERROR \<equiv> ''INTERNAL_ERROR''"
abbreviation "DAEMON_SHUTTING_DOWN \<equiv> ''DAEMON_SHUTTING_DOWN''"
abbreviation "CALLER_SESSION_INVALID \<equiv> ''CALLER_SESSION_INVALID''"

definition response_ok :: "json \<Rightarrow> bool" where
  "response_ok r = jtruthy (jget ''ok'' r)"

definition response_code :: "json \<Rightarrow> json" where
  "response_code r = jget ''code'' (jget ''error'' r)"

section \<open>Lemmas\<close>

lemma unpack_pack: "n < 2 ^ 32 \<Longrightarrow> unpack_length (pack_length n) = n"
proof -
  assume n: "n < 2 ^ 32"
  have u: "unat (word_of_nat m :: byte) = m mod 256" for m by (simp add: unat_of_nat)
  have top: "n div 16777216 < 256" using n by (simp add: less_mult_imp_div_less)
  have d: "n div 65536 = n div 256 div 256" "n div 16777216 = n div 256 div 256 div 256"
    by (simp_all add: div_mult2_eq[symmetric])
  have "a * 256 + b = c \<Longrightarrow> c * 256 + e = f \<Longrightarrow> f * 256 + g = n \<Longrightarrow> ((a * 256 + b) * 256 + e) * 256 + g = n"
    for a b c e f g :: nat by simp
  from this[OF div_mult_mod_eq div_mult_mod_eq div_mult_mod_eq]
  have "((n div 16777216 * 256 + n div 65536 mod 256) * 256 + n div 256 mod 256) * 256 + n mod 256 = n"
    unfolding d .
  then show ?thesis using top by (simp add: unpack_length_def pack_length_def u algebra_simps)
qed

lemma length_pack [simp]: "length (pack_length n) = 4"
  by (simp add: pack_length_def)

lemma recv_concat:
  "recv n segs = (chunk, segs') \<Longrightarrow> concat segs = chunk @ concat segs' \<and> length chunk \<le> n"
  by (induction segs) (auto simp: recv_def split: if_splits)

text \<open>Reading exactly \<open>n\<close> bytes depends only on the byte stream, not on how it was cut into segments.\<close>

lemma recv_exact_spec:
  "(n \<le> length (concat segs) \<longrightarrow>
      (\<exists>segs'. recv_exact n segs = (Inr (take n (concat segs)), segs') \<and> concat segs' = drop n (concat segs))) \<and>
   (length (concat segs) < n \<longrightarrow> (\<exists>segs'. recv_exact n segs = (Inl Closed_Early, segs') \<and> concat segs' = []))"
proof (induction n segs rule: recv_exact.induct)
  case (1 n segs)
  show ?case
  proof (cases "n = 0")
    case True
    then show ?thesis by (simp add: recv_exact.simps[of 0])
  next
    case False
    obtain chunk segs1 where r: "recv n segs = (chunk, segs1)" by fastforce
    note cat = recv_concat[OF r]
    show ?thesis
    proof (cases "chunk = []")
      case True
      then have "concat segs = []" using recv_Nil[of n segs] r False by simp
      then have "concat segs = []" "concat segs1 = []" using cat by auto
      then show ?thesis using True False r by (simp add: recv_exact.simps[of n] del: concat_eq_Nil_conv)
    next
      case Chunk: False
      note IH = "1"(1)[OF False r[symmetric] Chunk]
      have len: "length chunk \<le> n" using cat by simp
      show ?thesis
      proof (cases "n \<le> length (concat segs)")
        case True
        then have "n - length chunk \<le> length (concat segs1)" using cat by simp
        then obtain segs2 where "recv_exact (n - length chunk) segs1 = (Inr (take (n - length chunk) (concat segs1)), segs2)"
          "concat segs2 = drop (n - length chunk) (concat segs1)" using IH by blast
        then show ?thesis using True False Chunk r cat len by (simp add: recv_exact.simps[of n])
      next
        case Short: False
        then have "length (concat segs1) < n - length chunk" using cat by simp
        then obtain segs2 where "recv_exact (n - length chunk) segs1 = (Inl Closed_Early, segs2)" "concat segs2 = []"
          using IH by blast
        then show ?thesis using Short False Chunk r by (simp add: recv_exact.simps[of n])
      qed
    qed
  qed
qed

lemma recv_exact_ok:
  assumes "concat segs = xs @ ys" "length xs = n"
  obtains segs' where "recv_exact n segs = (Inr xs, segs')" "concat segs' = ys"
  using recv_exact_spec[of n segs] assms by auto

lemma recv_exact_short:
  assumes "length (concat segs) < n"
  obtains segs' where "recv_exact n segs = (Inl Closed_Early, segs')" "concat segs' = []"
  using recv_exact_spec[of n segs] assms by auto

lemma max_message_fits: "DAEMON_RPC_MAX_MESSAGE_BYTES < 2 ^ 32"
  by (simp add: DAEMON_RPC_MAX_MESSAGE_BYTES_def)

lemma recv_frame_sent:
  assumes "send_frame dumps obj = Inr bytes" "loads (dumps obj) = Some obj" "is_dict obj"
    "concat segs = bytes @ rest"
  obtains segs' where "recv_frame loads segs = (Inr obj, segs')" "concat segs' = rest"
proof -
  let ?b = "dumps obj"
  have b: "length ?b \<le> DAEMON_RPC_MAX_MESSAGE_BYTES" "bytes = pack_length (length ?b) @ ?b"
    using assms(1) by (auto simp: send_frame_def Let_def split: if_splits)
  obtain s1 where s1: "recv_exact 4 segs = (Inr (pack_length (length ?b)), s1)" "concat s1 = ?b @ rest"
    by (rule recv_exact_ok[of segs "pack_length (length ?b)" "?b @ rest" 4]) (use assms(4) b in simp_all)
  obtain s2 where s2: "recv_exact (length ?b) s1 = (Inr ?b, s2)" "concat s2 = rest"
    by (rule recv_exact_ok[OF s1(2) refl])
  have "unpack_length (pack_length (length ?b)) = length ?b"
    using b(1) max_message_fits by (intro unpack_pack) linarith
  then have "recv_frame loads segs = (Inr obj, s2)"
    using s1(1) s2(1) b(1) assms(2,3) by (simp add: recv_frame_def Let_def)
  then show thesis using that s2(2) by blast
qed

text \<open>All frames of a conversation, one after the other.\<close>

fun send_frames :: "(json \<Rightarrow> byte list) \<Rightarrow> json list \<Rightarrow> frame_error + byte list" where
  "send_frames dumps [] = Inr []"
| "send_frames dumps (obj # objs) =
     (case send_frame dumps obj of
        Inl e \<Rightarrow> Inl e
      | Inr bytes \<Rightarrow> (case send_frames dumps objs of Inl e \<Rightarrow> Inl e | Inr more \<Rightarrow> Inr (bytes @ more)))"

fun recv_frames :: "(byte list \<Rightarrow> json option) \<Rightarrow> nat \<Rightarrow> byte list list \<Rightarrow> frame_error + json list" where
  "recv_frames loads 0 segs = Inr []"
| "recv_frames loads (Suc n) segs =
     (case recv_frame loads segs of
        (Inl e, _) \<Rightarrow> Inl e
      | (Inr obj, segs') \<Rightarrow> (case recv_frames loads n segs' of Inl e \<Rightarrow> Inl e | Inr objs \<Rightarrow> Inr (obj # objs)))"

section \<open>Properties\<close>

text \<open>
  C34. Framing round trip: whatever objects are sent over a connection arrive as the same objects in
  the same order, however the network cuts the byte stream into segments and whatever follows.
\<close>

theorem frames_round_trip:
  assumes "\<And>obj. obj \<in> set objs \<Longrightarrow> loads (dumps obj) = Some obj" "\<And>obj. obj \<in> set objs \<Longrightarrow> is_dict obj"
    "send_frames dumps objs = Inr bytes" "concat segs = bytes @ rest"
  shows "recv_frames loads (length objs) segs = Inr objs"
  using assms
proof (induction objs arbitrary: bytes segs)
  case (Cons obj objs)
  obtain b1 b2 where b: "send_frame dumps obj = Inr b1" "send_frames dumps objs = Inr b2" "bytes = b1 @ b2"
    using Cons.prems(3) by (auto split: sum.splits)
  obtain segs' where s: "recv_frame loads segs = (Inr obj, segs')" "concat segs' = b2 @ rest"
    by (rule recv_frame_sent[of dumps obj b1 loads segs "b2 @ rest"]) (use Cons.prems b in auto)
  then show ?case using Cons.IH[OF _ _ b(2) s(2)] Cons.prems by simp
qed simp

definition sample_dumps :: "json \<Rightarrow> byte list" where
  "sample_dumps obj = (if obj = JObj [] then [123, 125] else [110])"

definition sample_loads :: "byte list \<Rightarrow> json option" where
  "sample_loads bs = (if bs = [123, 125] then Some (JObj []) else if bs = [110] then Some JNull else None)"

theorem frames_round_trip_witness:
  "send_frames sample_dumps [JObj [], JObj []] = Inr [0, 0, 0, 2, 123, 125, 0, 0, 0, 2, 123, 125] \<and>
   recv_frames sample_loads 2 [[0, 0], [], [0, 2, 123], [125, 0, 0, 0, 2, 123, 125, 9]] = Inr [JObj [], JObj []]"
proof -
  have s: "send_frames sample_dumps [JObj [], JObj []] = Inr [0, 0, 0, 2, 123, 125, 0, 0, 0, 2, 123, 125]"
    by (simp add: send_frame_def sample_dumps_def pack_length_def DAEMON_RPC_MAX_MESSAGE_BYTES_def)
  have "recv_frames sample_loads (length [JObj [], JObj []]) [[0, 0], [], [0, 2, 123], [125, 0, 0, 0, 2, 123, 125, 9]] =
      Inr [JObj [], JObj []]"
    by (rule frames_round_trip[OF _ _ s, of _ _ "[9]"]) (auto simp: sample_loads_def sample_dumps_def)
  then show ?thesis using s by (simp only: list.size numeral_2_eq_2 add_0_right add_Suc_right)
qed

text \<open>
  Only complete frames are accepted. A connection that closes before the announced length has
  arrived is an error; an announced length above 32 MiB is an error raised before any byte of the body
  is read; and an outgoing object above that size is never sent, not even its header.
\<close>

lemma broken_frames_rejected:
  "(length (concat segs) < 4 \<longrightarrow> fst (recv_frame loads segs) = Inl Closed_Early) \<and>
   (concat segs = pack_length n @ body \<and> n \<le> DAEMON_RPC_MAX_MESSAGE_BYTES \<and> length body < n \<longrightarrow>
      fst (recv_frame loads segs) = Inl Closed_Early) \<and>
   (concat segs = pack_length n @ body \<and> n < 2 ^ 32 \<and> DAEMON_RPC_MAX_MESSAGE_BYTES < n \<longrightarrow>
      (\<exists>segs'. recv_frame loads segs = (Inl (Incoming_Too_Long n), segs') \<and> concat segs' = body)) \<and>
   (DAEMON_RPC_MAX_MESSAGE_BYTES < length (dumps obj) \<longrightarrow>
      send_frame dumps obj = Inl (Outgoing_Too_Long (length (dumps obj))))"
proof (intro conjI impI; (elim conjE)?)
  show "fst (recv_frame loads segs) = Inl Closed_Early" if "length (concat segs) < 4"
    by (rule recv_exact_short[OF that]) (simp add: recv_frame_def)
next
  assume c: "concat segs = pack_length n @ body" and n: "n \<le> DAEMON_RPC_MAX_MESSAGE_BYTES" and b: "length body < n"
  obtain s1 where s1: "recv_exact 4 segs = (Inr (pack_length n), s1)" "concat s1 = body"
    by (rule recv_exact_ok[OF c]) simp_all
  obtain s2 where "recv_exact n s1 = (Inl Closed_Early, s2)"
    by (rule recv_exact_short[of s1 n]) (use s1(2) b in simp_all)
  moreover have "unpack_length (pack_length n) = n" using n max_message_fits by (intro unpack_pack) linarith
  ultimately show "fst (recv_frame loads segs) = Inl Closed_Early" using s1(1) n by (simp add: recv_frame_def Let_def)
next
  assume c: "concat segs = pack_length n @ body" and n: "n < 2 ^ 32" "DAEMON_RPC_MAX_MESSAGE_BYTES < n"
  obtain s1 where s1: "recv_exact 4 segs = (Inr (pack_length n), s1)" "concat s1 = body"
    by (rule recv_exact_ok[OF c]) simp_all
  then show "\<exists>segs'. recv_frame loads segs = (Inl (Incoming_Too_Long n), segs') \<and> concat segs' = body"
    using n by (simp add: recv_frame_def Let_def unpack_pack)
qed (simp add: send_frame_def)

lemma broken_frames_rejected_witness:
  "fst (recv_frame sample_loads [[0, 0], [0]]) = Inl Closed_Early \<and>
   (\<exists>segs'. recv_frame sample_loads [[255, 255, 255], [255, 1]] = (Inl (Incoming_Too_Long 4294967295), segs') \<and>
      concat segs' = [1])"
proof
  show "fst (recv_frame sample_loads [[0, 0], [0]]) = Inl Closed_Early"
    using broken_frames_rejected[of "[[0, 0], [0]]" sample_loads] by simp
  have "concat [[255, 255, 255], [255, 1 :: byte]] = pack_length 4294967295 @ [1]"
    by (simp add: pack_length_def)
  then show "\<exists>segs'. recv_frame sample_loads [[255, 255, 255], [255, 1]] = (Inl (Incoming_Too_Long 4294967295), segs') \<and>
      concat segs' = [1]"
    using broken_frames_rejected[of "[[255, 255, 255], [255, 1]]" sample_loads 4294967295 "[1]"]
    by (simp add: DAEMON_RPC_MAX_MESSAGE_BYTES_def)
qed

end
