(* ===== verification/Daemon_Server.thy ===== *)
theory Daemon_Server
  imports Protocol "HOL-Library.AList" "HOL-Library.Multiset"
begin

text \<open>
  The request side of the daemon, the class \<open>_DaemonState\<close> of \<^verbatim>\<open>src/src/saltmdb/daemon/server.py\<close>:
  hello sessions, caller leases, the count of requests in progress, the grace timer, draining, and
  \<open>handle_request\<close> with every method and error, and the tool tables of
  \<^verbatim>\<open>src/src/saltmdb/daemon/dispatch.py\<close>.

  Every operation here is one region under the state lock. What a tool computes is an argument:
  \<open>Inl\<close> the text of an exception, \<open>Inr\<close> a result. A capability is drawn by \<open>secrets.token_urlsafe\<close>
  and is an argument too. A lease refers to the session object it was taken on, not to its id.
\<close>

section \<open>State\<close>

record agent_rec =
  ar_ref :: nat
  ar_agent_session_id :: json
  ar_capability :: string
  ar_closing :: bool
  ar_leases :: nat

text \<open>A timer thread that has expired can no longer be cancelled: it waits for the lock in \<open>_grace_fire\<close>.\<close>

datatype timer = No_Timer | Armed | Expired

record daemon =
  ds_db_path :: string
  ds_key :: string
  ds_foreground :: bool
  ds_auth_token :: "string option"
  ds_service_port :: "int option"
  ds_viewer_port :: "int option"
  ds_sessions :: "nat list"
  ds_agents :: "(nat \<times> agent_rec) list"
  ds_inflight :: int
  ds_draining :: bool
  ds_timer :: timer
  ds_firing :: nat
  ds_coordinator :: bool
  ds_next_ref :: nat

definition daemon_init :: "string \<Rightarrow> string \<Rightarrow> bool \<Rightarrow> daemon" where
  "daemon_init db_path key foreground =
     \<lparr>ds_db_path = db_path, ds_key = key, ds_foreground = foreground, ds_auth_token = None,
      ds_service_port = None, ds_viewer_port = None, ds_sessions = [], ds_agents = [], ds_inflight = 0,
      ds_draining = False, ds_timer = No_Timer, ds_firing = 0, ds_coordinator = False, ds_next_ref = 0\<rparr>"

definition DISPATCH_TABLE :: "string list" where
  "DISPATCH_TABLE = [''log_event'', ''search_tags'', ''list_predicates'', ''merge_tags'', ''store_memory'',
     ''search_memory'', ''get_memory'', ''get_memories'', ''archive_memory'', ''manage_relation'',
     ''revise_memory'', ''supersede_memory'', ''consolidate_memories'', ''get_lineage'',
     ''get_related_memories'', ''get_events'', ''retrieve_context'', ''set_core_memory'',
     ''review_core_memory'', ''update_memory_metadata'', ''get_core_bootstrap_digest'',
     ''get_last_session_digest'', ''find_related_memories'', ''capture_trace_start'',
     ''capture_trace_memory_link'', ''capture_trace_complete'', ''search_traces'', ''get_trace'']"

definition MUTATING_TOOLS :: "string list" where
  "MUTATING_TOOLS = [''log_event'', ''merge_tags'', ''store_memory'', ''archive_memory'', ''manage_relation'',
     ''revise_memory'', ''supersede_memory'', ''consolidate_memories'', ''review_core_memory'',
     ''set_core_memory'', ''update_memory_metadata'', ''capture_trace_start'',
     ''capture_trace_memory_link'', ''capture_trace_complete'']"

section \<open>Sessions, requests in progress and the grace timer\<close>

definition start_grace_timer :: "daemon \<Rightarrow> daemon" where
  "start_grace_timer d = d\<lparr>ds_timer := Armed\<rparr>"

definition start_initial_grace_period :: "daemon \<Rightarrow> daemon" where
  "start_initial_grace_period d = (if ds_foreground d then d else start_grace_timer d)"

definition quiet :: "daemon \<Rightarrow> bool" where
  "quiet d \<longleftrightarrow> ds_sessions d = [] \<and> ds_inflight d = 0 \<and> \<not> ds_draining d \<and> \<not> ds_foreground d"

definition rearm :: "daemon \<Rightarrow> daemon" where
  "rearm d = (if quiet d then start_grace_timer d else d)"

definition unregister_session :: "nat \<Rightarrow> daemon \<Rightarrow> daemon" where
  "unregister_session sid d =
     rearm (d\<lparr>ds_sessions := removeAll sid (ds_sessions d), ds_agents := AList.delete sid (ds_agents d)\<rparr>)"

definition timer_expires :: "daemon \<Rightarrow> daemon" where
  "timer_expires d = (if ds_timer d = Armed then d\<lparr>ds_timer := Expired, ds_firing := Suc (ds_firing d)\<rparr> else d)"

definition grace_fire :: "daemon \<Rightarrow> daemon" where
  "grace_fire d =
     (let d' = d\<lparr>ds_firing := ds_firing d - 1\<rparr> in
      if ds_sessions d \<noteq> [] \<or> ds_inflight d \<noteq> 0 then d'\<lparr>ds_timer := No_Timer\<rparr>
      else d'\<lparr>ds_draining := True\<rparr>)"

definition acquire_inflight :: "daemon \<Rightarrow> bool \<times> daemon" where
  "acquire_inflight d =
     (if ds_draining d then (False, d)
      else (True, d\<lparr>ds_inflight := ds_inflight d + 1, ds_timer := No_Timer\<rparr>))"

definition release_inflight :: "daemon \<Rightarrow> daemon" where
  "release_inflight d = rearm (d\<lparr>ds_inflight := ds_inflight d - 1\<rparr>)"

definition begin_draining_daemon :: "daemon \<Rightarrow> daemon" where
  "begin_draining_daemon d = d\<lparr>ds_draining := True\<rparr>"

definition identify_response :: "daemon \<Rightarrow> json" where
  "identify_response d =
     (case ds_service_port d of
        None \<Rightarrow> JObj [(''state'', JStr ''initializing''), (''daemon_key'', JStr (ds_key d)),
                      (''db_path'', JStr (ds_db_path d))]
      | Some p \<Rightarrow> JObj [(''state'', JStr ''ready''), (''daemon_key'', JStr (ds_key d)),
                      (''db_path'', JStr (ds_db_path d)), (''service_port'', JInt p)])"

section \<open>Hello and goodbye\<close>

abbreviation shutting_down_response :: "json \<Rightarrow> json" where
  "shutting_down_response rid \<equiv> build_error_response rid DAEMON_SHUTTING_DOWN ''daemon is shutting down''"

text \<open>The locked admission of a hello.\<close>

definition admit_hello :: "json \<Rightarrow> nat \<Rightarrow> daemon \<Rightarrow> json option \<times> daemon" where
  "admit_hello rid sid d =
     (if ds_draining d then (Some (shutting_down_response rid), d)
      else (None, d\<lparr>ds_sessions := List.insert sid (ds_sessions d), ds_timer := No_Timer\<rparr>))"

text \<open>
  \<open>recorded\<close> is the outcome of the registration write, which blocks on the write coordinator: None
  when it was committed, otherwise the text of the exception.
\<close>

definition record_agent_session ::
  "string option \<Rightarrow> string \<Rightarrow> json \<Rightarrow> nat \<Rightarrow> json \<Rightarrow> daemon \<Rightarrow> (json + string option) \<times> daemon" where
  "record_agent_session recorded capability rid sid params d =
     (if \<not> jtruthy (jget ''agent_session_id'' params) then (Inr None, d)
      else if \<not> ds_coordinator d
      then (Inl (build_error_response rid INTERNAL_ERROR ''database writer unavailable''), unregister_session sid d)
      else case recorded of
        None \<Rightarrow>
          (Inr (Some capability), d\<lparr>ds_agents := AList.update sid
             \<lparr>ar_ref = ds_next_ref d, ar_agent_session_id = jget ''agent_session_id'' params,
              ar_capability = capability, ar_closing = False, ar_leases = 0\<rparr> (ds_agents d),
             ds_next_ref := Suc (ds_next_ref d)\<rparr>)
      | Some e \<Rightarrow>
          (Inl (build_error_response rid (if e = DAEMON_SHUTTING_DOWN then DAEMON_SHUTTING_DOWN else INTERNAL_ERROR)
                  (''failed to record agent session: '' @ e)),
           unregister_session sid d))"

definition handle_hello ::
  "string option \<Rightarrow> string \<Rightarrow> json \<Rightarrow> nat \<Rightarrow> json \<Rightarrow> daemon \<Rightarrow> json \<times> daemon" where
  "handle_hello recorded capability rid sid params d =
     (if jhas ''owner_id'' params
      then (build_error_response rid MALFORMED_REQUEST
              ''hello parameter 'owner_id' was renamed 'agent_id'; restart the MCP adapter on the current SALTMDB version'', d)
      else case admit_hello rid sid d of
        (Some err, d') \<Rightarrow> (err, d')
      | (None, d') \<Rightarrow>
          (case record_agent_session recorded capability rid sid params d' of
             (Inl err, d'') \<Rightarrow> (err, d'')
           | (Inr cap, d'') \<Rightarrow>
               (build_ok_response rid (JObj ((''status'', JStr ''ok'') #
                  (case cap of None \<Rightarrow> [] | Some c \<Rightarrow> [(''caller_agent_session_capability'', JStr c)]))), d'')))"

definition update_agent :: "(agent_rec \<Rightarrow> bool) \<Rightarrow> (agent_rec \<Rightarrow> agent_rec) \<Rightarrow> daemon \<Rightarrow> daemon" where
  "update_agent P f d = d\<lparr>ds_agents := map (\<lambda>(k, r). (k, if P r then f r else r)) (ds_agents d)\<rparr>"

text \<open>The fence at the beginning of \<open>begin_goodbye\<close>; the wait for the leases follows.\<close>

definition fence_session :: "nat \<Rightarrow> daemon \<Rightarrow> daemon" where
  "fence_session sid d =
     (case map_of (ds_agents d) sid of
        None \<Rightarrow> d
      | Some r \<Rightarrow> d\<lparr>ds_agents := AList.update sid (r\<lparr>ar_closing := True\<rparr>) (ds_agents d)\<rparr>)"

text \<open>The condition on which the wait of \<open>begin_goodbye\<close> ends without a timeout.\<close>

definition goodbye_ready :: "nat \<Rightarrow> daemon \<Rightarrow> bool" where
  "goodbye_ready sid d \<longleftrightarrow> (case map_of (ds_agents d) sid of None \<Rightarrow> True | Some r \<Rightarrow> ar_leases r = 0)"

section \<open>Caller leases\<close>

text \<open>\<open>hmac.compare_digest\<close> on strings: None is the \<open>TypeError\<close> for a string that is not ASCII.\<close>

definition compare_digest :: "string \<Rightarrow> string \<Rightarrow> bool option" where
  "compare_digest a b =
     (if list_all (\<lambda>c. code c < 128) a \<and> list_all (\<lambda>c. code c < 128) b then Some (a = b) else None)"

fun find_caller :: "string \<Rightarrow> string \<Rightarrow> (nat \<times> agent_rec) list \<Rightarrow> (agent_rec option) option" where
  "find_caller s cap [] = Some None"
| "find_caller s cap ((k, r) # rest) =
     (if ar_agent_session_id r \<noteq> JStr s then find_caller s cap rest
      else case compare_digest (ar_capability r) cap of
        None \<Rightarrow> None
      | Some eq \<Rightarrow> if eq then Some (Some r) else find_caller s cap rest)"

text \<open>The caller metadata of a request: malformed, absent, or a pair of non-empty strings.\<close>

definition caller_metadata :: "json \<Rightarrow> json \<Rightarrow> json + (string \<times> string) option" where
  "caller_metadata rid params =
     (let has_id = jhas ''caller_agent_session_id'' params;
          has_cap = jhas ''caller_agent_session_capability'' params
      in if has_id \<noteq> has_cap
         then Inl (build_error_response rid MALFORMED_REQUEST
                 ''caller_agent_session_id and caller_agent_session_capability must be supplied together'')
         else if \<not> has_id then Inr None
         else case (jget ''caller_agent_session_id'' params, jget ''caller_agent_session_capability'' params) of
           (JStr (c # s), JStr (c' # cap)) \<Rightarrow> Inr (Some (c # s, c' # cap))
         | _ \<Rightarrow> Inl (build_error_response rid MALFORMED_REQUEST
                     ''caller session metadata must be non-empty strings''))"

text \<open>An error response, or the exception of the comparison (None), or a lease.\<close>

definition validate_caller_session ::
  "json \<Rightarrow> json \<Rightarrow> daemon \<Rightarrow> (json option + nat option) \<times> daemon" where
  "validate_caller_session rid params d =
     (case caller_metadata rid params of
        Inl err \<Rightarrow> (Inl (Some err), d)
      | Inr None \<Rightarrow> (Inr None, d)
      | Inr (Some (s, cap)) \<Rightarrow>
          (case find_caller s cap (ds_agents d) of
             None \<Rightarrow> (Inl None, d)
           | Some None \<Rightarrow> (Inl (Some (build_error_response rid CALLER_SESSION_INVALID
                  ''caller session is inactive, mismatched, or closing'')), d)
           | Some (Some r) \<Rightarrow>
               if ar_closing r
               then (Inl (Some (build_error_response rid CALLER_SESSION_INVALID
                      ''caller session is inactive, mismatched, or closing'')), d)
               else (Inr (Some (ar_ref r)),
                     update_agent (\<lambda>x. ar_ref x = ar_ref r) (\<lambda>x. x\<lparr>ar_leases := ar_leases x + 1\<rparr>) d)))"

definition release_caller_lease :: "nat option \<Rightarrow> daemon \<Rightarrow> daemon" where
  "release_caller_lease lease d =
     (case lease of
        None \<Rightarrow> d
      | Some k \<Rightarrow> update_agent (\<lambda>r. ar_ref r = k) (\<lambda>r. r\<lparr>ar_leases := ar_leases r - 1\<rparr>) d)"

section \<open>Requests\<close>

text \<open>The part of \<open>handle_request\<close> before a request is counted; \<open>Crash\<close> is an exception that leaves it.\<close>

datatype routed = Answer json | Crash | Session_Method string json | Counted_Method json json

definition token_ok :: "daemon \<Rightarrow> json \<Rightarrow> bool option" where
  "token_ok d token =
     (if \<not> jtruthy token \<or> ds_auth_token d = None \<or> ds_auth_token d = Some [] then Some False
      else case token of JStr t \<Rightarrow> compare_digest t (the (ds_auth_token d)) | _ \<Rightarrow> None)"

definition route_request :: "daemon \<Rightarrow> json \<Rightarrow> routed" where
  "route_request d req =
     (let rid = jget ''id'' req in
      if ds_draining d then Answer (shutting_down_response rid)
      else case token_ok d (jget ''token'' req) of
        None \<Rightarrow> Crash
      | Some False \<Rightarrow> Answer (build_error_response rid AUTH_FAILED ''invalid or missing token'')
      | Some True \<Rightarrow>
          (let params = (case jget ''params'' req of JNull \<Rightarrow> JObj [] | p \<Rightarrow> p) in
           if \<not> is_dict params
           then Answer (build_error_response rid MALFORMED_REQUEST ''params must be an object'')
           else (case jget ''method'' req of
               JStr meth \<Rightarrow>
                 if meth \<in> {''hello'', ''goodbye'', ''ping'', ''viewer_status''} then Session_Method meth params
                 else Counted_Method (JStr meth) params
             | other \<Rightarrow> Counted_Method other params)))"

text \<open>What a counted request runs: a tool or one of the maintenance methods.\<close>

datatype work = Tool string json | Librarian json | Backfill | Snapshot json

text \<open>The checks of \<open>_handle_tool_call\<close> before the caller is validated.\<close>

definition tool_request :: "json \<Rightarrow> json \<Rightarrow> daemon \<Rightarrow> json + string \<times> json" where
  "tool_request rid params d =
     (case jget ''tool'' params of
        JList _ \<Rightarrow> Inl (build_error_response rid INTERNAL_ERROR ''unhashable type: 'list' '')
      | JObj _ \<Rightarrow> Inl (build_error_response rid INTERNAL_ERROR ''unhashable type: 'dict' '')
      | JStr tool \<Rightarrow>
          if tool \<notin> set DISPATCH_TABLE
          then Inl (build_error_response rid UNKNOWN_TOOL (''unknown tool: '' @ tool))
          else if \<not> ds_coordinator d
          then Inl (build_error_response rid INTERNAL_ERROR ''database writer unavailable'')
          else let kwargs = (if jtruthy (jget ''kwargs'' params) then jget ''kwargs'' params else JObj []) in
            if \<not> is_dict kwargs
            then Inl (build_error_response rid MALFORMED_REQUEST ''tool kwargs must be an object'')
            else if jhas ''owner_id'' kwargs
            then Inl (build_error_response rid MALFORMED_REQUEST
                   ''tool kwarg 'owner_id' was renamed 'agent_id'; restart the MCP adapter on the current SALTMDB version'')
            else Inr (tool, kwargs)
      | _ \<Rightarrow> Inl (build_error_response rid UNKNOWN_TOOL ''unknown tool''))"

definition prepare_tool_call :: "json \<Rightarrow> json \<Rightarrow> daemon \<Rightarrow> (json + work \<times> nat option) \<times> daemon" where
  "prepare_tool_call rid params d =
     (case tool_request rid params d of
        Inl err \<Rightarrow> (Inl err, d)
      | Inr (tool, kwargs) \<Rightarrow>
          (case validate_caller_session rid params d of
             (Inl (Some err), d') \<Rightarrow> (Inl err, d')
           | (Inl None, d') \<Rightarrow> (Inl (build_error_response rid INTERNAL_ERROR
                 ''comparing strings with non-ASCII characters is not supported''), d')
           | (Inr lease, d') \<Rightarrow> (Inr (Tool tool kwargs, lease), d')))"

definition prepare_method :: "json \<Rightarrow> json \<Rightarrow> json \<Rightarrow> daemon \<Rightarrow> (json + work \<times> nat option) \<times> daemon" where
  "prepare_method rid meth params d =
     (if meth = JStr ''tool_call'' then prepare_tool_call rid params d
      else if meth = JStr ''run_librarian_now'' then
        (if ds_coordinator d
         then (Inr (Librarian (if jhas ''force'' params then jget ''force'' params else JBool True), None), d)
         else (Inl (build_error_response rid INTERNAL_ERROR ''database writer unavailable''), d))
      else if meth = JStr ''run_backfill_chunk_embeddings_now'' then
        (if ds_coordinator d then (Inr (Backfill, None), d)
         else (Inl (build_error_response rid INTERNAL_ERROR ''database writer unavailable''), d))
      else if meth = JStr ''create_snapshot_now'' then
        (case jget ''dest_dir'' params of
           JNull \<Rightarrow> (Inr (Snapshot JNull, None), d)
         | JStr p \<Rightarrow> (if prefix ''/'' p then (Inr (Snapshot (JStr p), None), d)
                     else (Inl (build_error_response rid INTERNAL_ERROR ''dest_dir must be an absolute path string''), d))
         | _ \<Rightarrow> (Inl (build_error_response rid INTERNAL_ERROR ''dest_dir must be an absolute path string''), d))
      else (Inl (build_error_response rid UNKNOWN_METHOD ''unknown method''), d))"

definition work_response :: "json \<Rightarrow> string + json \<Rightarrow> json" where
  "work_response rid r =
     (case r of Inl e \<Rightarrow> build_error_response rid INTERNAL_ERROR e | Inr v \<Rightarrow> build_ok_response rid v)"

definition viewer_snapshot :: "daemon \<Rightarrow> json" where
  "viewer_snapshot d =
     JObj [(''ready'', JBool (ds_service_port d \<noteq> None \<and> \<not> ds_draining d)),
       (''active_hello_sessions'', JInt (int (length (ds_sessions d)))),
       (''active_agent_session_ids'', JList (map (\<lambda>(k, r). ar_agent_session_id r)
           (filter (\<lambda>(k, r). \<not> ar_closing r) (ds_agents d)))),
       (''inflight_rpc_dispatches'', JInt (ds_inflight d)),
       (''enabled'', JBool (ds_viewer_port d \<noteq> None)),
       (''port'', case ds_viewer_port d of None \<Rightarrow> JNull | Some p \<Rightarrow> JInt p)]"

definition handle_session_method ::
  "string option \<Rightarrow> string \<Rightarrow> json \<Rightarrow> nat \<Rightarrow> string \<Rightarrow> json \<Rightarrow> daemon \<Rightarrow> json \<times> daemon" where
  "handle_session_method recorded capability rid sid meth params d =
     (if meth = ''hello'' then handle_hello recorded capability rid sid params d
      else if meth = ''goodbye'' then (build_ok_response rid (JObj [(''status'', JStr ''ok'')]), fence_session sid d)
      else if meth = ''viewer_status'' then (build_ok_response rid (viewer_snapshot d), d)
      else (build_ok_response rid (JObj [(''status'', JStr ''ok'')]), d))"

text \<open>
  \<open>handle_request\<close> with no other thread in between: the response (None when an exception leaves the
  handler), the work it ran, and the state afterwards.
\<close>

definition handle_request ::
  "(work \<Rightarrow> string + json) \<Rightarrow> string option \<Rightarrow> string \<Rightarrow> json \<Rightarrow> nat \<Rightarrow> daemon \<Rightarrow>
   json option \<times> work option \<times> daemon" where
  "handle_request run recorded capability req sid d =
     (let rid = jget ''id'' req in
      case route_request d req of
        Answer r \<Rightarrow> (Some r, None, d)
      | Crash \<Rightarrow> (None, None, d)
      | Session_Method meth params \<Rightarrow>
          (case handle_session_method recorded capability rid sid meth params d of (r, d') \<Rightarrow> (Some r, None, d'))
      | Counted_Method meth params \<Rightarrow>
          (case acquire_inflight d of
             (False, d1) \<Rightarrow> (Some (shutting_down_response rid), None, d1)
           | (True, d1) \<Rightarrow>
               (case prepare_method rid meth params d1 of
                  (Inl err, d2) \<Rightarrow> (Some err, None, release_inflight d2)
                | (Inr (w, lease), d2) \<Rightarrow>
                    (Some (work_response rid (run w)), Some w,
                     release_inflight (release_caller_lease lease d2)))))"

section \<open>Concurrent requests\<close>

text \<open>Where a handler thread is; a finished one stays as \<open>T_Done\<close>.\<close>

datatype thread =
    T_Recording json nat json
  | T_Routed json json json
  | T_Acquired json json json
  | T_Ready json work "nat option"
  | T_Ran "nat option" json
  | T_Finishing json
  | T_Done

record system =
  sys_daemon :: daemon
  sys_threads :: "thread list"

text \<open>One action of a thread; the outcomes of its writes and tools, and a fresh capability, are given.\<close>

fun thread_step :: "(work \<Rightarrow> string + json) \<Rightarrow> string option \<Rightarrow> string \<Rightarrow> thread \<Rightarrow> daemon \<Rightarrow> thread \<times> daemon" where
  "thread_step run recorded capability (T_Recording rid sid params) d =
     (T_Done, snd (record_agent_session recorded capability rid sid params d))"
| "thread_step run recorded capability (T_Routed rid meth params) d =
     (case acquire_inflight d of
        (True, d') \<Rightarrow> (T_Acquired rid meth params, d')
      | (False, d') \<Rightarrow> (T_Done, d'))"
| "thread_step run recorded capability (T_Acquired rid meth params) d =
     (case prepare_method rid meth params d of
        (Inl err, d') \<Rightarrow> (T_Finishing err, d')
      | (Inr (w, lease), d') \<Rightarrow> (T_Ready rid w lease, d'))"
| "thread_step run recorded capability (T_Ready rid w lease) d = (T_Ran lease (work_response rid (run w)), d)"
| "thread_step run recorded capability (T_Ran lease resp) d = (T_Finishing resp, release_caller_lease lease d)"
| "thread_step run recorded capability (T_Finishing resp) d = (T_Done, release_inflight d)"
| "thread_step run recorded capability T_Done d = (T_Done, d)"

inductive system_step :: "system \<Rightarrow> system \<Rightarrow> bool" where
  call: "route_request (sys_daemon s) req = Counted_Method meth params \<Longrightarrow>
    system_step s (s\<lparr>sys_threads := sys_threads s @ [T_Routed (jget ''id'' req) meth params]\<rparr>)"
| hello: "route_request (sys_daemon s) req = Session_Method ''hello'' params \<Longrightarrow> \<not> jhas ''owner_id'' params \<Longrightarrow>
    admit_hello (jget ''id'' req) sid (sys_daemon s) = (None, d) \<Longrightarrow>
    system_step s (s\<lparr>sys_daemon := d, sys_threads := sys_threads s @ [T_Recording (jget ''id'' req) sid params]\<rparr>)"
| goodbye: "route_request (sys_daemon s) req = Session_Method ''goodbye'' params \<Longrightarrow>
    system_step s (s\<lparr>sys_daemon := fence_session sid (sys_daemon s)\<rparr>)"
| closed: "system_step s (s\<lparr>sys_daemon := unregister_session sid (sys_daemon s)\<rparr>)"
| thread: "i < length (sys_threads s) \<Longrightarrow>
    thread_step run recorded capability (sys_threads s ! i) (sys_daemon s) = (t, d) \<Longrightarrow>
    system_step s (s\<lparr>sys_daemon := d, sys_threads := (sys_threads s)[i := t]\<rparr>)"
| expired: "system_step s (s\<lparr>sys_daemon := timer_expires (sys_daemon s)\<rparr>)"
| fired: "0 < ds_firing (sys_daemon s) \<Longrightarrow> system_step s (s\<lparr>sys_daemon := grace_fire (sys_daemon s)\<rparr>)"
| drain: "system_step s (s\<lparr>sys_daemon := begin_draining_daemon (sys_daemon s)\<rparr>)"

text \<open>A ready daemon: token and port published, writer running, the initial grace period begun.\<close>

definition system_init :: "string \<Rightarrow> string \<Rightarrow> bool \<Rightarrow> string \<Rightarrow> int \<Rightarrow> system" where
  "system_init db_path key foreground token port =
     \<lparr>sys_daemon = start_initial_grace_period ((daemon_init db_path key foreground)
        \<lparr>ds_auth_token := Some token, ds_service_port := Some port, ds_coordinator := True\<rparr>),
      sys_threads = []\<rparr>"

section \<open>Invariant\<close>

fun counted :: "thread \<Rightarrow> bool" where
  "counted (T_Acquired _ _ _) = True"
| "counted (T_Ready _ _ _) = True"
| "counted (T_Ran _ _) = True"
| "counted (T_Finishing _) = True"
| "counted _ = False"

fun lease_of :: "thread \<Rightarrow> nat option" where
  "lease_of (T_Ready _ _ l) = l"
| "lease_of (T_Ran l _) = l"
| "lease_of _ = None"

definition holders :: "nat \<Rightarrow> thread list \<Rightarrow> nat" where
  "holders k ts = length (filter (\<lambda>t. lease_of t = Some k) ts)"

definition recs :: "daemon \<Rightarrow> agent_rec set" where
  "recs d = snd ` set (ds_agents d)"

definition leases_ok :: "daemon \<Rightarrow> thread list \<Rightarrow> bool" where
  "leases_ok d ts \<longleftrightarrow> (\<forall>r \<in> recs d. ar_leases r = holders (ar_ref r) ts \<and> ar_ref r < ds_next_ref d) \<and>
     (\<forall>t \<in> set ts. \<forall>k. lease_of t = Some k \<longrightarrow> k < ds_next_ref d)"

definition timer_ok :: "daemon \<Rightarrow> bool" where
  "timer_ok d \<longleftrightarrow> quiet d \<longrightarrow> ds_timer d = Armed \<or> 0 < ds_firing d"

definition system_inv :: "system \<Rightarrow> bool" where
  "system_inv s \<longleftrightarrow> ds_inflight (sys_daemon s) = int (length (filter counted (sys_threads s))) \<and>
     leases_ok (sys_daemon s) (sys_threads s) \<and> timer_ok (sys_daemon s)"

lemma set_update_subset: "set (AList.update k v al) \<subseteq> insert (k, v) (set al)"
  by (induction al) auto

lemma length_filter_update:
  assumes "i < length ts"
  shows "length (filter P (ts[i := t])) + (if P (ts ! i) then 1 else 0) =
    length (filter P ts) + (if P t then 1 else 0)"
  using assms
proof (induction ts arbitrary: i)
  case (Cons a ts)
  then show ?case by (cases i) auto
qed simp

lemma holders_update:
  assumes "i < length ts"
  shows "holders k (ts[i := t]) + (if lease_of (ts ! i) = Some k then 1 else 0) =
    holders k ts + (if lease_of t = Some k then 1 else 0)"
  unfolding holders_def by (rule length_filter_update[OF assms])

lemma holders_append [simp]: "holders k (ts @ [t]) = holders k ts + (if lease_of t = Some k then 1 else 0)"
  by (simp add: holders_def)

text \<open>Changes of the daemon that concern neither leases nor the count of requests.\<close>

lemma rearm_frame [simp]:
  "ds_agents (rearm d) = ds_agents d" "ds_next_ref (rearm d) = ds_next_ref d" "ds_inflight (rearm d) = ds_inflight d"
  "ds_draining (rearm d) = ds_draining d" "ds_sessions (rearm d) = ds_sessions d"
  by (simp_all add: rearm_def start_grace_timer_def)

lemma rearm_timer_ok [simp]: "timer_ok (rearm d)"
  by (simp add: timer_ok_def rearm_def start_grace_timer_def)

lemma leases_okI:
  assumes "\<And>r. r \<in> recs d \<Longrightarrow> ar_leases r = holders (ar_ref r) ts \<and> ar_ref r < ds_next_ref d"
    "\<And>t k. t \<in> set ts \<Longrightarrow> lease_of t = Some k \<Longrightarrow> k < ds_next_ref d"
  shows "leases_ok d ts"
  unfolding leases_ok_def using assms by blast

lemma leases_okD:
  assumes "leases_ok d ts"
  shows "r \<in> recs d \<Longrightarrow> ar_leases r = holders (ar_ref r) ts \<and> ar_ref r < ds_next_ref d"
    "t \<in> set ts \<Longrightarrow> lease_of t = Some k \<Longrightarrow> k < ds_next_ref d"
  using assms unfolding leases_ok_def by blast+

lemma leases_ok_cong:
  assumes "leases_ok d ts" "recs d' \<subseteq> recs d" "ds_next_ref d' = ds_next_ref d"
    "\<And>k. holders k ts' = holders k ts" "\<And>t k. t \<in> set ts' \<Longrightarrow> lease_of t = Some k \<Longrightarrow> \<exists>u \<in> set ts. lease_of u = Some k"
  shows "leases_ok d' ts'"
proof (rule leases_okI)
  show "ar_leases r = holders (ar_ref r) ts' \<and> ar_ref r < ds_next_ref d'" if "r \<in> recs d'" for r
    using leases_okD(1)[OF assms(1), of r] that assms(2-4) by auto
  show "k < ds_next_ref d'" if "t \<in> set ts'" "lease_of t = Some k" for t k
    using assms(5)[OF that] leases_okD(2)[OF assms(1)] assms(3) by auto
qed

lemma unregister_frame:
  "recs (unregister_session sid d) \<subseteq> recs d"
  "ds_next_ref (unregister_session sid d) = ds_next_ref d" "ds_inflight (unregister_session sid d) = ds_inflight d"
  "ds_draining (unregister_session sid d) = ds_draining d" "timer_ok (unregister_session sid d)"
  by (auto simp: unregister_session_def AList.delete_eq recs_def)

lemma record_cases:
  assumes "record_agent_session recorded capability rid sid params d = (r, d')"
  obtains "d' = d" | "d' = unregister_session sid d"
  | x where "d' = d\<lparr>ds_agents := AList.update sid x (ds_agents d), ds_next_ref := Suc (ds_next_ref d)\<rparr>"
      "ar_ref x = ds_next_ref d" "ar_leases x = 0" "\<not> ar_closing x"
  using assms by (auto simp: record_agent_session_def split: if_splits option.splits)

lemma validate_cases:
  assumes "validate_caller_session rid params d = (r, d')"
  obtains e where "d' = d" "r = Inl e" | "d' = d" "r = Inr None"
  | x where "r = Inr (Some (ar_ref x))" "x \<in> recs d" "\<not> ar_closing x"
      "d' = update_agent (\<lambda>y. ar_ref y = ar_ref x) (\<lambda>y. y\<lparr>ar_leases := ar_leases y + 1\<rparr>) d"
proof -
  have mem: "find_caller s cap al = Some (Some x) \<Longrightarrow> x \<in> snd ` set al" for s cap al x
    by (induction s cap al rule: find_caller.induct) (auto split: if_splits option.splits)
  note eqs = assms[unfolded validate_caller_session_def]
  consider (bad) err where "caller_metadata rid params = Inl err" | (none) "caller_metadata rid params = Inr None"
    | (pair) s cap where "caller_metadata rid params = Inr (Some (s, cap))"
    by (cases "caller_metadata rid params") (auto, metis option.exhaust surj_pair)
  then show thesis
  proof cases
    case bad
    then have "d' = d" "r = Inl (Some err)" using eqs by simp_all
    then show thesis by (rule that(1))
  next
    case none
    then show thesis using eqs by (intro that(2)) simp_all
  next
    case (pair s cap)
    show thesis
    proof (cases "\<exists>x. find_caller s cap (ds_agents d) = Some (Some x) \<and> \<not> ar_closing x")
      case True
      then obtain x where x: "find_caller s cap (ds_agents d) = Some (Some x)" "\<not> ar_closing x" by blast
      then have "r = Inr (Some (ar_ref x))"
        "d' = update_agent (\<lambda>y. ar_ref y = ar_ref x) (\<lambda>y. y\<lparr>ar_leases := ar_leases y + 1\<rparr>) d"
        using eqs pair by simp_all
      then show thesis using mem[OF x(1), folded recs_def] x(2) by (intro that(3))
    next
      case False
      then have "d' = d \<and> (\<exists>e. r = Inl e)"
        using eqs pair by (auto split: option.splits if_splits)
      then show thesis using that(1) by blast
    qed
  qed
qed

lemma prepare_cases:
  assumes "prepare_method rid meth params d = (r, d')"
  obtains e where "d' = d" "r = Inl e" | w where "d' = d" "r = Inr (w, None)"
  | w x where "r = Inr (w, Some (ar_ref x))" "x \<in> recs d" "\<not> ar_closing x"
      "d' = update_agent (\<lambda>y. ar_ref y = ar_ref x) (\<lambda>y. y\<lparr>ar_leases := ar_leases y + 1\<rparr>) d"
proof -
  consider (other) "meth \<noteq> JStr ''tool_call''" | (bad) err where "meth = JStr ''tool_call''" "tool_request rid params d = Inl err"
    | (tool) tool kwargs where "meth = JStr ''tool_call''" "tool_request rid params d = Inr (tool, kwargs)"
    by (cases "tool_request rid params d") auto
  then show thesis
  proof cases
    case other
    then have "d' = d \<and> ((\<exists>e. r = Inl e) \<or> (\<exists>w. r = Inr (w, None)))"
      using assms by (auto simp: prepare_method_def split: if_splits json.splits)
    then show thesis using that(1,2) by blast
  next
    case bad
    then have "d' = d" "r = Inl err" using assms by (simp_all add: prepare_method_def prepare_tool_call_def)
    then show thesis by (rule that(1))
  next
    case tool
    obtain v dv where v: "validate_caller_session rid params d = (v, dv)" by fastforce
    show thesis
    proof (rule validate_cases[OF v])
      fix e assume "dv = d" "v = Inl e"
      then have "d' = d" "\<exists>x. r = Inl x"
        using assms tool v by (auto simp: prepare_method_def prepare_tool_call_def split: option.splits)
      then show thesis using that(1) by blast
    next
      assume "dv = d" "v = Inr None"
      then have "d' = d" "r = Inr (Tool tool kwargs, None)"
        using assms tool v by (simp_all add: prepare_method_def prepare_tool_call_def)
      then show thesis by (rule that(2))
    next
      fix x assume x: "v = Inr (Some (ar_ref x))" "x \<in> recs d" "\<not> ar_closing x"
        "dv = update_agent (\<lambda>y. ar_ref y = ar_ref x) (\<lambda>y. y\<lparr>ar_leases := ar_leases y + 1\<rparr>) d"
      then have "r = Inr (Tool tool kwargs, Some (ar_ref x))" "d' = dv"
        using assms tool v by (simp_all add: prepare_method_def prepare_tool_call_def)
      then show thesis using that(3) x by blast
    qed
  qed
qed

lemma update_agent_frame [simp]:
  "ds_next_ref (update_agent P f d) = ds_next_ref d" "ds_inflight (update_agent P f d) = ds_inflight d"
  "ds_sessions (update_agent P f d) = ds_sessions d" "ds_draining (update_agent P f d) = ds_draining d"
  "timer_ok (update_agent P f d) = timer_ok d"
  by (simp_all add: update_agent_def timer_ok_def quiet_def)

lemma recs_update_agent: "recs (update_agent P f d) = (\<lambda>y. if P y then f y else y) ` recs d"
  by (force simp: recs_def update_agent_def image_image case_prod_unfold)

lemma leases_ok_take:
  assumes ok: "leases_ok d ts" and x: "x \<in> recs d" and i: "i < length ts"
    and old: "lease_of (ts ! i) = None" and new: "lease_of t = Some (ar_ref x)"
  shows "leases_ok (update_agent (\<lambda>y. ar_ref y = ar_ref x) (\<lambda>y. y\<lparr>ar_leases := ar_leases y + 1\<rparr>) d) (ts[i := t])"
    (is "leases_ok ?d _")
proof (rule leases_okI)
  fix z assume "z \<in> recs ?d"
  then obtain y where y: "y \<in> recs d"
    "z = (if ar_ref y = ar_ref x then y\<lparr>ar_leases := ar_leases y + 1\<rparr> else y)"
    by (auto simp: recs_update_agent)
  have "holders (ar_ref y) (ts[i := t]) = holders (ar_ref y) ts + (if ar_ref y = ar_ref x then 1 else 0)"
    using holders_update[OF i, of "ar_ref y" t] old new by auto
  then show "ar_leases z = holders (ar_ref z) (ts[i := t]) \<and> ar_ref z < ds_next_ref ?d"
    using y(2) leases_okD(1)[OF ok y(1)] by auto
next
  fix u k assume u: "u \<in> set (ts[i := t])" "lease_of u = Some k"
  have "u = t \<or> u \<in> set ts" using u(1) set_update_subset_insert[of ts i t] by auto
  then show "k < ds_next_ref ?d"
    using u(2) new leases_okD(1)[OF ok x] leases_okD(2)[OF ok] by auto
qed

lemma leases_ok_release:
  assumes ok: "leases_ok d ts" and i: "i < length ts" and old: "lease_of (ts ! i) = l" and new: "lease_of t = None"
  shows "leases_ok (release_caller_lease l d) (ts[i := t])"
proof -
  have mem: "u \<in> set ts" if "u \<in> set (ts[i := t])" "lease_of u = Some k" for u k
    using that new set_update_subset_insert[of ts i t] by auto
  have h: "holders k (ts[i := t]) + (if l = Some k then 1 else 0) = holders k ts" for k
    using holders_update[OF i, of k t] old new by simp
  have ref: "ds_next_ref (release_caller_lease l d) = ds_next_ref d"
    by (simp add: release_caller_lease_def split: option.splits)
  show ?thesis
  proof (rule leases_okI)
    fix z assume z: "z \<in> recs (release_caller_lease l d)"
    obtain y where y: "y \<in> recs d"
      "z = (if l = Some (ar_ref y) then y\<lparr>ar_leases := ar_leases y - 1\<rparr> else y)"
    proof (cases l)
      case None
      then show thesis using z that by (simp add: release_caller_lease_def)
    next
      case (Some k)
      then obtain y where "y \<in> recs d" "z = (if ar_ref y = k then y\<lparr>ar_leases := ar_leases y - 1\<rparr> else y)"
        using z by (auto simp: release_caller_lease_def recs_update_agent)
      then show thesis using that[of y] Some by simp
    qed
    then show "ar_leases z = holders (ar_ref z) (ts[i := t]) \<and> ar_ref z < ds_next_ref (release_caller_lease l d)"
      using leases_okD(1)[OF ok y(1)] h[of "ar_ref y"] ref by auto
  qed (use mem leases_okD(2)[OF ok] ref in auto)
qed

lemma leases_ok_record:
  assumes "leases_ok d ts" "record_agent_session recorded capability rid sid params d = (r, d')"
  shows "leases_ok d' ts"
proof (rule record_cases[OF assms(2)])
  show "leases_ok d' ts" if "d' = unregister_session sid d"
    unfolding that using unregister_frame by (intro leases_ok_cong[OF assms(1)]) auto
  fix x assume x: "d' = d\<lparr>ds_agents := AList.update sid x (ds_agents d), ds_next_ref := Suc (ds_next_ref d)\<rparr>"
    "ar_ref x = ds_next_ref d" "ar_leases x = 0"
  have "lease_of t \<noteq> Some (ds_next_ref d)" if "t \<in> set ts" for t
    using leases_okD(2)[OF assms(1) that] by blast
  then have new: "holders (ds_next_ref d) ts = 0" unfolding holders_def by (simp add: filter_empty_conv)
  have or: "z = x \<or> z \<in> recs d" if "z \<in> recs d'" for z
    using that set_update_subset[of sid x "ds_agents d"] by (force simp: x recs_def)
  show "leases_ok d' ts"
  proof (rule leases_okI)
    show "ar_leases z = holders (ar_ref z) ts \<and> ar_ref z < ds_next_ref d'" if "z \<in> recs d'" for z
      using or[OF that] leases_okD(1)[OF assms(1), of z] x new less_SucI by auto
    show "k < ds_next_ref d'" if "t \<in> set ts" "lease_of t = Some k" for t k
      using leases_okD(2)[OF assms(1) that] x(1) by simp
  qed
qed (use assms(1) in simp)

lemma timer_ok_record:
  assumes "timer_ok d" "record_agent_session recorded capability rid sid params d = (r, d')"
  shows "timer_ok d'"
proof (rule record_cases[OF assms(2)])
  show "timer_ok d'" if "d' = unregister_session sid d" using that unregister_frame(5) by simp
qed (use assms(1) in \<open>auto simp: timer_ok_def quiet_def\<close>)

lemma record_inflight:
  "record_agent_session recorded capability rid sid params d = (r, d') \<Longrightarrow> ds_inflight d' = ds_inflight d \<and> ds_draining d' = ds_draining d"
  by (erule record_cases) (simp_all add: unregister_frame)

lemma release_lease_frame [simp]:
  "ds_inflight (release_caller_lease l d) = ds_inflight d" "ds_draining (release_caller_lease l d) = ds_draining d"
  "timer_ok (release_caller_lease l d) = timer_ok d"
  by (simp_all add: release_caller_lease_def split: option.splits)

lemma leases_ok_same:
  assumes "leases_ok d ts" "i < length ts" "lease_of t = lease_of (ts ! i)" "ds_agents d' = ds_agents d"
    "ds_next_ref d' = ds_next_ref d"
  shows "leases_ok d' (ts[i := t])"
proof (rule leases_ok_cong[OF assms(1)])
  show "holders k (ts[i := t]) = holders k ts" for k
    using holders_update[OF assms(2), of k t] assms(3) by simp
  show "\<exists>v \<in> set ts. lease_of v = Some k" if "u \<in> set (ts[i := t])" "lease_of u = Some k" for u k
    using that assms(2,3) set_update_subset_insert[of ts i t] nth_mem[OF assms(2)] by (metis insertE subsetD)
qed (simp_all add: assms(4,5) recs_def)

lemma thread_step_inv:
  assumes inv: "system_inv \<lparr>sys_daemon = d, sys_threads = ts\<rparr>" and i: "i < length ts"
    and step: "thread_step run recorded capability (ts ! i) d = (t, d')"
  shows "system_inv \<lparr>sys_daemon = d', sys_threads = ts[i := t]\<rparr>"
proof -
  have c: "ds_inflight d = int (length (filter counted ts))" and l: "leases_ok d ts" and tm: "timer_ok d"
    using inv by (simp_all add: system_inv_def)
  note cnt = length_filter_update[OF i, of counted t]
  show ?thesis
  proof (cases "ts ! i")
    case (T_Recording rid sid params)
    obtain r where r: "record_agent_session recorded capability rid sid params d = (r, d')" "t = T_Done"
      using step T_Recording by (metis thread_step.simps(1) prod.collapse prod.inject)
    have "leases_ok d' (ts[i := t])"
      by (rule leases_ok_same[OF leases_ok_record[OF l r(1)] i]) (simp_all add: r(2) T_Recording)
    then show ?thesis
      using timer_ok_record[OF tm r(1)] record_inflight[OF r(1)] cnt c by (simp add: system_inv_def T_Recording r(2))
  next
    case (T_Routed rid meth params)
    have lo: "leases_ok d' (ts[i := t])"
      by (rule leases_ok_same[OF l i]) (use step T_Routed in \<open>auto simp: acquire_inflight_def split: if_splits\<close>)
    show ?thesis
    proof (cases "ds_draining d")
      case True
      then show ?thesis using step T_Routed lo cnt c tm by (auto simp: acquire_inflight_def system_inv_def)
    next
      case False
      then show ?thesis using step T_Routed lo cnt c
        by (auto simp: acquire_inflight_def system_inv_def timer_ok_def quiet_def)
    qed
  next
    case (T_Acquired rid meth params)
    obtain r where r: "prepare_method rid meth params d = (r, d')" "t = (case r of Inl e \<Rightarrow> T_Finishing e | Inr (w, l) \<Rightarrow> T_Ready rid w l)"
      using step T_Acquired by (auto split: prod.splits sum.splits)
    show ?thesis
    proof (rule prepare_cases[OF r(1)])
      fix e assume "d' = d" "r = Inl e"
      then show ?thesis using r(2) T_Acquired cnt c tm leases_ok_same[OF l i, of t d] by (simp add: system_inv_def)
    next
      fix w assume "d' = d" "r = Inr (w, None)"
      then show ?thesis using r(2) T_Acquired cnt c tm leases_ok_same[OF l i, of t d] by (simp add: system_inv_def)
    next
      fix w x assume x: "r = Inr (w, Some (ar_ref x))" "x \<in> recs d"
        "d' = update_agent (\<lambda>y. ar_ref y = ar_ref x) (\<lambda>y. y\<lparr>ar_leases := ar_leases y + 1\<rparr>) d"
      then show ?thesis using r(2) T_Acquired cnt c tm leases_ok_take[OF l x(2) i, of t] by (simp add: system_inv_def)
    qed
  next
    case (T_Ready rid w lease)
    then show ?thesis using step cnt c tm leases_ok_same[OF l i, of t d] by (auto simp: system_inv_def)
  next
    case (T_Ran lease resp)
    then show ?thesis using step cnt c tm leases_ok_release[OF l i, of lease t] by (auto simp: system_inv_def)
  next
    case (T_Finishing resp)
    then show ?thesis using step cnt c leases_ok_same[OF l i, of t d'] by (auto simp: system_inv_def release_inflight_def)
  next
    case T_Done
    then show ?thesis using step inv i by (metis thread_step.simps(7) prod.inject list_update_id)
  qed
qed

lemma timer_frame [simp]:
  "recs (timer_expires d) = recs d" "recs (grace_fire d) = recs d" "recs (begin_draining_daemon d) = recs d"
  "ds_next_ref (timer_expires d) = ds_next_ref d" "ds_next_ref (grace_fire d) = ds_next_ref d"
  "ds_next_ref (begin_draining_daemon d) = ds_next_ref d"
  by (simp_all add: timer_expires_def grace_fire_def begin_draining_daemon_def recs_def Let_def)

lemma timer_leases [simp]:
  "leases_ok (timer_expires d) ts = leases_ok d ts" "leases_ok (grace_fire d) ts = leases_ok d ts"
  "leases_ok (begin_draining_daemon d) ts = leases_ok d ts"
  by (simp_all add: leases_ok_def)

lemma timer_inflight [simp]:
  "ds_inflight (timer_expires d) = ds_inflight d" "ds_inflight (grace_fire d) = ds_inflight d"
  "ds_inflight (begin_draining_daemon d) = ds_inflight d"
  by (simp_all add: timer_expires_def grace_fire_def begin_draining_daemon_def Let_def)

lemma timer_ok_ops:
  "timer_ok d \<Longrightarrow> timer_ok (timer_expires d)" "timer_ok (grace_fire d)" "timer_ok (begin_draining_daemon d)"
  by (auto simp: timer_ok_def quiet_def timer_expires_def grace_fire_def begin_draining_daemon_def Let_def)

lemma fence_recs:
  assumes "x \<in> recs (fence_session sid d)"
  shows "\<exists>y \<in> recs d. x = y \<or> x = y\<lparr>ar_closing := True\<rparr>"
proof (cases "map_of (ds_agents d) sid")
  case None
  then show ?thesis using assms by (auto simp: fence_session_def)
next
  case (Some r)
  have "r \<in> recs d" using map_of_SomeD[OF Some] unfolding recs_def by (rule image_eqI[rotated]) simp
  moreover have "x = r\<lparr>ar_closing := True\<rparr> \<or> x \<in> recs d"
    using assms Some set_update_subset[of sid "r\<lparr>ar_closing := True\<rparr>" "ds_agents d"]
    unfolding recs_def fence_session_def by auto
  ultimately show ?thesis by blast
qed

lemma leases_ok_append: "leases_ok d ts \<Longrightarrow> lease_of t = None \<Longrightarrow> leases_ok d (ts @ [t])"
  by (rule leases_ok_cong[of d ts]) auto

lemma system_step_inv: "system_step s s' \<Longrightarrow> system_inv s \<Longrightarrow> system_inv s'"
proof (induction rule: system_step.induct)
  case (call s req meth params)
  then show ?case using leases_ok_append by (simp add: system_inv_def)
next
  case (hello s req params sid d)
  then have d: "d = (sys_daemon s)\<lparr>ds_sessions := List.insert sid (ds_sessions (sys_daemon s)), ds_timer := No_Timer\<rparr>"
    by (simp add: admit_hello_def split: if_splits)
  have "leases_ok d (sys_threads s)"
    by (rule leases_ok_cong[of "sys_daemon s" "sys_threads s"]) (use hello.prems in \<open>auto simp: system_inv_def d recs_def\<close>)
  moreover have "ds_sessions d \<noteq> []" by (auto simp: d List.insert_def)
  ultimately show ?case using hello.prems leases_ok_append
    by (simp add: system_inv_def timer_ok_def quiet_def) (simp add: d)
next
  case (goodbye s req params sid)
  let ?d = "sys_daemon s" let ?e = "fence_session sid ?d"
  have f: "ds_next_ref ?e = ds_next_ref ?d" "ds_inflight ?e = ds_inflight ?d" "timer_ok ?e = timer_ok ?d"
    by (simp_all add: fence_session_def timer_ok_def quiet_def split: option.splits)
  have ok: "leases_ok ?d (sys_threads s)" using goodbye.prems by (simp add: system_inv_def)
  have "leases_ok ?e (sys_threads s)"
  proof (rule leases_okI)
    show "ar_leases r = holders (ar_ref r) (sys_threads s) \<and> ar_ref r < ds_next_ref ?e"
      if "r \<in> recs ?e" for r
      using fence_recs[OF that] leases_okD(1)[OF ok] f(1) by auto
    show "k < ds_next_ref ?e" if "t \<in> set (sys_threads s)" "lease_of t = Some k" for t k
      using leases_okD(2)[OF ok that] f(1) by simp
  qed
  then show ?case using goodbye.prems f by (simp add: system_inv_def)
next
  case (closed s sid)
  then show ?case using unregister_frame leases_ok_cong[of "sys_daemon s" "sys_threads s" "unregister_session sid (sys_daemon s)" "sys_threads s"]
    by (auto simp: system_inv_def)
next
  case (thread i s run recorded capability t d)
  then show ?case using thread_step_inv[of "sys_daemon s" "sys_threads s" i run recorded capability t d] by (cases s) simp
qed (auto simp: system_inv_def intro: timer_ok_ops)

lemma system_inv_init: "system_inv (system_init db_path key foreground token port)"
  by (auto simp: system_inv_def system_init_def start_initial_grace_period_def start_grace_timer_def daemon_init_def
      leases_ok_def recs_def timer_ok_def quiet_def split: if_splits)

lemma system_steps_inv: "system_step\<^sup>*\<^sup>* s s' \<Longrightarrow> system_inv s \<Longrightarrow> system_inv s'"
  by (induction rule: rtranclp_induct) (auto dest: system_step_inv)

section \<open>Lemmas: draining and fenced sessions\<close>

lemma thread_step_draining:
  assumes "thread_step run recorded capability u d = (t, d')" "ds_draining d"
  shows "ds_draining d' \<and> (counted t \<longrightarrow> counted u)"
proof (cases u)
  case (T_Recording rid sid params)
  then show ?thesis using assms record_inflight
    by (metis counted.simps(7) prod.collapse prod.inject thread_step.simps(1))
next
  case (T_Routed rid meth params)
  then show ?thesis using assms by (auto simp: acquire_inflight_def)
next
  case (T_Acquired rid meth params)
  obtain r e where r: "prepare_method rid meth params d = (r, e)" by fastforce
  have "ds_draining e" by (rule prepare_cases[OF r]) (use assms(2) in simp_all)
  then show ?thesis using assms T_Acquired r by (auto split: sum.splits prod.splits)
qed (use assms in \<open>auto simp: release_inflight_def\<close>)

text \<open>Once draining, always draining, and the requests in progress can only become fewer.\<close>

lemma system_step_draining:
  assumes "system_step s s'" "ds_draining (sys_daemon s)" "\<forall>t \<in> set (sys_threads s). \<not> counted t"
  shows "ds_draining (sys_daemon s') \<and> (\<forall>t \<in> set (sys_threads s'). \<not> counted t)"
  using assms
proof (induction rule: system_step.induct)
  case (hello s req params sid d)
  then show ?case by (simp add: admit_hello_def)
next
  case (goodbye s req params sid)
  then show ?case by (simp add: fence_session_def split: option.splits)
next
  case (thread i s run recorded capability t d)
  have "\<not> counted (sys_threads s ! i)" using thread by simp
  then have "\<not> counted t" "ds_draining d" using thread_step_draining[OF thread.hyps(2)] thread.prems by auto
  then show ?case using thread.prems set_update_subset_insert[of "sys_threads s" i t] by auto
qed (auto simp: unregister_frame timer_expires_def grace_fire_def begin_draining_daemon_def Let_def)

text \<open>A fenced reference: no thread holds it, and every session object with it is closing.\<close>

definition fenced :: "nat \<Rightarrow> system \<Rightarrow> bool" where
  "fenced k s \<longleftrightarrow> k < ds_next_ref (sys_daemon s) \<and> (\<forall>t \<in> set (sys_threads s). lease_of t \<noteq> Some k) \<and>
     (\<forall>r \<in> recs (sys_daemon s). ar_ref r = k \<longrightarrow> ar_closing r)"

lemma fenced_cong:
  assumes "fenced k s" "ds_next_ref (sys_daemon s') = ds_next_ref (sys_daemon s)"
    "\<And>t. t \<in> set (sys_threads s') \<Longrightarrow> lease_of t = None \<or> (\<exists>u \<in> set (sys_threads s). lease_of u = lease_of t)"
    "\<And>x. x \<in> recs (sys_daemon s') \<Longrightarrow> \<exists>y \<in> recs (sys_daemon s). ar_ref x = ar_ref y \<and> (ar_closing y \<longrightarrow> ar_closing x)"
  shows "fenced k s'"
  unfolding fenced_def
proof (intro conjI ballI impI)
  show "k < ds_next_ref (sys_daemon s')" using assms(1,2) by (simp add: fenced_def)
  show "lease_of t \<noteq> Some k" if "t \<in> set (sys_threads s')" for t
    using assms(3)[OF that] assms(1) unfolding fenced_def by force
  show "ar_closing x" if "x \<in> recs (sys_daemon s')" "ar_ref x = k" for x
    using assms(4)[OF that(1)] that(2) assms(1) unfolding fenced_def by auto
qed

lemma fencedI:
  assumes "k < ds_next_ref d" "\<And>t. t \<in> set ts \<Longrightarrow> lease_of t \<noteq> Some k" "\<And>x. x \<in> recs d \<Longrightarrow> ar_ref x = k \<Longrightarrow> ar_closing x"
  shows "fenced k (s\<lparr>sys_daemon := d, sys_threads := ts\<rparr>)"
  using assms by (auto simp: fenced_def)

lemma fencedD:
  assumes "fenced k s"
  shows "k < ds_next_ref (sys_daemon s)" "t \<in> set (sys_threads s) \<Longrightarrow> lease_of t \<noteq> Some k"
    "x \<in> recs (sys_daemon s) \<Longrightarrow> ar_ref x = k \<Longrightarrow> ar_closing x"
  using assms by (auto simp: fenced_def)

lemma thread_step_fenced:
  assumes step: "thread_step run recorded capability (sys_threads s ! i) (sys_daemon s) = (t, d)"
    and i: "i < length (sys_threads s)" and f: "fenced k s"
  shows "fenced k (s\<lparr>sys_daemon := d, sys_threads := (sys_threads s)[i := t]\<rparr>)"
proof -
  let ?u = "sys_threads s ! i"
  have sub: "v = t \<or> v \<in> set (sys_threads s)" if "v \<in> set ((sys_threads s)[i := t])" for v
    using that set_update_subset_insert[of "sys_threads s" i t] by auto
  have easy: ?thesis if "ds_next_ref d = ds_next_ref (sys_daemon s)" "lease_of t = None \<or> lease_of t = lease_of ?u"
    "\<And>x. x \<in> recs d \<Longrightarrow> \<exists>y \<in> recs (sys_daemon s). ar_ref x = ar_ref y \<and> (ar_closing y \<longrightarrow> ar_closing x)"
  proof (rule fenced_cong[OF f])
    show "lease_of v = None \<or> (\<exists>u \<in> set (sys_threads s). lease_of u = lease_of v)"
      if "v \<in> set (sys_threads (s\<lparr>sys_daemon := d, sys_threads := (sys_threads s)[i := t]\<rparr>))" for v
      using sub[of v] that \<open>lease_of t = None \<or> lease_of t = lease_of ?u\<close> nth_mem[OF i] by auto
  qed (use that in auto)
  have kept: ?thesis if "ds_agents d = ds_agents (sys_daemon s)" "ds_next_ref d = ds_next_ref (sys_daemon s)"
    "lease_of t = None \<or> lease_of t = lease_of ?u"
    using that by (intro easy) (auto simp: recs_def)
  show ?thesis
  proof (cases ?u)
    case (T_Recording rid sid params)
    obtain r where r: "record_agent_session recorded capability rid sid params (sys_daemon s) = (r, d)" "t = T_Done"
      using step T_Recording by (metis thread_step.simps(1) prod.collapse prod.inject)
    show ?thesis
    proof (rule record_cases[OF r(1)])
      assume "d = unregister_session sid (sys_daemon s)"
      then show ?thesis using unregister_frame[of sid "sys_daemon s"] r(2) by (intro easy) auto
    next
      fix x assume x: "d = (sys_daemon s)\<lparr>ds_agents := AList.update sid x (ds_agents (sys_daemon s)),
          ds_next_ref := Suc (ds_next_ref (sys_daemon s))\<rparr>" "ar_ref x = ds_next_ref (sys_daemon s)"
      have or: "z = x \<or> z \<in> recs (sys_daemon s)" if "z \<in> recs d" for z
        using that set_update_subset[of sid x "ds_agents (sys_daemon s)"] by (force simp: x recs_def)
      show ?thesis
      proof (rule fencedI)
        show "k < ds_next_ref d" using fencedD(1)[OF f] x by simp
        show "lease_of v \<noteq> Some k" if "v \<in> set ((sys_threads s)[i := t])" for v
          using sub[OF that] fencedD(2)[OF f] r(2) by auto
        show "ar_closing z" if "z \<in> recs d" "ar_ref z = k" for z
          using or[OF that(1)] that(2) fencedD(1,3)[OF f] x(2) by auto
      qed
    qed (use r(2) easy in auto)
  next
    case (T_Acquired rid meth params)
    obtain r where r: "prepare_method rid meth params (sys_daemon s) = (r, d)" "t = (case r of Inl e \<Rightarrow> T_Finishing e | Inr (w, l) \<Rightarrow> T_Ready rid w l)"
      using step T_Acquired by (auto split: prod.splits sum.splits)
    show ?thesis
    proof (rule prepare_cases[OF r(1)])
      fix w x assume x: "r = Inr (w, Some (ar_ref x))" "x \<in> recs (sys_daemon s)" "\<not> ar_closing x"
        "d = update_agent (\<lambda>y. ar_ref y = ar_ref x) (\<lambda>y. y\<lparr>ar_leases := ar_leases y + 1\<rparr>) (sys_daemon s)"
      have ne: "ar_ref x \<noteq> k" using fencedD(3)[OF f x(2)] x(3) by blast
      show ?thesis
      proof (rule fencedI)
        show "k < ds_next_ref d" using fencedD(1)[OF f] x(4) by simp
        show "lease_of v \<noteq> Some k" if "v \<in> set ((sys_threads s)[i := t])" for v
          using sub[OF that] fencedD(2)[OF f] ne r(2) x(1) by auto
        show "ar_closing z" if "z \<in> recs d" "ar_ref z = k" for z
          using that fencedD(3)[OF f] x(4) by (auto simp: recs_update_agent split: if_splits)
      qed
    qed (use r(2) easy in auto)
  next
    case (T_Ran lease resp)
    have "\<exists>y \<in> recs (sys_daemon s). ar_ref x = ar_ref y \<and> (ar_closing y \<longrightarrow> ar_closing x)"
      if "x \<in> recs (release_caller_lease lease (sys_daemon s))" for x
      using that by (auto simp: release_caller_lease_def recs_update_agent split: option.splits)
    then show ?thesis using step T_Ran
      by (intro easy) (auto simp: release_caller_lease_def split: option.splits)
  qed (rule kept; use step in \<open>auto simp: acquire_inflight_def release_inflight_def split: if_splits\<close>)+
qed

lemma system_step_fenced: "system_step s s' \<Longrightarrow> fenced k s \<Longrightarrow> fenced k s'"
proof (induction rule: system_step.induct)
  case (hello s req params sid d)
  then show ?case by (intro fenced_cong[OF hello.prems]) (auto simp: admit_hello_def recs_def split: if_splits)
next
  case (goodbye s req params sid)
  show ?case
  proof (rule fenced_cong[OF goodbye.prems])
    show "\<exists>y \<in> recs (sys_daemon s). ar_ref x = ar_ref y \<and> (ar_closing y \<longrightarrow> ar_closing x)"
      if "x \<in> recs (sys_daemon (s\<lparr>sys_daemon := fence_session sid (sys_daemon s)\<rparr>))" for x
      using fence_recs[of x sid "sys_daemon s"] that by auto
  qed (auto simp: fence_session_def split: option.splits)
next
  case (closed s sid)
  then show ?case using unregister_frame[of sid "sys_daemon s"] by (intro fenced_cong[OF closed.prems]) auto
next
  case (thread i s run recorded capability t d)
  then show ?case using thread_step_fenced by blast
next
  case (call s req meth params)
  then show ?case by (intro fenced_cong[OF call.prems]) auto
next
  case (expired s)
  then show ?case by (intro fenced_cong[OF expired.prems]) auto
next
  case (fired s)
  then show ?case by (intro fenced_cong[OF fired.prems]) auto
next
  case (drain s)
  then show ?case by (intro fenced_cong[OF drain.prems]) auto
qed

lemma system_steps_fenced: "system_step\<^sup>*\<^sup>* s s' \<Longrightarrow> fenced k s \<Longrightarrow> fenced k s'"
  by (induction rule: rtranclp_induct) (auto dest: system_step_fenced)

lemma system_steps_draining:
  "system_step\<^sup>*\<^sup>* s s' \<Longrightarrow> ds_draining (sys_daemon s) \<Longrightarrow> \<forall>t \<in> set (sys_threads s). \<not> counted t \<Longrightarrow>
   ds_draining (sys_daemon s') \<and> (\<forall>t \<in> set (sys_threads s'). \<not> counted t)"
  by (induction rule: rtranclp_induct) (auto dest: system_step_draining)

section \<open>Lemmas: what a request runs\<close>

lemma prepare_tool_work:
  assumes "prepare_method rid (JStr ''tool_call'') params d = (Inr (w, lease), d')"
  shows "\<exists>tool. jget ''tool'' params = JStr tool \<and> tool \<in> set DISPATCH_TABLE \<and>
    w = Tool tool (if jtruthy (jget ''kwargs'' params) then jget ''kwargs'' params else JObj [])"
proof -
  obtain tool kwargs where t: "tool_request rid params d = Inr (tool, kwargs)" "w = Tool tool kwargs"
    using assms by (auto simp: prepare_method_def prepare_tool_call_def split: sum.splits prod.splits option.splits)
  then show ?thesis
    by (auto simp: tool_request_def Let_def split: json.splits if_splits)
qed

lemma request_ran:
  assumes "handle_request run recorded capability req sid d = (resp, Some w, d')"
  shows "\<not> ds_draining d" "\<exists>t. ds_auth_token d = Some t \<and> t \<noteq> [] \<and> jget ''token'' req = JStr t"
    "w = Tool tool kwargs \<Longrightarrow> tool \<in> set DISPATCH_TABLE"
    "resp = Some r \<Longrightarrow> response_ok r \<or> response_code r = JStr INTERNAL_ERROR"
    "jget ''method'' req = JStr ''tool_call'' \<Longrightarrow> jget ''params'' req = JObj kvs \<Longrightarrow>
      \<exists>tool. jget ''tool'' (JObj kvs) = JStr tool \<and>
        w = Tool tool (if jtruthy (jget ''kwargs'' (JObj kvs)) then jget ''kwargs'' (JObj kvs) else JObj [])"
proof -
  obtain meth params where route: "route_request d req = Counted_Method meth params"
    using assms by (cases "route_request d req") (auto simp: handle_request_def split: prod.splits)
  obtain b d1 where acq': "acquire_inflight d = (b, d1)" by fastforce
  have b using assms route acq' by (cases b) (simp_all add: handle_request_def Let_def)
  then have acq: "acquire_inflight d = (True, d1)" using acq' by simp
  obtain lease d2 where prep: "prepare_method (jget ''id'' req) meth params d1 = (Inr (w, lease), d2)"
    and resp: "resp = Some (work_response (jget ''id'' req) (run w))"
    using assms route acq by (auto simp: handle_request_def Let_def split: prod.splits sum.splits)
  show tok: "\<not> ds_draining d" using route by (auto simp: route_request_def Let_def)
  have "token_ok d (jget ''token'' req) = Some True"
    using route by (auto simp: route_request_def Let_def split: if_splits option.splits bool.splits)
  then show "\<exists>t. ds_auth_token d = Some t \<and> t \<noteq> [] \<and> jget ''token'' req = JStr t"
    by (auto simp: token_ok_def compare_digest_def split: if_splits json.splits)
  show "tool \<in> set DISPATCH_TABLE" if "w = Tool tool kwargs"
  proof (cases "meth = JStr ''tool_call''")
    case True
    then show ?thesis using prepare_tool_work[of "jget ''id'' req" params d1 w lease d2] prep that by auto
  next
    case False
    then show ?thesis using prep that by (auto simp: prepare_method_def split: if_splits json.splits)
  qed
  show "response_ok r \<or> response_code r = JStr INTERNAL_ERROR" if "resp = Some r"
    using that resp by (auto simp: work_response_def response_ok_def response_code_def build_ok_response_def
        build_error_response_def split: sum.splits)
  show "\<exists>tool. jget ''tool'' (JObj kvs) = JStr tool \<and>
        w = Tool tool (if jtruthy (jget ''kwargs'' (JObj kvs)) then jget ''kwargs'' (JObj kvs) else JObj [])"
    if "jget ''method'' req = JStr ''tool_call''" "jget ''params'' req = JObj kvs"
  proof -
    have "meth = JStr ''tool_call''" "params = JObj kvs"
      using route that by (auto simp: route_request_def Let_def split: if_splits option.splits bool.splits)
    then show ?thesis using prepare_tool_work prep by blast
  qed
qed

section \<open>Properties\<close>



text \<open>
  C32. The goodbye fence: once a hello session is marked closing and its leases have been returned, no
  request ever runs on its behalf again; and the lease count of every session object is exactly the
  number of requests that run on its behalf.
\<close>

theorem goodbye_fence:
  assumes "system_step\<^sup>*\<^sup>* (system_init db_path key foreground token port) s" "(sid, r) \<in> set (ds_agents (sys_daemon s))"
  shows "ar_leases r = length (filter (\<lambda>t. lease_of t = Some (ar_ref r)) (sys_threads s)) \<and>
    (\<forall>s'. (\<forall>x \<in> recs (sys_daemon s). ar_ref x = ar_ref r \<longrightarrow> ar_closing x) \<and> ar_leases r = 0 \<and> system_step\<^sup>*\<^sup>* s s' \<longrightarrow>
       (\<forall>t \<in> set (sys_threads s'). lease_of t \<noteq> Some (ar_ref r)))"
proof -
  have inv: "leases_ok (sys_daemon s) (sys_threads s)"
    using system_steps_inv[OF assms(1) system_inv_init] by (simp add: system_inv_def)
  have r: "r \<in> recs (sys_daemon s)" using assms(2) unfolding recs_def by force
  have l: "ar_leases r = holders (ar_ref r) (sys_threads s)" "ar_ref r < ds_next_ref (sys_daemon s)"
    using leases_okD(1)[OF inv r] by auto
  moreover have "fenced (ar_ref r) s"
    if "\<forall>x \<in> recs (sys_daemon s). ar_ref x = ar_ref r \<longrightarrow> ar_closing x" "ar_leases r = 0"
    using that l unfolding fenced_def holders_def by (auto simp: filter_empty_conv)
  ultimately show ?thesis using system_steps_fenced unfolding holders_def fenced_def by blast
qed

theorem goodbye_fence_witness:
  "\<exists>s. system_step\<^sup>*\<^sup>* (system_init ''db'' ''k'' False ''t'' 1) s \<and> ds_agents (sys_daemon s) \<noteq> [] \<and>
     (\<forall>(sid, r) \<in> set (ds_agents (sys_daemon s)).
        ar_leases r = length (filter (\<lambda>t. lease_of t = Some (ar_ref r)) (sys_threads s)))"
proof -
  let ?s0 = "system_init ''db'' ''k'' False ''t'' 1"
  let ?p = "JObj [(''agent_session_id'', JStr ''a'')]"
  let ?req = "JObj [(''token'', JStr ''t''), (''method'', JStr ''hello''), (''params'', ?p)]"
  let ?d = "(sys_daemon ?s0)\<lparr>ds_sessions := [7], ds_timer := No_Timer\<rparr>"
  let ?s1 = "?s0\<lparr>sys_daemon := ?d, sys_threads := [T_Recording JNull 7 ?p]\<rparr>"
  let ?s2 = "?s1\<lparr>sys_daemon := snd (record_agent_session None ''c'' JNull 7 ?p ?d), sys_threads := [T_Done]\<rparr>"
  have init: "ds_draining (sys_daemon ?s0) = False" "ds_auth_token (sys_daemon ?s0) = Some ''t''"
    "ds_sessions (sys_daemon ?s0) = []" "ds_coordinator (sys_daemon ?s0)" "sys_threads ?s0 = []" "ds_agents (sys_daemon ?s0) = []"
    by (simp_all add: system_init_def start_initial_grace_period_def start_grace_timer_def daemon_init_def)
  have tok: "token_ok (sys_daemon ?s0) (JStr ''t'') = Some True"
    by (simp add: token_ok_def init compare_digest_def code_def)
  have "route_request (sys_daemon ?s0) ?req = Session_Method ''hello'' ?p"
    by (simp add: route_request_def init tok)
  moreover have "admit_hello (jget ''id'' ?req) 7 (sys_daemon ?s0) = (None, ?d)"
    by (simp add: admit_hello_def init List.insert_def)
  ultimately have "system_step ?s0 ?s1" using system_step.hello[of ?s0 ?req ?p 7 ?d] by (simp add: init)
  moreover have "system_step ?s1 ?s2"
    using system_step.thread[of 0 ?s1 "\<lambda>_. Inl []" None "''c''" T_Done "snd (record_agent_session None ''c'' JNull 7 ?p ?d)"]
    by simp
  ultimately have run: "system_step\<^sup>*\<^sup>* ?s0 ?s2" by (meson rtranclp.rtrancl_into_rtrancl rtranclp.rtrancl_refl)
  moreover have "ds_agents (sys_daemon ?s2) \<noteq> []" by (simp add: record_agent_session_def init)
  ultimately show ?thesis using goodbye_fence[OF run] by (intro exI[of _ ?s2]) auto
qed



end
