(* ===== verification/Daemon_Client.thy ===== *)
theory Daemon_Client
  imports Daemon_Server
begin

text \<open>
  The adapter side of the daemon connection: \<^verbatim>\<open>src/src/saltmdb/daemon/client.py\<close> (finding or starting a
  daemon, the persistent hello session, one-shot calls with their retry), the port and record
  functions of \<^verbatim>\<open>src/src/saltmdb/daemon/discovery.py\<close>, and the RPC backend of
  \<^verbatim>\<open>src/src/saltmdb/mcp/tools.py\<close>.

  Everything outside the adapter process is a \<open>world\<close>: the \<open>k\<close>-th observation the adapter makes finds
  the \<open>k\<close>-th \<open>moment\<close>, which fixes the discovery file, the answer of the probe port, what happens on a
  connection, the state of the daemon on the other end and what its tools compute. Nothing relates two
  moments, so a world may lose connections, restart the daemon and replace its token at any point.
  Every request is answered by \<open>handle_request\<close> of \<^verbatim>\<open>Daemon_Server\<close>. Times are in milliseconds; a
  sleep takes at least its duration, and every observation takes an arbitrary extra delay.
\<close>

section \<open>Ports and discovery records\<close>

abbreviation DAEMON_PORT_PAIR_BASE :: nat where "DAEMON_PORT_PAIR_BASE \<equiv> 49500"
abbreviation DAEMON_PORT_PAIR_COUNT :: nat where "DAEMON_PORT_PAIR_COUNT \<equiv> 8000"

definition hex_value :: "char \<Rightarrow> nat" where
  "hex_value c = (if 97 \<le> code c then code c - 87 else code c - 48)"

text \<open>The key is a prefix of a hexadecimal digest, in lower case.\<close>

definition slot :: "string \<Rightarrow> nat" where
  "slot key = foldl (\<lambda>n c. 16 * n + hex_value c) 0 (take 4 key) mod DAEMON_PORT_PAIR_COUNT"

definition election_port :: "string \<Rightarrow> nat" where
  "election_port key = DAEMON_PORT_PAIR_BASE + 2 * slot key"

definition probe_port :: "string \<Rightarrow> nat" where
  "probe_port key = election_port key + 1"

record info =
  in_port :: int
  in_token :: string
  in_pid :: "int option"
  in_db_path :: "string option"

definition valid_token :: "string \<Rightarrow> bool" where
  "valid_token t \<longleftrightarrow> 1 \<le> length t \<and> length t \<le> 256 \<and> list_all (\<lambda>c. 33 \<le> code c \<and> code c \<le> 126) t"

definition valid_record :: "json \<Rightarrow> bool" where
  "valid_record data \<longleftrightarrow> is_dict data \<and>
     (case jget ''service_port'' data of JInt p \<Rightarrow> 1 \<le> p \<and> p \<le> 65535 | _ \<Rightarrow> False) \<and>
     (case jget ''auth_token'' data of JStr t \<Rightarrow> valid_token t | _ \<Rightarrow> False) \<and>
     (jhas ''daemon_pid'' data \<longrightarrow> (case jget ''daemon_pid'' data of JInt p \<Rightarrow> 0 < p | _ \<Rightarrow> False)) \<and>
     (jhas ''db_path'' data \<longrightarrow> (case jget ''db_path'' data of JStr _ \<Rightarrow> True | _ \<Rightarrow> False))"

fun jint :: "json \<Rightarrow> int" where
  "jint (JInt n) = n"
| "jint _ = 0"

fun jstr :: "json \<Rightarrow> string" where
  "jstr (JStr s) = s"
| "jstr _ = []"

definition typed_record :: "json \<Rightarrow> info" where
  "typed_record data =
     \<lparr>in_port = jint (jget ''service_port'' data), in_token = jstr (jget ''auth_token'' data),
      in_pid = (if jhas ''daemon_pid'' data then Some (jint (jget ''daemon_pid'' data)) else None),
      in_db_path = (if jhas ''db_path'' data then Some (jstr (jget ''db_path'' data)) else None)\<rparr>"

text \<open>The argument is the parsed file, None when it is missing, unreadable, foreign or not JSON.\<close>

definition discovery_read :: "json option \<Rightarrow> info option" where
  "discovery_read file =
     (case file of
        None \<Rightarrow> None
      | Some data \<Rightarrow> if valid_record data then Some (typed_record data) else None)"

text \<open>Election and probe ports never collide, also between two databases, and stay below 65500.\<close>

lemma ports_disjoint:
  "49500 \<le> election_port key \<and> probe_port key \<le> 65499 \<and> election_port key \<noteq> probe_port key'"
proof -
  have "slot k < 8000" for k by (simp add: slot_def)
  from this[of key] show ?thesis unfolding probe_port_def election_port_def by presburger
qed

section \<open>The world and the adapter process\<close>

text \<open>
  What happens to a request: the connection is refused, it breaks after the daemon has or has not
  received the whole request, or it is answered.
\<close>

datatype link = Refused | Broken bool | Answered

datatype stamp = Stamp_Error | Stamp "int option"

record moment =
  m_delay :: nat
  m_file :: "json option"
  m_probe :: "json option"
  m_link :: link
  m_daemon :: daemon
  m_run :: "work \<Rightarrow> string + json"
  m_recorded :: "string option"
  m_capability :: string
  m_sid :: nat
  m_request_id :: string
  m_stamp :: stamp
  m_wall :: int

type_synonym world = "nat \<Rightarrow> moment"

record session =
  sc_agent_session_id :: "string option"
  sc_cwd :: "string option"
  sc_agent_id :: "string option"
  sc_sock :: bool
  sc_auth_token :: "string option"
  sc_capability :: "string option"

text \<open>
  \<open>cl_ran\<close> collects the work that daemons did for this adapter, \<open>cl_spawns\<close> and \<open>cl_sleeps\<close> the effects
  of the start-up loop.
\<close>

record client =
  cl_db_path :: string
  cl_pid :: nat
  cl_clock :: nat
  cl_time :: nat
  cl_deadline :: "nat option"
  cl_last_spawn :: "nat option"
  cl_session :: "session option"
  cl_spawns :: "nat list"
  cl_sleeps :: nat
  cl_ran :: "work list"

datatype startup_failure = Unrelated_Occupant | Other_Database json | Never_Reachable

datatype client_exn =
    DaemonStartingError nat
  | DaemonStartupError startup_failure
  | DaemonNotRunning
  | DaemonRpcError json json
  | Connection_Error
  | Frame_Failure
  | Identity_Missing

abbreviation rpc_error :: "string \<Rightarrow> client_exn" where
  "rpc_error c \<equiv> DaemonRpcError (JStr c) (JStr [])"

definition bindc ::
  "(client \<Rightarrow> (client_exn + 'a) \<times> client) \<Rightarrow> ('a \<Rightarrow> client \<Rightarrow> (client_exn + 'b) \<times> client) \<Rightarrow>
   client \<Rightarrow> (client_exn + 'b) \<times> client" where
  "bindc m f c = (case m c of (Inl e, c') \<Rightarrow> (Inl e, c') | (Inr x, c') \<Rightarrow> f x c')"

definition tick :: "world \<Rightarrow> client \<Rightarrow> client" where
  "tick w c = c\<lparr>cl_clock := Suc (cl_clock c), cl_time := cl_time c + m_delay (w (cl_clock c))\<rparr>"

definition sleep :: "world \<Rightarrow> nat \<Rightarrow> client \<Rightarrow> client" where
  "sleep w ms c = tick w (c\<lparr>cl_time := cl_time c + ms, cl_sleeps := Suc (cl_sleeps c)\<rparr>)"

section \<open>One exchange with a daemon\<close>

datatype reply = No_Connection | Lost | Got json

definition note_work :: "work option \<Rightarrow> client \<Rightarrow> client" where
  "note_work wk c = (case wk of None \<Rightarrow> c | Some x \<Rightarrow> c\<lparr>cl_ran := cl_ran c @ [x]\<rparr>)"

definition exchange :: "world \<Rightarrow> string \<Rightarrow> json \<Rightarrow> string option \<Rightarrow> client \<Rightarrow> reply \<times> client" where
  "exchange w meth params token c =
     (let m = w (cl_clock c); c1 = tick w c;
          handled = handle_request (m_run m) (m_recorded m) (m_capability m)
                      (build_request (m_request_id m) meth params token) (m_sid m) (m_daemon m)
      in case m_link m of
           Refused \<Rightarrow> (No_Connection, c1)
         | Broken received \<Rightarrow> (Lost, if received then note_work (fst (snd handled)) c1 else c1)
         | Answered \<Rightarrow>
             (case handled of
                (None, wk, _) \<Rightarrow> (Lost, note_work wk c1)
              | (Some r, wk, _) \<Rightarrow> (Got r, note_work wk c1)))"

definition discovery_look :: "world \<Rightarrow> client \<Rightarrow> info option \<times> client" where
  "discovery_look w c = (discovery_read (m_file (w (cl_clock c))), tick w c)"

definition authenticated_ping_ok :: "world \<Rightarrow> info \<Rightarrow> client \<Rightarrow> bool \<times> client" where
  "authenticated_ping_ok w entry c =
     (case exchange w ''ping'' (JObj []) (Some (in_token entry)) c of
        (Got r, c') \<Rightarrow> (response_ok r, c')
      | (_, c') \<Rightarrow> (False, c'))"

definition reachable_daemon_info :: "world \<Rightarrow> client \<Rightarrow> info option \<times> client" where
  "reachable_daemon_info w c =
     (case discovery_look w c of
        (None, c1) \<Rightarrow> (None, c1)
      | (Some entry, c1) \<Rightarrow>
          if in_db_path entry = Some (cl_db_path c)
          then (case authenticated_ping_ok w entry c1 of (ok, c2) \<Rightarrow> (if ok then Some entry else None, c2))
          else (None, c1))"

definition identify_probe :: "world \<Rightarrow> client \<Rightarrow> json option \<times> client" where
  "identify_probe w c = (m_probe (w (cl_clock c)), tick w c)"

definition probe_owner :: "world \<Rightarrow> client \<Rightarrow> json option \<times> client" where
  "probe_owner w c =
     (case identify_probe w c of
        (None, c') \<Rightarrow> (None, c')
      | (Some entry, c') \<Rightarrow>
          (if is_dict entry \<and> jget ''db_path'' entry = JStr (cl_db_path c) \<and>
              jget ''state'' entry \<in> {JStr ''initializing'', JStr ''ready''}
           then Some (jget ''state'' entry) else None, c'))"

section \<open>Starting a daemon\<close>

abbreviation DAEMON_SPAWN_MIN_INTERVAL :: nat where "DAEMON_SPAWN_MIN_INTERVAL \<equiv> 15000"
abbreviation DAEMON_STARTUP_PROGRESS_CAP :: nat where "DAEMON_STARTUP_PROGRESS_CAP \<equiv> 25000"
abbreviation DAEMON_DISCOVERY_RETRY_DELAY :: nat where "DAEMON_DISCOVERY_RETRY_DELAY \<equiv> 250"
abbreviation DAEMON_OWNER_PROBE_INTERVAL :: nat where "DAEMON_OWNER_PROBE_INTERVAL \<equiv> 1000"
abbreviation DAEMON_OWNER_PROBE_MISSES :: nat where "DAEMON_OWNER_PROBE_MISSES \<equiv> 3"
abbreviation DAEMON_RESPAWN_RETRY_INTERVAL :: nat where "DAEMON_RESPAWN_RETRY_INTERVAL \<equiv> 8"
abbreviation DAEMON_DISCOVERY_RETRY_ATTEMPTS :: nat where "DAEMON_DISCOVERY_RETRY_ATTEMPTS \<equiv> 40"

definition claim_spawn_slot :: "stamp \<Rightarrow> int \<Rightarrow> bool" where
  "claim_spawn_slot st wall =
     (case st of
        Stamp (Some previous) \<Rightarrow> \<not> (0 \<le> wall - previous \<and> wall - previous < int DAEMON_SPAWN_MIN_INTERVAL)
      | _ \<Rightarrow> True)"

definition spawn_if_due :: "world \<Rightarrow> client \<Rightarrow> bool \<times> client" where
  "spawn_if_due w c =
     (if (case cl_last_spawn c of None \<Rightarrow> False | Some t \<Rightarrow> cl_time c - t < DAEMON_SPAWN_MIN_INTERVAL)
      then (False, c)
      else let m = w (cl_clock c); now = cl_time c; c1 = tick w c in
        if \<not> claim_spawn_slot (m_stamp m) (m_wall m) then (False, c1)
        else (True, c1\<lparr>cl_last_spawn := Some now, cl_spawns := cl_spawns c1 @ [now]\<rparr>))"

definition startup_deadline_for :: "nat \<Rightarrow> nat option \<Rightarrow> client \<Rightarrow> nat" where
  "startup_deadline_for started_at cap c =
     (case cap of
        Some s \<Rightarrow> started_at + s
      | None \<Rightarrow> (case cl_deadline c of Some d \<Rightarrow> d | None \<Rightarrow> started_at + DAEMON_STARTUP_PROGRESS_CAP))"

definition update_owner_probe :: "json option \<Rightarrow> bool \<Rightarrow> nat \<Rightarrow> nat \<Rightarrow> bool \<times> nat \<times> nat" where
  "update_owner_probe owner alive misses legacy =
     (if owner \<noteq> None then (True, 0, 0)
      else if \<not> alive then (alive, misses, legacy)
      else (if DAEMON_OWNER_PROBE_MISSES \<le> misses + 1 then False else alive, misses + 1, legacy))"

definition classify_startup_failure :: "world \<Rightarrow> client \<Rightarrow> startup_failure \<times> client" where
  "classify_startup_failure w c =
     (case identify_probe w c of
        (None, c') \<Rightarrow> (Unrelated_Occupant, c')
      | (Some entry, c') \<Rightarrow>
          let other = jget ''db_path'' entry in
          (if jtruthy other \<and> other \<noteq> JStr (cl_db_path c) then Other_Database other else Never_Reachable, c'))"

definition startup_failure_of :: "world \<Rightarrow> nat \<Rightarrow> bool \<Rightarrow> client \<Rightarrow> client_exn \<times> client" where
  "startup_failure_of w started_at owner_alive c =
     (if owner_alive then (DaemonStartingError (cl_time c - started_at), c)
      else case classify_startup_failure w c of (f, c') \<Rightarrow> (DaemonStartupError f, c'))"

text \<open>The body of one round of the wait: a result, or the loop variables of the next round.\<close>

record wait_vars =
  wv_alive :: bool
  wv_misses :: nat
  wv_legacy :: nat
  wv_last_probe :: nat

definition probe_if_due :: "world \<Rightarrow> nat \<Rightarrow> wait_vars \<Rightarrow> client \<Rightarrow> wait_vars \<times> client" where
  "probe_if_due w now v c =
     (if DAEMON_OWNER_PROBE_INTERVAL \<le> now - wv_last_probe v
      then case probe_owner w c of
        (owner, c') \<Rightarrow>
          (case update_owner_probe owner (wv_alive v) (wv_misses v) (wv_legacy v) of
             (alive, misses, legacy) \<Rightarrow>
               (\<lparr>wv_alive = alive, wv_misses = misses, wv_legacy = legacy, wv_last_probe = now\<rparr>, c'))
      else (v, c))"

definition legacy_attempt ::
  "world \<Rightarrow> nat \<Rightarrow> wait_vars \<Rightarrow> client \<Rightarrow> (client_exn + wait_vars) \<times> client" where
  "legacy_attempt w started_at v c =
     (if wv_alive v then (Inr v, c)
      else
        let legacy = wv_legacy v + 1;
            c1 = (if legacy mod DAEMON_RESPAWN_RETRY_INTERVAL = 0 then snd (spawn_if_due w c) else c)
        in if DAEMON_DISCOVERY_RETRY_ATTEMPTS \<le> legacy
           then (case startup_failure_of w started_at False c1 of (e, c2) \<Rightarrow> (Inl e, c2))
           else (Inr (v\<lparr>wv_legacy := legacy\<rparr>), c1))"

definition wait_round ::
  "world \<Rightarrow> nat \<Rightarrow> nat \<Rightarrow> wait_vars \<Rightarrow> client \<Rightarrow> (client_exn + info + wait_vars) \<times> client" where
  "wait_round w started_at deadline v c =
     (let c1 = sleep w (min DAEMON_DISCOVERY_RETRY_DELAY (deadline - cl_time c)) c; now = cl_time c1 in
      case reachable_daemon_info w c1 of
        (Some entry, c2) \<Rightarrow> (Inr (Inl entry), c2)
      | (None, c2) \<Rightarrow>
          (case probe_if_due w now v c2 of
             (v', c3) \<Rightarrow>
               (case legacy_attempt w started_at v' c3 of
                  (Inl e, c4) \<Rightarrow> (Inl e, c4)
                | (Inr v'', c4) \<Rightarrow> (Inr (Inr v''), c4))))"

text \<open>
  What every operation of the start-up path keeps: it runs no work, changes neither session nor
  deadline, sleeps at most \<open>n\<close> times, and spaces the daemons it spawns.
\<close>

definition spawns_ok :: "client \<Rightarrow> bool" where
  "spawns_ok c \<longleftrightarrow> sorted_wrt (\<lambda>a b. a + DAEMON_SPAWN_MIN_INTERVAL \<le> b) (cl_spawns c) \<and>
     cl_last_spawn c = (if cl_spawns c = [] then None else Some (last (cl_spawns c))) \<and>
     (\<forall>t \<in> set (cl_spawns c). t \<le> cl_time c)"

definition observes :: "nat \<Rightarrow> client \<Rightarrow> client \<Rightarrow> bool" where
  "observes n c c' \<longleftrightarrow> cl_time c \<le> cl_time c' \<and> cl_clock c \<le> cl_clock c' \<and> cl_db_path c' = cl_db_path c \<and>
     cl_ran c' = cl_ran c \<and> cl_session c' = cl_session c \<and> cl_deadline c' = cl_deadline c \<and>
     cl_sleeps c' \<le> cl_sleeps c + n \<and> (spawns_ok c \<longrightarrow> spawns_ok c')"

lemma observes_refl [simp]: "observes n c c"
  by (simp add: observes_def)

lemma observes_trans: "observes n c c' \<Longrightarrow> observes m c' c'' \<Longrightarrow> observes (n + m) c c''"
  by (auto simp: observes_def)

lemma observes_0: "observes 0 c c' \<Longrightarrow> observes n c' c'' \<Longrightarrow> observes n c c''" "observes n c c' \<Longrightarrow> observes 0 c' c'' \<Longrightarrow> observes n c c''"
  using observes_trans[of 0 c c' n c''] observes_trans[of n c c' 0 c''] by simp_all

lemma observes_tick [simp]: "observes 0 c (tick w c)"
  by (auto simp: observes_def tick_def spawns_ok_def intro: trans_le_add1)

lemma observes_sleep: "observes 1 c (sleep w ms c)" "cl_time c + ms \<le> cl_time (sleep w ms c)"
  by (auto simp: observes_def sleep_def tick_def spawns_ok_def intro: trans_le_add1)

lemma session_method_runs_nothing:
  assumes "meth \<in> {''hello'', ''goodbye'', ''ping'', ''viewer_status''}"
  shows "fst (snd (handle_request run recorded capability (build_request i meth params token) sid d)) = None"
proof -
  have m: "jget ''method'' (build_request i meth params token) = JStr meth" by (simp add: build_request_def)
  show ?thesis
  proof (cases "route_request d (build_request i meth params token)")
    case (Counted_Method x y)
    then show ?thesis using assms m
      by (auto simp: route_request_def Let_def split: if_splits option.splits bool.splits)
  qed (simp_all add: handle_request_def split: prod.split)
qed

lemma exchange_session_method:
  assumes "meth \<in> {''hello'', ''goodbye'', ''ping'', ''viewer_status''}"
  shows "snd (exchange w meth params token c) = tick w c"
proof -
  let ?m = "w (cl_clock c)"
  obtain r d where "handle_request (m_run ?m) (m_recorded ?m) (m_capability ?m)
      (build_request (m_request_id ?m) meth params token) (m_sid ?m) (m_daemon ?m) = (r, None, d)"
    using session_method_runs_nothing[OF assms] by (metis prod.collapse)
  then show ?thesis by (simp add: exchange_def Let_def note_work_def split: link.split option.split)
qed

lemma observes_ping: "observes 0 c (snd (authenticated_ping_ok w entry c))"
proof -
  obtain r c' where x: "exchange w ''ping'' (JObj []) (Some (in_token entry)) c = (r, c')" by fastforce
  then have "c' = tick w c" using exchange_session_method[of "''ping''" w "JObj []" "Some (in_token entry)" c] by simp
  then show ?thesis by (simp add: authenticated_ping_ok_def x split: reply.split)
qed

lemma observes_reachable: "observes 0 c (snd (reachable_daemon_info w c))"
  using observes_0(1)[OF observes_tick observes_ping]
  by (auto simp: reachable_daemon_info_def discovery_look_def split: option.split prod.split) (metis snd_conv)

lemma observes_probe: "observes 0 c (snd (probe_owner w c))" "observes 0 c (snd (classify_startup_failure w c))"
  by (simp_all add: probe_owner_def classify_startup_failure_def identify_probe_def Let_def split: option.split)

lemma observes_spawn: "observes 0 c (snd (spawn_if_due w c))"
proof (cases "fst (spawn_if_due w c)")
  case False
  then show ?thesis by (auto simp: spawn_if_due_def Let_def)
next
  case True
  then have due: "\<not> (case cl_last_spawn c of None \<Rightarrow> False | Some t \<Rightarrow> cl_time c - t < 15000)"
    and c': "snd (spawn_if_due w c) = (tick w c)\<lparr>cl_last_spawn := Some (cl_time c), cl_spawns := cl_spawns c @ [cl_time c]\<rparr>"
    by (auto simp: spawn_if_due_def Let_def tick_def split: if_splits)
  have "a + 15000 \<le> cl_time c" if ok: "spawns_ok c" and a: "a \<in> set (cl_spawns c)" for a
  proof -
    have l: "last (cl_spawns c) + 15000 \<le> cl_time c"
      using due ok a by (auto simp: spawns_ok_def split: if_splits)
    have "a \<le> last (cl_spawns c)"
    proof (cases "a = last (cl_spawns c)")
      case False
      have "cl_spawns c = butlast (cl_spawns c) @ [last (cl_spawns c)]" using a by (metis append_butlast_last_id length_pos_if_in_set length_greater_0_conv)
      then have "sorted_wrt (\<lambda>a b. a + 15000 \<le> b) (butlast (cl_spawns c) @ [last (cl_spawns c)])" "a \<in> set (butlast (cl_spawns c))"
        using ok a False by (simp_all add: spawns_ok_def) (metis Un_insert_right insert_iff list.set(1) list.set(2) set_append sup_bot_right)
      then show ?thesis by (fastforce simp: sorted_wrt_append)
    qed simp
    with l show ?thesis by simp
  qed
  then have "spawns_ok c \<Longrightarrow> spawns_ok (snd (spawn_if_due w c))"
    unfolding c' by (auto simp: spawns_ok_def sorted_wrt_append tick_def intro: trans_le_add1)
  then show ?thesis unfolding observes_def by (auto simp: c' tick_def)
qed

lemma observes_probe_if_due: "observes 0 c (snd (probe_if_due w now v c))"
  using observes_probe(1)[of c w] by (auto simp: probe_if_due_def split: prod.split)

lemma observes_legacy: "observes 0 c (snd (legacy_attempt w started_at v c))"
proof -
  let ?c1 = "if (wv_legacy v + 1) mod 8 = 0 then snd (spawn_if_due w c) else c"
  have "observes 0 c ?c1" using observes_spawn by simp
  moreover have "observes 0 ?c1 (snd (startup_failure_of w started_at False ?c1))"
    using observes_probe(2) by (simp add: startup_failure_of_def split: prod.split) (metis snd_conv)
  ultimately have "observes 0 c (snd (startup_failure_of w started_at False ?c1))" "observes 0 c ?c1"
    using observes_0(1)[of c ?c1] by blast+
  moreover have "snd (legacy_attempt w started_at v c) \<in> {c, ?c1, snd (startup_failure_of w started_at False ?c1)}"
    by (simp add: legacy_attempt_def Let_def split: prod.split)
  ultimately show ?thesis by (metis (no_types, lifting) empty_iff insert_iff observes_refl)
qed

lemma wait_round_observes:
  shows "observes 1 c (snd (wait_round w started_at deadline v c))"
    and "cl_time c + min 250 (deadline - cl_time c) \<le> cl_time (snd (wait_round w started_at deadline v c))"
proof -
  let ?n = "min 250 (deadline - cl_time c)"
  let ?c1 = "sleep w ?n c"
  let ?c2 = "snd (reachable_daemon_info w ?c1)"
  let ?p = "probe_if_due w (cl_time ?c1) v ?c2"
  let ?c4 = "snd (legacy_attempt w started_at (fst ?p) (snd ?p))"
  have o2: "observes 0 ?c1 ?c2" by (rule observes_reachable)
  have o4: "observes 0 ?c1 ?c4"
    using observes_0(1)[OF o2 observes_0(1)[OF observes_probe_if_due observes_legacy]] .
  have "snd (wait_round w started_at deadline v c) \<in> {?c2, ?c4}"
    by (auto simp: wait_round_def Let_def split: prod.splits option.splits sum.splits)
  then have o: "observes 0 ?c1 (snd (wait_round w started_at deadline v c))" using o2 o4 by auto
  show "observes 1 c (snd (wait_round w started_at deadline v c))" using observes_0(2)[OF observes_sleep(1) o] .
  show "cl_time c + ?n \<le> cl_time (snd (wait_round w started_at deadline v c))"
    using o observes_sleep(2)[of c ?n w] by (simp add: observes_def)
qed

lemma wait_round_time:
  "cl_time c < deadline \<Longrightarrow> cl_time c < cl_time (snd (wait_round w started_at deadline v c))"
  using wait_round_observes(2)[of c deadline w started_at v] by (auto simp: min_def split: if_splits)

lemma wait_round_decreases:
  "\<not> deadline \<le> cl_time c \<Longrightarrow> wait_round w started_at deadline v c = (r, c') \<Longrightarrow> deadline - cl_time c' < deadline - cl_time c"
  using wait_round_time[of c deadline w started_at v] by simp

function wait_for_daemon ::
  "world \<Rightarrow> nat \<Rightarrow> nat \<Rightarrow> wait_vars \<Rightarrow> client \<Rightarrow> (client_exn + info) \<times> client" where
  "wait_for_daemon w started_at deadline v c =
     (if deadline \<le> cl_time c
      then (case startup_failure_of w started_at (wv_alive v) c of (e, c') \<Rightarrow> (Inl e, c'))
      else case wait_round w started_at deadline v c of
        (Inl e, c') \<Rightarrow> (Inl e, c')
      | (Inr (Inl entry), c') \<Rightarrow> (Inr entry, c')
      | (Inr (Inr v'), c') \<Rightarrow> wait_for_daemon w started_at deadline v' c')"
  by pat_completeness auto
termination
  by (relation "measure (\<lambda>(w, started_at, deadline, v, c). deadline - cl_time c)")
    (simp, simp, metis wait_round_decreases)

declare wait_for_daemon.simps [simp del]

definition ensure_daemon_running :: "world \<Rightarrow> nat option \<Rightarrow> client \<Rightarrow> (client_exn + info) \<times> client" where
  "ensure_daemon_running w cap c =
     (case reachable_daemon_info w c of
        (Some entry, c1) \<Rightarrow> (Inr entry, c1)
      | (None, c1) \<Rightarrow>
          let started_at = cl_time c1; deadline = startup_deadline_for started_at cap c1 in
          (case probe_owner w c1 of
             (owner, c2) \<Rightarrow>
               wait_for_daemon w started_at deadline
                 \<lparr>wv_alive = True, wv_misses = 0, wv_legacy = 0, wv_last_probe = started_at\<rparr>
                 (if owner = None then snd (spawn_if_due w c2) else c2)))"

section \<open>The hello session\<close>

definition hello_params :: "session \<Rightarrow> client \<Rightarrow> json" where
  "hello_params s c =
     JObj ([(''pid'', JInt (int (cl_pid c))), (''client_label'', JStr ''saltmdb-adapter'')] @
       (case sc_agent_session_id s of None \<Rightarrow> [] | Some x \<Rightarrow> [(''agent_session_id'', JStr x)]) @
       (case sc_cwd s of None \<Rightarrow> [] | Some x \<Rightarrow> [(''cwd'', JStr x)]) @
       (case sc_agent_id s of None \<Rightarrow> [] | Some x \<Rightarrow> [(''agent_id'', JStr x)]))"

text \<open>\<open>error.get(key, default)\<close> on the error object of a response.\<close>

definition error_field :: "string \<Rightarrow> string \<Rightarrow> json \<Rightarrow> json" where
  "error_field key default_value r =
     (let e = (if jtruthy (jget ''error'' r) then jget ''error'' r else JObj [])
      in if jhas key e then jget key e else JStr default_value)"

definition read_hello_capability :: "session \<Rightarrow> json \<Rightarrow> client_exn + string option" where
  "read_hello_capability s r =
     (if \<not> response_ok r
      then Inl (DaemonRpcError (error_field ''code'' ''HELLO_FAILED'' r) (error_field ''message'' ''hello rejected'' r))
      else let result = (if jtruthy (jget ''result'' r) then jget ''result'' r else JObj []) in
        case jget ''caller_agent_session_capability'' result of
          JStr (ch # cap) \<Rightarrow> Inr (Some (ch # cap))
        | _ \<Rightarrow> if sc_agent_session_id s \<noteq> None
              then Inl (DaemonRpcError (JStr INTERNAL_ERROR) (JStr ''daemon hello omitted caller session capability''))
              else Inr None)"

definition open_session_attempt :: "world \<Rightarrow> session \<Rightarrow> info \<Rightarrow> client \<Rightarrow> (client_exn + string option) \<times> client" where
  "open_session_attempt w s entry c =
     (case exchange w ''hello'' (hello_params s c) (Some (in_token entry)) c of
        (No_Connection, c') \<Rightarrow> (Inl Connection_Error, c')
      | (Lost, c') \<Rightarrow> (Inl Frame_Failure, c')
      | (Got r, c') \<Rightarrow> (read_hello_capability s r, c'))"

definition retryable :: "client_exn \<Rightarrow> bool" where
  "retryable e =
     (case e of DaemonRpcError cd _ \<Rightarrow> cd = JStr AUTH_FAILED \<or> cd = JStr DAEMON_SHUTTING_DOWN | _ \<Rightarrow> True)"

text \<open>One round of \<open>open\<close>: a start-up error, a failed hello, or the open session.\<close>

definition hello_once :: "world \<Rightarrow> session \<Rightarrow> client \<Rightarrow> (client_exn + client_exn + unit) \<times> client" where
  "hello_once w s c =
     (case ensure_daemon_running w None c of
        (Inl e, c1) \<Rightarrow> (Inl e, c1)
      | (Inr entry, c1) \<Rightarrow>
          (case open_session_attempt w s entry c1 of
             (Inl e, c2) \<Rightarrow> (Inr (Inl e), c2)
           | (Inr cap, c2) \<Rightarrow>
               (Inr (Inr ()), c2\<lparr>cl_session := Some (s\<lparr>sc_sock := True, sc_auth_token := Some (in_token entry),
                  sc_capability := (if sc_agent_session_id s \<noteq> None then cap else None)\<rparr>)\<rparr>)))"

definition open_session :: "world \<Rightarrow> session \<Rightarrow> client \<Rightarrow> (client_exn + unit) \<times> client" where
  "open_session w s c =
     (if sc_sock s \<and> sc_auth_token s \<noteq> None then (Inr (), c)
      else case hello_once w s c of
        (Inl e, c1) \<Rightarrow> (Inl e, c1)
      | (Inr (Inr u), c1) \<Rightarrow> (Inr u, c1)
      | (Inr (Inl e), c1) \<Rightarrow>
          if \<not> retryable e then (Inl e, c1)
          else case hello_once w s c1 of
            (Inl e', c2) \<Rightarrow> (Inl e', c2)
          | (Inr (Inl e'), c2) \<Rightarrow> (Inl e', c2)
          | (Inr (Inr u), c2) \<Rightarrow> (Inr u, c2))"

definition close_transport :: "session \<Rightarrow> session" where
  "close_transport s = s\<lparr>sc_sock := False, sc_auth_token := None, sc_capability := None\<rparr>"

text \<open>Closing sends a goodbye on the open socket and ignores how that ends.\<close>

definition close_session :: "world \<Rightarrow> bool \<Rightarrow> session \<Rightarrow> client \<Rightarrow> client" where
  "close_session w send_goodbye s c =
     (let c1 = (if sc_sock s \<and> send_goodbye then snd (exchange w ''goodbye'' (JObj []) (sc_auth_token s) c) else c)
      in c1\<lparr>cl_session := None\<rparr>)"

definition reconnect :: "world \<Rightarrow> session \<Rightarrow> client \<Rightarrow> (client_exn + unit) \<times> client" where
  "reconnect w s c = open_session w (close_transport s) (c\<lparr>cl_session := Some (close_transport s)\<rparr>)"

text \<open>
  \<open>ensure_fresh\<close>. Both tokens went through \<open>valid_record\<close>, so the digest comparison is equality.
\<close>

definition ensure_fresh :: "world \<Rightarrow> session \<Rightarrow> client \<Rightarrow> (client_exn + unit) \<times> client" where
  "ensure_fresh w s c =
     bindc (\<lambda>c. case discovery_look w c of
              (Some entry, c1) \<Rightarrow> (Inr entry, c1)
            | (None, c1) \<Rightarrow> ensure_daemon_running w None c1)
       (\<lambda>entry c1.
          if sc_sock s \<and> sc_auth_token s = Some (in_token entry) then (Inr (), c1)
          else reconnect w s c1) c"

section \<open>Calls\<close>

text \<open>
  The caller of a call is \<open>bound\<close> when its session id is the one of the current session; then the
  capability in the envelope is rewritten after every refresh.
\<close>

definition rewrite_capability :: "session \<Rightarrow> (string \<times> json) list \<Rightarrow> (string \<times> json) list" where
  "rewrite_capability s params =
     (case sc_capability s of
        None \<Rightarrow> AList.delete ''caller_agent_session_capability'' params
      | Some cap \<Rightarrow> AList.update ''caller_agent_session_capability'' (JStr cap) params)"

definition refresh_call_session ::
  "world \<Rightarrow> bool \<Rightarrow> bool \<Rightarrow> (string \<times> json) list \<Rightarrow> client \<Rightarrow> (client_exn + (string \<times> json) list) \<times> client" where
  "refresh_call_session w spawn bound params c =
     (case cl_session c of
        Some s \<Rightarrow>
          if spawn
          then bindc (ensure_fresh w s)
                 (\<lambda>_ c1. (Inr (if bound then (case cl_session c1 of Some s1 \<Rightarrow> rewrite_capability s1 params | None \<Rightarrow> params)
                               else params), c1)) c
          else (Inr params, c)
      | None \<Rightarrow> (Inr params, c))"

definition response_requests_retry ::
  "world \<Rightarrow> bool \<Rightarrow> bool \<Rightarrow> bool \<Rightarrow> json \<Rightarrow> client \<Rightarrow> (client_exn + bool) \<times> client" where
  "response_requests_retry w spawn retry bound r c =
     (let cd = error_field ''code'' INTERNAL_ERROR r in
      if response_ok r then (Inr False, c)
      else if \<not> spawn then
        (Inl (if cd = JStr DAEMON_SHUTTING_DOWN then DaemonNotRunning
              else DaemonRpcError cd (error_field ''message'' [] r)), c)
      else if retry \<and> cd \<in> {JStr DAEMON_SHUTTING_DOWN, JStr AUTH_FAILED, JStr CALLER_SESSION_INVALID} then
        (case cl_session c of
           Some s \<Rightarrow>
             if bound \<and> cd = JStr CALLER_SESSION_INVALID
             then bindc (reconnect w s) (\<lambda>_ c1. (Inr True, c1)) c
             else (Inr True, c)
         | None \<Rightarrow> (Inr True, c))
      else (Inl (DaemonRpcError cd (error_field ''message'' [] r)), c))"

definition find_daemon :: "world \<Rightarrow> bool \<Rightarrow> client \<Rightarrow> (client_exn + info) \<times> client" where
  "find_daemon w spawn c =
     (if spawn then ensure_daemon_running w None c
      else case reachable_daemon_info w c of
        (None, c1) \<Rightarrow> (Inl DaemonNotRunning, c1)
      | (Some entry, c1) \<Rightarrow> (Inr entry, c1))"

lemma retry_needs_retry:
  "response_requests_retry w spawn retry bound r c = (Inr True, c') \<Longrightarrow> retry"
  by (auto simp: response_requests_retry_def Let_def split: if_splits)

function call_method ::
  "world \<Rightarrow> bool \<Rightarrow> bool \<Rightarrow> string \<Rightarrow> bool \<Rightarrow> (string \<times> json) list \<Rightarrow> client \<Rightarrow> (client_exn + json) \<times> client" where
  "call_method w spawn bound meth retry params c =
     (case refresh_call_session w spawn bound params c of
        (Inl e, c1) \<Rightarrow> (Inl e, c1)
      | (Inr params', c1) \<Rightarrow>
          (case find_daemon w spawn c1 of
             (Inl e, c2) \<Rightarrow> (Inl e, c2)
           | (Inr entry, c2) \<Rightarrow>
               (case exchange w meth (JObj params') (Some (in_token entry)) c2 of
                  (No_Connection, c3) \<Rightarrow>
                    if \<not> spawn then (Inl DaemonNotRunning, c3)
                    else if \<not> retry then (Inl (rpc_error ''CONNECT_FAILED''), c3)
                    else call_method w spawn bound meth False params' c3
                | (Lost, c3) \<Rightarrow> (Inl (rpc_error ''MID_CALL_FAILURE''), c3)
                | (Got r, c3) \<Rightarrow>
                    (case response_requests_retry w spawn retry bound r c3 of
                       (Inl e, c4) \<Rightarrow> (Inl e, c4)
                     | (Inr again, c4) \<Rightarrow>
                         if again then call_method w spawn bound meth False params' c4
                         else (Inr (jget ''result'' r), c4)))))"
  by pat_completeness auto
termination
  by (relation "measure (\<lambda>(w, spawn, bound, meth, retry, params, c). if retry then 1 else 0)")
    (auto dest: retry_needs_retry[OF sym])

declare call_method.simps [simp del]

text \<open>The budget of nested adapter operations: the outermost one sets the deadline.\<close>

definition startup_budget :: "(client \<Rightarrow> 'a \<times> client) \<Rightarrow> client \<Rightarrow> 'a \<times> client" where
  "startup_budget body c =
     (case cl_deadline c of
        Some _ \<Rightarrow> body c
      | None \<Rightarrow>
          (case body (c\<lparr>cl_deadline := Some (cl_time c + DAEMON_STARTUP_PROGRESS_CAP)\<rparr>) of
             (r, c') \<Rightarrow> (r, c'\<lparr>cl_deadline := None\<rparr>)))"

definition call_params :: "string \<Rightarrow> json \<Rightarrow> string option \<Rightarrow> string option \<Rightarrow> (string \<times> json) list" where
  "call_params tool kwargs caller cap =
     [(''tool'', JStr tool), (''kwargs'', kwargs)] @
     (case caller of
        None \<Rightarrow> []
      | Some sid \<Rightarrow> (''caller_agent_session_id'', JStr sid) #
          (case cap of None \<Rightarrow> [] | Some x \<Rightarrow> [(''caller_agent_session_capability'', JStr x)]))"

definition call ::
  "world \<Rightarrow> bool \<Rightarrow> string \<Rightarrow> json \<Rightarrow> string option \<Rightarrow> string option \<Rightarrow> client \<Rightarrow> (client_exn + json) \<times> client" where
  "call w spawn tool kwargs caller cap =
     startup_budget (\<lambda>c.
       let bound = (case cl_session c of None \<Rightarrow> False | Some s \<Rightarrow> caller = sc_agent_session_id s)
       in call_method w spawn bound ''tool_call'' True (call_params tool kwargs caller cap) c)"

section \<open>The RPC backend of the adapter\<close>

definition rpc_starting_response :: "string \<Rightarrow> json" where
  "rpc_starting_response tool =
     JObj [(''status'', JStr ''DAEMON_STARTING''), (''tool'', JStr tool), (''advice'', JStr
       ''The SALTMDB daemon is still starting after a restart. Wait a few seconds and repeat the call; nothing was executed.'')]"

definition rpc_write_lost_response :: "string \<Rightarrow> json" where
  "rpc_write_lost_response tool =
     JObj [(''status'', JStr ''DAEMON_CONNECTION_LOST_DURING_WRITE''), (''tool'', JStr tool), (''advice'', JStr
       ''The daemon connection was lost while this write was in flight. Whether it committed is unknown from here -- SQLite's own transaction durability means it either fully committed or fully rolled back, never partially, but that answer didn't make it back over this connection. Re-verify before retrying, to avoid creating a duplicate.'')]"

definition rpc_call_once :: "world \<Rightarrow> string \<Rightarrow> string \<Rightarrow> json \<Rightarrow> client \<Rightarrow> (client_exn + json) \<times> client" where
  "rpc_call_once w agent_session_id tool kwargs = call w True tool kwargs (Some agent_session_id) None"

definition rpc_read_retry :: "world \<Rightarrow> string \<Rightarrow> string \<Rightarrow> json \<Rightarrow> client \<Rightarrow> (client_exn + json) \<times> client" where
  "rpc_read_retry w agent_session_id tool kwargs c =
     (case rpc_call_once w agent_session_id tool kwargs c of
        (Inl (DaemonStartingError n), c') \<Rightarrow> (Inr (rpc_starting_response tool), c')
      | r \<Rightarrow> r)"

definition rpc_dispatch_with_recovery ::
  "world \<Rightarrow> string \<Rightarrow> string \<Rightarrow> json \<Rightarrow> client \<Rightarrow> (client_exn + json) \<times> client" where
  "rpc_dispatch_with_recovery w agent_session_id tool kwargs c =
     (case rpc_call_once w agent_session_id tool kwargs c of
        (Inl (DaemonStartingError n), c') \<Rightarrow> (Inr (rpc_starting_response tool), c')
      | (Inl (DaemonRpcError cd msg), c') \<Rightarrow>
          if cd \<noteq> JStr ''MID_CALL_FAILURE'' then (Inl (DaemonRpcError cd msg), c')
          else if tool \<in> set READ_TOOLS then rpc_read_retry w agent_session_id tool kwargs c'
          else if tool \<in> set WRITE_TOOLS then (Inr (rpc_write_lost_response tool), c')
          else (Inl (DaemonRpcError cd msg), c')
      | r \<Rightarrow> r)"

definition AGENT_ID_INJECTED_TOOLS :: "string list" where
  "AGENT_ID_INJECTED_TOOLS = [''log_event'', ''store_memory'', ''search_memory'', ''archive_memory'',
     ''manage_relation'', ''consolidate_memories'', ''revise_memory'', ''supersede_memory'', ''get_memory'',
     ''get_memories'', ''get_lineage'', ''get_related_memories'', ''set_core_memory'', ''review_core_memory'',
     ''retrieve_context'', ''update_memory_metadata'', ''capture_trace_start'', ''capture_trace_memory_link'',
     ''capture_trace_complete'']"

definition AGENT_ID_PASSTHROUGH_TOOLS :: "string list" where
  "AGENT_ID_PASSTHROUGH_TOOLS = [''get_events'']"

definition SESSION_STAMPED_TOOLS :: "string list" where
  "SESSION_STAMPED_TOOLS = [''log_event'', ''store_memory'', ''consolidate_memories'', ''revise_memory'',
     ''supersede_memory'', ''update_memory_metadata'', ''capture_trace_start'', ''capture_trace_memory_link'',
     ''capture_trace_complete'']"

text \<open>The adapter's identity is configured once; without it an injected tool raises \<open>ValueError\<close>.\<close>

definition rpc_prepare_kwargs ::
  "string option \<Rightarrow> string \<Rightarrow> string \<Rightarrow> (string \<times> json) list \<Rightarrow> client_exn + (string \<times> json) list" where
  "rpc_prepare_kwargs agent_id agent_session_id tool kwargs =
     (let stamp_session = (\<lambda>kw. if tool \<in> set SESSION_STAMPED_TOOLS
                                then AList.update ''agent_session_id'' (JStr agent_session_id) kw else kw)
      in if tool \<in> set AGENT_ID_INJECTED_TOOLS
         then (case agent_id of
                 Some (ch # a) \<Rightarrow> Inr (stamp_session (AList.update ''agent_id'' (JStr (ch # a)) kwargs))
               | _ \<Rightarrow> Inl Identity_Missing)
         else if tool \<in> set AGENT_ID_PASSTHROUGH_TOOLS then Inr (stamp_session kwargs)
         else Inr (stamp_session (AList.delete ''agent_id'' kwargs)))"

definition rpc_backend_call ::
  "world \<Rightarrow> string option \<Rightarrow> string \<Rightarrow> string \<Rightarrow> (string \<times> json) list \<Rightarrow> client \<Rightarrow> (client_exn + json) \<times> client" where
  "rpc_backend_call w agent_id agent_session_id tool kwargs =
     startup_budget (\<lambda>c.
       case rpc_prepare_kwargs agent_id agent_session_id tool kwargs of
         Inl e \<Rightarrow> (Inl e, c)
       | Inr kw \<Rightarrow> rpc_dispatch_with_recovery w agent_session_id tool (JObj kw) c)"

section \<open>Start-up lemmas\<close>

definition rounds :: "nat \<Rightarrow> nat" where
  "rounds budget = (budget + 249) div DAEMON_DISCOVERY_RETRY_DELAY"

lemma rounds_add: "a + 250 \<le> b \<Longrightarrow> 1 + rounds a \<le> rounds b"
  using div_le_mono[of "a + 249 + 250" "b + 249" 250] by (simp add: rounds_def)

lemma rounds_step: "t < d \<Longrightarrow> t + min 250 (d - t) \<le> t' \<Longrightarrow> 1 + rounds (d - t') \<le> rounds (d - t)"
proof -
  assume a: "t < d" "t + min 250 (d - t) \<le> t'"
  show ?thesis
  proof (cases "250 \<le> d - t")
    case True
    then have "d - t' + 250 \<le> d - t" using a by simp
    then show ?thesis by (rule rounds_add)
  next
    case False
    then have "d - t' = 0" using a by simp
    moreover have "250 div 250 \<le> (d - t + 249) div 250" using a by (intro div_le_mono) simp
    ultimately show ?thesis by (simp add: rounds_def)
  qed
qed

lemma rounds_mono: "m \<le> n \<Longrightarrow> rounds m \<le> rounds n"
  by (simp add: rounds_def div_le_mono)

lemma observes_mono: "observes n c c' \<Longrightarrow> n \<le> m \<Longrightarrow> observes m c c'"
  by (auto simp: observes_def)

lemma wait_observes: "observes (rounds (deadline - cl_time c)) c (snd (wait_for_daemon w started_at deadline v c))"
proof (induction w started_at deadline v c rule: wait_for_daemon.induct)
  case (1 w started_at deadline v c)
  show ?case
  proof (cases "deadline \<le> cl_time c")
    case True
    have "observes 0 c (snd (startup_failure_of w started_at (wv_alive v) c))"
      using observes_probe(2)[of c w] by (cases "classify_startup_failure w c") (simp add: startup_failure_of_def)
    then show ?thesis using True observes_mono[of 0 c]
      by (cases "startup_failure_of w started_at (wv_alive v) c") (simp add: wait_for_daemon.simps)
  next
    case False
    obtain r c' where x: "wait_round w started_at deadline v c = (r, c')" by fastforce
    have o: "observes 1 c c'" and t: "cl_time c + min 250 (deadline - cl_time c) \<le> cl_time c'"
      using wait_round_observes(1)[of c w started_at deadline v] wait_round_observes(2)[of c deadline w started_at v] x by simp_all
    have n: "1 + rounds (deadline - cl_time c') \<le> rounds (deadline - cl_time c)"
      using rounds_step[OF _ t] False by simp
    consider (stop) "\<forall>v'. r \<noteq> Inr (Inr v')" | (again) v' where "r = Inr (Inr v')" by blast
    then show ?thesis
    proof cases
      case stop
      then have "snd (wait_for_daemon w started_at deadline v c) = c'"
        using False x by (auto simp: wait_for_daemon.simps[of w started_at deadline v c] split: sum.split)
      then show ?thesis using observes_mono[OF o] n by simp
    next
      case again
      then have "snd (wait_for_daemon w started_at deadline v c) = snd (wait_for_daemon w started_at deadline v' c')"
        using False x by (simp add: wait_for_daemon.simps[of w started_at deadline v c])
      then show ?thesis using observes_mono[OF observes_trans[OF o "1.IH"[OF False x[symmetric] again refl]] n] by simp
    qed
  qed
qed

lemma observes_ensure:
  "observes (rounds (case cap of Some s \<Rightarrow> s | None \<Rightarrow> (case cl_deadline c of Some d \<Rightarrow> d - cl_time c | None \<Rightarrow> 25000)))
     c (snd (ensure_daemon_running w cap c))"
proof -
  obtain r c1 where reach: "reachable_daemon_info w c = (r, c1)" by fastforce
  then have o1: "observes 0 c c1" using observes_reachable[of c w] by simp
  show ?thesis
  proof (cases r)
    case (Some entry)
    then show ?thesis using reach observes_mono[OF o1] by (simp add: ensure_daemon_running_def)
  next
    case None
    obtain owner c2 where probe: "probe_owner w c1 = (owner, c2)" by fastforce
    let ?c3 = "if owner = None then snd (spawn_if_due w c2) else c2"
    let ?d = "startup_deadline_for (cl_time c1) cap c1"
    have "observes 0 c1 c2" using observes_probe(1)[of c1 w] probe by simp
    then have o3: "observes 0 c1 ?c3" using observes_0(1)[OF _ observes_spawn] by simp
    let ?v = "\<lparr>wv_alive = True, wv_misses = 0, wv_legacy = 0, wv_last_probe = cl_time c1\<rparr>"
    have res: "ensure_daemon_running w cap c = wait_for_daemon w (cl_time c1) ?d ?v ?c3"
      using reach None probe by (simp add: ensure_daemon_running_def Let_def)
    have "cl_time c \<le> cl_time c1" "cl_deadline c1 = cl_deadline c" "cl_time c1 \<le> cl_time ?c3"
      using o1 o3 by (auto simp: observes_def)
    then have "rounds (?d - cl_time ?c3) \<le> rounds (case cap of Some s \<Rightarrow> s | None \<Rightarrow> (case cl_deadline c of Some d \<Rightarrow> d - cl_time c | None \<Rightarrow> 25000))"
      by (intro rounds_mono) (auto simp: startup_deadline_for_def split: option.split)
    then show ?thesis
      unfolding res using observes_mono observes_0(1)[OF o1 observes_0(1)[OF o3 wait_observes]] by blast
  qed
qed

lemma ensure_ran [simp]: "cl_ran (snd (ensure_daemon_running w cap c)) = cl_ran c"
  using observes_ensure[of c cap w] by (simp add: observes_def)

text \<open>An accepted ping shows a daemon that holds the token of the record and does not drain.\<close>

definition authentic :: "world \<Rightarrow> string \<Rightarrow> info \<Rightarrow> nat \<Rightarrow> bool" where
  "authentic w db_path entry k \<longleftrightarrow> discovery_read (m_file (w k)) = Some entry \<and> in_db_path entry = Some db_path \<and>
     m_link (w (Suc k)) = Answered \<and> \<not> ds_draining (m_daemon (w (Suc k))) \<and>
     ds_auth_token (m_daemon (w (Suc k))) = Some (in_token entry)"

lemma error_not_ok [simp]: "\<not> response_ok (build_error_response rid cd msg)"
  by (simp add: response_ok_def build_error_response_def)

lemma token_ok_True: "token_ok d token = Some True \<Longrightarrow> \<exists>t. ds_auth_token d = Some t \<and> token = JStr t"
  by (auto simp: token_ok_def compare_digest_def split: if_splits json.splits)

lemma ok_response_authentic:
  assumes "handle_request run recorded capability req sid d = (Some r, wk, d')" "response_ok r"
  shows "\<not> ds_draining d" "\<exists>t. ds_auth_token d = Some t \<and> jget ''token'' req = JStr t"
proof -
  have "\<forall>x. route_request d req = Answer x \<longrightarrow> \<not> response_ok x"
    by (auto simp: route_request_def Let_def split: if_splits option.splits bool.splits json.splits)
  then have n: "\<forall>x. route_request d req \<noteq> Answer x" "route_request d req \<noteq> Crash"
    using assms by (auto simp: handle_request_def)
  have "\<not> ds_draining d \<and> token_ok d (jget ''token'' req) = Some True"
    using n by (auto simp: route_request_def Let_def split: if_splits option.splits bool.splits)
  then show "\<not> ds_draining d" "\<exists>t. ds_auth_token d = Some t \<and> jget ''token'' req = JStr t"
    using token_ok_True by auto
qed

lemma ping_ok:
  assumes "fst (authenticated_ping_ok w entry c)"
  shows "m_link (w (cl_clock c)) = Answered \<and> \<not> ds_draining (m_daemon (w (cl_clock c))) \<and>
    ds_auth_token (m_daemon (w (cl_clock c))) = Some (in_token entry)"
proof -
  let ?m = "w (cl_clock c)"
  let ?req = "build_request (m_request_id ?m) ''ping'' (JObj []) (Some (in_token entry))"
  obtain r c' where x: "exchange w ''ping'' (JObj []) (Some (in_token entry)) c = (Got r, c')" "response_ok r"
    using assms by (auto simp: authenticated_ping_ok_def split: prod.splits reply.splits)
  then obtain wk d' where "m_link ?m = Answered"
    and h: "handle_request (m_run ?m) (m_recorded ?m) (m_capability ?m) ?req (m_sid ?m) (m_daemon ?m) = (Some r, wk, d')"
    by (auto simp: exchange_def Let_def split: link.splits prod.splits option.splits)
  moreover have "jget ''token'' ?req = JStr (in_token entry)" by (simp add: build_request_def jopt_def)
  ultimately show ?thesis using ok_response_authentic[OF h x(2)] by auto
qed

lemma reachable_authentic:
  assumes "reachable_daemon_info w c = (Some entry, c')"
  shows "authentic w (cl_db_path c) entry (cl_clock c)"
proof -
  have look: "discovery_read (m_file (w (cl_clock c))) = Some entry" "in_db_path entry = Some (cl_db_path c)"
    and "fst (authenticated_ping_ok w entry (tick w c))"
    using assms by (auto simp: reachable_daemon_info_def discovery_look_def split: option.splits if_splits prod.splits)
  then show ?thesis using ping_ok[of w entry "tick w c"] by (simp add: authentic_def tick_def)
qed

lemma wait_round_entry:
  assumes "wait_round w started_at deadline v c = (Inr (Inl entry), c')"
  shows "\<exists>k \<ge> cl_clock c. authentic w (cl_db_path c) entry k"
proof -
  let ?c1 = "sleep w (min 250 (deadline - cl_time c)) c"
  obtain c2 where "reachable_daemon_info w ?c1 = (Some entry, c2)"
    using assms by (auto simp: wait_round_def Let_def split: prod.splits option.splits sum.splits)
  moreover have "cl_clock c \<le> cl_clock ?c1" "cl_db_path ?c1 = cl_db_path c"
    using observes_sleep(1)[of c w "min 250 (deadline - cl_time c)"] by (auto simp: observes_def)
  ultimately show ?thesis using reachable_authentic by metis
qed

lemma wait_round_not_starting: "wait_round w started_at deadline v c = (Inl e, c') \<Longrightarrow> \<exists>f. e = DaemonStartupError f"
  by (auto simp: wait_round_def Let_def legacy_attempt_def startup_failure_of_def split: prod.splits option.splits sum.splits if_splits)

lemma wait_result:
  assumes "wait_for_daemon w started_at deadline v c = (r, c')"
  shows "(\<forall>entry. r = Inr entry \<longrightarrow> (\<exists>k \<ge> cl_clock c. authentic w (cl_db_path c) entry k)) \<and>
    (\<forall>e. r = Inl e \<longrightarrow> (\<exists>n. e = DaemonStartingError n) \<and> deadline \<le> cl_time c' \<or> (\<exists>f. e = DaemonStartupError f))"
  using assms
proof (induction w started_at deadline v c rule: wait_for_daemon.induct)
  case (1 w started_at deadline v c)
  show ?case
  proof (cases "deadline \<le> cl_time c")
    case True
    then show ?thesis using "1.prems"
      by (auto simp: wait_for_daemon.simps startup_failure_of_def split: prod.splits if_splits)
  next
    case False
    obtain x c1 where x: "wait_round w started_at deadline v c = (x, c1)" by fastforce
    note unf = wait_for_daemon.simps[of w started_at deadline v c]
    have o: "cl_clock c \<le> cl_clock c1" "cl_db_path c1 = cl_db_path c"
      using wait_round_observes(1)[of c w started_at deadline v] x by (auto simp: observes_def)
    consider (err) e where "x = Inl e" | (fin) entry where "x = Inr (Inl entry)" | (again) v' where "x = Inr (Inr v')"
      by (metis sum.exhaust)
    then show ?thesis
    proof cases
      case err
      then show ?thesis using "1.prems" False x wait_round_not_starting[of w started_at deadline v c e c1] by (auto simp: unf)
    next
      case fin
      then show ?thesis using "1.prems" False x wait_round_entry[of w started_at deadline v c entry c1] by (auto simp: unf)
    next
      case again
      then have "wait_for_daemon w started_at deadline v' c1 = (r, c')" using "1.prems" False x by (simp add: unf)
      from "1.IH"[OF False x[symmetric] again refl this] show ?thesis using o by (metis le_trans)
    qed
  qed
qed

lemma ensure_result:
  assumes "ensure_daemon_running w cap c = (r, c')"
  shows "(\<forall>entry. r = Inr entry \<longrightarrow> (\<exists>k \<ge> cl_clock c. authentic w (cl_db_path c) entry k)) \<and>
    (\<forall>e. r = Inl e \<longrightarrow> (\<exists>f. e = DaemonStartupError f) \<or> (\<exists>n. e = DaemonStartingError n) \<and>
       cl_time c + (case cap of Some s \<Rightarrow> s | None \<Rightarrow> (case cl_deadline c of Some d \<Rightarrow> d - cl_time c | None \<Rightarrow> 25000)) \<le> cl_time c')"
proof -
  obtain x c1 where reach: "reachable_daemon_info w c = (x, c1)" by fastforce
  then have o1: "observes 0 c c1" using observes_reachable[of c w] by simp
  show ?thesis
  proof (cases x)
    case (Some entry)
    then show ?thesis using reach assms reachable_authentic[of w c entry c1] by (auto simp: ensure_daemon_running_def)
  next
    case None
    obtain owner c2 where probe: "probe_owner w c1 = (owner, c2)" by fastforce
    let ?c3 = "if owner = None then snd (spawn_if_due w c2) else c2"
    let ?d = "startup_deadline_for (cl_time c1) cap c1"
    let ?v = "\<lparr>wv_alive = True, wv_misses = 0, wv_legacy = 0, wv_last_probe = cl_time c1\<rparr>"
    have "observes 0 c1 c2" using observes_probe(1)[of c1 w] probe by simp
    then have "observes 0 c1 ?c3" using observes_0(1)[OF _ observes_spawn] by simp
    then have o3: "observes 0 c ?c3" using observes_0(1)[OF o1] by blast
    have res: "wait_for_daemon w (cl_time c1) ?d ?v ?c3 = (r, c')"
      using reach None probe assms by (simp add: ensure_daemon_running_def Let_def)
    have d: "cl_time c + (case cap of Some s \<Rightarrow> s | None \<Rightarrow> (case cl_deadline c of Some d \<Rightarrow> d - cl_time c | None \<Rightarrow> 25000)) \<le> max ?d (cl_time c)"
      using o1 by (auto simp: startup_deadline_for_def observes_def split: option.split)
    have "cl_time ?c3 \<le> cl_time c'"
      using wait_observes[of ?d ?c3 w "cl_time c1" ?v] unfolding res observes_def by simp
    then have "cl_time c \<le> cl_time c'" using o3 by (simp add: observes_def)
    moreover have "cl_clock c \<le> cl_clock ?c3" "cl_db_path ?c3 = cl_db_path c" using o3 by (simp_all add: observes_def)
    ultimately have late: "?d \<le> cl_time c' \<Longrightarrow> cl_time c + (case cap of Some s \<Rightarrow> s | None \<Rightarrow>
        (case cl_deadline c of Some d \<Rightarrow> d - cl_time c | None \<Rightarrow> 25000)) \<le> cl_time c'"
      and here: "cl_clock c \<le> cl_clock ?c3" "cl_db_path ?c3 = cl_db_path c"
      using d by linarith+
    have "\<exists>k \<ge> cl_clock c. authentic w (cl_db_path c) entry k" if e: "r = Inr entry" for entry
    proof -
      obtain k where "cl_clock ?c3 \<le> k" "authentic w (cl_db_path ?c3) entry k" using wait_result[OF res] e by blast
      then show ?thesis using here by (intro exI[of _ k]) simp
    qed
    moreover have "(\<exists>f. e = DaemonStartupError f) \<or> (\<exists>n. e = DaemonStartingError n) \<and> ?d \<le> cl_time c'" if "r = Inl e" for e
      using wait_result[OF res] that by blast
    ultimately show ?thesis using late by blast
  qed
qed

section \<open>Call lemmas\<close>

lemma bindc_ran:
  "(\<And>c. cl_ran (snd (m c)) = cl_ran c) \<Longrightarrow> (\<And>x c. cl_ran (snd (f x c)) = cl_ran c) \<Longrightarrow> cl_ran (snd (bindc m f c)) = cl_ran c"
  by (simp add: bindc_def split: prod.split sum.split) (metis snd_conv)

lemma tick_ran [simp]: "cl_ran (tick w c) = cl_ran c"
  by (simp add: tick_def)

lemma reachable_ran [simp]: "cl_ran (snd (reachable_daemon_info w c)) = cl_ran c"
  using observes_reachable[of c w] by (simp add: observes_def)

lemma hello_attempt_ran [simp]: "cl_ran (snd (open_session_attempt w s entry c)) = cl_ran c"
  using exchange_session_method[of "''hello''" w "hello_params s c" "Some (in_token entry)" c]
  by (cases "exchange w ''hello'' (hello_params s c) (Some (in_token entry)) c")
    (simp add: open_session_attempt_def split: reply.split)

lemma ranD:
  "ensure_daemon_running w cap c = (x, c') \<Longrightarrow> cl_ran c' = cl_ran c"
  "open_session_attempt w s entry c = (y, c') \<Longrightarrow> cl_ran c' = cl_ran c"
  "reachable_daemon_info w c = (z, c') \<Longrightarrow> cl_ran c' = cl_ran c"
  using ensure_ran[of w cap c] hello_attempt_ran[of w s entry c] reachable_ran[of w c] by simp_all

lemma hello_once_ran: "hello_once w s c = (x, c') \<Longrightarrow> cl_ran c' = cl_ran c"
  by (auto simp: hello_once_def dest!: ranD split: prod.splits sum.splits)

lemma open_session_ran [simp]: "cl_ran (snd (open_session w s c)) = cl_ran c"
  by (auto simp: open_session_def dest!: hello_once_ran split: prod.split sum.split)

lemma reconnect_ran [simp]: "cl_ran (snd (reconnect w s c)) = cl_ran c"
  by (simp add: reconnect_def)

lemma ensure_fresh_ran [simp]: "cl_ran (snd (ensure_fresh w s c)) = cl_ran c"
  unfolding ensure_fresh_def by (rule bindc_ran) (simp_all add: discovery_look_def split: option.split)

lemma refresh_ran [simp]: "cl_ran (snd (refresh_call_session w spawn bound params c)) = cl_ran c"
  by (simp add: refresh_call_session_def bindc_ran split: option.split)

lemma find_daemon_ran [simp]: "cl_ran (snd (find_daemon w spawn c)) = cl_ran c"
  by (auto simp: find_daemon_def dest!: ranD split: prod.split option.split)

lemma retry_ran [simp]: "cl_ran (snd (response_requests_retry w spawn retry bound r c)) = cl_ran c"
  by (simp add: response_requests_retry_def bindc_ran Let_def split: option.split)

lemma refresh_keeps_call:
  assumes "refresh_call_session w spawn bound params c = (Inr params', c')" "k \<noteq> ''caller_agent_session_capability''"
  shows "jget k (JObj params') = jget k (JObj params)"
  using assms
  by (auto simp: refresh_call_session_def bindc_def rewrite_capability_def update_conv' delete_conv'
      split: option.splits if_splits prod.splits sum.splits)

lemma requests_retry_result:
  assumes "response_requests_retry w spawn retry bound r c = (x, c')"
  shows "x = Inr False \<longleftrightarrow> response_ok r"
    "x = Inr True \<Longrightarrow> error_field ''code'' INTERNAL_ERROR r \<noteq> JStr INTERNAL_ERROR"
    "x = Inl e \<Longrightarrow> error_field ''code'' INTERNAL_ERROR r = JStr INTERNAL_ERROR \<Longrightarrow>
      \<exists>msg. e = DaemonRpcError (JStr INTERNAL_ERROR) msg"
  using assms
  by (auto simp: response_requests_retry_def Let_def bindc_def split: if_splits option.splits prod.splits sum.splits)

lemma prepare_error_not_ok:
  assumes "prepare_method rid meth params d = (Inl r, d')"
  shows "\<not> response_ok r"
proof -
  have "\<not> response_ok x" if "tool_request rid params d = Inl x" for x
    using that by (auto simp: tool_request_def Let_def split: json.splits if_splits)
  moreover have "\<not> response_ok x" if "validate_caller_session rid params d = (Inl (Some x), d'')" for x d''
    using that by (auto simp: validate_caller_session_def caller_metadata_def Let_def
        split: sum.splits option.splits if_splits json.splits list.splits)
  ultimately show ?thesis using assms
    by (auto simp: prepare_method_def prepare_tool_call_def split: if_splits sum.splits prod.splits option.splits json.splits)
qed

text \<open>A request that is answered with success has run its work.\<close>

lemma ok_means_ran:
  assumes "handle_request run recorded capability req sid d = (Some r, wk, d')" "response_ok r"
    "jget ''method'' req = JStr ''tool_call''"
  shows "\<exists>x. wk = Some x \<and> run x = Inr (jget ''result'' r)"
proof -
  have "\<forall>x. route_request d req = Answer x \<longrightarrow> \<not> response_ok x" "\<forall>m p. route_request d req \<noteq> Session_Method m p"
    using assms(3) by (auto simp: route_request_def Let_def split: if_splits option.splits bool.splits json.splits)
  then obtain meth params where route: "route_request d req = Counted_Method meth params"
    using assms by (cases "route_request d req") (auto simp: handle_request_def)
  obtain b d1 where acq: "acquire_inflight d = (b, d1)" by fastforce
  have b using assms route acq by (cases b) (auto simp: handle_request_def Let_def)
  obtain p d2 where prep: "prepare_method (jget ''id'' req) meth params d1 = (p, d2)" by fastforce
  show ?thesis
  proof (cases p)
    case (Inl err)
    then show ?thesis using assms route acq \<open>b\<close> prep prepare_error_not_ok[of "jget ''id'' req" meth params d1 err d2]
      by (auto simp: handle_request_def Let_def)
  next
    case (Inr wl)
    then show ?thesis using assms route acq \<open>b\<close> prep
      by (cases wl) (auto simp: handle_request_def Let_def work_response_def build_ok_response_def split: sum.splits)
  qed
qed

lemma exchange_tool_call:
  assumes x: "exchange w ''tool_call'' (JObj params) token c = (rep, c')"
    and t: "jget ''tool'' (JObj params) = JStr tool" "jget ''kwargs'' (JObj params) = JObj kw"
  shows "cl_ran c' = cl_ran c \<and> (\<forall>r. rep = Got r \<longrightarrow> \<not> response_ok r) \<or>
    cl_ran c' = cl_ran c @ [Tool tool (JObj kw)] \<and>
      (rep = Lost \<or> (\<exists>r. rep = Got r \<and>
         (if response_ok r then m_run (w (cl_clock c)) (Tool tool (JObj kw)) = Inr (jget ''result'' r)
          else error_field ''code'' INTERNAL_ERROR r = JStr INTERNAL_ERROR)))"
proof -
  let ?m = "w (cl_clock c)"
  let ?req = "build_request (m_request_id ?m) ''tool_call'' (JObj params) token"
  obtain resp wk d' where h: "handle_request (m_run ?m) (m_recorded ?m) (m_capability ?m) ?req (m_sid ?m) (m_daemon ?m) = (resp, wk, d')"
    by (metis prod.exhaust)
  have meth: "jget ''method'' ?req = JStr ''tool_call''" "jget ''params'' ?req = JObj params"
    by (simp_all add: build_request_def)
  have wk: "wk = None \<or> wk = Some (Tool tool (JObj kw))"
  proof (cases wk)
    case (Some y)
    then show ?thesis using request_ran(5)[OF h[unfolded Some] meth] t by (cases "kw = []") auto
  qed simp
  have ok: "wk \<noteq> None \<and> m_run ?m (the wk) = Inr (jget ''result'' r)" if "resp = Some r" "response_ok r" for r
    using ok_means_ran[OF h[unfolded that(1)] that(2) meth(1)] by auto
  have err: "error_field ''code'' INTERNAL_ERROR r = JStr INTERNAL_ERROR" if a: "resp = Some r" "\<not> response_ok r" "wk \<noteq> None" for r
  proof -
    obtain y where y: "wk = Some y" using a(3) by blast
    have "response_code r = JStr INTERNAL_ERROR" using request_ran(4)[OF h[unfolded y], of r] a by simp
    then show ?thesis by (auto simp: error_field_def response_code_def Let_def)
  qed
  show ?thesis
  proof (cases "m_link ?m")
    case Refused
    then show ?thesis using x by (auto simp: exchange_def)
  next
    case (Broken received)
    then show ?thesis using x h wk by (cases received) (auto simp: exchange_def note_work_def)
  next
    case Answered
    then have rep: "rep = (case resp of None \<Rightarrow> Lost | Some r \<Rightarrow> Got r)" "c' = note_work wk (tick w c)"
      using x h by (auto simp: exchange_def Let_def split: option.splits)
    show ?thesis using wk
    proof
      assume "wk = None"
      then show ?thesis using rep ok by (auto simp: note_work_def split: option.splits)
    next
      assume wk': "wk = Some (Tool tool (JObj kw))"
      then have "cl_ran c' = cl_ran c @ [Tool tool (JObj kw)]" using rep by (simp add: note_work_def)
      then show ?thesis using rep ok err wk' by (cases resp) auto
    qed
  qed
qed

text \<open>
  How one call can end: nothing was run and it raises; or the work was run once and its result, its
  exception or the loss of the connection is reported.
\<close>

definition call_outcome :: "world \<Rightarrow> work \<Rightarrow> client \<Rightarrow> client_exn + json \<Rightarrow> client \<Rightarrow> bool" where
  "call_outcome w wk c r c' \<longleftrightarrow>
     cl_ran c' = cl_ran c \<and> (\<forall>v. r \<noteq> Inr v) \<or>
     cl_ran c' = cl_ran c @ [wk] \<and>
       ((\<exists>v k. r = Inr v \<and> m_run (w k) wk = Inr v) \<or> (\<exists>msg. r = Inl (DaemonRpcError (JStr INTERNAL_ERROR) msg)) \<or>
        r = Inl (rpc_error ''MID_CALL_FAILURE''))"

lemma call_outcome_cong: "cl_ran c1 = cl_ran c \<Longrightarrow> call_outcome w wk c1 r c' \<Longrightarrow> call_outcome w wk c r c'"
  by (simp add: call_outcome_def)

lemma call_outcome_raise: "cl_ran c' = cl_ran c \<Longrightarrow> call_outcome w wk c (Inl e) c'"
  by (simp add: call_outcome_def)

lemma call_method_outcome:
  assumes "call_method w spawn bound meth retry params c = (r, c')" "meth = ''tool_call''"
    "jget ''tool'' (JObj params) = JStr tool" "jget ''kwargs'' (JObj params) = JObj kw"
  shows "call_outcome w (Tool tool (JObj kw)) c r c'"
  using assms
proof (induction w spawn bound meth retry params c rule: call_method.induct)
  case (1 w spawn bound meth retry params c)
  note unf = call_method.simps[of w spawn bound meth retry params c]
  obtain x c1 where ref: "refresh_call_session w spawn bound params c = (x, c1)" by fastforce
  have c1: "cl_ran c1 = cl_ran c" using refresh_ran[of w spawn bound params c] ref by simp
  show ?case
  proof (cases x)
    case (Inl e)
    then show ?thesis using "1.prems"(1) ref c1 by (auto simp: unf intro: call_outcome_raise)
  next
    case (Inr params')
    have kept: "jget ''tool'' (JObj params') = JStr tool" "jget ''kwargs'' (JObj params') = JObj kw"
      using refresh_keeps_call[of w spawn bound params c params' c1] ref Inr "1.prems"(3,4) by simp_all
    obtain y c2 where fd: "find_daemon w spawn c1 = (y, c2)" by fastforce
    have c2: "cl_ran c2 = cl_ran c" using find_daemon_ran[of w spawn c1] fd c1 by simp
    show ?thesis
    proof (cases y)
      case (Inl e)
      then show ?thesis using "1.prems"(1) ref \<open>x = _\<close> fd c2 by (auto simp: unf intro: call_outcome_raise)
    next
      case y: (Inr entry)
      obtain rep c3 where ex: "exchange w meth (JObj params') (Some (in_token entry)) c2 = (rep, c3)" by fastforce
      note here = "1.prems"(1) ref Inr fd y ex unf
      note ran = exchange_tool_call[OF ex[unfolded "1.prems"(2)] kept, unfolded c2]
      show ?thesis
      proof (cases rep)
        case No_Connection
        then have c3: "cl_ran c3 = cl_ran c" using ran by auto
        show ?thesis
        proof (cases "spawn \<and> retry")
          case True
          then have again: "call_method w spawn bound meth False params' c3 = (r, c')" using here No_Connection by simp
          have "call_outcome w (Tool tool (JObj kw)) c3 r c'"
            using "1.IH"(1)[OF ref[symmetric] Inr fd[symmetric] y ex[symmetric] No_Connection _ _ again "1.prems"(2) kept] True by simp
          then show ?thesis using call_outcome_cong c3 by blast
        next
          case False
          then show ?thesis using here No_Connection c3 by (auto intro: call_outcome_raise split: if_splits)
        qed
      next
        case Lost
        then show ?thesis using here ran by (auto simp: call_outcome_def)
      next
        case (Got resp)
        obtain z c4 where rr: "response_requests_retry w spawn retry bound resp c3 = (z, c4)" by fastforce
        have c4: "cl_ran c4 = cl_ran c3" using retry_ran[of w spawn retry bound resp c3] rr by simp
        note res = requests_retry_result[OF rr]
        show ?thesis
        proof (cases z)
          case (Inl e)
          then have "r = Inl e" "c' = c4" "\<not> response_ok resp" using here Got rr res(1) by auto
          then show ?thesis using ran Got c4 res(3)[OF Inl] by (auto simp: call_outcome_def)
        next
          case z: (Inr again)
          show ?thesis
          proof (cases again)
            case True
            then have "\<not> response_ok resp" "error_field ''code'' INTERNAL_ERROR resp \<noteq> JStr INTERNAL_ERROR"
              using res(1,2) z by auto
            then have "cl_ran c4 = cl_ran c" using ran Got c4 by auto
            moreover have go: "call_method w spawn bound meth False params' c4 = (r, c')" using here Got rr z True by simp
            have "call_outcome w (Tool tool (JObj kw)) c4 r c'"
              using "1.IH"(2)[OF ref[symmetric] Inr fd[symmetric] y ex[symmetric] Got rr[symmetric] z True go "1.prems"(2) kept] .
            ultimately show ?thesis using call_outcome_cong by blast
          next
            case False
            then have "response_ok resp" "r = Inr (jget ''result'' resp)" "c' = c4" using res(1) here Got rr z by auto
            then show ?thesis using ran Got c4 by (auto simp: call_outcome_def)
          qed
        qed
      qed
    qed
  qed
qed

lemma startup_budget_ran:
  assumes "startup_budget body c = (r, c')"
  obtains c0 c1 where "body c0 = (r, c1)" "cl_ran c0 = cl_ran c" "cl_ran c' = cl_ran c1"
proof (cases "cl_deadline c")
  case None
  let ?c0 = "c\<lparr>cl_deadline := Some (cl_time c + 25000)\<rparr>"
  obtain c1 where "body ?c0 = (r, c1)" "c' = c1\<lparr>cl_deadline := None\<rparr>"
    using assms None by (auto simp: startup_budget_def split: prod.splits)
  then show ?thesis using that[of ?c0 c1] by simp
next
  case (Some d)
  then show ?thesis using that[of c c'] assms by (simp add: startup_budget_def)
qed

lemma call_once_outcome:
  assumes "rpc_call_once w sid tool (JObj kw) c = (r, c')"
  shows "call_outcome w (Tool tool (JObj kw)) c r c'"
proof -
  let ?p = "call_params tool (JObj kw) (Some sid) None"
  obtain c0 c1 bound where m: "call_method w True bound ''tool_call'' True ?p c0 = (r, c1)"
    and eq: "cl_ran c0 = cl_ran c" "cl_ran c' = cl_ran c1"
    using startup_budget_ran[OF assms[unfolded rpc_call_once_def call_def]] by (metis (no_types, lifting))
  have "call_outcome w (Tool tool (JObj kw)) c0 r c1"
    by (rule call_method_outcome[OF m]) (simp_all add: call_params_def)
  then show ?thesis using eq by (simp add: call_outcome_def)
qed

lemma read_retry_ran:
  assumes "rpc_read_retry w sid tool (JObj kw) c = (r, c')"
  shows "cl_ran c' = cl_ran c \<or> cl_ran c' = cl_ran c @ [Tool tool (JObj kw)]"
proof -
  obtain r1 where "rpc_call_once w sid tool (JObj kw) c = (r1, c')"
    using assms by (auto simp: rpc_read_retry_def split: prod.splits sum.splits client_exn.splits)
  from call_once_outcome[OF this] show ?thesis by (auto simp: call_outcome_def)
qed

lemma dispatch_outcome:
  assumes "rpc_dispatch_with_recovery w sid tool (JObj kw) c = (r, c')"
  shows "if tool \<in> set READ_TOOLS then \<exists>n \<le> 2. cl_ran c' = cl_ran c @ replicate n (Tool tool (JObj kw))
    else call_outcome w (Tool tool (JObj kw)) c r c' \<and> (tool \<in> set WRITE_TOOLS \<longrightarrow> r \<noteq> Inl (rpc_error ''MID_CALL_FAILURE'')) \<or>
      r = Inr (rpc_starting_response tool) \<and> cl_ran c' = cl_ran c \<or>
      r = Inr (rpc_write_lost_response tool) \<and> (cl_ran c' = cl_ran c \<or> cl_ran c' = cl_ran c @ [Tool tool (JObj kw)])"
proof -
  let ?wk = "Tool tool (JObj kw)"
  obtain r1 c1 where o: "rpc_call_once w sid tool (JObj kw) c = (r1, c1)" by fastforce
  have co: "call_outcome w ?wk c r1 c1" by (rule call_once_outcome[OF o])
  then have ran1: "cl_ran c1 = cl_ran c \<or> cl_ran c1 = cl_ran c @ [?wk]" by (auto simp: call_outcome_def)
  have rep: "\<exists>n \<le> 2. cl_ran x = cl_ran c @ replicate n ?wk"
    if x: "cl_ran x = cl_ran c1 \<or> cl_ran x = cl_ran c1 @ [?wk]" for x
  proof -
    consider "cl_ran x = cl_ran c @ replicate 0 ?wk" | "cl_ran x = cl_ran c @ replicate 1 ?wk" | "cl_ran x = cl_ran c @ replicate 2 ?wk"
      using x ran1 by (auto simp: numeral_2_eq_2)
    then show ?thesis by cases (blast intro: exI[of _ 0] exI[of _ "Suc 0"] exI[of _ 2] le0 one_le_numeral order_refl)+
  qed
  have starting: "r = Inr (rpc_starting_response tool) \<and> c' = c1" if "r1 = Inl (DaemonStartingError n)" for n
    using assms o that by (simp add: rpc_dispatch_with_recovery_def)
  have other: "r = r1 \<and> c' = c1"
    if "\<forall>n. r1 \<noteq> Inl (DaemonStartingError n)" "\<forall>msg. r1 \<noteq> Inl (DaemonRpcError (JStr ''MID_CALL_FAILURE'') msg)"
    using assms o that by (auto simp: rpc_dispatch_with_recovery_def split: sum.splits client_exn.splits if_splits)
  have mid: "if tool \<in> set READ_TOOLS then rpc_read_retry w sid tool (JObj kw) c1 = (r, c')
      else c' = c1 \<and> (if tool \<in> set WRITE_TOOLS then r = Inr (rpc_write_lost_response tool) else r = r1)"
    if "r1 = Inl (DaemonRpcError (JStr ''MID_CALL_FAILURE'') msg)" for msg
    using assms o that by (auto simp: rpc_dispatch_with_recovery_def split: if_splits)
  consider (st) n where "r1 = Inl (DaemonStartingError n)" | (mi) msg where "r1 = Inl (DaemonRpcError (JStr ''MID_CALL_FAILURE'') msg)"
    | (ot) "\<forall>n. r1 \<noteq> Inl (DaemonStartingError n)" "\<forall>msg. r1 \<noteq> Inl (DaemonRpcError (JStr ''MID_CALL_FAILURE'') msg)" by blast
  then show ?thesis
  proof cases
    case st
    then have "cl_ran c1 = cl_ran c" using co by (auto simp: call_outcome_def)
    then show ?thesis using starting[OF st] rep[of c1] by simp
  next
    case mi
    then show ?thesis using mid[OF mi] rep ran1 co read_retry_ran[of w sid tool kw c1 r c'] by (auto split: if_splits)
  next
    case ot
    then show ?thesis using other co rep[of c1] by auto
  qed
qed

section \<open>Properties\<close>

text \<open>
  C29. A write is executed at most once per tool call. Whatever the network and the daemon do during
  \<open>RpcBackend.call\<close>, daemons run the requested tool with the prepared arguments and nothing else, a
  write at most once, a read at most twice. For a write, a reported result is the result of that one
  execution, the answer DAEMON_STARTING means that nothing was run, and an exception means that
  nothing was run unless it carries the daemon's INTERNAL_ERROR. In all other cases the caller is told
  that the connection was lost during the write.
\<close>

theorem at_most_once:
  assumes "rpc_backend_call w agent_id agent_session_id tool kwargs c = (r, c')"
  shows "\<exists>ran. cl_ran c' = cl_ran c @ ran \<and>
    (\<forall>x \<in> set ran. \<exists>kw. rpc_prepare_kwargs agent_id agent_session_id tool kwargs = Inr kw \<and> x = Tool tool (JObj kw)) \<and>
    length ran \<le> (if tool \<in> set READ_TOOLS then 2 else 1) \<and>
    (tool \<in> set WRITE_TOOLS \<longrightarrow>
      (\<forall>v. r = Inr v \<longrightarrow> v = rpc_starting_response tool \<and> ran = [] \<or> v = rpc_write_lost_response tool \<or>
         length ran = 1 \<and> (\<exists>k. m_run (w k) (hd ran) = Inr v)) \<and>
      (\<forall>e. r = Inl e \<and> ran \<noteq> [] \<longrightarrow> (\<exists>msg. e = DaemonRpcError (JStr INTERNAL_ERROR) msg)))"
proof -
  obtain c0 c1 where b: "(case rpc_prepare_kwargs agent_id agent_session_id tool kwargs of
         Inl e \<Rightarrow> (Inl e, c0)
       | Inr kw \<Rightarrow> rpc_dispatch_with_recovery w agent_session_id tool (JObj kw) c0) = (r, c1)"
    and eq: "cl_ran c0 = cl_ran c" "cl_ran c' = cl_ran c1"
    using startup_budget_ran[OF assms[unfolded rpc_backend_call_def]] by metis
  show ?thesis
  proof (cases "rpc_prepare_kwargs agent_id agent_session_id tool kwargs")
    case (Inl e)
    then show ?thesis using b eq by (intro exI[of _ "[]"]) auto
  next
    case (Inr kw)
    then have d: "rpc_dispatch_with_recovery w agent_session_id tool (JObj kw) c0 = (r, c1)" using b by simp
    have disj: "tool \<in> set READ_TOOLS \<Longrightarrow> tool \<notin> set WRITE_TOOLS" by (auto simp: READ_TOOLS_def WRITE_TOOLS_def)
    show ?thesis
    proof (cases "tool \<in> set READ_TOOLS")
      case True
      obtain n where "n \<le> 2" "cl_ran c' = cl_ran c @ replicate n (Tool tool (JObj kw))"
        using dispatch_outcome[OF d] True eq by auto
      then show ?thesis using True disj Inr by (intro exI[of _ "replicate n (Tool tool (JObj kw))"]) auto
    next
      case False
      note o = dispatch_outcome[OF d, unfolded call_outcome_def eq(1), folded eq(2)]
      then have "cl_ran c' = cl_ran c \<or> cl_ran c' = cl_ran c @ [Tool tool (JObj kw)]" using False by auto
      then show ?thesis
      proof
        assume "cl_ran c' = cl_ran c"
        then show ?thesis using o False by (intro exI[of _ "[]"]) auto
      next
        assume "cl_ran c' = cl_ran c @ [Tool tool (JObj kw)]"
        then show ?thesis using o False Inr by (intro exI[of _ "[Tool tool (JObj kw)]"]) auto
      qed
    qed
  qed
qed

text \<open>
  An adapter with a registered session stores a memory; the daemon receives and runs the request, but
  the connection breaks before the answer.
\<close>

definition sample_info :: json where
  "sample_info = JObj [(''service_port'', JInt 50000), (''auth_token'', JStr ''t''), (''db_path'', JStr ''db'')]"

definition sample_daemon :: daemon where
  "sample_daemon = (sys_daemon (system_init ''db'' ''k'' False ''t'' 50000))\<lparr>ds_sessions := [7],
     ds_agents := [(7, \<lparr>ar_ref = 0, ar_agent_session_id = JStr ''s'', ar_capability = ''c'', ar_closing = False, ar_leases = 0\<rparr>)],
     ds_next_ref := 1\<rparr>"

definition sample_moment :: moment where
  "sample_moment = \<lparr>m_delay = 1, m_file = Some sample_info, m_probe = None, m_link = Answered,
     m_daemon = sample_daemon, m_run = (\<lambda>_. Inr (JStr ''merged'')),
     m_recorded = None, m_capability = ''c'', m_sid = 8, m_request_id = ''r'', m_stamp = Stamp_Error, m_wall = 0\<rparr>"

definition sample_client :: client where
  "sample_client = \<lparr>cl_db_path = ''db'', cl_pid = 1, cl_clock = 0, cl_time = 0, cl_deadline = None, cl_last_spawn = None,
     cl_session = Some \<lparr>sc_agent_session_id = Some ''s'', sc_cwd = None, sc_agent_id = Some ''a'', sc_sock = True,
       sc_auth_token = Some ''t'', sc_capability = Some ''c''\<rparr>,
     cl_spawns = [], cl_sleeps = 0, cl_ran = []\<rparr>"

definition sample_world :: world where
  "sample_world k = (if k = 3 then sample_moment\<lparr>m_link := Broken True\<rparr> else sample_moment)"

lemma sample_handled:
  "fst (handle_request (\<lambda>_. Inr (JStr ''merged'')) None ''c'' (build_request ''r'' ''ping'' (JObj []) (Some ''t'')) 8 sample_daemon) =
     Some (build_ok_response (JStr ''r'') (JObj [(''status'', JStr ''ok'')]))"
  "fst (snd (handle_request (\<lambda>_. Inr (JStr ''merged'')) None ''c'' (build_request ''r'' ''tool_call''
     (JObj (AList.update ''caller_agent_session_capability'' (JStr ''c'') (call_params ''merge_tags'' (JObj []) (Some ''s'') None)))
     (Some ''t'')) 8 sample_daemon)) = Some (Tool ''merge_tags'' (JObj []))"
  by code_simp+

lemma sample_record: "discovery_read (Some sample_info) = Some (typed_record sample_info)"
  "in_token (typed_record sample_info) = ''t''" "in_db_path (typed_record sample_info) = Some ''db''"
  by code_simp+

lemma sample_call:
  "rpc_backend_call sample_world (Some ''a'') ''s'' ''merge_tags'' [] sample_client =
     (Inr (rpc_write_lost_response ''merge_tags''),
      sample_client\<lparr>cl_clock := 4, cl_time := 4, cl_ran := [Tool ''merge_tags'' (JObj [])]\<rparr>)"
proof -
  let ?at = "\<lambda>k. sample_client\<lparr>cl_deadline := Some 25000, cl_clock := k, cl_time := k\<rparr>"
  let ?fin = "(?at 4)\<lparr>cl_ran := [Tool ''merge_tags'' (JObj [])]\<rparr>"
  let ?p = "call_params ''merge_tags'' (JObj []) (Some ''s'') None"
  let ?p' = "AList.update ''caller_agent_session_capability'' (JStr ''c'') ?p"
  let ?i = "typed_record sample_info"
  have w: "sample_world k = sample_moment" if "k \<noteq> 3" for k using that by (simp add: sample_world_def)
  have kw: "rpc_prepare_kwargs (Some ''a'') ''s'' ''merge_tags'' [] = Inr []" "''merge_tags'' \<notin> set READ_TOOLS" "''merge_tags'' \<in> set WRITE_TOOLS"
    by code_simp+
  have look: "discovery_look sample_world (?at k) = (Some ?i, ?at (Suc k))" if "k \<noteq> 3" for k
    by (simp add: discovery_look_def w[OF that] sample_moment_def sample_record tick_def sample_client_def)
  have ref: "refresh_call_session sample_world True True ?p (?at 0) = (Inr ?p', ?at (Suc 0))"
    using look[of 0] by (simp add: refresh_call_session_def bindc_def ensure_fresh_def sample_record rewrite_capability_def sample_client_def)
  obtain wk d' where ping: "handle_request (\<lambda>_. Inr (JStr ''merged'')) None ''c'' (build_request ''r'' ''ping'' (JObj []) (Some ''t'')) 8 sample_daemon =
      (Some (build_ok_response (JStr ''r'') (JObj [(''status'', JStr ''ok'')])), wk, d')"
    using sample_handled(1) by (metis fst_conv surj_pair)
  have nowk: "wk = None"
    using session_method_runs_nothing[of "''ping''" "\<lambda>_. Inr (JStr ''merged'')" None "''c''" "''r''" "JObj []" "Some ''t''" 8 sample_daemon] ping
    by simp
  have "authenticated_ping_ok sample_world ?i (?at 2) = (True, ?at 3)"
    by (simp add: authenticated_ping_ok_def exchange_def Let_def w sample_moment_def sample_record ping nowk note_work_def tick_def
        response_ok_def build_ok_response_def sample_client_def)
  then have fd: "find_daemon sample_world True (?at (Suc 0)) = (Inr ?i, ?at 3)"
    using look[of "Suc 0"] by (simp add: find_daemon_def ensure_daemon_running_def reachable_daemon_info_def sample_record sample_client_def numeral_2_eq_2)
  have ex: "exchange sample_world ''tool_call'' (JObj ?p') (Some ''t'') (?at 3) = (Lost, ?fin)"
    by (simp add: exchange_def Let_def sample_world_def sample_moment_def sample_handled(2) note_work_def tick_def sample_client_def)
  have "call_method sample_world True True ''tool_call'' True ?p (?at 0) = (Inl (rpc_error ''MID_CALL_FAILURE''), ?fin)"
    by (subst call_method.simps) (simp add: ref fd sample_record ex)
  then have "rpc_call_once sample_world ''s'' ''merge_tags'' (JObj []) (?at 0) = (Inl (rpc_error ''MID_CALL_FAILURE''), ?fin)"
    by (simp add: rpc_call_once_def call_def startup_budget_def sample_client_def)
  then show ?thesis
    by (simp add: rpc_backend_call_def startup_budget_def kw rpc_dispatch_with_recovery_def sample_client_def)
qed

theorem at_most_once_witness:
  "\<exists>c'. rpc_backend_call sample_world (Some ''a'') ''s'' ''merge_tags'' [] sample_client =
     (Inr (rpc_write_lost_response ''merge_tags''), c') \<and> length (cl_ran c') = 1"
proof -
  have "''merge_tags'' \<notin> set READ_TOOLS" "cl_ran sample_client = []" by code_simp+
  then have "length [Tool ''merge_tags'' (JObj [])] \<le> 1" using at_most_once[OF sample_call] by auto
  then show ?thesis using sample_call by auto
qed

lemma sample_ensure:
  "\<exists>c'. ensure_daemon_running sample_world None sample_client = (Inr (typed_record sample_info), c')"
proof -
  have look: "discovery_look sample_world sample_client = (Some (typed_record sample_info), tick sample_world sample_client)"
    by (simp add: discovery_look_def sample_world_def sample_moment_def sample_record sample_client_def)
  have "fst (authenticated_ping_ok sample_world (typed_record sample_info) (tick sample_world sample_client))"
    using sample_handled(1)
    by (auto simp: authenticated_ping_ok_def exchange_def Let_def sample_world_def sample_moment_def sample_record tick_def
        sample_client_def response_ok_def build_ok_response_def split: option.splits prod.splits)
  then show ?thesis using look
    by (auto simp: ensure_daemon_running_def reachable_daemon_info_def sample_record split: prod.splits)
      (simp_all add: sample_client_def)
qed



text \<open>
  The adapter vouches for the identity of its agent. Whatever arguments a caller passes, the
  arguments sent to the daemon name exactly the configured agent for every tool that takes one, name no
  agent for the other tools (the read filter of \<open>get_events\<close> excepted), and every tool that writes
  under a session carries the session of this adapter; every other argument is passed on unchanged.
  Without a configured identity a tool that takes one is not called at all.
\<close>

lemma adapter_identity:
  "case rpc_prepare_kwargs agent_id agent_session_id tool kwargs of
     Inl e \<Rightarrow> tool \<in> set AGENT_ID_INJECTED_TOOLS \<and> (agent_id = None \<or> agent_id = Some []) \<and>
       (\<forall>w c. rpc_backend_call w agent_id agent_session_id tool kwargs c = (Inl e, c))
   | Inr kw \<Rightarrow>
       (tool \<in> set AGENT_ID_INJECTED_TOOLS \<longrightarrow> (\<exists>a. agent_id = Some a \<and> a \<noteq> [] \<and> map_of kw ''agent_id'' = Some (JStr a))) \<and>
       (tool \<notin> set AGENT_ID_INJECTED_TOOLS \<and> tool \<noteq> ''get_events'' \<longrightarrow> map_of kw ''agent_id'' = None) \<and>
       (tool \<in> set SESSION_STAMPED_TOOLS \<longrightarrow> map_of kw ''agent_session_id'' = Some (JStr agent_session_id)) \<and>
       (\<forall>k. k \<noteq> ''agent_id'' \<and> (tool \<in> set SESSION_STAMPED_TOOLS \<longrightarrow> k \<noteq> ''agent_session_id'') \<longrightarrow>
          map_of kw k = map_of kwargs k)"
proof (cases "rpc_prepare_kwargs agent_id agent_session_id tool kwargs")
  case (Inl e)
  then have "tool \<in> set AGENT_ID_INJECTED_TOOLS \<and> (agent_id = None \<or> agent_id = Some [])"
    by (auto simp: rpc_prepare_kwargs_def Let_def split: if_splits option.splits list.splits)
  moreover have "rpc_backend_call w agent_id agent_session_id tool kwargs c = (Inl e, c)" for w c
    using Inl by (cases "cl_deadline c") (simp_all add: rpc_backend_call_def startup_budget_def)
  ultimately show ?thesis using Inl by simp
next
  case (Inr kw)
  have sub: "tool \<notin> set AGENT_ID_INJECTED_TOOLS \<Longrightarrow> tool \<notin> set SESSION_STAMPED_TOOLS"
    by (auto simp: AGENT_ID_INJECTED_TOOLS_def SESSION_STAMPED_TOOLS_def)
  have "tool = ''get_events'' \<Longrightarrow> tool \<in> set AGENT_ID_PASSTHROUGH_TOOLS"
    "tool \<noteq> ''get_events'' \<Longrightarrow> tool \<notin> set AGENT_ID_PASSTHROUGH_TOOLS"
    by (simp_all add: AGENT_ID_PASSTHROUGH_TOOLS_def)
  then show ?thesis using Inr sub
    by (auto simp: rpc_prepare_kwargs_def Let_def update_conv' delete_conv' split: if_splits option.splits list.splits)
qed

lemma adapter_identity_witness:
  "rpc_prepare_kwargs (Some ''a'') ''s'' ''store_memory'' [(''agent_id'', JStr ''intruder''), (''content'', JStr ''x'')] =
     Inr [(''agent_id'', JStr ''a''), (''content'', JStr ''x''), (''agent_session_id'', JStr ''s'')] \<and>
   (\<exists>a. Some ''a'' = Some a \<and> map_of [(''agent_id'', JStr ''a''), (''content'', JStr ''x''), (''agent_session_id'', JStr ''s'')] ''agent_id'' = Some (JStr a))"
proof -
  let ?kw = "[(''agent_id'', JStr ''intruder''), (''content'', JStr ''x'')]"
  have kw: "rpc_prepare_kwargs (Some ''a'') ''s'' ''store_memory'' ?kw =
      Inr [(''agent_id'', JStr ''a''), (''content'', JStr ''x''), (''agent_session_id'', JStr ''s'')]" by code_simp
  have tool: "''store_memory'' \<in> set AGENT_ID_INJECTED_TOOLS" by code_simp
  show ?thesis using adapter_identity[where agent_id = "Some ''a''" and agent_session_id = "''s''" and tool = "''store_memory''" and kwargs = ?kw] kw tool by auto
qed

end
