(* ===== verification/Graph_Walk.thy ===== *)
theory Graph_Walk
  imports Salt_Prelude
begin

text \<open>
  Bounded graph walks as SQLite evaluates them. Both graph queries of
  \<^verbatim>\<open>src/src/saltmdb/domain/services/relation_service.py\<close> are recursive common table expressions with
  \<open>UNION ALL\<close>, a depth limit and a guard against cycles: \<open>cte\<close> is the value of such a query, level by
  level. The locale \<open>path_rows\<close> is what a reader of the rows relies on, and shows that the smallest
  depth of a row is the distance from the origin.
\<close>

section \<open>Recursive queries\<close>

fun cte :: "('r \<Rightarrow> 'r list) \<Rightarrow> nat \<Rightarrow> 'r list \<Rightarrow> 'r list" where
  "cte step 0 rows = rows"
| "cte step (Suc n) rows = rows @ cte step n (concat (map step rows))"

text \<open>Every row is a seed or one step from another row.\<close>

lemma cte_sound: "x \<in> set (cte step n rows) \<Longrightarrow> x \<in> set rows \<or> (\<exists>y \<in> set (cte step n rows). x \<in> set (step y))"
proof (induction n arbitrary: rows)
  case (Suc n)
  show ?case
  proof (cases "x \<in> set rows")
    case False
    then have "x \<in> set (cte step n (concat (map step rows)))" using Suc.prems by simp
    from Suc.IH[OF this] show ?thesis
    proof
      assume "x \<in> set (concat (map step rows))"
      then show ?thesis by auto
    qed auto
  qed simp
qed simp

lemma cte_seed: "x \<in> set rows \<Longrightarrow> x \<in> set (cte step n rows)"
  by (cases n) auto

text \<open>A row that is \<open>k\<close> steps away from a seed is there when the fuel allows \<open>k\<close> steps.\<close>

fun steps :: "('r \<Rightarrow> 'r list) \<Rightarrow> nat \<Rightarrow> 'r list \<Rightarrow> 'r list" where
  "steps step 0 rows = rows"
| "steps step (Suc k) rows = steps step k (concat (map step rows))"

lemma steps_Suc: "set (steps step (Suc k) rows) = (\<Union>x \<in> set (steps step k rows). set (step x))"
  by (induction k arbitrary: rows) auto

lemma cte_steps: "k \<le> n \<Longrightarrow> set (steps step k rows) \<subseteq> set (cte step n rows)"
proof (induction n arbitrary: k rows)
  case (Suc n)
  then show ?case by (cases k) (auto intro: cte_seed)
qed simp

section \<open>Walks and distances\<close>

definition edge_rel :: "('e \<Rightarrow> bool) \<Rightarrow> ('e \<Rightarrow> 'n) \<Rightarrow> ('e \<Rightarrow> 'n) \<Rightarrow> 'n \<Rightarrow> 'n \<Rightarrow> bool" where
  "edge_rel E near nxt x y \<longleftrightarrow> (\<exists>e. E e \<and> near e = x \<and> nxt e = y)"

text \<open>A non-empty list of edges from \<open>origin\<close> that visits no node twice.\<close>

fun walk_from :: "('e \<Rightarrow> bool) \<Rightarrow> ('e \<Rightarrow> 'n) \<Rightarrow> ('e \<Rightarrow> 'n) \<Rightarrow> 'n \<Rightarrow> 'e list \<Rightarrow> bool" where
  "walk_from E near nxt x [] = True"
| "walk_from E near nxt x (e # es) = (E e \<and> near e = x \<and> walk_from E near nxt (nxt e) es)"

definition simple_walk :: "('e \<Rightarrow> bool) \<Rightarrow> ('e \<Rightarrow> 'n) \<Rightarrow> ('e \<Rightarrow> 'n) \<Rightarrow> 'n \<Rightarrow> 'e list \<Rightarrow> bool" where
  "simple_walk E near nxt origin es \<longleftrightarrow> es \<noteq> [] \<and> walk_from E near nxt origin es \<and> distinct (origin # map nxt es)"

definition distance :: "('n \<Rightarrow> 'n \<Rightarrow> bool) \<Rightarrow> 'n \<Rightarrow> 'n \<Rightarrow> nat \<Rightarrow> bool" where
  "distance R x y n \<longleftrightarrow> (R ^^ n) x y \<and> (\<forall>j < n. \<not> (R ^^ j) x y)"

lemma distance_unique: "distance R x y n \<Longrightarrow> distance R x y m \<Longrightarrow> n = m"
  unfolding distance_def by (metis linorder_neqE_nat)

lemma distance_exists: "(R ^^ n) x y \<Longrightarrow> \<exists>m \<le> n. distance R x y m"
proof -
  assume n: "(R ^^ n) x y"
  let ?m = "LEAST k. (R ^^ k) x y"
  have "(R ^^ ?m) x y" "?m \<le> n" using n by (auto intro: LeastI Least_le)
  moreover have "\<not> (R ^^ j) x y" if "j < ?m" for j using not_less_Least[OF that] .
  ultimately show ?thesis unfolding distance_def by blast
qed

lemma distance_self: "distance R x y 0 \<longleftrightarrow> x = y"
  by (auto simp: distance_def)

lemma walk_from_append:
  "walk_from E near nxt x (es @ [e]) \<longleftrightarrow> walk_from E near nxt x es \<and> E e \<and> near e = (if es = [] then x else nxt (last es))"
  by (induction es arbitrary: x) auto

lemma walk_from_edges: "walk_from E near nxt x es \<Longrightarrow> e \<in> set es \<Longrightarrow> E e"
  by (induction es arbitrary: x) auto

text \<open>A node at distance \<open>n\<close> is reached by a walk along which the distances count up.\<close>

lemma distance_walk:
  assumes "distance (edge_rel E near nxt) origin y n"
  shows "\<exists>es. length es = n \<and> walk_from E near nxt origin es \<and> (if es = [] then origin else nxt (last es)) = y \<and>
    (\<forall>i < n. distance (edge_rel E near nxt) origin (nxt (es ! i)) (Suc i))"
  using assms
proof (induction n arbitrary: y)
  case 0
  then show ?case by (auto simp: distance_def)
next
  case (Suc n)
  let ?R = "edge_rel E near nxt"
  obtain z where z: "(?R ^^ n) origin z" "?R z y" using Suc.prems by (auto simp: distance_def)
  have "distance ?R origin z n"
  proof -
    have "\<not> (?R ^^ j) origin z" if "j < n" for j
      using that z(2) Suc.prems unfolding distance_def by (metis Suc_less_eq relpowp_Suc_I)
    then show ?thesis using z by (simp add: distance_def)
  qed
  then obtain es where es: "length es = n" "walk_from E near nxt origin es" "(if es = [] then origin else nxt (last es)) = z"
    "\<forall>i < n. distance ?R origin (nxt (es ! i)) (Suc i)" using Suc.IH by blast
  obtain e where e: "E e" "near e = z" "nxt e = y" using z(2) by (auto simp: edge_rel_def)
  have "walk_from E near nxt origin (es @ [e])" using es e by (simp add: walk_from_append)
  moreover have "\<forall>i < Suc n. distance ?R origin (nxt ((es @ [e]) ! i)) (Suc i)"
    using es e Suc.prems by (auto simp: nth_append less_Suc_eq)
  ultimately show ?case using es e by (intro exI[of _ "es @ [e]"]) simp
qed

lemma distances_simple:
  assumes "\<forall>i < length es. distance R origin (f (es ! i)) (Suc i)"
  shows "distinct (origin # map f es)"
proof -
  have "f (es ! i) \<noteq> f (es ! j)" if "i < j" "j < length es" for i j
  proof
    assume "f (es ! i) = f (es ! j)"
    then have "distance R origin (f (es ! i)) (Suc i)" "distance R origin (f (es ! i)) (Suc j)"
      using assms[rule_format, of i] assms[rule_format, of j] that by simp_all
    then show False using distance_unique[of R origin "f (es ! i)" "Suc i" "Suc j"] that by simp
  qed
  then have "distinct (map f es)" by (simp add: distinct_conv_nth) (metis linorder_neqE_nat)
  moreover have "origin \<notin> set (map f es)"
    using assms distance_unique[of R origin origin 0] distance_self[of R origin origin] by (fastforce simp: in_set_conv_nth)
  ultimately show ?thesis by simp
qed

section \<open>What the rows of a walk say\<close>

text \<open>
  \<open>rows\<close> are the edges of the walk with the depth at which they were found. \<open>clean\<close> is the condition
  under which the cycle guard recognises exactly the nodes on the path.
\<close>

locale path_rows =
  fixes E :: "'e \<Rightarrow> bool" and near nxt :: "'e \<Rightarrow> 'n" and origin :: 'n and limit :: nat
    and rows :: "('e \<times> nat) set" and clean :: bool
  assumes row_sound: "(e, n) \<in> rows \<Longrightarrow>
      E e \<and> 1 \<le> n \<and> n \<le> limit \<and> (n = 1 \<and> near e = origin \<or> (\<exists>e'. (e', n - 1) \<in> rows \<and> nxt e' = near e))"
    and row_complete: "clean \<Longrightarrow> simple_walk E near nxt origin es \<Longrightarrow> length es \<le> limit \<Longrightarrow> (last es, length es) \<in> rows"
begin

abbreviation R :: "'n \<Rightarrow> 'n \<Rightarrow> bool" where
  "R \<equiv> edge_rel E near nxt"

lemma row_reaches: "(e, n) \<in> rows \<Longrightarrow> (R ^^ (n - 1)) origin (near e) \<and> (R ^^ n) origin (nxt e)"
proof (induction n arbitrary: e)
  case 0
  then show ?case using row_sound by fastforce
next
  case (Suc n)
  have e: "E e" using row_sound[OF Suc.prems] by simp
  have "(R ^^ n) origin (near e)"
  proof (cases n)
    case 0
    then show ?thesis using row_sound[OF Suc.prems] row_sound[of _ 0] by auto
  next
    case (Suc k)
    then obtain e' where "(e', n) \<in> rows" "nxt e' = near e" using row_sound[OF Suc.prems] by auto
    then show ?thesis using Suc.IH by metis
  qed
  moreover have "R (near e) (nxt e)" using e by (auto simp: edge_rel_def)
  ultimately show ?case by auto
qed

lemma near_distance_row:
  assumes "clean" "distance R origin x m" "E e" "near e = x" "m < limit" "nxt e \<noteq> origin"
    "\<And>i. i \<le> m \<Longrightarrow> \<not> distance R origin (nxt e) i \<or> \<not> R\<^sup>*\<^sup>* (nxt e) x"
  shows "(e, Suc m) \<in> rows"
proof -
  obtain es where es: "length es = m" "walk_from E near nxt origin es" "(if es = [] then origin else nxt (last es)) = x"
    "\<forall>i < m. distance R origin (nxt (es ! i)) (Suc i)" using distance_walk[OF assms(2)] by blast
  have to_x: "R\<^sup>*\<^sup>* (nxt (es ! i)) x" if "i < m" for i
  proof -
    have "walk_from E near nxt y fs \<Longrightarrow> i < length fs \<Longrightarrow> R\<^sup>*\<^sup>* (nxt (fs ! i)) (nxt (last fs))" for y i fs
    proof (induction fs arbitrary: y i)
      case (Cons f fs)
      show ?case
      proof (cases fs)
        case (Cons g gs)
        have "R (nxt f) (nxt g)" using Cons.prems \<open>fs = g # gs\<close> by (auto simp: edge_rel_def)
        moreover have tail: "R\<^sup>*\<^sup>* (nxt (fs ! j)) (nxt (last fs))" if "j < length fs" for j
          using Cons.IH[of "nxt f" j] Cons.prems that by simp
        moreover have "last (f # fs) = last fs" "fs ! 0 = g" using \<open>fs = g # gs\<close> by simp_all
        ultimately show ?thesis using Cons.prems tail[of 0] \<open>fs = g # gs\<close>
          by (cases i) (simp_all add: converse_rtranclp_into_rtranclp)
      qed (use Cons.prems in simp)
    qed simp
    then show ?thesis using es that by force
  qed
  have "nxt e \<notin> set (map nxt es)"
    using assms(7) es(1,4) to_x by (fastforce simp: in_set_conv_nth)
  then have "distinct (origin # map nxt (es @ [e]))"
    using distances_simple[of es R origin nxt] es assms(6) by auto
  moreover have "walk_from E near nxt origin (es @ [e])" using es assms by (simp add: walk_from_append)
  ultimately have "simple_walk E near nxt origin (es @ [e])" by (simp add: simple_walk_def)
  from row_complete[OF assms(1) this] show ?thesis using es assms by simp
qed

lemma distance_row:
  assumes "clean" "distance R origin y n" "y \<noteq> origin" "n \<le> limit"
  shows "\<exists>e. (e, n) \<in> rows \<and> nxt e = y"
proof -
  obtain es where es: "length es = n" "walk_from E near nxt origin es" "(if es = [] then origin else nxt (last es)) = y"
    "\<forall>i < n. distance R origin (nxt (es ! i)) (Suc i)" using distance_walk[OF assms(2)] by blast
  have "es \<noteq> []" using es assms(3) by auto
  then have "simple_walk E near nxt origin es"
    using es distances_simple[of es R origin nxt] by (simp add: simple_walk_def)
  from row_complete[OF assms(1) this] show ?thesis using es \<open>es \<noteq> []\<close> assms(4) by auto
qed

text \<open>The smallest depth of a row that leads to a node is the distance of the node.\<close>

lemma min_row_distance:
  assumes "clean" "y \<noteq> origin" "(e, n) \<in> rows" "nxt e = y" "\<And>e' m. (e', m) \<in> rows \<Longrightarrow> nxt e' = y \<Longrightarrow> n \<le> m"
  shows "distance R origin y n"
proof -
  obtain m where m: "m \<le> n" "distance R origin y m" using row_reaches[OF assms(3)] assms(4) distance_exists by metis
  have "1 \<le> m" using m(2) assms(2) distance_self[of R origin y] by (cases m) auto
  then have "m \<le> limit" using m(1) row_sound[OF assms(3)] by simp
  then obtain e' where "(e', m) \<in> rows" "nxt e' = y" using distance_row assms m by blast
  then have "n \<le> m" using assms(5) by blast
  then show ?thesis using m by simp
qed

text \<open>If every node was found below the limit, nothing lies beyond it.\<close>

lemma exhausted_complete:
  assumes "clean" "\<And>y n. distance R origin y n \<Longrightarrow> n \<noteq> limit" "(R ^^ k) origin y"
  shows "\<exists>n < limit. distance R origin y n"
proof -
  obtain n where n: "distance R origin y n" using distance_exists[OF assms(3)] by blast
  have "n < limit"
  proof (rule ccontr)
    assume "\<not> n < limit"
    obtain es where es: "length es = n" "walk_from E near nxt origin es" "(if es = [] then origin else nxt (last es)) = y"
      "\<forall>i < n. distance R origin (nxt (es ! i)) (Suc i)" using distance_walk[OF n] by blast
    have "\<exists>z. distance R origin z limit"
    proof (cases limit)
      case 0
      then show ?thesis using distance_self by metis
    next
      case (Suc i)
      then show ?thesis using es(4) \<open>\<not> n < limit\<close> by (metis Suc_le_eq not_less)
    qed
    then show False using assms(2) by blast
  qed
  then show ?thesis using n by blast
qed

end

end
