(* ===== verification/Lineage.thy ===== *)
theory Lineage
  imports Store Graph_Walk
begin

text \<open>
  Lifecycle lineage of \<^verbatim>\<open>src/src/saltmdb/domain/services/relation_service.py\<close>: \<open>get_lineage\<close> walks the
  edges \<open>revises\<close>, \<open>supersedes\<close> and \<open>consolidated_from\<close> from a memory to its predecessors or to its
  successors, with every edge checked against a point in time and, for an agent, against the
  visibility of its two ends. The recursive query is evaluated by \<open>cte\<close>; the path column with its
  delimited ids and the \<open>instr\<close> guard are kept as strings. Messages of errors are not modelled.
\<close>

section \<open>Edges\<close>

definition LINEAGE_PREDICATES :: "string list" where
  "LINEAGE_PREDICATES = [''revises'', ''supersedes'', ''consolidated_from'']"

text \<open>A comparison of SQLite is not true when one side is NULL.\<close>

definition sql_after :: "env \<Rightarrow> string \<Rightarrow> string option \<Rightarrow> bool" where
  "sql_after \<Gamma> pit x =
     (case x of None \<Rightarrow> True
      | Some t \<Rightarrow> (case (sql_datetime \<Gamma> t, sql_datetime \<Gamma> pit) of (Some a, Some b) \<Rightarrow> b < a | _ \<Rightarrow> False))"

definition sql_not_after :: "env \<Rightarrow> string \<Rightarrow> string option \<Rightarrow> bool" where
  "sql_not_after \<Gamma> pit x =
     (case x of None \<Rightarrow> True
      | Some t \<Rightarrow> (case (sql_datetime \<Gamma> t, sql_datetime \<Gamma> pit) of (Some a, Some b) \<Rightarrow> a \<le> b | _ \<Rightarrow> False))"

definition valid_edge :: "env \<Rightarrow> string \<Rightarrow> relation \<Rightarrow> bool" where
  "valid_edge \<Gamma> pit r \<longleftrightarrow> sql_after \<Gamma> pit (r_valid_to r) \<and> sql_not_after \<Gamma> pit (r_valid_from r) \<and>
     sql_after \<Gamma> pit (r_invalid_at r) \<and> sql_not_after \<Gamma> pit (r_valid_at r)"

definition visible_id :: "db \<Rightarrow> string option \<Rightarrow> string \<Rightarrow> bool" where
  "visible_id d agent i =
     (case agent of None \<Rightarrow> True | Some a \<Rightarrow> list_ex (\<lambda>e. e_id e = i \<and> visible agent e) (entities d))"

definition visible_edge :: "db \<Rightarrow> string option \<Rightarrow> relation \<Rightarrow> bool" where
  "visible_edge d agent r \<longleftrightarrow> visible_id d agent (r_source r) \<and> visible_id d agent (r_target r)"

definition lineage_edge :: "env \<Rightarrow> db \<Rightarrow> string \<Rightarrow> string option \<Rightarrow> relation \<Rightarrow> bool" where
  "lineage_edge \<Gamma> d pit agent r \<longleftrightarrow>
     r_predicate r \<in> set LINEAGE_PREDICATES \<and> valid_edge \<Gamma> pit r \<and> visible_edge d agent r"

definition near_end :: "string \<Rightarrow> relation \<Rightarrow> string" where
  "near_end dir r = (if dir = ''ancestors'' then r_source r else r_target r)"

definition next_end :: "string \<Rightarrow> relation \<Rightarrow> string" where
  "next_end dir r = (if dir = ''ancestors'' then r_target r else r_source r)"

section \<open>The recursive query\<close>

record lineage_row =
  lr_rel :: relation
  lr_depth :: int
  lr_next :: string
  lr_path :: string

definition lineage_seed :: "env \<Rightarrow> db \<Rightarrow> string \<Rightarrow> string \<Rightarrow> string \<Rightarrow> string option \<Rightarrow> lineage_row list" where
  "lineage_seed \<Gamma> d dir target pit agent =
     map (\<lambda>r. \<lparr>lr_rel = r, lr_depth = 1, lr_next = next_end dir r,
               lr_path = ''|'' @ target @ ''|'' @ next_end dir r @ ''|''\<rparr>)
       (filter (\<lambda>r. near_end dir r = target \<and> lineage_edge \<Gamma> d pit agent r) (relations d))"

definition lineage_step ::
  "env \<Rightarrow> db \<Rightarrow> string \<Rightarrow> int \<Rightarrow> string \<Rightarrow> string option \<Rightarrow> lineage_row \<Rightarrow> lineage_row list" where
  "lineage_step \<Gamma> d dir max_depth pit agent l =
     (if lr_depth l < max_depth
      then map (\<lambda>r. \<lparr>lr_rel = r, lr_depth = lr_depth l + 1, lr_next = next_end dir r,
                     lr_path = lr_path l @ next_end dir r @ ''|''\<rparr>)
        (filter (\<lambda>r. near_end dir r = lr_next l \<and> lineage_edge \<Gamma> d pit agent r \<and>
                     \<not> contains (lr_path l) (''|'' @ next_end dir r @ ''|'')) (relations d))
      else [])"

definition lineage_query ::
  "env \<Rightarrow> db \<Rightarrow> string \<Rightarrow> string \<Rightarrow> int \<Rightarrow> string \<Rightarrow> string option \<Rightarrow> lineage_row list" where
  "lineage_query \<Gamma> d dir target max_depth pit agent =
     sort_key (\<lambda>l. (lr_depth l, r_id (lr_rel l)))
       (cte (lineage_step \<Gamma> d dir max_depth pit agent) (nat max_depth) (lineage_seed \<Gamma> d dir target pit agent))"

section \<open>The result\<close>

record lineage_node =
  ln_id :: string
  ln_title :: string
  ln_status :: "status option"
  ln_agent_id :: "string option"
  ln_updated_at :: "string option"
  ln_depth :: int

definition lineage_node_of :: "db \<Rightarrow> string \<Rightarrow> int \<Rightarrow> lineage_node" where
  "lineage_node_of d i depth =
     (case get_entity d i of
        None \<Rightarrow> \<lparr>ln_id = i, ln_title = ''Unknown'', ln_status = None, ln_agent_id = None,
                 ln_updated_at = None, ln_depth = depth\<rparr>
      | Some e \<Rightarrow> \<lparr>ln_id = e_id e, ln_title = e_title e, ln_status = Some (e_status e),
                   ln_agent_id = e_agent_id e, ln_updated_at = Some (e_updated_at e), ln_depth = depth\<rparr>)"

record lineage_edge_out =
  le_relation_id :: string
  le_source_id :: string
  le_target_id :: string
  le_predicate :: string
  le_depth :: int
  le_source_title :: string
  le_source_status :: "status option"
  le_target_title :: string
  le_target_status :: "status option"

definition setdefault :: "'k \<Rightarrow> 'v \<Rightarrow> ('k \<times> 'v) list \<Rightarrow> ('k \<times> 'v) list" where
  "setdefault k v m = (if map_of m k = None then AList.update k v m else m)"

text \<open>One round of the loop: the edges so far, which are also the seen ids, and the nodes by id.\<close>

definition add_lineage_row ::
  "db \<Rightarrow> lineage_row \<Rightarrow> lineage_edge_out list \<times> (string \<times> lineage_node) list \<Rightarrow>
   lineage_edge_out list \<times> (string \<times> lineage_node) list" where
  "add_lineage_row d l = (\<lambda>(edges, nodes).
     let r = lr_rel l; depth = lr_depth l; nx = lr_next l in
     if r_id r \<in> set (map le_relation_id edges) then (edges, nodes)
     else
       let source_node = lineage_node_of d (r_source r) (if r_source r = nx then depth else 0);
           target_node = lineage_node_of d (r_target r) (if r_target r = nx then depth else 0);
           nodes2 = setdefault (r_target r) target_node (setdefault (r_source r) source_node nodes);
           closer = (case map_of nodes2 nx of None \<Rightarrow> True | Some ex \<Rightarrow> depth < ln_depth ex)
       in (edges @ [\<lparr>le_relation_id = r_id r, le_source_id = r_source r, le_target_id = r_target r,
                    le_predicate = r_predicate r, le_depth = depth,
                    le_source_title = ln_title source_node, le_source_status = ln_status source_node,
                    le_target_title = ln_title target_node, le_target_status = ln_status target_node\<rparr>],
           if closer then AList.update nx (lineage_node_of d nx depth) nodes2 else nodes2))"

record lineage_result =
  lg_entity_id :: string
  lg_direction :: string
  lg_root :: lineage_node
  lg_nodes :: "lineage_node list"
  lg_edges :: "lineage_edge_out list"
  lg_total :: nat
  lg_total_nodes :: nat
  lg_graph_exhausted :: bool
  lg_point_in_time :: string
  lg_max_depth :: int

definition assemble_lineage_result ::
  "db \<Rightarrow> string \<Rightarrow> string \<Rightarrow> lineage_node \<Rightarrow> lineage_row list \<Rightarrow> int \<Rightarrow> string \<Rightarrow> lineage_result" where
  "assemble_lineage_result d target dir root_info rows max_depth pit =
     (let (edges, nodes_by_id) = fold (add_lineage_row d) rows ([], [(target, root_info)]);
          nodes = sort_key (\<lambda>n. (ln_depth n, ln_id n)) (map snd nodes_by_id)
      in \<lparr>lg_entity_id = target, lg_direction = dir, lg_root = root_info, lg_nodes = nodes, lg_edges = edges,
          lg_total = length edges, lg_total_nodes = length nodes,
          lg_graph_exhausted = (edges = [] \<or> Max (le_depth ` set edges) < max_depth),
          lg_point_in_time = pit, lg_max_depth = max_depth\<rparr>)"

definition lineage_root_result :: "string \<Rightarrow> string \<Rightarrow> lineage_node \<Rightarrow> string \<Rightarrow> int \<Rightarrow> lineage_result" where
  "lineage_root_result target dir root_info pit max_depth =
     \<lparr>lg_entity_id = target, lg_direction = dir, lg_root = root_info, lg_nodes = [root_info], lg_edges = [],
      lg_total = 0, lg_total_nodes = 1, lg_graph_exhausted = True, lg_point_in_time = pit, lg_max_depth = max_depth\<rparr>"

datatype graph_error = Entity_Mandatory | Bad_Direction | Bad_Depth | Unresolved

definition get_lineage_raw ::
  "env \<Rightarrow> db \<Rightarrow> string option \<Rightarrow> string \<Rightarrow> int \<Rightarrow> string option \<Rightarrow> string option \<Rightarrow> graph_error + lineage_result" where
  "get_lineage_raw \<Gamma> d entity_id dir max_depth point_in_time agent =
     (if \<not> truthy entity_id then Inl Entity_Mandatory
      else if dir \<notin> {''ancestors'', ''descendants''} then Inl Bad_Direction
      else if max_depth < 0 then Inl Bad_Depth
      else case resolve_entity_ref d entity_id agent of
        (None, _, _) \<Rightarrow> Inl Unresolved
      | (Some target, _, _) \<Rightarrow>
          let pit = py_or point_in_time (now_iso \<Gamma>); root_info = lineage_node_of d target 0 in
          if max_depth = 0 then Inr (lineage_root_result target dir root_info pit max_depth)
          else Inr (assemble_lineage_result d target dir root_info
                      (lineage_query \<Gamma> d dir target max_depth pit agent) max_depth pit))"

definition get_lineage ::
  "env \<Rightarrow> db \<Rightarrow> string option \<Rightarrow> string \<Rightarrow> int \<Rightarrow> string option \<Rightarrow> string option \<Rightarrow> lineage_result envelope" where
  "get_lineage \<Gamma> d entity_id dir max_depth point_in_time agent =
     (case get_lineage_raw \<Gamma> d entity_id dir max_depth point_in_time agent of
        Inl _ \<Rightarrow> Rejected [error VALIDATION_ERROR None]
      | Inr res \<Rightarrow> Ok res [])"

record ancestor_projection =
  ap_entity_id :: string
  ap_total_ancestors :: nat
  ap_ancestors :: "lineage_node list"
  ap_point_in_time :: string

definition analyze_lineage :: "env \<Rightarrow> db \<Rightarrow> string option \<Rightarrow> string option \<Rightarrow> graph_error + ancestor_projection" where
  "analyze_lineage \<Gamma> d entity_id point_in_time =
     (case get_lineage_raw \<Gamma> d entity_id ''ancestors'' 10 point_in_time None of
        Inl e \<Rightarrow> Inl e
      | Inr res \<Rightarrow> Inr \<lparr>ap_entity_id = lg_entity_id res, ap_total_ancestors = max (length (lg_nodes res) - 1) 0,
                        ap_ancestors = lg_nodes res, ap_point_in_time = lg_point_in_time res\<rparr>)"

section \<open>The rows of the query\<close>

text \<open>A delimited path contains an id between delimiters exactly when the id is on it.\<close>

definition delimited :: "string list \<Rightarrow> string" where
  "delimited p = ''|'' @ concat (map (\<lambda>x. x @ ''|'') p)"

lemma delimited_Cons: "delimited (x # p) = CHR ''|'' # x @ delimited p"
  by (simp add: delimited_def)

lemma delimited_snoc: "delimited (p @ [x]) = delimited p @ x @ ''|''"
  by (simp add: delimited_def)

lemma free_prefix:
  assumes "CHR ''|'' \<notin> set x" "CHR ''|'' \<notin> set y" "x @ CHR ''|'' # u = y @ CHR ''|'' # v"
  shows "x = y \<and> u = v"
  using assms
proof (induction x arbitrary: y)
  case Nil
  then show ?case by (cases y) auto
next
  case (Cons a x)
  then show ?case by (cases y) auto
qed

lemma delimited_contains:
  assumes "\<forall>x \<in> set p. CHR ''|'' \<notin> set x" "CHR ''|'' \<notin> set y"
  shows "contains (delimited p) (''|'' @ y @ ''|'') \<longleftrightarrow> y \<in> set p"
  using assms(1)
proof (induction p)
  case Nil
  then show ?case by (auto simp: delimited_def contains_def sublist_def Cons_eq_append_conv)
next
  case (Cons x p)
  have free: "CHR ''|'' \<notin> set x" using Cons.prems by simp
  show ?case
  proof
    assume "contains (delimited (x # p)) (''|'' @ y @ ''|'')"
    then obtain ps ss where eq: "CHR ''|'' # x @ delimited p = ps @ CHR ''|'' # y @ CHR ''|'' # ss"
      by (auto simp: contains_def sublist_def delimited_Cons)
    show "y \<in> set (x # p)"
    proof (cases ps)
      case Nil
      obtain u where "delimited p = CHR ''|'' # u" by (simp add: delimited_def)
      then have "x = y" using free_prefix[OF free assms(2)] eq Nil by auto
      then show ?thesis by simp
    next
      case (Cons a qs)
      then have q: "x @ delimited p = qs @ CHR ''|'' # y @ CHR ''|'' # ss" using eq by simp
      then consider us where "x = qs @ us" "us @ delimited p = CHR ''|'' # y @ CHR ''|'' # ss"
        | us where "qs = x @ us" "delimited p = us @ CHR ''|'' # y @ CHR ''|'' # ss"
        by (auto simp: append_eq_append_conv2)
      then show ?thesis
      proof cases
        case 1
        then have "us = []" using free by (cases us) auto
        then have "contains (delimited p) (''|'' @ y @ ''|'')" using 1 by (auto simp: contains_def)
        then show ?thesis using Cons.IH Cons.prems by simp
      next
        case 2
        then have "contains (delimited p) (''|'' @ y @ ''|'')" by (auto simp: contains_def sublist_def)
        then show ?thesis using Cons.IH Cons.prems by simp
      qed
    qed
  next
    assume "y \<in> set (x # p)"
    then consider "y = x" | "y \<in> set p" by auto
    then show "contains (delimited (x # p)) (''|'' @ y @ ''|'')"
    proof cases
      case 1
      then show ?thesis by (simp add: contains_def delimited_def sublist_append_rightI)
    next
      case 2
      then have "sublist (''|'' @ y @ ''|'') (delimited p)" using Cons by (simp add: contains_def)
      then show ?thesis by (simp add: contains_def delimited_Cons sublist_Cons_right sublist_append)
    qed
  qed
qed

definition bar_free :: "db \<Rightarrow> string \<Rightarrow> bool" where
  "bar_free d target \<longleftrightarrow> CHR ''|'' \<notin> set target \<and>
     list_all (\<lambda>r. CHR ''|'' \<notin> set (r_source r) \<and> CHR ''|'' \<notin> set (r_target r)) (relations d)"

abbreviation lineage_limit :: "int \<Rightarrow> nat" where
  "lineage_limit max_depth \<equiv> max 1 (nat max_depth)"

definition lineage_admits :: "env \<Rightarrow> db \<Rightarrow> string \<Rightarrow> string option \<Rightarrow> relation \<Rightarrow> bool" where
  "lineage_admits \<Gamma> d pit agent r \<longleftrightarrow> r \<in> set (relations d) \<and> lineage_edge \<Gamma> d pit agent r"

text \<open>The columns of a row that the result uses, with the depth as a number.\<close>

definition lineage_rows :: "env \<Rightarrow> db \<Rightarrow> string \<Rightarrow> string \<Rightarrow> int \<Rightarrow> string \<Rightarrow> string option \<Rightarrow> (relation \<times> nat) set" where
  "lineage_rows \<Gamma> d dir target max_depth pit agent =
     (\<lambda>l. (lr_rel l, nat (lr_depth l))) ` set (lineage_query \<Gamma> d dir target max_depth pit agent)"

lemma lineage_row_cases:
  assumes "l \<in> set (lineage_query \<Gamma> d dir target max_depth pit agent)"
  shows "(lineage_admits \<Gamma> d pit agent (lr_rel l) \<and> lr_next l = next_end dir (lr_rel l)) \<and>
    (lr_depth l = 1 \<and> near_end dir (lr_rel l) = target \<or>
     (\<exists>k \<in> set (lineage_query \<Gamma> d dir target max_depth pit agent).
        lr_depth l = lr_depth k + 1 \<and> lr_depth k < max_depth \<and> lr_next k = near_end dir (lr_rel l)))"
  using cte_sound[of l "lineage_step \<Gamma> d dir max_depth pit agent" "nat max_depth" "lineage_seed \<Gamma> d dir target pit agent"] assms
  by (auto simp: lineage_query_def lineage_seed_def lineage_step_def lineage_admits_def split: if_splits)

lemma lineage_depth:
  "l \<in> set (lineage_query \<Gamma> d dir target max_depth pit agent) \<Longrightarrow> 1 \<le> lr_depth l \<and> lr_depth l \<le> int (lineage_limit max_depth)"
proof (induction "nat (lr_depth l)" arbitrary: l rule: less_induct)
  case less
  from lineage_row_cases[OF less.prems] consider "lr_depth l = 1"
    | k where "k \<in> set (lineage_query \<Gamma> d dir target max_depth pit agent)" "lr_depth l = lr_depth k + 1" "lr_depth k < max_depth"
    by blast
  then show ?case
  proof cases
    case 2
    show ?thesis
    proof (cases "0 < lr_depth l")
      case True
      then have "1 \<le> lr_depth k \<and> lr_depth k \<le> int (lineage_limit max_depth)" using less.hyps[of k] 2 by simp
      then show ?thesis using 2 by auto
    next
      case False
      have depth_pos: "0 < lr_depth x" if "x \<in> set (cte (lineage_step \<Gamma> d dir max_depth pit agent) n rows)"
        "\<forall>y \<in> set rows. 0 < lr_depth y" for x n rows
        using that
      proof (induction n arbitrary: rows)
        case (Suc n)
        have "\<forall>y \<in> set (concat (map (lineage_step \<Gamma> d dir max_depth pit agent) rows)). 0 < lr_depth y"
          using Suc.prems(2) by (fastforce simp: lineage_step_def split: if_splits)
        then show ?case using Suc by auto
      qed simp
      have "0 < lr_depth l"
        using less.prems depth_pos[of l "nat max_depth" "lineage_seed \<Gamma> d dir target pit agent"]
        by (auto simp: lineage_query_def lineage_seed_def)
      then show ?thesis using False by simp
    qed
  qed simp
qed

lemma lineage_steps:
  assumes "bar_free d target" "simple_walk (lineage_admits \<Gamma> d pit agent) (near_end dir) (next_end dir) target es"
    "length es \<le> lineage_limit max_depth"
  shows "\<lparr>lr_rel = last es, lr_depth = int (length es), lr_next = next_end dir (last es),
      lr_path = delimited (target # map (next_end dir) es)\<rparr> \<in>
    set (steps (lineage_step \<Gamma> d dir max_depth pit agent) (length es - 1) (lineage_seed \<Gamma> d dir target pit agent))"
  using assms(2,3)
proof (induction es rule: rev_induct)
  case Nil
  then show ?case by (simp add: simple_walk_def)
next
  case (snoc r es)
  have r: "lineage_admits \<Gamma> d pit agent r" "near_end dir r = (if es = [] then target else next_end dir (last es))"
    and dist: "distinct (target # map (next_end dir) (es @ [r]))"
    using snoc.prems(1) by (simp_all add: simple_walk_def walk_from_append)
  show ?case
  proof (cases "es = []")
    case True
    then show ?thesis using r by (auto simp: lineage_seed_def lineage_admits_def delimited_def)
  next
    case False
    let ?k = "\<lparr>lr_rel = last es, lr_depth = int (length es), lr_next = next_end dir (last es),
      lr_path = delimited (target # map (next_end dir) es)\<rparr>"
    have "simple_walk (lineage_admits \<Gamma> d pit agent) (near_end dir) (next_end dir) target es"
      using snoc.prems(1) False by (simp add: simple_walk_def walk_from_append)
    then have k: "?k \<in> set (steps (lineage_step \<Gamma> d dir max_depth pit agent) (length es - 1) (lineage_seed \<Gamma> d dir target pit agent))"
      using snoc by simp
    have walk: "lineage_admits \<Gamma> d pit agent x" if "x \<in> set es" for x
      using snoc.prems(1) walk_from_edges[of "lineage_admits \<Gamma> d pit agent" "near_end dir" "next_end dir" target "es @ [r]" x] that
      by (simp add: simple_walk_def)
    have free: "CHR ''|'' \<notin> set (next_end dir x)" if "lineage_admits \<Gamma> d pit agent x" for x
      using assms(1) that by (auto simp: bar_free_def lineage_admits_def next_end_def list_all_iff)
    have "\<not> contains (delimited (target # map (next_end dir) es)) (''|'' @ next_end dir r @ ''|'')"
      using delimited_contains[of "target # map (next_end dir) es" "next_end dir r"] free walk r(1) assms(1) dist
      by (auto simp: bar_free_def)
    moreover have "int (length es) < max_depth"
      using snoc.prems(2) False by (cases es) (auto simp: max_def split: if_splits)
    ultimately have row: "\<lparr>lr_rel = r, lr_depth = int (length es) + 1, lr_next = next_end dir r,
        lr_path = delimited (target # map (next_end dir) es) @ next_end dir r @ ''|''\<rparr> \<in> set (lineage_step \<Gamma> d dir max_depth pit agent ?k)"
      using r False by (auto simp: lineage_step_def lineage_admits_def)
    have same: "delimited (target # map (next_end dir) (es @ [r])) = delimited (target # map (next_end dir) es) @ next_end dir r @ ''|''"
      using delimited_snoc[of "target # map (next_end dir) es" "next_end dir r"] by simp
    have len: "length (es @ [r]) - 1 = Suc (length es - 1)" "int (length (es @ [r])) = int (length es) + 1"
      using False by (cases es) auto
    show ?thesis unfolding same len steps_Suc using k row by (auto simp only: UN_iff last_snoc)
  qed
qed

interpretation lin: path_rows "lineage_admits \<Gamma> d pit agent" "near_end dir" "next_end dir" target "lineage_limit max_depth"
  "lineage_rows \<Gamma> d dir target max_depth pit agent" "bar_free d target"
  for \<Gamma> d pit agent dir target max_depth
proof
  fix r n
  assume "(r, n) \<in> lineage_rows \<Gamma> d dir target max_depth pit agent"
  then obtain l where l: "l \<in> set (lineage_query \<Gamma> d dir target max_depth pit agent)" "r = lr_rel l" "n = nat (lr_depth l)"
    by (auto simp: lineage_rows_def)
  have depth: "1 \<le> lr_depth l \<and> lr_depth l \<le> int (lineage_limit max_depth)" by (rule lineage_depth[OF l(1)])
  show "lineage_admits \<Gamma> d pit agent r \<and> 1 \<le> n \<and> n \<le> lineage_limit max_depth \<and>
      (n = 1 \<and> near_end dir r = target \<or>
       (\<exists>e'. (e', n - 1) \<in> lineage_rows \<Gamma> d dir target max_depth pit agent \<and> next_end dir e' = near_end dir r))"
  proof (cases "lr_depth l = 1 \<and> near_end dir (lr_rel l) = target")
    case True
    then show ?thesis using lineage_row_cases[OF l(1)] l by simp
  next
    case False
    then obtain k where k: "k \<in> set (lineage_query \<Gamma> d dir target max_depth pit agent)" "lr_depth l = lr_depth k + 1"
      "lr_next k = near_end dir (lr_rel l)" using lineage_row_cases[OF l(1)] by blast
    have "(lr_rel k, n - 1) \<in> lineage_rows \<Gamma> d dir target max_depth pit agent"
      using k(1,2) l(3) lineage_depth[OF k(1)] by (auto simp: lineage_rows_def image_iff intro!: bexI[of _ k])
    then show ?thesis using lineage_row_cases[OF l(1)] lineage_row_cases[OF k(1)] k l depth by auto
  qed
next
  fix es
  assume "bar_free d target" "simple_walk (lineage_admits \<Gamma> d pit agent) (near_end dir) (next_end dir) target es"
    and len: "length es \<le> lineage_limit max_depth"
  from lineage_steps[OF this]
  have "\<lparr>lr_rel = last es, lr_depth = int (length es), lr_next = next_end dir (last es),
      lr_path = delimited (target # map (next_end dir) es)\<rparr> \<in> set (lineage_query \<Gamma> d dir target max_depth pit agent)"
    using subsetD[OF cte_steps[of "length es - 1" "nat max_depth" "lineage_step \<Gamma> d dir max_depth pit agent"]] len
    by (simp add: lineage_query_def)
  then show "(last es, length es) \<in> lineage_rows \<Gamma> d dir target max_depth pit agent"
    unfolding lineage_rows_def by force
qed

section \<open>The loop over the rows\<close>

lemma lineage_node_fields [simp]: "ln_id (lineage_node_of d i k) = i" "ln_depth (lineage_node_of d i k) = k"
  by (auto simp: lineage_node_of_def dest: get_entity_Some split: option.split)

lemma setdefault_map: "map_of (setdefault k v m) = (if map_of m k = None then (map_of m)(k \<mapsto> v) else map_of m)"
  by (simp add: setdefault_def update_conv')

lemma setdefault_distinct: "distinct (map fst m) \<Longrightarrow> distinct (map fst (setdefault k v m))"
  by (simp add: setdefault_def distinct_update)

text \<open>What the edges and nodes are after the rows \<open>ps\<close>.\<close>

definition edge_of_row :: "lineage_row list \<Rightarrow> lineage_edge_out \<Rightarrow> lineage_row \<Rightarrow> bool" where
  "edge_of_row ps e l \<longleftrightarrow> le_relation_id e = r_id (lr_rel l) \<and> le_source_id e = r_source (lr_rel l) \<and>
     le_target_id e = r_target (lr_rel l) \<and> le_predicate e = r_predicate (lr_rel l) \<and> le_depth e = lr_depth l \<and>
     (\<forall>k \<in> set ps. lr_rel k = lr_rel l \<longrightarrow> lr_depth l \<le> lr_depth k)"

definition first_reached :: "lineage_row list \<Rightarrow> string \<Rightarrow> int \<Rightarrow> bool" where
  "first_reached ps k n \<longleftrightarrow> (\<exists>l \<in> set ps. lr_next l = k \<and> lr_depth l = n) \<and> (\<forall>l \<in> set ps. lr_next l = k \<longrightarrow> n \<le> lr_depth l)"

definition nodes_ok :: "string \<Rightarrow> lineage_row list \<Rightarrow> (string \<times> lineage_node) list \<Rightarrow> bool" where
  "nodes_ok target ps nodes \<longleftrightarrow>
     distinct (map fst nodes) \<and> (\<forall>k n. map_of nodes k = Some n \<longrightarrow> ln_id n = k) \<and>
     dom (map_of nodes) = insert target (lr_next ` set ps) \<and> (\<exists>n. map_of nodes target = Some n \<and> ln_depth n = 0) \<and>
     (\<forall>k n. k \<noteq> target \<longrightarrow> map_of nodes k = Some n \<longrightarrow> first_reached ps k (ln_depth n))"

definition edges_ok :: "lineage_row list \<Rightarrow> lineage_edge_out list \<Rightarrow> bool" where
  "edges_ok ps edges \<longleftrightarrow>
     distinct (map le_relation_id edges) \<and> le_relation_id ` set edges = (\<lambda>l. r_id (lr_rel l)) ` set ps \<and>
     (\<forall>e \<in> set edges. \<exists>l \<in> set ps. edge_of_row ps e l)"

definition collected ::
  "string \<Rightarrow> lineage_row list \<Rightarrow> lineage_edge_out list \<Rightarrow> (string \<times> lineage_node) list \<Rightarrow> bool" where
  "collected target ps edges nodes \<longleftrightarrow> nodes_ok target ps nodes \<and> edges_ok ps edges"

lemma edge_of_row_snoc:
  "edge_of_row ps e p \<Longrightarrow> p \<in> set ps \<Longrightarrow> \<forall>k \<in> set ps. lr_depth k \<le> lr_depth l \<Longrightarrow> edge_of_row (ps @ [l]) e p"
  by (auto simp: edge_of_row_def)

lemma first_reached_snoc:
  "first_reached ps k n \<Longrightarrow> \<forall>k \<in> set ps. lr_depth k \<le> lr_depth l \<Longrightarrow> first_reached (ps @ [l]) k n"
  by (fastforce simp: first_reached_def)

lemma nodes_ok_shallow:
  assumes "nodes_ok target ps nodes" "\<forall>k \<in> set ps. lr_depth k \<le> m" "0 < m" "map_of nodes k = Some n"
  shows "ln_depth n \<le> m"
proof (cases "k = target")
  case True
  then show ?thesis using assms unfolding nodes_ok_def by (metis less_imp_le option.inject)
next
  case False
  then have "first_reached ps k (ln_depth n)" using assms(1,4) unfolding nodes_ok_def by blast
  then show ?thesis using assms(2) by (auto simp: first_reached_def)
qed

lemma add_row_new:
  assumes inv: "nodes_ok target ps nodes" and deep: "\<forall>k \<in> set ps. lr_depth k \<le> lr_depth l" "0 < lr_depth l"
    and near: "near_end dir (lr_rel l) \<in> insert target (lr_next ` set ps)" and nx: "lr_next l = next_end dir (lr_rel l)"
    and fresh: "r_id (lr_rel l) \<notin> le_relation_id ` set edges"
  shows "snd (add_lineage_row d l (edges, nodes)) = setdefault (lr_next l) (lineage_node_of d (lr_next l) (lr_depth l)) nodes"
proof -
  let ?r = "lr_rel l"
  let ?v = "lineage_node_of d (lr_next l) (lr_depth l)"
  have "dom (map_of nodes) = insert target (lr_next ` set ps)" using inv unfolding nodes_ok_def by blast
  then obtain y where known: "map_of nodes (near_end dir ?r) = Some y" using near by (metis domD)
  have shallow: "ln_depth n \<le> lr_depth l" if "map_of nodes (lr_next l) = Some n" for n
    using nodes_ok_shallow[OF inv deep that] .
  have "setdefault (r_target ?r) (lineage_node_of d (r_target ?r) (if r_target ?r = lr_next l then lr_depth l else 0))
      (setdefault (r_source ?r) (lineage_node_of d (r_source ?r) (if r_source ?r = lr_next l then lr_depth l else 0)) nodes) =
      setdefault (lr_next l) ?v nodes"
    using known nx by (cases "dir = ''ancestors''") (auto simp: near_end_def next_end_def setdefault_def update_conv')
  moreover have "\<not> (case map_of (setdefault (lr_next l) ?v nodes) (lr_next l) of None \<Rightarrow> True | Some ex \<Rightarrow> lr_depth l < ln_depth ex)"
    using shallow by (cases "map_of nodes (lr_next l)") (auto simp: setdefault_map)
  ultimately show ?thesis using fresh by (simp add: add_lineage_row_def Let_def)
qed

lemma nodes_ok_seen:
  assumes inv: "nodes_ok target ps nodes" and deep: "\<forall>k \<in> set ps. lr_depth k \<le> lr_depth l" and k: "k \<in> set ps" "lr_next k = lr_next l"
  shows "nodes_ok target (ps @ [l]) nodes"
proof -
  have eq: "lr_next ` set (ps @ [l]) = lr_next ` set ps" using k by (simp add: insert_absorb rev_image_eqI)
  show ?thesis using inv first_reached_snoc[OF _ deep] unfolding nodes_ok_def eq by blast
qed

lemma edges_ok_seen:
  assumes inv: "edges_ok ps edges" and deep: "\<forall>k \<in> set ps. lr_depth k \<le> lr_depth l" and seen: "r_id (lr_rel l) \<in> le_relation_id ` set edges"
  shows "edges_ok (ps @ [l]) edges"
proof -
  have eq: "(\<lambda>l. r_id (lr_rel l)) ` set (ps @ [l]) = (\<lambda>l. r_id (lr_rel l)) ` set ps"
    using seen inv by (auto simp: edges_ok_def)
  have "\<exists>p \<in> set (ps @ [l]). edge_of_row (ps @ [l]) e p" if "e \<in> set edges" for e
    using inv that edge_of_row_snoc[OF _ _ deep] unfolding edges_ok_def set_append by blast
  then show ?thesis using inv unfolding edges_ok_def eq by blast
qed

lemma nodes_ok_new:
  assumes inv: "nodes_ok target ps nodes" and deep: "\<forall>k \<in> set ps. lr_depth k \<le> lr_depth l"
  shows "nodes_ok target (ps @ [l]) (setdefault (lr_next l) (lineage_node_of d (lr_next l) (lr_depth l)) nodes)"
proof (cases "map_of nodes (lr_next l)")
  case None
  note i = inv[unfolded nodes_ok_def]
  have "lr_next l \<notin> dom (map_of nodes)" using None by (simp add: domIff)
  then have "lr_next l \<noteq> target" "lr_next l \<notin> lr_next ` set ps" using i by blast+
  moreover have "first_reached (ps @ [l]) (lr_next l) (lr_depth l)" using calculation by (auto simp: first_reached_def rev_image_eqI)
  ultimately show ?thesis using i None first_reached_snoc[OF _ deep]
    unfolding nodes_ok_def setdefault_map by (auto simp: setdefault_distinct)
next
  case (Some n)
  have "lr_next l \<in> insert target (lr_next ` set ps)" using Some inv unfolding nodes_ok_def by (metis domI)
  then have eq: "insert target (lr_next ` set (ps @ [l])) = insert target (lr_next ` set ps)" by auto
  have same: "setdefault (lr_next l) (lineage_node_of d (lr_next l) (lr_depth l)) nodes = nodes" using Some by (simp add: setdefault_def)
  show ?thesis using inv first_reached_snoc[OF _ deep] unfolding nodes_ok_def eq same by blast
qed

lemma edges_ok_new:
  assumes inv: "edges_ok ps edges" and deep: "\<forall>k \<in> set ps. lr_depth k \<le> lr_depth l"
    and fresh: "r_id (lr_rel l) \<notin> le_relation_id ` set edges" and e: "edge_of_row [] e l"
  shows "edges_ok (ps @ [l]) (edges @ [e])"
proof -
  have "\<forall>k \<in> set ps. r_id (lr_rel k) \<noteq> r_id (lr_rel l)" using fresh inv unfolding edges_ok_def by (metis imageI)
  then have "edge_of_row (ps @ [l]) e l" using e by (auto simp: edge_of_row_def)
  then have "\<exists>p \<in> set (ps @ [l]). edge_of_row (ps @ [l]) x p" if "x \<in> set (edges @ [e])" for x
    using inv that edge_of_row_snoc[OF _ _ deep] unfolding edges_ok_def by fastforce
  moreover have "le_relation_id e = r_id (lr_rel l)" using e by (simp add: edge_of_row_def)
  ultimately show ?thesis using inv fresh unfolding edges_ok_def by simp
qed

lemma collected_step:
  assumes inv: "collected target ps edges nodes" and deep: "\<forall>k \<in> set ps. lr_depth k \<le> lr_depth l" "0 < lr_depth l"
    and near: "near_end dir (lr_rel l) \<in> insert target (lr_next ` set ps)" and nx: "lr_next l = next_end dir (lr_rel l)"
    and ids: "\<forall>k \<in> set ps. lr_next k = next_end dir (lr_rel k) \<and> (r_id (lr_rel k) = r_id (lr_rel l) \<longrightarrow> lr_rel k = lr_rel l)"
  shows "case add_lineage_row d l (edges, nodes) of (edges', nodes') \<Rightarrow> collected target (ps @ [l]) edges' nodes'"
proof -
  have n: "nodes_ok target ps nodes" and e: "edges_ok ps edges" using inv by (simp_all add: collected_def)
  show ?thesis
  proof (cases "r_id (lr_rel l) \<in> le_relation_id ` set edges")
    case True
    then obtain k where k: "k \<in> set ps" "r_id (lr_rel k) = r_id (lr_rel l)" using e by (auto simp: edges_ok_def)
    then have "lr_next k = lr_next l" using ids nx by auto
    moreover have "add_lineage_row d l (edges, nodes) = (edges, nodes)" using True by (simp add: add_lineage_row_def Let_def)
    ultimately show ?thesis
      using nodes_ok_seen[OF n deep(1) k(1)] edges_ok_seen[OF e deep(1) True] by (simp add: collected_def)
  next
    case False
    then obtain x where "fst (add_lineage_row d l (edges, nodes)) = edges @ [x]" "edge_of_row [] x l"
      by (simp add: add_lineage_row_def Let_def edge_of_row_def)
    then show ?thesis
      using add_row_new[OF n deep near nx False, of d] nodes_ok_new[OF n deep(1), of d] edges_ok_new[OF e deep(1) False]
      by (simp add: collected_def case_prod_beta)
  qed
qed

lemma lineage_collected:
  assumes ids: "distinct (map r_id (relations d))"
    and q: "lineage_query \<Gamma> d dir target max_depth pit agent = ps @ qs"
  shows "case fold (add_lineage_row d) ps ([], [(target, lineage_node_of d target 0)]) of (edges, nodes) \<Rightarrow> collected target ps edges nodes"
  using q
proof (induction ps arbitrary: qs rule: rev_induct)
  case Nil
  then show ?case by (auto simp: collected_def nodes_ok_def edges_ok_def)
next
  case (snoc l ps)
  let ?Q = "lineage_query \<Gamma> d dir target max_depth pit agent"
  have Q: "?Q = ps @ l # qs" using snoc.prems by simp
  have "sorted (map (\<lambda>l. (lr_depth l, r_id (lr_rel l))) (ps @ l # qs))"
    unfolding Q[symmetric] lineage_query_def by simp
  then have sorted: "\<forall>k \<in> set ps. lr_depth k \<le> lr_depth l" "\<forall>k \<in> set qs. lr_depth l \<le> lr_depth k"
    by (auto simp: sorted_append less_eq_prod_def)
  have l: "l \<in> set ?Q" by (simp add: Q)
  have rows: "lineage_admits \<Gamma> d pit agent (lr_rel k) \<and> lr_next k = next_end dir (lr_rel k)" if "k \<in> set ?Q" for k
    using lineage_row_cases[OF that] by blast
  have near: "near_end dir (lr_rel l) \<in> insert target (lr_next ` set ps)"
  proof (cases "near_end dir (lr_rel l) = target")
    case False
    then obtain k where k: "k \<in> set ?Q" "lr_depth l = lr_depth k + 1" "lr_next k = near_end dir (lr_rel l)"
      using lineage_row_cases[OF l] by blast
    then have "k \<in> set ps" using Q sorted(2) by auto
    then show ?thesis using k(3) by (metis image_eqI insertI2)
  qed simp
  have same: "lr_rel k = lr_rel l" if "k \<in> set ps" "r_id (lr_rel k) = r_id (lr_rel l)" for k
    using rows[of k] rows[OF l] that ids Q by (auto simp: lineage_admits_def distinct_map inj_on_def)
  obtain edges nodes where f: "fold (add_lineage_row d) ps ([], [(target, lineage_node_of d target 0)]) = (edges, nodes)" by fastforce
  have inv: "collected target ps edges nodes" using snoc.IH[of "l # qs"] Q f by simp
  have "0 < lr_depth l" using lineage_depth[OF l] by simp
  then show ?case
    using collected_step[OF inv sorted(1) _ near, of d] rows rows[OF l] same Q f by simp
qed

lemma lineage_assembled:
  assumes "distinct (map r_id (relations d))"
    "assemble_lineage_result d target dir (lineage_node_of d target 0) (lineage_query \<Gamma> d dir target max_depth pit agent) max_depth pit = res"
  obtains nodes where "collected target (lineage_query \<Gamma> d dir target max_depth pit agent) (lg_edges res) nodes"
    "lg_nodes res = sort_key (\<lambda>n. (ln_depth n, ln_id n)) (map snd nodes)" "lg_entity_id res = target"
    "lg_graph_exhausted res = (lg_edges res = [] \<or> Max (le_depth ` set (lg_edges res)) < max_depth)"
proof -
  obtain edges nodes where f: "fold (add_lineage_row d) (lineage_query \<Gamma> d dir target max_depth pit agent)
      ([], [(target, lineage_node_of d target 0)]) = (edges, nodes)" by fastforce
  have "collected target (lineage_query \<Gamma> d dir target max_depth pit agent) edges nodes"
    using lineage_collected[OF assms(1), of \<Gamma> dir target max_depth pit agent "lineage_query \<Gamma> d dir target max_depth pit agent" "[]"] f
    by simp
  then show ?thesis using that[of nodes] assms(2) f unfolding assemble_lineage_result_def Let_def by auto
qed

lemma lineage_rows_iff:
  "(r, n) \<in> lineage_rows \<Gamma> d dir target max_depth pit agent \<longleftrightarrow>
     (\<exists>l \<in> set (lineage_query \<Gamma> d dir target max_depth pit agent). lr_rel l = r \<and> lr_depth l = int n)"
proof
  assume "(r, n) \<in> lineage_rows \<Gamma> d dir target max_depth pit agent"
  then obtain l where "l \<in> set (lineage_query \<Gamma> d dir target max_depth pit agent)" "lr_rel l = r" "n = nat (lr_depth l)"
    by (auto simp: lineage_rows_def)
  then show "\<exists>l \<in> set (lineage_query \<Gamma> d dir target max_depth pit agent). lr_rel l = r \<and> lr_depth l = int n"
    using lineage_depth by force
qed (force simp: lineage_rows_def)

text \<open>The edge relation in the direction of the walk.\<close>

definition lineage_rel :: "env \<Rightarrow> db \<Rightarrow> string \<Rightarrow> string option \<Rightarrow> string \<Rightarrow> string \<Rightarrow> string \<Rightarrow> bool" where
  "lineage_rel \<Gamma> d pit agent dir = edge_rel (lineage_admits \<Gamma> d pit agent) (near_end dir) (next_end dir)"

lemma node_distance:
  assumes free: "bar_free d target" and depth: "1 \<le> max_depth"
    and inv: "collected target (lineage_query \<Gamma> d dir target max_depth pit agent) edges nodes"
  shows "(\<exists>n \<in> snd ` set nodes. ln_id n = y \<and> ln_depth n = k) \<longleftrightarrow>
    (\<exists>m. k = int m \<and> m \<le> nat max_depth \<and> distance (lineage_rel \<Gamma> d pit agent dir) target y m)"
proof -
  let ?Q = "lineage_query \<Gamma> d dir target max_depth pit agent"
  let ?R = "lineage_rel \<Gamma> d pit agent dir"
  have ok: "nodes_ok target ?Q nodes" using inv by (simp add: collected_def)
  note i = ok[unfolded nodes_ok_def]
  have mem: "n \<in> snd ` set nodes \<and> ln_id n = y \<longleftrightarrow> map_of nodes y = Some n" for n
  proof
    assume a: "n \<in> snd ` set nodes \<and> ln_id n = y"
    then obtain x where "(x, n) \<in> set nodes" by force
    then have "map_of nodes x = Some n" using i by (simp add: map_of_eq_Some_iff)
    then show "map_of nodes y = Some n" using i a by metis
  next
    assume n: "map_of nodes y = Some n"
    then have "ln_id n = y" using i by blast
    moreover have "n \<in> snd ` set nodes" using map_of_SomeD[OF n] by (rule image_eqI[rotated]) simp
    ultimately show "n \<in> snd ` set nodes \<and> ln_id n = y" by blast
  qed
  then have found: "(\<exists>n \<in> snd ` set nodes. ln_id n = y \<and> ln_depth n = k) \<longleftrightarrow> (\<exists>n. map_of nodes y = Some n \<and> ln_depth n = k)"
    by blast
  have lim: "lineage_limit max_depth = nat max_depth" using depth by simp
  have nxt: "lr_next l = next_end dir (lr_rel l)" if "l \<in> set ?Q" for l using lineage_row_cases[OF that] by blast
  show ?thesis
  proof (cases "y = target")
    case True
    obtain n where n: "map_of nodes target = Some n" "ln_depth n = 0" using i by blast
    have "distance ?R target target m \<longleftrightarrow> m = 0" for m using distance_unique[of ?R target target m 0] distance_self[of ?R target target] by auto
    then show ?thesis unfolding found using n True by auto
  next
    case False
    have dist: "first_reached ?Q y k \<longleftrightarrow> (\<exists>m. k = int m \<and> m \<le> nat max_depth \<and> distance ?R target y m)"
    proof
      assume first: "first_reached ?Q y k"
      then obtain l where l: "l \<in> set ?Q" "lr_next l = y" "lr_depth l = k" by (auto simp: first_reached_def)
      have row: "(lr_rel l, nat k) \<in> lineage_rows \<Gamma> d dir target max_depth pit agent" using l by (force simp: lineage_rows_def)
      have "nat k \<le> m" if "(e', m) \<in> lineage_rows \<Gamma> d dir target max_depth pit agent" "next_end dir e' = y" for e' m
        using that first nxt unfolding lineage_rows_iff first_reached_def by fastforce
      then have "distance ?R target y (nat k)"
        using lin.min_row_distance[OF free False row] l(2) nxt[OF l(1)] unfolding lineage_rel_def by simp
      then show "\<exists>m. k = int m \<and> m \<le> nat max_depth \<and> distance ?R target y m"
        using lineage_depth[OF l(1)] l(3) depth by (intro exI[of _ "nat k"]) (auto simp: max_def split: if_splits)
    next
      assume "\<exists>m. k = int m \<and> m \<le> nat max_depth \<and> distance ?R target y m"
      then obtain m where m: "k = int m" "m \<le> nat max_depth" "distance ?R target y m" by blast
      obtain r where r: "(r, m) \<in> lineage_rows \<Gamma> d dir target max_depth pit agent" "next_end dir r = y"
        using lin.distance_row[where max_depth = max_depth, OF free m(3)[unfolded lineage_rel_def] False] m(2) lim by auto
      then obtain l where l: "l \<in> set ?Q" "lr_next l = y" "lr_depth l = k" using m(1) nxt unfolding lineage_rows_iff by blast
      have "k \<le> lr_depth x" if x: "x \<in> set ?Q" "lr_next x = y" for x
      proof -
        have row: "(lr_rel x, nat (lr_depth x)) \<in> lineage_rows \<Gamma> d dir target max_depth pit agent" using x by (auto simp: lineage_rows_def)
        have "(?R ^^ nat (lr_depth x)) target y" using lin.row_reaches[OF row] nxt[OF x(1)] x(2) unfolding lineage_rel_def by simp
        then have "m \<le> nat (lr_depth x)" using m(3) unfolding distance_def by (meson not_le)
        then show ?thesis using m(1) lineage_depth[OF x(1)] by linarith
      qed
      then show "first_reached ?Q y k" using l by (auto simp: first_reached_def)
    qed
    have "(\<exists>n. map_of nodes y = Some n \<and> ln_depth n = k) \<longleftrightarrow> first_reached ?Q y k"
    proof
      assume "\<exists>n. map_of nodes y = Some n \<and> ln_depth n = k"
      then show "first_reached ?Q y k" using i False by blast
    next
      assume first: "first_reached ?Q y k"
      then have "y \<in> dom (map_of nodes)" using i unfolding first_reached_def by blast
      then obtain n where n: "map_of nodes y = Some n" by blast
      then have "first_reached ?Q y (ln_depth n)" using i False by blast
      then have "ln_depth n = k" using first unfolding first_reached_def by (metis order_antisym)
      then show "\<exists>n. map_of nodes y = Some n \<and> ln_depth n = k" using n by blast
    qed
    then show ?thesis unfolding found using dist by blast
  qed
qed

lemma exhausted_distance:
  assumes ids: "distinct (map r_id (relations d))" and free: "bar_free d target" and depth: "1 \<le> max_depth"
    and inv: "collected target (lineage_query \<Gamma> d dir target max_depth pit agent) edges nodes"
    and ex: "edges = [] \<or> Max (le_depth ` set edges) < max_depth"
  shows "\<not> distance (lineage_rel \<Gamma> d pit agent dir) target y (nat max_depth)"
proof
  let ?Q = "lineage_query \<Gamma> d dir target max_depth pit agent"
  assume dist: "distance (lineage_rel \<Gamma> d pit agent dir) target y (nat max_depth)"
  have "y \<noteq> target"
  proof
    assume "y = target"
    then have "nat max_depth = 0"
      using distance_unique[OF dist] distance_self[of "lineage_rel \<Gamma> d pit agent dir" target y] by simp
    then show False using depth by simp
  qed
  then obtain r where r: "(r, nat max_depth) \<in> lineage_rows \<Gamma> d dir target max_depth pit agent" "next_end dir r = y"
    using lin.distance_row[where max_depth = max_depth, OF free dist[unfolded lineage_rel_def]] by auto
  then obtain l where l: "l \<in> set ?Q" "lr_rel l = r" unfolding lineage_rows_iff by blast
  have ok: "edges_ok ?Q edges" using inv by (simp add: collected_def)
  obtain e where e: "e \<in> set edges" "le_relation_id e = r_id r" using ok l unfolding edges_ok_def by (metis image_iff)
  then obtain k where k: "k \<in> set ?Q" "edge_of_row ?Q e k" using ok unfolding edges_ok_def by blast
  have "lr_rel k = r"
    using k e l lineage_row_cases[OF k(1)] lineage_row_cases[OF l(1)] ids
    by (auto simp: edge_of_row_def lineage_admits_def distinct_map inj_on_def)
  then have row: "(r, nat (lr_depth k)) \<in> lineage_rows \<Gamma> d dir target max_depth pit agent" using k by (auto simp: lineage_rows_def)
  have "nat max_depth \<le> nat (lr_depth k)"
    using lin.row_reaches[OF row] r(2) dist unfolding lineage_rel_def distance_def by (metis not_le)
  then have "max_depth \<le> le_depth e" using k(2) depth by (simp add: edge_of_row_def)
  moreover have "le_depth e < max_depth"
  proof -
    have "le_depth e \<le> Max (le_depth ` set edges)" by (rule Max_ge) (simp_all add: e(1))
    moreover have "edges \<noteq> []" using e(1) by auto
    ultimately show ?thesis using ex by linarith
  qed
  ultimately show False by simp
qed

lemma lineage_ok:
  assumes "get_lineage \<Gamma> d entity_id dir max_depth point_in_time agent = Ok res ws"
  shows "0 \<le> max_depth" "lg_max_depth res = max_depth" "resolvable d agent (lg_entity_id res)"
    "max_depth = 0 \<Longrightarrow> res = lineage_root_result (lg_entity_id res) dir (lineage_node_of d (lg_entity_id res) 0) (lg_point_in_time res) 0"
    "max_depth \<noteq> 0 \<Longrightarrow> assemble_lineage_result d (lg_entity_id res) dir (lineage_node_of d (lg_entity_id res) 0)
       (lineage_query \<Gamma> d dir (lg_entity_id res) max_depth (lg_point_in_time res) agent) max_depth (lg_point_in_time res) = res"
proof -
  obtain target cs t where resolved: "resolve_entity_ref d entity_id agent = (Some target, cs, t)" and "0 \<le> max_depth"
    and raw: "get_lineage_raw \<Gamma> d entity_id dir max_depth point_in_time agent = Inr res"
    using assms by (auto simp: get_lineage_def get_lineage_raw_def split: sum.splits if_splits prod.splits option.splits)
  then have res: "res = (if max_depth = 0 then lineage_root_result target dir (lineage_node_of d target 0) (py_or point_in_time (now_iso \<Gamma>)) 0
      else assemble_lineage_result d target dir (lineage_node_of d target 0)
        (lineage_query \<Gamma> d dir target max_depth (py_or point_in_time (now_iso \<Gamma>)) agent) max_depth (py_or point_in_time (now_iso \<Gamma>)))"
    by (auto simp: get_lineage_raw_def Let_def split: if_splits)
  have fields: "lg_entity_id res = target" "lg_point_in_time res = py_or point_in_time (now_iso \<Gamma>)" "lg_max_depth res = max_depth"
    unfolding res by (simp_all add: lineage_root_result_def assemble_lineage_result_def Let_def split: prod.split)
  show "resolvable d agent (lg_entity_id res)" using resolve_entity_ref_spec[OF resolved] fields by simp
  show "0 \<le> max_depth" "lg_max_depth res = max_depth" by fact+
  show "max_depth = 0 \<Longrightarrow> res = lineage_root_result (lg_entity_id res) dir (lineage_node_of d (lg_entity_id res) 0) (lg_point_in_time res) 0"
    using res fields by simp
  show "max_depth \<noteq> 0 \<Longrightarrow> assemble_lineage_result d (lg_entity_id res) dir (lineage_node_of d (lg_entity_id res) 0)
       (lineage_query \<Gamma> d dir (lg_entity_id res) max_depth (lg_point_in_time res) agent) max_depth (lg_point_in_time res) = res"
    using res fields by simp
qed

section \<open>A sample\<close>

text \<open>Three versions of a memory: the newest revises the middle one, which supersedes the oldest.\<close>

definition version :: "string \<Rightarrow> entity" where
  "version i = sample_entity\<lparr>e_id := i\<rparr>"

definition version_edge :: "string \<Rightarrow> string \<Rightarrow> string \<Rightarrow> string \<Rightarrow> relation" where
  "version_edge i s t p = \<lparr>r_id = i, r_source = s, r_target = t, r_predicate = p, r_created_at = ''1'',
     r_valid_from = None, r_valid_to = None, r_valid_at = None, r_invalid_at = None\<rparr>"

definition version_db :: db where
  "version_db = sample_db\<lparr>entities := [version ''m1'', version ''m2'', version ''m3''],
     relations := [version_edge ''e1'' ''m2'' ''m1'' ''supersedes'', version_edge ''e2'' ''m3'' ''m2'' ''revises'']\<rparr>"

lemma version_lineage:
  "case get_lineage sample_env version_db (Some ''m3'') ''ancestors'' 5 None (Some ''b'') of
     Rejected es \<Rightarrow> False
   | Ok res ws \<Rightarrow> map ln_id (lg_nodes res) = [''m3'', ''m2'', ''m1''] \<and> map ln_depth (lg_nodes res) = [0, 1, 2] \<and>
       lg_graph_exhausted res \<and> lg_entity_id res = ''m3'' \<and> lg_point_in_time res = ''1970-01-01''"
  by code_simp

lemma version_result:
  obtains res ws where "get_lineage sample_env version_db (Some ''m3'') ''ancestors'' 5 None (Some ''b'') = Ok res ws"
    "map ln_id (lg_nodes res) = [''m3'', ''m2'', ''m1'']" "map ln_depth (lg_nodes res) = [0, 1, 2]" "lg_graph_exhausted res"
    "lg_entity_id res = ''m3''" "lg_point_in_time res = ''1970-01-01''"
  using version_lineage by (auto split: envelope.splits)

lemma version_ok: "distinct (map r_id (relations version_db))" "bar_free version_db ''m3''"
  by (simp_all add: version_db_def version_edge_def bar_free_def)

section \<open>Properties\<close>

text \<open>
  C21. Lineage is breadth-first search. The nodes that \<open>get_lineage\<close> answers are, each once and ordered
  by depth and id, exactly the memories at distance at most \<open>max_depth\<close> from the requested one along
  the lifecycle edges that are valid at the answered point in time and visible to the agent, and the
  depth of a node is its distance, also in graphs with cycles and diamonds, where the query itself
  returns one row per path.
\<close>

theorem lineage_exact:
  assumes "get_lineage \<Gamma> d entity_id dir max_depth point_in_time agent = Ok res ws"
    "distinct (map r_id (relations d))" "bar_free d (lg_entity_id res)"
  shows "distinct (map ln_id (lg_nodes res)) \<and> sorted (map (\<lambda>n. (ln_depth n, ln_id n)) (lg_nodes res)) \<and>
    (\<forall>y k. (\<exists>n \<in> set (lg_nodes res). ln_id n = y \<and> ln_depth n = k) \<longleftrightarrow>
       (\<exists>m. k = int m \<and> m \<le> nat max_depth \<and>
          distance (lineage_rel \<Gamma> d (lg_point_in_time res) agent dir) (lg_entity_id res) y m))"
proof (cases "max_depth = 0")
  case True
  then have "lg_nodes res = [lineage_node_of d (lg_entity_id res) 0]"
    using lineage_ok(4)[OF assms(1)] by (metis lineage_result.select_convs(4) lineage_root_result_def)
  then show ?thesis using True by (auto simp: distance_self)
next
  case False
  then have "1 \<le> max_depth" using lineage_ok(1)[OF assms(1)] by simp
  obtain nodes where c: "collected (lg_entity_id res) (lineage_query \<Gamma> d dir (lg_entity_id res) max_depth (lg_point_in_time res) agent) (lg_edges res) nodes"
    "lg_nodes res = sort_key (\<lambda>n. (ln_depth n, ln_id n)) (map snd nodes)"
    using lineage_assembled[OF assms(2) lineage_ok(5)[OF assms(1) False]] by blast
  have "distinct (map ln_id (map snd nodes))"
  proof -
    have ok: "distinct (map fst nodes)" "\<And>k n. map_of nodes k = Some n \<Longrightarrow> ln_id n = k"
      using c(1) by (auto simp: collected_def nodes_ok_def)
    have eq: "map ln_id (map snd nodes) = map fst nodes" using ok by (auto simp: map_of_eq_Some_iff)
    show ?thesis unfolding eq by (rule ok(1))
  qed
  then have "distinct (map ln_id (lg_nodes res))" unfolding c(2) distinct_map[of ln_id] by (simp del: distinct_map set_map)
  moreover have "sorted (map (\<lambda>n. (ln_depth n, ln_id n)) (lg_nodes res))" unfolding c(2) by simp
  ultimately show ?thesis using node_distance[OF assms(3) \<open>1 \<le> max_depth\<close> c(1)] unfolding c(2) by simp
qed

theorem lineage_exact_witness:
  "distance (lineage_rel sample_env version_db ''1970-01-01'' (Some ''b'') ''ancestors'') ''m3'' ''m1'' 2"
proof (rule version_result)
  fix res ws
  assume res: "get_lineage sample_env version_db (Some ''m3'') ''ancestors'' 5 None (Some ''b'') = Ok res ws"
    "map ln_id (lg_nodes res) = [''m3'', ''m2'', ''m1'']" "map ln_depth (lg_nodes res) = [0, 1, 2]"
    "lg_entity_id res = ''m3''" "lg_point_in_time res = ''1970-01-01''"
  have "\<exists>n \<in> set (lg_nodes res). ln_id n = ''m1'' \<and> ln_depth n = 2" using res(2,3) by (auto simp: map_eq_Cons_conv)
  then have "\<exists>m. (2::int) = int m \<and> m \<le> nat 5 \<and> distance (lineage_rel sample_env version_db ''1970-01-01'' (Some ''b'') ''ancestors'') ''m3'' ''m1'' m"
    using lineage_exact[OF res(1) version_ok(1)] version_ok(2) unfolding res(4,5) by blast
  then obtain m where "(2::int) = int m" "distance (lineage_rel sample_env version_db ''1970-01-01'' (Some ''b'') ''ancestors'') ''m3'' ''m1'' m" by blast
  moreover from this have "m = 2" by linarith
  ultimately show ?thesis by simp
qed

text \<open>
  What lineage reports of edges. Every reported edge is a stored, valid, visible lifecycle edge,
  reported once with its ends and predicate, and starts at a memory that \<open>depth - 1\<close> edges lead to.
  And \<open>graph_exhausted\<close> can be trusted (for a positive \<open>max_depth\<close>): when it is set, every memory
  that any number of lifecycle edges leads to is among the nodes.
\<close>

lemma lineage_edges_and_exhaustion:
  assumes "get_lineage \<Gamma> d entity_id dir max_depth point_in_time agent = Ok res ws"
    "distinct (map r_id (relations d))" "bar_free d (lg_entity_id res)" "max_depth \<noteq> 0"
  shows "distinct (map le_relation_id (lg_edges res)) \<and>
    (\<forall>e \<in> set (lg_edges res). \<exists>r. lineage_admits \<Gamma> d (lg_point_in_time res) agent r \<and> le_relation_id e = r_id r \<and>
       le_source_id e = r_source r \<and> le_target_id e = r_target r \<and> le_predicate e = r_predicate r \<and> 1 \<le> le_depth e \<and>
       (lineage_rel \<Gamma> d (lg_point_in_time res) agent dir ^^ (nat (le_depth e) - 1)) (lg_entity_id res) (near_end dir r)) \<and>
    (lg_graph_exhausted res \<longrightarrow>
       (\<forall>y. (lineage_rel \<Gamma> d (lg_point_in_time res) agent dir)\<^sup>*\<^sup>* (lg_entity_id res) y \<longrightarrow> y \<in> ln_id ` set (lg_nodes res)))"
proof -
  let ?root = "lg_entity_id res"
  let ?pit = "lg_point_in_time res"
  let ?Q = "lineage_query \<Gamma> d dir ?root max_depth ?pit agent"
  have pos: "1 \<le> max_depth" using lineage_ok(1)[OF assms(1)] assms(4) by simp
  obtain nodes where c: "collected ?root ?Q (lg_edges res) nodes"
    "lg_nodes res = sort_key (\<lambda>n. (ln_depth n, ln_id n)) (map snd nodes)"
    "lg_graph_exhausted res = (lg_edges res = [] \<or> Max (le_depth ` set (lg_edges res)) < max_depth)"
    using lineage_assembled[OF assms(2) lineage_ok(5)[OF assms(1,4)]] by blast
  have edges: "edges_ok ?Q (lg_edges res)" using c(1) by (simp add: collected_def)
  have "\<exists>r. lineage_admits \<Gamma> d ?pit agent r \<and> le_relation_id e = r_id r \<and>
       le_source_id e = r_source r \<and> le_target_id e = r_target r \<and> le_predicate e = r_predicate r \<and> 1 \<le> le_depth e \<and>
       (lineage_rel \<Gamma> d ?pit agent dir ^^ (nat (le_depth e) - 1)) ?root (near_end dir r)" if e: "e \<in> set (lg_edges res)" for e
  proof -
    obtain l where l: "l \<in> set ?Q" "edge_of_row ?Q e l" using edges e unfolding edges_ok_def by blast
    have row: "(lr_rel l, nat (lr_depth l)) \<in> lineage_rows \<Gamma> d dir ?root max_depth ?pit agent" using l by (auto simp: lineage_rows_def)
    show ?thesis using lineage_row_cases[OF l(1)] lineage_depth[OF l(1)] lin.row_reaches[OF row] l(2)
      unfolding lineage_rel_def edge_of_row_def by (intro exI[of _ "lr_rel l"]) auto
  qed
  moreover have "y \<in> ln_id ` set (lg_nodes res)"
    if ex: "lg_graph_exhausted res" and reach: "(lineage_rel \<Gamma> d ?pit agent dir)\<^sup>*\<^sup>* ?root y" for y
  proof -
    obtain k where k: "(lineage_rel \<Gamma> d ?pit agent dir ^^ k) ?root y" using reach rtranclp_imp_relpowp by metis
    have beyond: "\<And>z n. distance (lineage_rel \<Gamma> d ?pit agent dir) ?root z n \<Longrightarrow> n \<noteq> lineage_limit max_depth"
      using exhausted_distance[OF assms(2,3) pos c(1)] ex c(3) pos by auto
    obtain n where n: "n < lineage_limit max_depth" "distance (lineage_rel \<Gamma> d ?pit agent dir) ?root y n"
      using lin.exhausted_complete[where max_depth = max_depth, OF assms(3) _ k[unfolded lineage_rel_def]] beyond
      unfolding lineage_rel_def by blast
    then have "\<exists>x \<in> snd ` set nodes. ln_id x = y \<and> ln_depth x = int n"
      using node_distance[OF assms(3) pos c(1), of y "int n"] pos by auto
    then show ?thesis unfolding c(2) by force
  qed
  ultimately show ?thesis using edges unfolding edges_ok_def by blast
qed

lemma lineage_edges_and_exhaustion_witness:
  "{y. (lineage_rel sample_env version_db ''1970-01-01'' (Some ''b'') ''ancestors'')\<^sup>*\<^sup>* ''m3'' y} \<subseteq> {''m1'', ''m2'', ''m3''}"
proof (rule version_result)
  fix res ws
  assume res: "get_lineage sample_env version_db (Some ''m3'') ''ancestors'' 5 None (Some ''b'') = Ok res ws"
    "map ln_id (lg_nodes res) = [''m3'', ''m2'', ''m1'']" "lg_graph_exhausted res"
    "lg_entity_id res = ''m3''" "lg_point_in_time res = ''1970-01-01''"
  have "ln_id ` set (lg_nodes res) = {''m1'', ''m2'', ''m3''}" using arg_cong[OF res(2), of set] by auto
  then show ?thesis using lineage_edges_and_exhaustion[OF res(1) version_ok(1)] version_ok(2) res(3) unfolding res(4,5) by auto
qed

end
