(* ===== verification/Dependencies.thy ===== *)
theory Dependencies
  imports Lineage
begin

text \<open>
  Semantic neighbours of \<^verbatim>\<open>src/src/saltmdb/domain/services/relation_service.py\<close>: the directed walks of
  \<open>analyze_dependencies\<close> over all predicates, the graph \<open>_DependencyGraph\<close> that merges them, and
  \<open>get_related_memories\<close>. The path column of the recursive query and its guard, a \<open>LIKE\<close> pattern, are
  kept as strings; \<open>sql_like\<close> is SQLite's operator with its wildcards and its ASCII case folding. Rows of
  equal depth come in the order of the query. The optional inspection of every node
  (\<open>include_inspect\<close>) is left out.
\<close>

section \<open>The operator LIKE\<close>

definition fold_ascii :: "char \<Rightarrow> nat" where
  "fold_ascii c = (if 65 \<le> code c \<and> code c \<le> 90 then code c + 32 else code c)"

fun sql_like :: "string \<Rightarrow> string \<Rightarrow> bool" where
  "sql_like [] s = (s = [])"
| "sql_like (c # p) [] = (c = CHR ''%'' \<and> sql_like p [])"
| "sql_like (c # p) (a # s) =
     (if c = CHR ''%'' then sql_like p (a # s) \<or> sql_like (c # p) s
      else (c = CHR ''_'' \<or> fold_ascii c = fold_ascii a) \<and> sql_like p s)"

section \<open>The recursive query of one direction\<close>

definition dep_near :: "string \<Rightarrow> relation \<Rightarrow> string" where
  "dep_near dir r = (if dir = ''outbound'' then r_source r else r_target r)"

definition dep_next :: "string \<Rightarrow> relation \<Rightarrow> string" where
  "dep_next dir r = (if dir = ''outbound'' then r_target r else r_source r)"

record dep_row =
  dr_rel :: relation
  dr_depth :: int
  dr_path :: string

definition dep_seed :: "env \<Rightarrow> db \<Rightarrow> string \<Rightarrow> string \<Rightarrow> string \<Rightarrow> string option \<Rightarrow> dep_row list" where
  "dep_seed \<Gamma> d dir origin pit agent =
     map (\<lambda>r. \<lparr>dr_rel = r, dr_depth = 1, dr_path = r_source r @ ''->'' @ dep_next dir r\<rparr>)
       (filter (\<lambda>r. dep_near dir r = origin \<and> valid_edge \<Gamma> pit r \<and> visible_edge d agent r) (relations d))"

definition dep_step :: "env \<Rightarrow> db \<Rightarrow> string \<Rightarrow> int \<Rightarrow> string \<Rightarrow> string option \<Rightarrow> dep_row \<Rightarrow> dep_row list" where
  "dep_step \<Gamma> d dir max_depth pit agent t =
     (if dr_depth t < max_depth
      then map (\<lambda>r. \<lparr>dr_rel = r, dr_depth = dr_depth t + 1, dr_path = dr_path t @ ''->'' @ dep_next dir r\<rparr>)
        (filter (\<lambda>r. dep_near dir r = dep_next dir (dr_rel t) \<and> valid_edge \<Gamma> pit r \<and> visible_edge d agent r \<and>
                     \<not> sql_like (''%'' @ dep_next dir r @ ''%'') (dr_path t)) (relations d))
      else [])"

definition dep_tree :: "env \<Rightarrow> db \<Rightarrow> string \<Rightarrow> string \<Rightarrow> int \<Rightarrow> string \<Rightarrow> string option \<Rightarrow> dep_row list" where
  "dep_tree \<Gamma> d dir origin max_depth pit agent =
     cte (dep_step \<Gamma> d dir max_depth pit agent) (nat max_depth) (dep_seed \<Gamma> d dir origin pit agent)"

text \<open>The final \<open>SELECT\<close> joins both ends, so a row without an entity at an end is lost.\<close>

definition dep_query :: "env \<Rightarrow> db \<Rightarrow> string \<Rightarrow> string \<Rightarrow> int \<Rightarrow> string \<Rightarrow> string option \<Rightarrow> dep_row list" where
  "dep_query \<Gamma> d dir origin max_depth pit agent =
     sort_key dr_depth (filter (\<lambda>t. get_entity d (r_source (dr_rel t)) \<noteq> None \<and> get_entity d (r_target (dr_rel t)) \<noteq> None)
       (dep_tree \<Gamma> d dir origin max_depth pit agent))"

definition directions_of :: "string \<Rightarrow> string list" where
  "directions_of direction = (if direction = ''both'' then [''outbound'', ''inbound''] else [direction])"

definition fetch_dependency_rows ::
  "env \<Rightarrow> db \<Rightarrow> string \<Rightarrow> string \<Rightarrow> string \<Rightarrow> int \<Rightarrow> string option \<Rightarrow> (string \<times> dep_row) list" where
  "fetch_dependency_rows \<Gamma> d direction origin pit max_depth agent =
     concat (map (\<lambda>dir. map (Pair dir) (dep_query \<Gamma> d dir origin max_depth pit agent)) (directions_of direction))"

section \<open>The graph of the answer\<close>

record dep_node =
  dn_id :: string
  dn_title :: string
  dn_depth :: int

record dep_edge =
  de_relation_id :: string
  de_source_id :: string
  de_source_title :: string
  de_target_id :: string
  de_target_title :: string
  de_predicate :: string
  de_depth :: int

record dep_graph =
  dg_nodes :: "dep_node list"
  dg_edges :: "dep_edge list"

definition title_of :: "db \<Rightarrow> string \<Rightarrow> string" where
  "title_of d i = (case get_entity d i of None \<Rightarrow> [] | Some e \<Rightarrow> e_title e)"

definition dep_edge_of :: "db \<Rightarrow> dep_row \<Rightarrow> dep_edge" where
  "dep_edge_of d t = (let r = dr_rel t in
     \<lparr>de_relation_id = r_id r, de_source_id = r_source r, de_source_title = title_of d (r_source r),
      de_target_id = r_target r, de_target_title = title_of d (r_target r),
      de_predicate = r_predicate r, de_depth = dr_depth t\<rparr>)"

text \<open>The seen sets are the ids of the nodes and of the edges collected so far.\<close>

definition add_row :: "db \<Rightarrow> string \<times> dep_row \<Rightarrow> dep_graph \<Rightarrow> dep_graph" where
  "add_row d = (\<lambda>(dir, t) g.
     let r = dr_rel t; reached = dep_next dir r;
         g1 = (if reached \<in> set (map dn_id (dg_nodes g)) then g
               else g\<lparr>dg_nodes := dg_nodes g @ [\<lparr>dn_id = reached, dn_title = title_of d reached, dn_depth = dr_depth t\<rparr>]\<rparr>)
     in if r_id r \<in> set (map de_relation_id (dg_edges g1)) then g1
        else g1\<lparr>dg_edges := dg_edges g1 @ [dep_edge_of d t]\<rparr>)"

definition add_rows :: "db \<Rightarrow> (string \<times> dep_row) list \<Rightarrow> dep_graph \<Rightarrow> dep_graph" where
  "add_rows d rows g = fold (add_row d) (sort_key (\<lambda>x. dr_depth (snd x)) rows) g"

record root_info =
  ri_id :: string
  ri_title :: string
  ri_status :: status

record dep_result =
  dp_root :: root_info
  dp_total_dependencies_found :: nat
  dp_graph_exhausted :: bool
  dp_dependencies :: "dep_node list"
  dp_edges :: "dep_edge list"
  dp_point_in_time :: string

definition graph_result :: "root_info \<Rightarrow> int \<Rightarrow> string \<Rightarrow> dep_graph \<Rightarrow> dep_result" where
  "graph_result ri max_depth pit g =
     \<lparr>dp_root = ri, dp_total_dependencies_found = length (dg_edges g),
      dp_graph_exhausted = (dg_edges g = [] \<or> Max (de_depth ` set (dg_edges g)) < max_depth),
      dp_dependencies = dg_nodes g, dp_edges = dg_edges g, dp_point_in_time = pit\<rparr>"

definition graph_start :: "string \<Rightarrow> root_info \<Rightarrow> dep_graph" where
  "graph_start origin ri = \<lparr>dg_nodes = [\<lparr>dn_id = origin, dn_title = ri_title ri, dn_depth = 0\<rparr>], dg_edges = []\<rparr>"

definition root_row :: "db \<Rightarrow> string \<Rightarrow> string option \<Rightarrow> entity option" where
  "root_row d origin agent =
     (case get_entity d origin of None \<Rightarrow> None | Some e \<Rightarrow> if visible agent e then Some e else None)"

definition analyze_dependencies ::
  "env \<Rightarrow> db \<Rightarrow> string option \<Rightarrow> int \<Rightarrow> string option \<Rightarrow> string \<Rightarrow> string option \<Rightarrow> graph_error + dep_result" where
  "analyze_dependencies \<Gamma> d root_entity_id max_depth point_in_time direction agent =
     (if \<not> truthy root_entity_id then Inl Entity_Mandatory
      else case resolve_entity_ref d root_entity_id agent of
        (None, _, _) \<Rightarrow> Inl Unresolved
      | (Some origin, _, _) \<Rightarrow>
          let pit = py_or point_in_time (now_iso \<Gamma>); row = root_row d origin agent in
          if row = None \<and> agent \<noteq> None then Inl Unresolved
          else
            let ri = (case row of Some e \<Rightarrow> \<lparr>ri_id = e_id e, ri_title = e_title e, ri_status = e_status e\<rparr>
                      | None \<Rightarrow> \<lparr>ri_id = origin, ri_title = ''Root'', ri_status = Raw\<rparr>)
            in Inr (graph_result ri max_depth pit
                 (add_rows d (fetch_dependency_rows \<Gamma> d direction origin pit max_depth agent) (graph_start origin ri))))"

record related_payload =
  rp_root :: root_info
  rp_graph_exhausted :: bool
  rp_edges :: "dep_edge list"
  rp_point_in_time :: string
  rp_entity_id :: string
  rp_related_memories :: "dep_node list"
  rp_total_related_found :: nat
  rp_max_depth :: int

definition get_related_memories ::
  "env \<Rightarrow> db \<Rightarrow> string option \<Rightarrow> int \<Rightarrow> string option \<Rightarrow> string \<Rightarrow> string option \<Rightarrow> related_payload envelope" where
  "get_related_memories \<Gamma> d entity_id max_depth point_in_time direction agent =
     (case analyze_dependencies \<Gamma> d entity_id max_depth point_in_time direction agent of
        Inl _ \<Rightarrow> Rejected [error VALIDATION_ERROR None]
      | Inr res \<Rightarrow>
          Ok \<lparr>rp_root = dp_root res, rp_graph_exhausted = dp_graph_exhausted res, rp_edges = dp_edges res,
              rp_point_in_time = dp_point_in_time res, rp_entity_id = ri_id (dp_root res),
              rp_related_memories = dp_dependencies res,
              rp_total_related_found = dp_total_dependencies_found res, rp_max_depth = max_depth\<rparr> [])"

section \<open>The cycle guard\<close>

text \<open>Without wildcards in \<open>y\<close>, the pattern \<open>%y%\<close> matches the strings that contain \<open>y\<close> up to case.\<close>

lemma like_tail: "sql_like (CHR ''%'' # []) s"
  by (induction s) simp_all

lemma like_prefix:
  assumes "CHR ''%'' \<notin> set y" "CHR ''_'' \<notin> set y"
  shows "sql_like (y @ ''%'') s \<longleftrightarrow> prefix (map fold_ascii y) (map fold_ascii s)"
  using assms
proof (induction y arbitrary: s)
  case Nil
  then show ?case using like_tail by simp
next
  case (Cons c y)
  then show ?case by (cases s) auto
qed

lemma like_contains:
  assumes "CHR ''%'' \<notin> set y" "CHR ''_'' \<notin> set y"
  shows "sql_like (''%'' @ y @ ''%'') s \<longleftrightarrow> sublist (map fold_ascii y) (map fold_ascii s)"
proof (induction s)
  case Nil
  then show ?case using like_prefix[OF assms, of "[]"] by simp
next
  case (Cons c s)
  have "sql_like (''%'' @ y @ ''%'') (c # s) \<longleftrightarrow> sql_like (y @ ''%'') (c # s) \<or> sql_like (''%'' @ y @ ''%'') s"
    by simp
  then show ?case unfolding like_prefix[OF assms] Cons.IH by (simp add: sublist_Cons_right)
qed

text \<open>The paths that the query builds, as lists of ids.\<close>

fun arrows :: "string list \<Rightarrow> string" where
  "arrows [] = []"
| "arrows [x] = x"
| "arrows (x # y # p) = x @ ''->'' @ arrows (y # p)"

lemma arrows_snoc: "p \<noteq> [] \<Longrightarrow> arrows (p @ [x]) = arrows p @ ''->'' @ x"
  by (induction p rule: arrows.induct) auto

definition lower_case :: "string \<Rightarrow> bool" where
  "lower_case s \<longleftrightarrow> list_all (\<lambda>c. fold_ascii c = code c) s"

lemma lower_case_simps [simp]:
  "lower_case []" "lower_case (c # s) \<longleftrightarrow> fold_ascii c = code c \<and> lower_case s" "lower_case (s @ t) \<longleftrightarrow> lower_case s \<and> lower_case t"
  by (simp_all add: lower_case_def)

lemma map_code_inj: "map code s = map code t \<longleftrightarrow> s = t"
  by (rule inj_map_eq_map) (simp add: inj_def code_def)

lemma lower_case_sublist:
  assumes "lower_case y" "lower_case s"
  shows "sublist (map fold_ascii y) (map fold_ascii s) \<longleftrightarrow> sublist y s"
proof -
  have "map fold_ascii y = map code y" "map fold_ascii s = map code s" using assms by (auto simp: lower_case_def list_all_iff)
  moreover have "sublist (map code y) (map code s) \<longleftrightarrow> sublist y s"
  proof
    assume "sublist (map code y) (map code s)"
    then show "sublist y s" using sublist_map_rightE[of "map code y" code s] by (auto simp: map_code_inj)
  qed (rule map_mono_sublist)
  ultimately show ?thesis by metis
qed

definition plain_id :: "nat \<Rightarrow> string \<Rightarrow> bool" where
  "plain_id n s \<longleftrightarrow> length s = n \<and> s \<noteq> [] \<and> last s \<noteq> CHR ''-'' \<and> lower_case s \<and> set s \<inter> {CHR ''%'', CHR ''_'', CHR ''>''} = {}"

lemma prefix_across: "prefix y (a @ c # b) \<Longrightarrow> c \<notin> set y \<Longrightarrow> prefix y a"
  by (induction a arbitrary: y) (auto simp: prefix_Cons)

lemma sublist_across: "sublist y (a @ c # b) \<Longrightarrow> c \<notin> set y \<Longrightarrow> sublist y a \<or> sublist y b"
proof (induction a)
  case (Cons x a)
  then show ?case using prefix_across[of y "x # a" c b] by (auto simp: sublist_Cons_right)
qed (use prefix_across[of y "[]" c b] in \<open>auto simp: sublist_Cons_right\<close>)

lemma sublist_same_length: "sublist y x \<Longrightarrow> length y = length x \<Longrightarrow> y = x"
  by (auto simp: sublist_def)

lemma arrows_contains:
  assumes "list_all (plain_id n) p" "plain_id n y"
  shows "sublist y (arrows p) \<longleftrightarrow> y \<in> set p"
  using assms(1)
proof (induction p rule: arrows.induct)
  case 1
  then show ?case using assms(2) by (auto simp: plain_id_def)
next
  case (2 x)
  then show ?case using assms(2) sublist_same_length[of y x] by (auto simp: plain_id_def)
next
  case (3 x z p)
  have tail: "sublist y (x @ ''-'') \<Longrightarrow> y = x"
  proof -
    assume "sublist y (x @ ''-'')"
    then have "sublist (rev y) (CHR ''-'' # rev x)" using sublist_rev by fastforce
    moreover have "\<not> prefix (rev y) (CHR ''-'' # rev x)" using assms(2) by (cases y rule: rev_cases) (auto simp: plain_id_def)
    ultimately have "sublist (rev y) (rev x)" by (simp add: sublist_Cons_right)
    then show "y = x" using sublist_same_length[of "rev y" "rev x"] 3(2) assms(2) by (simp add: plain_id_def)
  qed
  show ?case
  proof
    assume "sublist y (arrows (x # z # p))"
    then have "sublist y ((x @ ''-'') @ CHR ''>'' # arrows (z # p))" by simp
    moreover have "CHR ''>'' \<notin> set y" using assms(2) by (auto simp: plain_id_def)
    ultimately have "sublist y (x @ ''-'') \<or> sublist y (arrows (z # p))" by (rule sublist_across)
    then show "y \<in> set (x # z # p)" using tail 3 by auto
  next
    assume "y \<in> set (x # z # p)"
    then consider "y = x" | "y \<in> set (z # p)" by auto
    then show "sublist y (arrows (x # z # p))"
    proof cases
      case 2
      then have "sublist y (arrows (z # p))" using 3 by simp
      then show ?thesis by (simp add: sublist_append_leftI sublist_Cons_right sublist_append)
    qed simp
  qed
qed

lemma arrows_lower: "list_all (plain_id n) p \<Longrightarrow> lower_case (arrows p)"
  by (induction p rule: arrows.induct) (auto simp: plain_id_def fold_ascii_def code_def)

text \<open>So on ids of one length, in lower case and free of the wildcards, the guard recognises the nodes of the path.\<close>

lemma guard_exact:
  assumes "list_all (plain_id n) p" "plain_id n y"
  shows "sql_like (''%'' @ y @ ''%'') (arrows p) \<longleftrightarrow> y \<in> set p"
proof -
  have "CHR ''%'' \<notin> set y" "CHR ''_'' \<notin> set y" "lower_case y" using assms(2) by (auto simp: plain_id_def)
  then show ?thesis
    using like_contains[of y "arrows p"] lower_case_sublist[of y "arrows p"] arrows_lower[OF assms(1)] arrows_contains[OF assms] by simp
qed

section \<open>The rows of a direction\<close>

definition dep_admits :: "env \<Rightarrow> db \<Rightarrow> string \<Rightarrow> string option \<Rightarrow> relation \<Rightarrow> bool" where
  "dep_admits \<Gamma> d pit agent r \<longleftrightarrow> r \<in> set (relations d) \<and> valid_edge \<Gamma> pit r \<and> visible_edge d agent r"

definition dep_rel :: "env \<Rightarrow> db \<Rightarrow> string \<Rightarrow> string option \<Rightarrow> string \<Rightarrow> string \<Rightarrow> string \<Rightarrow> bool" where
  "dep_rel \<Gamma> d pit agent dir = edge_rel (dep_admits \<Gamma> d pit agent) (dep_near dir) (dep_next dir)"

definition dep_rows :: "env \<Rightarrow> db \<Rightarrow> string \<Rightarrow> string \<Rightarrow> int \<Rightarrow> string \<Rightarrow> string option \<Rightarrow> (relation \<times> nat) set" where
  "dep_rows \<Gamma> d dir origin max_depth pit agent =
     (\<lambda>t. (dr_rel t, nat (dr_depth t))) ` set (dep_tree \<Gamma> d dir origin max_depth pit agent)"

definition plain_ids :: "db \<Rightarrow> string \<Rightarrow> bool" where
  "plain_ids d origin \<longleftrightarrow> plain_id (length origin) origin \<and>
     list_all (\<lambda>r. plain_id (length origin) (r_source r) \<and> plain_id (length origin) (r_target r)) (relations d)"

lemma dep_row_cases:
  assumes "t \<in> set (dep_tree \<Gamma> d dir origin max_depth pit agent)"
  shows "dep_admits \<Gamma> d pit agent (dr_rel t) \<and>
    (dr_depth t = 1 \<and> dep_near dir (dr_rel t) = origin \<or>
     (\<exists>k \<in> set (dep_tree \<Gamma> d dir origin max_depth pit agent).
        dr_depth t = dr_depth k + 1 \<and> dr_depth k < max_depth \<and> dep_next dir (dr_rel k) = dep_near dir (dr_rel t)))"
  using cte_sound[of t "dep_step \<Gamma> d dir max_depth pit agent" "nat max_depth" "dep_seed \<Gamma> d dir origin pit agent"] assms
  by (auto simp: dep_tree_def dep_seed_def dep_step_def dep_admits_def split: if_splits)

lemma dep_depth_pos: "t \<in> set (dep_tree \<Gamma> d dir origin max_depth pit agent) \<Longrightarrow> 1 \<le> dr_depth t"
proof -
  have "1 \<le> dr_depth t" if "t \<in> set (cte (dep_step \<Gamma> d dir max_depth pit agent) n rows)" "\<forall>y \<in> set rows. 1 \<le> dr_depth y" for n rows
    using that
  proof (induction n arbitrary: rows)
    case (Suc n)
    have "\<forall>y \<in> set (concat (map (dep_step \<Gamma> d dir max_depth pit agent) rows)). 1 \<le> dr_depth y"
      using Suc.prems(2) by (fastforce simp: dep_step_def split: if_splits)
    then show ?case using Suc by auto
  qed simp
  moreover assume "t \<in> set (dep_tree \<Gamma> d dir origin max_depth pit agent)"
  ultimately show ?thesis by (simp add: dep_tree_def dep_seed_def)
qed

lemma dep_depth:
  assumes "t \<in> set (dep_tree \<Gamma> d dir origin max_depth pit agent)"
  shows "1 \<le> dr_depth t \<and> dr_depth t \<le> int (lineage_limit max_depth)"
  using dep_depth_pos[OF assms] dep_row_cases[OF assms] by auto

definition dep_path :: "string \<Rightarrow> string \<Rightarrow> relation list \<Rightarrow> string list" where
  "dep_path dir origin es = (if dir = ''outbound'' then origin else dep_next dir (hd es)) # map (dep_next dir) es"

lemma dep_steps:
  assumes "plain_ids d origin" "simple_walk (dep_admits \<Gamma> d pit agent) (dep_near dir) (dep_next dir) origin es"
    "length es \<le> lineage_limit max_depth"
  shows "\<lparr>dr_rel = last es, dr_depth = int (length es), dr_path = arrows (dep_path dir origin es)\<rparr> \<in>
    set (steps (dep_step \<Gamma> d dir max_depth pit agent) (length es - 1) (dep_seed \<Gamma> d dir origin pit agent))"
  using assms(2,3)
proof (induction es rule: rev_induct)
  case Nil
  then show ?case by (simp add: simple_walk_def)
next
  case (snoc r es)
  have r: "dep_admits \<Gamma> d pit agent r" "dep_near dir r = (if es = [] then origin else dep_next dir (last es))"
    and dist: "distinct (origin # map (dep_next dir) (es @ [r]))"
    using snoc.prems(1) by (simp_all add: simple_walk_def walk_from_append)
  show ?case
  proof (cases "es = []")
    case True
    then show ?thesis using r by (auto simp: dep_seed_def dep_admits_def dep_path_def dep_near_def dep_next_def)
  next
    case False
    let ?k = "\<lparr>dr_rel = last es, dr_depth = int (length es), dr_path = arrows (dep_path dir origin es)\<rparr>"
    have "simple_walk (dep_admits \<Gamma> d pit agent) (dep_near dir) (dep_next dir) origin es"
      using snoc.prems(1) False by (simp add: simple_walk_def walk_from_append)
    then have k: "?k \<in> set (steps (dep_step \<Gamma> d dir max_depth pit agent) (length es - 1) (dep_seed \<Gamma> d dir origin pit agent))"
      using snoc by simp
    have plain: "plain_id (length origin) (dep_next dir x)" if "dep_admits \<Gamma> d pit agent x" for x
      using assms(1) that by (auto simp: plain_ids_def dep_admits_def dep_next_def list_all_iff)
    have walk: "dep_admits \<Gamma> d pit agent x" if "x \<in> set es" for x
      using snoc.prems(1) walk_from_edges[of "dep_admits \<Gamma> d pit agent" "dep_near dir" "dep_next dir" origin "es @ [r]" x] that
      by (simp add: simple_walk_def)
    have "list_all (plain_id (length origin)) (dep_path dir origin es)"
      using plain walk False assms(1) by (auto simp: dep_path_def list_all_iff plain_ids_def)
    moreover have "dep_next dir r \<notin> set (dep_path dir origin es)"
      using dist False by (cases es) (auto simp: dep_path_def)
    ultimately have "\<not> sql_like (''%'' @ dep_next dir r @ ''%'') (arrows (dep_path dir origin es))"
      using guard_exact[of "length origin"] plain[OF r(1)] by blast
    moreover have "int (length es) < max_depth"
      using snoc.prems(2) False by (cases es) (auto simp: max_def split: if_splits)
    ultimately have row: "\<lparr>dr_rel = r, dr_depth = int (length es) + 1, dr_path = arrows (dep_path dir origin es) @ ''->'' @ dep_next dir r\<rparr>
        \<in> set (dep_step \<Gamma> d dir max_depth pit agent ?k)"
      using r False by (auto simp: dep_step_def dep_admits_def)
    have same: "arrows (dep_path dir origin (es @ [r])) = arrows (dep_path dir origin es) @ ''->'' @ dep_next dir r"
    proof -
      have "dep_path dir origin (es @ [r]) = dep_path dir origin es @ [dep_next dir r]" "dep_path dir origin es \<noteq> []"
        using False by (simp_all add: dep_path_def hd_append)
      then show ?thesis by (metis arrows_snoc)
    qed
    have len: "length (es @ [r]) - 1 = Suc (length es - 1)" "int (length (es @ [r])) = int (length es) + 1"
      using False by (cases es) auto
    show ?thesis unfolding same len steps_Suc using k row by (auto simp only: UN_iff last_snoc)
  qed
qed

interpretation dep: path_rows "dep_admits \<Gamma> d pit agent" "dep_near dir" "dep_next dir" origin "lineage_limit max_depth"
  "dep_rows \<Gamma> d dir origin max_depth pit agent" "plain_ids d origin"
  for \<Gamma> d pit agent dir origin max_depth
proof
  fix r n
  assume "(r, n) \<in> dep_rows \<Gamma> d dir origin max_depth pit agent"
  then obtain t where t: "t \<in> set (dep_tree \<Gamma> d dir origin max_depth pit agent)" "r = dr_rel t" "n = nat (dr_depth t)"
    by (auto simp: dep_rows_def)
  have depth: "1 \<le> dr_depth t \<and> dr_depth t \<le> int (lineage_limit max_depth)" by (rule dep_depth[OF t(1)])
  show "dep_admits \<Gamma> d pit agent r \<and> 1 \<le> n \<and> n \<le> lineage_limit max_depth \<and>
      (n = 1 \<and> dep_near dir r = origin \<or>
       (\<exists>e'. (e', n - 1) \<in> dep_rows \<Gamma> d dir origin max_depth pit agent \<and> dep_next dir e' = dep_near dir r))"
  proof (cases "dr_depth t = 1 \<and> dep_near dir (dr_rel t) = origin")
    case True
    then show ?thesis using dep_row_cases[OF t(1)] t by simp
  next
    case False
    then obtain k where k: "k \<in> set (dep_tree \<Gamma> d dir origin max_depth pit agent)" "dr_depth t = dr_depth k + 1"
      "dep_next dir (dr_rel k) = dep_near dir (dr_rel t)" using dep_row_cases[OF t(1)] by blast
    have "(dr_rel k, n - 1) \<in> dep_rows \<Gamma> d dir origin max_depth pit agent"
      using k(1,2) t(3) dep_depth[OF k(1)] by (auto simp: dep_rows_def image_iff intro!: bexI[of _ k])
    then show ?thesis using dep_row_cases[OF t(1)] k t depth by auto
  qed
next
  fix es
  assume "plain_ids d origin" "simple_walk (dep_admits \<Gamma> d pit agent) (dep_near dir) (dep_next dir) origin es"
    and len: "length es \<le> lineage_limit max_depth"
  from dep_steps[OF this]
  have "\<lparr>dr_rel = last es, dr_depth = int (length es), dr_path = arrows (dep_path dir origin es)\<rparr> \<in> set (dep_tree \<Gamma> d dir origin max_depth pit agent)"
    using subsetD[OF cte_steps[of "length es - 1" "nat max_depth" "dep_step \<Gamma> d dir max_depth pit agent"]] len
    by (simp add: dep_tree_def)
  then show "(last es, length es) \<in> dep_rows \<Gamma> d dir origin max_depth pit agent"
    unfolding dep_rows_def by force
qed

section \<open>The loop over the rows\<close>

abbreviation reached :: "string \<times> dep_row \<Rightarrow> string" where
  "reached x \<equiv> dep_next (fst x) (dr_rel (snd x))"

definition first_found :: "(string \<times> dep_row) list \<Rightarrow> string \<Rightarrow> int \<Rightarrow> bool" where
  "first_found xs y k \<longleftrightarrow> (\<exists>x \<in> set xs. reached x = y \<and> dr_depth (snd x) = k) \<and> (\<forall>x \<in> set xs. reached x = y \<longrightarrow> k \<le> dr_depth (snd x))"

definition found_nodes :: "string \<Rightarrow> (string \<times> dep_row) list \<Rightarrow> dep_node list \<Rightarrow> bool" where
  "found_nodes origin xs ns \<longleftrightarrow> distinct (map dn_id ns) \<and> sorted (map dn_depth ns) \<and>
     (\<forall>n \<in> set ns. dn_id n = origin \<and> dn_depth n = 0 \<or> dn_id n \<noteq> origin \<and> first_found xs (dn_id n) (dn_depth n)) \<and>
     insert origin (set (map reached xs)) = dn_id ` set ns"

lemma dep_edge_of_simps [simp]:
  "de_depth (dep_edge_of d t) = dr_depth t" "de_relation_id (dep_edge_of d t) = r_id (dr_rel t)"
  "de_source_id (dep_edge_of d t) = r_source (dr_rel t)" "de_target_id (dep_edge_of d t) = r_target (dr_rel t)"
  "de_predicate (dep_edge_of d t) = r_predicate (dr_rel t)"
  "de_source_title (dep_edge_of d t) = title_of d (r_source (dr_rel t))" "de_target_title (dep_edge_of d t) = title_of d (r_target (dr_rel t))"
  by (simp_all add: dep_edge_of_def Let_def)

definition shallowest :: "db \<Rightarrow> (string \<times> dep_row) list \<Rightarrow> dep_edge \<Rightarrow> bool" where
  "shallowest d xs e \<longleftrightarrow> (\<exists>x \<in> set xs. e = dep_edge_of d (snd x)) \<and>
     (\<forall>z \<in> set xs. r_id (dr_rel (snd z)) = de_relation_id e \<longrightarrow> de_depth e \<le> dr_depth (snd z))"

definition found_edges :: "db \<Rightarrow> (string \<times> dep_row) list \<Rightarrow> dep_edge list \<Rightarrow> bool" where
  "found_edges d xs es \<longleftrightarrow> distinct (map de_relation_id es) \<and> sorted (map de_depth es) \<and>
     de_relation_id ` set es = (\<lambda>x. r_id (dr_rel (snd x))) ` set xs \<and> (\<forall>e \<in> set es. shallowest d xs e)"

lemma first_found_snoc:
  assumes "\<forall>z \<in> set xs. dr_depth (snd z) \<le> dr_depth (snd x)"
  shows "first_found (xs @ [x]) y k \<longleftrightarrow>
    first_found xs y k \<or> (y \<notin> set (map reached xs) \<and> reached x = y \<and> dr_depth (snd x) = k)"
proof (cases "y \<in> set (map reached xs)")
  case True
  then obtain z where z: "z \<in> set xs" "reached z = y" by auto
  have "first_found (xs @ [x]) y k" if "first_found xs y k"
    using that z assms unfolding first_found_def by (auto intro: order_trans)
  moreover have "first_found xs y k" if a: "first_found (xs @ [x]) y k"
  proof -
    have all: "\<forall>x \<in> set xs. reached x = y \<longrightarrow> k \<le> dr_depth (snd x)" using a by (simp add: first_found_def)
    consider "\<exists>x \<in> set xs. reached x = y \<and> dr_depth (snd x) = k" | "dr_depth (snd x) = k" using a by (auto simp: first_found_def)
    then show ?thesis
    proof cases
      case 2
      then have "dr_depth (snd z) = k" using all assms z by force
      then show ?thesis using all z by (auto simp: first_found_def)
    qed (simp add: first_found_def all)
  qed
  ultimately show ?thesis using True by blast
next
  case False
  then have "\<not> first_found xs y k" "\<forall>z \<in> set xs. reached z \<noteq> y" by (auto simp: first_found_def)
  then show ?thesis using False by (auto simp: first_found_def)
qed

lemma shallowest_snoc:
  "shallowest d xs e \<Longrightarrow> de_depth e \<le> dr_depth (snd x) \<Longrightarrow> shallowest d (xs @ [x]) e"
  by (auto simp: shallowest_def)

lemma found_nodes_snoc:
  assumes "found_nodes origin xs (dg_nodes g)" "\<forall>z \<in> set xs. dr_depth (snd z) \<le> dr_depth (snd x)" "0 \<le> dr_depth (snd x)"
  shows "found_nodes origin (xs @ [x]) (dg_nodes (add_row d x g))"
proof -
  note inv = assms(1)[unfolded found_nodes_def]
  obtain dir t where x: "x = (dir, t)" by force
  show ?thesis
  proof (cases "reached x \<in> set (map dn_id (dg_nodes g))")
    case True
    then have same: "dg_nodes (add_row d x g) = dg_nodes g" by (simp add: add_row_def x Let_def)
    show ?thesis unfolding same found_nodes_def
      using inv True first_found_snoc[OF assms(2)] by auto
  next
    case False
    then have new: "dg_nodes (add_row d x g) =
        dg_nodes g @ [\<lparr>dn_id = reached x, dn_title = title_of d (reached x), dn_depth = dr_depth (snd x)\<rparr>]"
      by (simp add: add_row_def x Let_def)
    have "reached x \<notin> insert origin (set (map reached xs))" using False inv by (metis set_map)
    moreover have "dn_depth n \<le> dr_depth (snd x)" if "n \<in> set (dg_nodes g)" for n
      using inv that assms(2,3) unfolding first_found_def by metis
    ultimately show ?thesis unfolding new found_nodes_def
      using inv False first_found_snoc[OF assms(2)] by (auto simp: sorted_append)
  qed
qed

lemma found_edges_snoc:
  assumes "found_edges d xs (dg_edges g)" "\<forall>z \<in> set xs. dr_depth (snd z) \<le> dr_depth (snd x)"
  shows "found_edges d (xs @ [x]) (dg_edges (add_row d x g))"
proof -
  note inv = assms(1)[unfolded found_edges_def]
  obtain dir t where x: "x = (dir, t)" by force
  have below: "de_depth e \<le> dr_depth t" if "e \<in> set (dg_edges g)" for e
  proof -
    have "shallowest d xs e" using inv that by simp
    then obtain z where "z \<in> set xs" "e = dep_edge_of d (snd z)" by (auto simp: shallowest_def)
    then show ?thesis using assms(2) x by auto
  qed
  have old: "\<forall>e \<in> set (dg_edges g). shallowest d (xs @ [x]) e"
    using inv below shallowest_snoc x by simp
  show ?thesis
  proof (cases "r_id (dr_rel t) \<in> set (map de_relation_id (dg_edges g))")
    case True
    then have same: "dg_edges (add_row d x g) = dg_edges g" by (simp add: add_row_def x Let_def)
    show ?thesis unfolding same found_edges_def using inv old True x by (simp add: insert_absorb)
  next
    case False
    let ?e = "dep_edge_of d t"
    have new: "dg_edges (add_row d x g) = dg_edges g @ [?e]"
      using False by (simp add: add_row_def x Let_def)
    have fresh: "r_id (dr_rel (snd z)) \<noteq> r_id (dr_rel t)" if "z \<in> set xs" for z
      using False inv that by (metis image_eqI set_map)
    have "shallowest d (xs @ [x]) ?e" using fresh x by (simp add: shallowest_def)
    then show ?thesis unfolding new found_edges_def using inv False x old below by (auto simp: sorted_append)
  qed
qed

lemma add_rows_found:
  assumes "\<forall>x \<in> set rows. 0 \<le> dr_depth (snd x)"
  shows "found_nodes origin rows (dg_nodes (add_rows d rows (graph_start origin ri)))"
    "found_edges d rows (dg_edges (add_rows d rows (graph_start origin ri)))"
proof -
  have "found_nodes origin xs (dg_nodes (fold (add_row d) xs (graph_start origin ri))) \<and>
      found_edges d xs (dg_edges (fold (add_row d) xs (graph_start origin ri)))"
    if "sorted (map (\<lambda>x. dr_depth (snd x)) xs)" "\<forall>x \<in> set xs. 0 \<le> dr_depth (snd x)" for xs
    using that
  proof (induction xs rule: rev_induct)
    case Nil
    then show ?case by (simp add: found_nodes_def found_edges_def graph_start_def)
  next
    case (snoc x xs)
    then show ?case using found_nodes_snoc[of origin xs _ x d] found_edges_snoc[of d xs _ x]
      by (auto simp: sorted_append)
  qed
  moreover have "found_nodes origin xs ns \<longleftrightarrow> found_nodes origin rows ns" "found_edges d xs es \<longleftrightarrow> found_edges d rows es"
    if "set xs = set rows" for xs ns es
    unfolding found_nodes_def found_edges_def first_found_def shallowest_def set_map that by simp_all
  ultimately show "found_nodes origin rows (dg_nodes (add_rows d rows (graph_start origin ri)))"
    "found_edges d rows (dg_edges (add_rows d rows (graph_start origin ri)))"
    unfolding add_rows_def using assms by (metis set_sort sorted_sort_key)+
qed

section \<open>Distances\<close>

text \<open>The length of the shortest walk that keeps one of the directions.\<close>

definition dep_distance :: "env \<Rightarrow> db \<Rightarrow> string \<Rightarrow> string option \<Rightarrow> string \<Rightarrow> string \<Rightarrow> string \<Rightarrow> nat \<Rightarrow> bool" where
  "dep_distance \<Gamma> d pit agent direction origin y n \<longleftrightarrow>
     (\<exists>dir \<in> set (directions_of direction). (dep_rel \<Gamma> d pit agent dir ^^ n) origin y) \<and>
     (\<forall>dir \<in> set (directions_of direction). \<forall>j < n. \<not> (dep_rel \<Gamma> d pit agent dir ^^ j) origin y)"

definition ends_exist :: "db \<Rightarrow> bool" where
  "ends_exist d \<longleftrightarrow> list_all (\<lambda>r. get_entity d (r_source r) \<noteq> None \<and> get_entity d (r_target r) \<noteq> None) (relations d)"

lemma fetched_rows:
  assumes "ends_exist d"
  shows "(dir, t) \<in> set (fetch_dependency_rows \<Gamma> d direction origin pit max_depth agent) \<longleftrightarrow>
    dir \<in> set (directions_of direction) \<and> t \<in> set (dep_tree \<Gamma> d dir origin max_depth pit agent)"
proof -
  have "get_entity d (r_source (dr_rel t)) \<noteq> None \<and> get_entity d (r_target (dr_rel t)) \<noteq> None"
    if "t \<in> set (dep_tree \<Gamma> d dir origin max_depth pit agent)"
    using assms dep_row_cases[OF that] unfolding ends_exist_def dep_admits_def list_all_iff by blast
  then show ?thesis by (auto simp: fetch_dependency_rows_def dep_query_def)
qed

lemma dep_rows_iff:
  "(r, n) \<in> dep_rows \<Gamma> d dir origin max_depth pit agent \<longleftrightarrow>
     (\<exists>t \<in> set (dep_tree \<Gamma> d dir origin max_depth pit agent). dr_rel t = r \<and> dr_depth t = int n)"
proof
  assume "(r, n) \<in> dep_rows \<Gamma> d dir origin max_depth pit agent"
  then obtain t where "t \<in> set (dep_tree \<Gamma> d dir origin max_depth pit agent)" "dr_rel t = r" "n = nat (dr_depth t)"
    by (auto simp: dep_rows_def)
  then show "\<exists>t \<in> set (dep_tree \<Gamma> d dir origin max_depth pit agent). dr_rel t = r \<and> dr_depth t = int n"
    using dep_depth by force
qed (force simp: dep_rows_def)

lemma row_walk:
  assumes "t \<in> set (dep_tree \<Gamma> d dir origin max_depth pit agent)"
  shows "(dep_rel \<Gamma> d pit agent dir ^^ (nat (dr_depth t) - 1)) origin (dep_near dir (dr_rel t))"
    "(dep_rel \<Gamma> d pit agent dir ^^ nat (dr_depth t)) origin (dep_next dir (dr_rel t))"
proof -
  have "(dr_rel t, nat (dr_depth t)) \<in> dep_rows \<Gamma> d dir origin max_depth pit agent" using assms by (auto simp: dep_rows_def)
  from dep.row_reaches[OF this]
  show "(dep_rel \<Gamma> d pit agent dir ^^ (nat (dr_depth t) - 1)) origin (dep_near dir (dr_rel t))"
    "(dep_rel \<Gamma> d pit agent dir ^^ nat (dr_depth t)) origin (dep_next dir (dr_rel t))" by (simp_all add: dep_rel_def)
qed

lemma first_found_distance:
  assumes "plain_ids d origin" "ends_exist d" "1 \<le> max_depth" "y \<noteq> origin"
  shows "first_found (fetch_dependency_rows \<Gamma> d direction origin pit max_depth agent) y k \<longleftrightarrow>
    (\<exists>m. k = int m \<and> m \<le> nat max_depth \<and> dep_distance \<Gamma> d pit agent direction origin y m)"
proof
  let ?rows = "fetch_dependency_rows \<Gamma> d direction origin pit max_depth agent"
  have lim: "lineage_limit max_depth = nat max_depth" using assms(3) by simp
  assume first: "first_found ?rows y k"
  then obtain dir t where t: "dir \<in> set (directions_of direction)" "t \<in> set (dep_tree \<Gamma> d dir origin max_depth pit agent)"
    "dep_next dir (dr_rel t) = y" "dr_depth t = k"
    by (auto simp: first_found_def fetched_rows[OF assms(2)])
  have k: "1 \<le> k" "k \<le> int (nat max_depth)" using dep_depth[OF t(2)] t(4) lim by auto
  have "\<not> (dep_rel \<Gamma> d pit agent dir' ^^ j) origin y" if "dir' \<in> set (directions_of direction)" "j < nat k" for dir' j
  proof
    assume "(dep_rel \<Gamma> d pit agent dir' ^^ j) origin y"
    then obtain m where m: "m \<le> j" "distance (dep_rel \<Gamma> d pit agent dir') origin y m" using distance_exists by metis
    have "m \<le> lineage_limit max_depth" using m(1) that(2) k by linarith
    then obtain e where "(e, m) \<in> dep_rows \<Gamma> d dir' origin max_depth pit agent" "dep_next dir' e = y"
      using dep.distance_row[where max_depth = max_depth, OF assms(1) m(2)[unfolded dep_rel_def] assms(4)] by auto
    then obtain u where u: "u \<in> set (dep_tree \<Gamma> d dir' origin max_depth pit agent)" "dep_next dir' (dr_rel u) = y" "dr_depth u = int m"
      unfolding dep_rows_iff by blast
    then have "(dir', u) \<in> set ?rows" using fetched_rows[OF assms(2)] that(1) by blast
    then have "k \<le> int m" using first u by (force simp: first_found_def)
    then show False using m(1) that(2) by linarith
  qed
  then have "dep_distance \<Gamma> d pit agent direction origin y (nat k)"
    using row_walk(2)[OF t(2)] t by (auto simp: dep_distance_def)
  then show "\<exists>m. k = int m \<and> m \<le> nat max_depth \<and> dep_distance \<Gamma> d pit agent direction origin y m"
    using k assms(3) by (intro exI[of _ "nat k"]) auto
next
  let ?rows = "fetch_dependency_rows \<Gamma> d direction origin pit max_depth agent"
  have lim: "lineage_limit max_depth = nat max_depth" using assms(3) by simp
  assume "\<exists>m. k = int m \<and> m \<le> nat max_depth \<and> dep_distance \<Gamma> d pit agent direction origin y m"
  then obtain m dir where m: "k = int m" "m \<le> nat max_depth" "dir \<in> set (directions_of direction)"
    "(dep_rel \<Gamma> d pit agent dir ^^ m) origin y"
    "\<And>dir j. dir \<in> set (directions_of direction) \<Longrightarrow> j < m \<Longrightarrow> \<not> (dep_rel \<Gamma> d pit agent dir ^^ j) origin y"
    unfolding dep_distance_def by blast
  have "distance (dep_rel \<Gamma> d pit agent dir) origin y m" using m(3,4,5) by (simp add: distance_def)
  then obtain e where "(e, m) \<in> dep_rows \<Gamma> d dir origin max_depth pit agent" "dep_next dir e = y"
    using dep.distance_row[where max_depth = max_depth, OF assms(1) _ assms(4)] m(2) lim unfolding dep_rel_def by metis
  then obtain t where t: "t \<in> set (dep_tree \<Gamma> d dir origin max_depth pit agent)" "dep_next dir (dr_rel t) = y" "dr_depth t = int m"
    unfolding dep_rows_iff by blast
  have "(dir, t) \<in> set ?rows" using fetched_rows[OF assms(2)] m(3) t(1) by blast
  moreover have "k \<le> dr_depth u" if u: "(dir', u) \<in> set ?rows" "dep_next dir' (dr_rel u) = y" for dir' u
  proof -
    have tree: "dir' \<in> set (directions_of direction)" "u \<in> set (dep_tree \<Gamma> d dir' origin max_depth pit agent)"
      using u(1) fetched_rows[OF assms(2)] by blast+
    then have "\<not> nat (dr_depth u) < m" using row_walk(2)[OF tree(2)] u(2) m(5) by blast
    then show ?thesis using m(1) dep_depth_pos[OF tree(2)] by linarith
  qed
  ultimately show "first_found ?rows y k" using t m(1) unfolding first_found_def by force
qed

lemma dep_distance_self: "dep_distance \<Gamma> d pit agent direction origin origin n \<longleftrightarrow> n = 0"
proof -
  have "directions_of direction \<noteq> []" by (simp add: directions_of_def)
  then have "\<exists>dir. dir \<in> set (directions_of direction)" by (meson last_in_set)
  then show ?thesis unfolding dep_distance_def by (cases n) fastforce+
qed

section \<open>The answer\<close>

lemma related_ok:
  assumes "get_related_memories \<Gamma> d entity_id max_depth point_in_time direction agent = Ok res ws"
  obtains ri g where "rp_root res = ri" "ri_id ri = rp_entity_id res" "resolvable d agent (rp_entity_id res)"
    "g = add_rows d (fetch_dependency_rows \<Gamma> d direction (rp_entity_id res) (rp_point_in_time res) max_depth agent)
       (graph_start (rp_entity_id res) ri)"
    "rp_related_memories res = dg_nodes g" "rp_edges res = dg_edges g" "rp_total_related_found res = length (dg_edges g)"
    "rp_graph_exhausted res = (dg_edges g = [] \<or> Max (de_depth ` set (dg_edges g)) < max_depth)"
proof -
  obtain dp where dp: "analyze_dependencies \<Gamma> d entity_id max_depth point_in_time direction agent = Inr dp"
    and res: "res = \<lparr>rp_root = dp_root dp, rp_graph_exhausted = dp_graph_exhausted dp, rp_edges = dp_edges dp,
      rp_point_in_time = dp_point_in_time dp, rp_entity_id = ri_id (dp_root dp),
      rp_related_memories = dp_dependencies dp,
      rp_total_related_found = dp_total_dependencies_found dp, rp_max_depth = max_depth\<rparr>"
    using assms by (auto simp: get_related_memories_def split: sum.splits)
  from dp obtain origin cs t where resolved: "resolve_entity_ref d entity_id agent = (Some origin, cs, t)"
    by (auto simp: analyze_dependencies_def split: if_splits prod.splits option.splits)
  define pit where "pit = py_or point_in_time (now_iso \<Gamma>)"
  define ri where "ri = (case root_row d origin agent of Some e \<Rightarrow> \<lparr>ri_id = e_id e, ri_title = e_title e, ri_status = e_status e\<rparr>
      | None \<Rightarrow> \<lparr>ri_id = origin, ri_title = ''Root'', ri_status = Raw\<rparr>)"
  define g where "g = add_rows d (fetch_dependency_rows \<Gamma> d direction origin pit max_depth agent) (graph_start origin ri)"
  have ri: "ri_id ri = origin"
    by (auto simp: ri_def root_row_def dest: get_entity_Some split: option.split)
  have "dp = graph_result ri max_depth pit g"
    using dp resolved unfolding analyze_dependencies_def g_def ri_def pit_def by (auto simp: Let_def split: if_splits)
  then have "rp_root res = ri" "rp_entity_id res = origin" "rp_point_in_time res = pit"
    "rp_related_memories res = dg_nodes g" "rp_edges res = dg_edges g" "rp_total_related_found res = length (dg_edges g)"
    "rp_graph_exhausted res = (dg_edges g = [] \<or> Max (de_depth ` set (dg_edges g)) < max_depth)"
    unfolding res by (simp_all add: graph_result_def ri)
  moreover have "resolvable d agent origin" using resolve_entity_ref_spec[OF resolved] by simp
  ultimately show ?thesis using that[of ri g] ri g_def by simp
qed

lemma rows_nonneg: "\<forall>x \<in> set (fetch_dependency_rows \<Gamma> d direction origin pit max_depth agent). 0 \<le> dr_depth (snd x)"
proof
  fix x
  assume "x \<in> set (fetch_dependency_rows \<Gamma> d direction origin pit max_depth agent)"
  then obtain dir where "snd x \<in> set (dep_tree \<Gamma> d dir origin max_depth pit agent)"
    by (auto simp: fetch_dependency_rows_def dep_query_def)
  then show "0 \<le> dr_depth (snd x)" using dep_depth_pos by fastforce
qed

lemma first_found_unique: "first_found xs y k \<Longrightarrow> first_found xs y l \<Longrightarrow> k = l"
  unfolding first_found_def by (metis order_antisym)

lemma node_iff:
  assumes "found_nodes origin xs ns"
  shows "(\<exists>n \<in> set ns. dn_id n = y \<and> dn_depth n = k) \<longleftrightarrow> (if y = origin then k = 0 else first_found xs y k)"
proof -
  have nodes: "\<And>n. n \<in> set ns \<Longrightarrow> if dn_id n = origin then dn_depth n = 0 else first_found xs (dn_id n) (dn_depth n)"
    and ids: "insert origin (set (map reached xs)) = dn_id ` set ns"
    using assms unfolding found_nodes_def by (auto simp: image_image)
  show ?thesis
  proof (cases "y = origin \<or> y \<in> set (map reached xs)")
    case True
    then have "y \<in> dn_id ` set ns" unfolding ids[symmetric] by blast
    then obtain n where n: "n \<in> set ns" "dn_id n = y" by auto
    moreover from this have "if y = origin then dn_depth n = 0 else first_found xs y (dn_depth n)" using nodes[OF n(1)] n(2) by auto
    moreover have "if y = origin then k = 0 else first_found xs y k" if "m \<in> set ns" "dn_id m = y" "dn_depth m = k" for m
      using nodes[OF that(1)] that by auto
    ultimately show ?thesis using n first_found_unique[of xs y k "dn_depth n"] by (metis (full_types))
  next
    case False
    then have "y \<notin> dn_id ` set ns" unfolding ids[symmetric] by blast
    moreover have "\<not> first_found xs y k" using False by (auto simp: first_found_def)
    ultimately show ?thesis using False by auto
  qed
qed

section \<open>Properties\<close>

text \<open>
  C22. Semantic neighbours are breadth-first search. The memories that \<open>get_related_memories\<close> answers
  are, each once and nearest first, exactly the memories at most \<open>max_depth\<close> relations away from the
  requested one along valid relations visible to the agent, walked in the requested direction (with
  \<open>both\<close>, in either direction, never mixed), and the depth of a memory is the length of the shortest
  such walk. The ids are assumed to be of one length, in lower case and free of the two wildcards, as
  UUIDs are: on other ids the guard, a \<open>LIKE\<close> pattern, would hide memories.
\<close>

theorem related_memories_exact:
  assumes "get_related_memories \<Gamma> d entity_id max_depth point_in_time direction agent = Ok res ws"
    "plain_ids d (rp_entity_id res)" "ends_exist d" "1 \<le> max_depth"
  shows "distinct (map dn_id (rp_related_memories res)) \<and> sorted (map dn_depth (rp_related_memories res)) \<and>
    (\<forall>y k. (\<exists>n \<in> set (rp_related_memories res). dn_id n = y \<and> dn_depth n = k) \<longleftrightarrow>
       (\<exists>m. k = int m \<and> m \<le> nat max_depth \<and>
          dep_distance \<Gamma> d (rp_point_in_time res) agent direction (rp_entity_id res) y m))"
proof -
  let ?rows = "fetch_dependency_rows \<Gamma> d direction (rp_entity_id res) (rp_point_in_time res) max_depth agent"
  obtain ri g where g: "g = add_rows d ?rows (graph_start (rp_entity_id res) ri)" "rp_related_memories res = dg_nodes g"
    using related_ok[OF assms(1)] by metis
  have found: "found_nodes (rp_entity_id res) ?rows (rp_related_memories res)"
    unfolding g using add_rows_found(1)[OF rows_nonneg] by blast
  show ?thesis unfolding node_iff[OF found]
    using found first_found_distance[OF assms(2,3,4)] by (auto simp: found_nodes_def dep_distance_self)
qed

text \<open>Three memories that reach back to the first: \<open>a\<close> depends on \<open>b\<close>, \<open>b\<close> on \<open>c\<close> and \<open>c\<close> on \<open>a\<close>.\<close>

definition ring_db :: db where
  "ring_db = sample_db\<lparr>entities := [version ''a'', version ''b'', version ''c''],
     relations := [version_edge ''e1'' ''a'' ''b'' ''depends_on'', version_edge ''e2'' ''b'' ''c'' ''depends_on'',
       version_edge ''e3'' ''c'' ''a'' ''depends_on'']\<rparr>"

lemma ring_related:
  "case get_related_memories sample_env ring_db (Some ''a'') 5 None ''outbound'' (Some ''b'') of
     Rejected es \<Rightarrow> False
   | Ok res ws \<Rightarrow> map dn_id (rp_related_memories res) = [''a'', ''b'', ''c''] \<and> map dn_depth (rp_related_memories res) = [0, 1, 2] \<and>
       rp_graph_exhausted res \<and> rp_entity_id res = ''a'' \<and> rp_point_in_time res = ''1970-01-01''"
  by code_simp

lemma ring_result:
  obtains res ws where "get_related_memories sample_env ring_db (Some ''a'') 5 None ''outbound'' (Some ''b'') = Ok res ws"
    "map dn_id (rp_related_memories res) = [''a'', ''b'', ''c'']" "map dn_depth (rp_related_memories res) = [0, 1, 2]"
    "rp_graph_exhausted res" "rp_entity_id res = ''a''" "rp_point_in_time res = ''1970-01-01''"
  using ring_related by (auto split: envelope.splits)

lemma ring_ok: "plain_ids ring_db ''a''" "ends_exist ring_db" "distinct (map r_id (relations ring_db))"
  by code_simp+

theorem related_memories_exact_witness:
  "dep_distance sample_env ring_db ''1970-01-01'' (Some ''b'') ''outbound'' ''a'' ''c'' 2"
proof (rule ring_result)
  fix res ws
  assume res: "get_related_memories sample_env ring_db (Some ''a'') 5 None ''outbound'' (Some ''b'') = Ok res ws"
    "map dn_id (rp_related_memories res) = [''a'', ''b'', ''c'']" "map dn_depth (rp_related_memories res) = [0, 1, 2]"
    "rp_entity_id res = ''a''" "rp_point_in_time res = ''1970-01-01''"
  have "\<exists>n \<in> set (rp_related_memories res). dn_id n = ''c'' \<and> dn_depth n = 2" using res(2,3) by (auto simp: map_eq_Cons_conv)
  moreover have "plain_ids ring_db (rp_entity_id res)" "(1::int) \<le> 5" using ring_ok(1) res(4) by simp_all
  note exact = related_memories_exact[OF res(1) this(1) ring_ok(2) this(2)]
  ultimately obtain m where m: "(2::int) = int m"
    "dep_distance sample_env ring_db (rp_point_in_time res) (Some ''b'') ''outbound'' (rp_entity_id res) ''c'' m"
    using exact by blast
  then have "m = 2" by linarith
  then show ?thesis using m(2) unfolding res(4,5) by simp
qed

lemma exhausted_beyond:
  assumes "plain_ids d origin" "ends_exist d" "1 \<le> max_depth" "distinct (map r_id (relations d))" "directions_of direction = [dir]"
    and edges: "found_edges d (fetch_dependency_rows \<Gamma> d direction origin pit max_depth agent) es"
    and ex: "es = [] \<or> Max (de_depth ` set es) < max_depth"
  shows "\<not> distance (dep_rel \<Gamma> d pit agent dir) origin y (nat max_depth)"
proof
  assume dist: "distance (dep_rel \<Gamma> d pit agent dir) origin y (nat max_depth)"
  have "y \<noteq> origin" using distance_unique[OF dist, of 0] distance_self[of _ origin origin] assms(3) by fastforce
  then obtain r where r: "(r, nat max_depth) \<in> dep_rows \<Gamma> d dir origin max_depth pit agent" "dep_next dir r = y"
    using dep.distance_row[where max_depth = max_depth, OF assms(1) dist[unfolded dep_rel_def]] by auto
  then obtain t where t: "t \<in> set (dep_tree \<Gamma> d dir origin max_depth pit agent)" "dr_rel t = r" unfolding dep_rows_iff by blast
  then have "(dir, t) \<in> set (fetch_dependency_rows \<Gamma> d direction origin pit max_depth agent)"
    unfolding fetched_rows[OF assms(2)] assms(5) by simp
  then have "r_id r \<in> de_relation_id ` set es" using edges t(2) unfolding found_edges_def by force
  then obtain e where e: "e \<in> set es" "de_relation_id e = r_id r" by auto
  then have "shallowest d (fetch_dependency_rows \<Gamma> d direction origin pit max_depth agent) e" using edges unfolding found_edges_def by blast
  then obtain dir' u where u: "(dir', u) \<in> set (fetch_dependency_rows \<Gamma> d direction origin pit max_depth agent)" "e = dep_edge_of d u"
    by (auto simp: shallowest_def)
  then have u': "dir' = dir" "u \<in> set (dep_tree \<Gamma> d dir origin max_depth pit agent)"
    unfolding fetched_rows[OF assms(2)] assms(5) by auto
  have "dr_rel u = r"
    using dep_row_cases[OF u'(2)] dep_row_cases[OF t(1)] t(2) e(2) u(2) assms(4)
    by (auto simp: dep_admits_def distinct_map inj_on_def)
  then have "\<not> nat (dr_depth u) < nat max_depth"
    using row_walk(2)[OF u'(2)] r(2) dist by (auto simp: distance_def)
  then have "max_depth \<le> de_depth e" using u(2) assms(3) by simp
  moreover have "de_depth e \<le> Max (de_depth ` set es)" by (rule Max_ge) (simp_all add: e(1))
  moreover have "es \<noteq> []" using e(1) by auto
  ultimately show False using ex by linarith
qed

text \<open>
  What neighbours report of relations. Every reported edge is a stored, valid, visible relation,
  reported once with its ends and predicate, and starts at a memory that \<open>depth - 1\<close> relations lead to.
  And with a single direction \<open>graph_exhausted\<close> can be trusted: when it is set, every memory that any
  number of relations leads to is among the answered ones.
\<close>

lemma related_edges_and_exhaustion:
  assumes "get_related_memories \<Gamma> d entity_id max_depth point_in_time direction agent = Ok res ws"
    "plain_ids d (rp_entity_id res)" "ends_exist d" "1 \<le> max_depth" "distinct (map r_id (relations d))"
  shows "distinct (map de_relation_id (rp_edges res)) \<and> rp_total_related_found res = length (rp_edges res) \<and>
    (\<forall>e \<in> set (rp_edges res). \<exists>r dir. dir \<in> set (directions_of direction) \<and> dep_admits \<Gamma> d (rp_point_in_time res) agent r \<and>
       de_relation_id e = r_id r \<and> de_source_id e = r_source r \<and> de_target_id e = r_target r \<and>
       de_predicate e = r_predicate r \<and> 1 \<le> de_depth e \<and>
       (dep_rel \<Gamma> d (rp_point_in_time res) agent dir ^^ (nat (de_depth e) - 1)) (rp_entity_id res) (dep_near dir r)) \<and>
    (direction \<noteq> ''both'' \<and> rp_graph_exhausted res \<longrightarrow>
       (\<forall>y. (dep_rel \<Gamma> d (rp_point_in_time res) agent direction)\<^sup>*\<^sup>* (rp_entity_id res) y \<longrightarrow>
          y \<in> dn_id ` set (rp_related_memories res)))"
proof -
  let ?origin = "rp_entity_id res"
  let ?pit = "rp_point_in_time res"
  let ?rows = "fetch_dependency_rows \<Gamma> d direction ?origin ?pit max_depth agent"
  obtain ri g where g: "g = add_rows d ?rows (graph_start ?origin ri)" "rp_related_memories res = dg_nodes g" "rp_edges res = dg_edges g"
    "rp_total_related_found res = length (dg_edges g)"
    "rp_graph_exhausted res = (dg_edges g = [] \<or> Max (de_depth ` set (dg_edges g)) < max_depth)"
    using related_ok[OF assms(1)] by metis
  have found: "found_nodes ?origin ?rows (dg_nodes g)" "found_edges d ?rows (dg_edges g)"
    unfolding g(1) using add_rows_found[OF rows_nonneg] by blast+
  have "\<exists>r dir. dir \<in> set (directions_of direction) \<and> dep_admits \<Gamma> d ?pit agent r \<and>
       de_relation_id e = r_id r \<and> de_source_id e = r_source r \<and> de_target_id e = r_target r \<and>
       de_predicate e = r_predicate r \<and> 1 \<le> de_depth e \<and>
       (dep_rel \<Gamma> d ?pit agent dir ^^ (nat (de_depth e) - 1)) ?origin (dep_near dir r)" if e: "e \<in> set (dg_edges g)" for e
  proof -
    have "shallowest d ?rows e" using found(2) e unfolding found_edges_def by blast
    then obtain dir t where t: "(dir, t) \<in> set ?rows" "e = dep_edge_of d t" by (auto simp: shallowest_def)
    then have tree: "dir \<in> set (directions_of direction)" "t \<in> set (dep_tree \<Gamma> d dir ?origin max_depth ?pit agent)"
      unfolding fetched_rows[OF assms(3)] by auto
    then show ?thesis using dep_row_cases[OF tree(2)] dep_depth_pos[OF tree(2)] row_walk(1)[OF tree(2)] t(2)
      by (intro exI[of _ "dr_rel t"] exI[of _ dir]) auto
  qed
  moreover have "y \<in> dn_id ` set (dg_nodes g)"
    if "direction \<noteq> ''both''" "rp_graph_exhausted res" and reach: "(dep_rel \<Gamma> d ?pit agent direction)\<^sup>*\<^sup>* ?origin y" for y
  proof -
    have dirs: "directions_of direction = [direction]" using that(1) by (simp add: directions_of_def)
    obtain k where k: "(dep_rel \<Gamma> d ?pit agent direction ^^ k) ?origin y" using reach rtranclp_imp_relpowp by metis
    have "\<And>z n. distance (dep_rel \<Gamma> d ?pit agent direction) ?origin z n \<Longrightarrow> n \<noteq> lineage_limit max_depth"
      using exhausted_beyond[OF assms(2,3,4,5) dirs found(2)] that(2) g(5) assms(4) by auto
    then obtain n where n: "n < lineage_limit max_depth" "distance (dep_rel \<Gamma> d ?pit agent direction) ?origin y n"
      using dep.exhausted_complete[where max_depth = max_depth, OF assms(2) _ k[unfolded dep_rel_def]] unfolding dep_rel_def by blast
    then have "dep_distance \<Gamma> d ?pit agent direction ?origin y n" by (simp add: dep_distance_def dirs distance_def)
    then have "y \<noteq> ?origin \<Longrightarrow> first_found ?rows y (int n)"
      using first_found_distance[OF assms(2,3,4)] n(1) assms(4) by auto
    then have "y \<in> insert ?origin (set (map reached ?rows))" by (auto simp: first_found_def)
    moreover have "insert ?origin (set (map reached ?rows)) = dn_id ` set (dg_nodes g)" using found(1) unfolding found_nodes_def by blast
    ultimately show ?thesis by blast
  qed
  ultimately show ?thesis using found(2) unfolding found_edges_def g by blast
qed

lemma related_edges_and_exhaustion_witness:
  "{y. (dep_rel sample_env ring_db ''1970-01-01'' (Some ''b'') ''outbound'')\<^sup>*\<^sup>* ''a'' y} \<subseteq> {''a'', ''b'', ''c''}"
proof (rule ring_result)
  fix res ws
  assume res: "get_related_memories sample_env ring_db (Some ''a'') 5 None ''outbound'' (Some ''b'') = Ok res ws"
    "map dn_id (rp_related_memories res) = [''a'', ''b'', ''c'']" "rp_graph_exhausted res"
    "rp_entity_id res = ''a''" "rp_point_in_time res = ''1970-01-01''"
  have plain: "plain_ids ring_db (rp_entity_id res)" "(1::int) \<le> 5" using ring_ok(1) res(4) by simp_all
  note all = related_edges_and_exhaustion[OF res(1) plain(1) ring_ok(2) plain(2) ring_ok(3), THEN conjunct2, THEN conjunct2, THEN conjunct2]
  have "''outbound'' \<noteq> ''both''" by simp
  then have sub: "{y. (dep_rel sample_env ring_db ''1970-01-01'' (Some ''b'') ''outbound'')\<^sup>*\<^sup>* ''a'' y} \<subseteq> dn_id ` set (rp_related_memories res)"
    using all res(3) unfolding res(4,5) by blast
  have "dn_id ` set (rp_related_memories res) = {''a'', ''b'', ''c''}" using arg_cong[OF res(2), of set] by auto
  then show ?thesis using sub by (simp only:)
qed

text \<open>
  With \<open>both\<close>, \<open>graph_exhausted\<close> is no such promise. An edge that both walks find is kept at its
  smaller depth, so the last edge of one walk can be reported below the limit: here \<open>w\<close> relates to
  \<open>b\<close>, four relations up from \<open>a\<close>, the limit is three, the answer says it is exhausted, and \<open>w\<close> is
  not in it. With the limit four it is.
\<close>

definition wheel_db :: db where
  "wheel_db = sample_db\<lparr>entities := map version [''a'', ''b'', ''c'', ''e'', ''w''],
     relations := [version_edge ''e1'' ''a'' ''b'' ''depends_on'', version_edge ''e2'' ''b'' ''c'' ''depends_on'',
       version_edge ''e3'' ''c'' ''e'' ''depends_on'', version_edge ''e4'' ''e'' ''a'' ''depends_on'',
       version_edge ''e5'' ''w'' ''b'' ''depends_on'']\<rparr>"

lemma both_directions_misreport_exhaustion:
  "case (get_related_memories sample_env wheel_db (Some ''a'') 3 None ''both'' (Some ''b''),
     get_related_memories sample_env wheel_db (Some ''a'') 4 None ''both'' (Some ''b'')) of
     (Ok res ws, Ok res' ws') \<Rightarrow>
       rp_graph_exhausted res \<and> ''w'' \<notin> set (map dn_id (rp_related_memories res)) \<and>
       ''w'' \<in> set (map dn_id (rp_related_memories res'))
   | _ \<Rightarrow> False"
  by code_simp

end
