(* ===== verification/Context_Expansion.thy ===== *)
theory Context_Expansion
  imports Dependencies
begin

text \<open>
  One hop of graph expansion, \<^verbatim>\<open>src/src/saltmdb/domain/services/context_expansion_service.py\<close>: the edges
  at every primary hit, split into edges among the hits, contradictions and expansion candidates, and the
  ranking of the candidates. The loop of the code runs over a Python set, whose order is not specified:
  \<open>expand_context_candidates\<close> takes the order as an argument, and the result is shown not to depend on
  it. A score is a Python float that is only compared.
\<close>

section \<open>The service\<close>

definition DEFAULT_CONTEXT_EXPANSION_PREDICATES :: "string list" where
  "DEFAULT_CONTEXT_EXPANSION_PREDICATES =
     [''elaborates_on'', ''depends_on'', ''corrects'', ''derived_from'', ''resolves'']"

definition CONTEXT_EXPANSION_TOP_K_RELATIONSHIPS :: nat where
  "CONTEXT_EXPANSION_TOP_K_RELATIONSHIPS = 10"

record primary_hit =
  ph_id :: string
  ph_score :: real

record raw_edge =
  re_relation_id :: string
  re_source_id :: string
  re_target_id :: string
  re_predicate :: string

text \<open>Origin, predicate and direction.\<close>

type_synonym provenance = "string \<times> string \<times> string"

record expansion_node =
  en_title :: string
  en_provenance :: "provenance set"

record expansion_state =
  in_network :: "(string \<times> raw_edge) list"
  contradicts :: "(string \<times> raw_edge) list"
  provenances :: "(string \<times> expansion_node) list"

definition raw_edge_of :: "dep_edge \<Rightarrow> raw_edge" where
  "raw_edge_of e = \<lparr>re_relation_id = de_relation_id e, re_source_id = de_source_id e,
     re_target_id = de_target_id e, re_predicate = de_predicate e\<rparr>"

definition record_provenance ::
  "string set \<Rightarrow> dep_edge \<Rightarrow> (string \<times> expansion_node) list \<Rightarrow> (string \<times> expansion_node) list" where
  "record_provenance primary_ids e ps =
     (let s = de_source_id e; t = de_target_id e in
      if (s \<in> primary_ids) = (t \<in> primary_ids) then ps
      else
        let origin = (if s \<in> primary_ids then s else t);
            entity_id = (if origin = s then t else s);
            dir = (if origin = s then ''outbound'' else ''inbound'');
            title = (if dir = ''outbound'' then de_target_title e else de_source_title e);
            node = (case map_of ps entity_id of Some n \<Rightarrow> n | None \<Rightarrow> \<lparr>en_title = title, en_provenance = {}\<rparr>)
        in AList.update entity_id (node\<lparr>en_provenance := insert (origin, de_predicate e, dir) (en_provenance node)\<rparr>) ps)"

definition record_edge :: "string set \<Rightarrow> dep_edge \<Rightarrow> expansion_state \<Rightarrow> expansion_state" where
  "record_edge primary_ids e st =
     (if de_predicate e = ''contradicts''
      then st\<lparr>contradicts := AList.update (de_relation_id e) (raw_edge_of e) (contradicts st)\<rparr>
      else if de_predicate e \<notin> set DEFAULT_CONTEXT_EXPANSION_PREDICATES then st
      else if de_source_id e \<in> primary_ids \<and> de_target_id e \<in> primary_ids
      then st\<lparr>in_network := AList.update (de_relation_id e) (raw_edge_of e) (in_network st)\<rparr>
      else st\<lparr>provenances := record_provenance primary_ids e (provenances st)\<rparr>)"

text \<open>A hit whose walk answers an error is skipped with a warning.\<close>

definition hit_edges :: "env \<Rightarrow> db \<Rightarrow> string \<Rightarrow> string option \<Rightarrow> string \<Rightarrow> dep_edge list" where
  "hit_edges \<Gamma> d pit agent hit_id =
     (case analyze_dependencies \<Gamma> d (Some hit_id) 1 (Some pit) ''both'' agent of
        Inl _ \<Rightarrow> [] | Inr res \<Rightarrow> dp_edges res)"

definition collect_edges ::
  "env \<Rightarrow> db \<Rightarrow> string set \<Rightarrow> string \<Rightarrow> string option \<Rightarrow> string \<Rightarrow> expansion_state \<Rightarrow> expansion_state" where
  "collect_edges \<Gamma> d primary_ids pit agent hit_id st =
     fold (record_edge primary_ids) (hit_edges \<Gamma> d pit agent hit_id) st"

record ranked_node =
  rn_entity_id :: string
  rn_title :: string
  rn_mutual_neighbor_count :: nat
  rn_tiebreak_score :: real
  rn_provenance :: "provenance set"

text \<open>The dictionary of scores: the last hit with an id wins. The ids looked up are ids of hits.\<close>

definition score_of :: "primary_hit list \<Rightarrow> string \<Rightarrow> real" where
  "score_of hits i = (case map_of (rev (map (\<lambda>h. (ph_id h, ph_score h)) hits)) i of Some s \<Rightarrow> s | None \<Rightarrow> 0)"

definition rank_node :: "(string \<Rightarrow> real) \<Rightarrow> string \<times> expansion_node \<Rightarrow> ranked_node" where
  "rank_node scores = (\<lambda>(i, n).
     \<lparr>rn_entity_id = i, rn_title = en_title n, rn_mutual_neighbor_count = card (fst ` en_provenance n),
      rn_tiebreak_score = Max ((\<lambda>p. scores (fst p)) ` en_provenance n), rn_provenance = en_provenance n\<rparr>)"

definition rank_key :: "ranked_node \<Rightarrow> int \<times> real \<times> string" where
  "rank_key n = (- int (rn_mutual_neighbor_count n), - rn_tiebreak_score n, rn_entity_id n)"

definition rank_expansion_nodes :: "(string \<Rightarrow> real) \<Rightarrow> (string \<times> expansion_node) list \<Rightarrow> ranked_node list" where
  "rank_expansion_nodes scores ps = sort_key rank_key (map (rank_node scores) ps)"

record graph_provenance =
  gp_origin_hit_id :: string
  gp_predicate :: string
  gp_direction :: string
  gp_hop_depth :: nat

record expansion_candidate =
  ec_entity_id :: string
  ec_title :: string
  ec_mutual_neighbor_count :: nat
  ec_tiebreak_score :: real
  ec_retrieval_provenance :: "graph_provenance list"

definition render_expansion_node :: "ranked_node \<Rightarrow> expansion_candidate" where
  "render_expansion_node n =
     \<lparr>ec_entity_id = rn_entity_id n, ec_title = rn_title n, ec_mutual_neighbor_count = rn_mutual_neighbor_count n,
      ec_tiebreak_score = rn_tiebreak_score n,
      ec_retrieval_provenance = map (\<lambda>(origin, predicate, dir).
        \<lparr>gp_origin_hit_id = origin, gp_predicate = predicate, gp_direction = dir, gp_hop_depth = 1\<rparr>)
        (sorted_list_of_set (rn_provenance n))\<rparr>"

record cap_report =
  cr_cap :: nat
  cr_eligible_count :: nat
  cr_truncated :: bool
  cr_dropped_count :: nat

record expansion_result =
  er_in_network_edges :: "raw_edge list"
  er_expansion_candidates :: "expansion_candidate list"
  er_contradicts_edges :: "raw_edge list"
  er_fan_out :: cap_report

definition sorted_values :: "(string \<times> 'v) list \<Rightarrow> 'v list" where
  "sorted_values m = map snd (sort_key fst m)"

definition expansion_cap :: "primary_hit list \<Rightarrow> nat" where
  "expansion_cap hits = CONTEXT_EXPANSION_TOP_K_RELATIONSHIPS * length hits"

definition expansion_output :: "primary_hit list \<Rightarrow> expansion_state \<Rightarrow> expansion_result" where
  "expansion_output hits st =
     (let ranked = rank_expansion_nodes (score_of hits) (provenances st); cap = expansion_cap hits
      in \<lparr>er_in_network_edges = sorted_values (in_network st),
          er_expansion_candidates = map render_expansion_node (take cap ranked),
          er_contradicts_edges = sorted_values (contradicts st),
          er_fan_out = \<lparr>cr_cap = cap, cr_eligible_count = length ranked, cr_truncated = (length ranked > cap),
                        cr_dropped_count = length ranked - cap\<rparr>\<rparr>)"

definition expand_context_candidates ::
  "env \<Rightarrow> db \<Rightarrow> primary_hit list \<Rightarrow> string option \<Rightarrow> string option \<Rightarrow> string list \<Rightarrow> expansion_result" where
  "expand_context_candidates \<Gamma> d hits point_in_time agent order =
     (let pit = py_or point_in_time (now_iso \<Gamma>); primary_ids = set (map ph_id hits)
      in expansion_output hits
           (fold (collect_edges \<Gamma> d primary_ids pit agent) order \<lparr>in_network = [], contradicts = [], provenances = []\<rparr>))"

section \<open>The edges at a hit\<close>

text \<open>A walk of depth one answers the valid visible relations at its origin.\<close>

lemma dep_tree_1: "dep_tree \<Gamma> d dir origin 1 pit agent = dep_seed \<Gamma> d dir origin pit agent"
proof -
  have "dep_step \<Gamma> d dir 1 pit agent t = []" if "t \<in> set (dep_seed \<Gamma> d dir origin pit agent)" for t
    using that by (auto simp: dep_seed_def dep_step_def)
  then have "concat (map (dep_step \<Gamma> d dir 1 pit agent) (dep_seed \<Gamma> d dir origin pit agent)) = []" by simp
  then show ?thesis by (simp add: dep_tree_def)
qed

text \<open>What the tables keep: unique keys, stripped ids, and relations between stored memories.\<close>

definition sound_store :: "db \<Rightarrow> bool" where
  "sound_store d \<longleftrightarrow> distinct (map e_id (entities d)) \<and> list_all (\<lambda>e. e_id e \<noteq> [] \<and> py_strip (e_id e) = e_id e) (entities d) \<and>
     distinct (map r_id (relations d)) \<and> ends_exist d"

lemma unique_get_entity:
  assumes "distinct (map e_id (entities d))" "e \<in> set (entities d)"
  shows "get_entity d (e_id e) = Some e"
proof -
  have "get_entity d (e_id e) \<noteq> None" using assms(2) by (auto simp: get_entity_def find_row_None)
  then obtain e' where e': "get_entity d (e_id e) = Some e'" by blast
  then have "e' \<in> set (entities d)" "e_id e' = e_id e" using get_entity_Some by blast+
  then show ?thesis using assms e' by (metis distinct_map inj_on_def)
qed

lemma anchor_resolves:
  assumes "sound_store d" "resolvable d agent i"
  shows "resolve_entity_ref d (Some i) agent = (Some i, [], False)" "root_row d i agent \<noteq> None" "i \<noteq> []"
proof -
  obtain e where e: "e \<in> set (entities d)" "e_id e = i" "visible agent e"
    using assms(2) by (auto simp: resolvable_def)
  have get: "get_entity d i = Some e" using unique_get_entity[of d e] e assms(1) by (simp add: sound_store_def)
  then show "root_row d i agent \<noteq> None" using e(3) by (simp add: root_row_def)
  show "i \<noteq> []" using assms(1) e by (auto simp: sound_store_def list_all_iff)
  moreover have "py_strip i = i" using assms(1) e by (auto simp: sound_store_def list_all_iff)
  ultimately show "resolve_entity_ref d (Some i) agent = (Some i, [], False)"
    using get e by (auto simp: resolve_entity_ref_def resolve_entity_id_def resolve_existing_entity_def Let_def find_row_None
        split: option.split)
qed

definition touches :: "string \<Rightarrow> relation \<Rightarrow> bool" where
  "touches i r \<longleftrightarrow> r_source r = i \<or> r_target r = i"

lemma relation_unique:
  "sound_store d \<Longrightarrow> r \<in> set (relations d) \<Longrightarrow> r' \<in> set (relations d) \<Longrightarrow> r_id r = r_id r' \<Longrightarrow> r = r'"
  unfolding sound_store_def by (meson distinct_map inj_onD)

lemma hit_edges_set:
  assumes "sound_store d" "resolvable d agent i" "pit \<noteq> []"
  shows "set (hit_edges \<Gamma> d pit agent i) =
    {dep_edge_of d \<lparr>dr_rel = r, dr_depth = 1, dr_path = []\<rparr> | r. dep_admits \<Gamma> d pit agent r \<and> touches i r}"
proof -
  let ?rows = "fetch_dependency_rows \<Gamma> d ''both'' i pit 1 agent"
  obtain x where x: "root_row d i agent = Some x" using anchor_resolves(2)[OF assms(1,2)] by blast
  have "hit_edges \<Gamma> d pit agent i =
      dg_edges (add_rows d ?rows (graph_start i \<lparr>ri_id = e_id x, ri_title = e_title x, ri_status = e_status x\<rparr>))"
    using anchor_resolves[OF assms(1,2)] assms(3)
    by (simp add: hit_edges_def analyze_dependencies_def graph_result_def x Let_def)
  then have found: "found_edges d ?rows (hit_edges \<Gamma> d pit agent i)"
    using add_rows_found(2)[OF rows_nonneg] by metis
  have rows: "(dir, t) \<in> set ?rows \<longleftrightarrow> dir \<in> {''outbound'', ''inbound''} \<and> t \<in> set (dep_seed \<Gamma> d dir i pit agent)" for dir t
  proof -
    have "ends_exist d" using assms(1) by (simp add: sound_store_def)
    then show ?thesis by (simp add: fetched_rows directions_of_def dep_tree_1)
  qed
  have seed: "t \<in> set (dep_seed \<Gamma> d dir i pit agent) \<Longrightarrow>
      dep_admits \<Gamma> d pit agent (dr_rel t) \<and> dep_near dir (dr_rel t) = i \<and> dr_depth t = 1" for dir t
    by (auto simp: dep_seed_def dep_admits_def)
  have admitted: "\<exists>dir t. (dir, t) \<in> set ?rows \<and> dr_rel t = r" if "dep_admits \<Gamma> d pit agent r" "touches i r" for r
  proof -
    define dir where "dir = (if r_source r = i then ''outbound'' else ''inbound'')"
    have "dep_near dir r = i" using that(2) by (auto simp: dir_def dep_near_def touches_def)
    then have "\<lparr>dr_rel = r, dr_depth = 1, dr_path = r_source r @ ''->'' @ dep_next dir r\<rparr> \<in> set (dep_seed \<Gamma> d dir i pit agent)"
      using that(1) unfolding dep_seed_def dep_admits_def by simp
    moreover have "dir \<in> {''outbound'', ''inbound''}" by (simp add: dir_def)
    ultimately show ?thesis unfolding rows by (metis dep_row.select_convs(1))
  qed
  have same: "dep_edge_of d t = dep_edge_of d \<lparr>dr_rel = dr_rel t, dr_depth = 1, dr_path = []\<rparr>" if "dr_depth t = 1" for t
    using that by (simp add: dep_edge_of_def)
  show ?thesis
  proof (intro set_eqI iffI)
    fix e
    assume "e \<in> set (hit_edges \<Gamma> d pit agent i)"
    then have "shallowest d ?rows e" using found unfolding found_edges_def by blast
    then obtain dir t where t: "(dir, t) \<in> set ?rows" "e = dep_edge_of d t" by (auto simp: shallowest_def)
    then have "dep_admits \<Gamma> d pit agent (dr_rel t)" "touches i (dr_rel t)" "dr_depth t = 1"
      using seed[of t dir] by (auto simp: rows touches_def dep_near_def split: if_splits)
    then show "e \<in> {dep_edge_of d \<lparr>dr_rel = r, dr_depth = 1, dr_path = []\<rparr> | r. dep_admits \<Gamma> d pit agent r \<and> touches i r}"
      using t(2) same by blast
  next
    fix e
    assume "e \<in> {dep_edge_of d \<lparr>dr_rel = r, dr_depth = 1, dr_path = []\<rparr> | r. dep_admits \<Gamma> d pit agent r \<and> touches i r}"
    then obtain r where r: "dep_admits \<Gamma> d pit agent r" "touches i r" "e = dep_edge_of d \<lparr>dr_rel = r, dr_depth = 1, dr_path = []\<rparr>" by blast
    obtain dir t where t: "(dir, t) \<in> set ?rows" "dr_rel t = r" using admitted[OF r(1,2)] by blast
    have "r_id r \<in> (\<lambda>x. r_id (dr_rel (snd x))) ` set ?rows" using t by force
    then have "r_id r \<in> de_relation_id ` set (hit_edges \<Gamma> d pit agent i)" using found unfolding found_edges_def by blast
    then obtain e' where e': "e' \<in> set (hit_edges \<Gamma> d pit agent i)" "de_relation_id e' = r_id r" by auto
    then have "shallowest d ?rows e'" using found unfolding found_edges_def by blast
    then obtain dir' t' where t': "(dir', t') \<in> set ?rows" "e' = dep_edge_of d t'" by (auto simp: shallowest_def)
    then have adm: "dep_admits \<Gamma> d pit agent (dr_rel t')" "dr_depth t' = 1" "r_id (dr_rel t') = r_id r"
      using seed[of t' dir'] e'(2) by (auto simp: rows)
    then have "dr_rel t' = r" using r(1) relation_unique[OF assms(1)] by (simp add: dep_admits_def)
    then show "e \<in> set (hit_edges \<Gamma> d pit agent i)" using e'(1) t'(2) r(3) same[OF adm(2)] by simp
  qed
qed

section \<open>What is collected\<close>

definition edge_provenance :: "string set \<Rightarrow> dep_edge \<Rightarrow> string \<Rightarrow> provenance set" where
  "edge_provenance P e y =
     (if y \<in> P \<or> de_predicate e \<notin> set DEFAULT_CONTEXT_EXPANSION_PREDICATES then {}
      else (if de_source_id e \<in> P \<and> de_target_id e = y then {(de_source_id e, de_predicate e, ''outbound'')} else {}) \<union>
           (if de_target_id e \<in> P \<and> de_source_id e = y then {(de_target_id e, de_predicate e, ''inbound'')} else {}))"

definition provenance_in :: "string set \<Rightarrow> dep_edge list \<Rightarrow> string \<Rightarrow> provenance set" where
  "provenance_in P es y = (\<Union>e \<in> set es. edge_provenance P e y)"

definition in_network_edge :: "string set \<Rightarrow> dep_edge \<Rightarrow> bool" where
  "in_network_edge P e \<longleftrightarrow> de_predicate e \<in> set DEFAULT_CONTEXT_EXPANSION_PREDICATES \<and> de_source_id e \<in> P \<and> de_target_id e \<in> P"

definition titled :: "db \<Rightarrow> dep_edge \<Rightarrow> bool" where
  "titled d e \<longleftrightarrow> de_source_title e = title_of d (de_source_id e) \<and> de_target_title e = title_of d (de_target_id e)"

definition table_of :: "(dep_edge \<Rightarrow> bool) \<Rightarrow> dep_edge list \<Rightarrow> (string \<times> raw_edge) list \<Rightarrow> bool" where
  "table_of Q es m \<longleftrightarrow> distinct (map fst m) \<and>
     (\<forall>k v. map_of m k = Some v \<longleftrightarrow> (\<exists>e \<in> set es. Q e \<and> k = de_relation_id e \<and> v = raw_edge_of e))"

definition nodes_of :: "db \<Rightarrow> string set \<Rightarrow> dep_edge list \<Rightarrow> (string \<times> expansion_node) list \<Rightarrow> bool" where
  "nodes_of d P es ps \<longleftrightarrow> distinct (map fst ps) \<and>
     (\<forall>y. map_of ps y = (if provenance_in P es y = {} then None
                        else Some \<lparr>en_title = title_of d y, en_provenance = provenance_in P es y\<rparr>))"

definition gathered :: "db \<Rightarrow> string set \<Rightarrow> dep_edge list \<Rightarrow> expansion_state \<Rightarrow> bool" where
  "gathered d P es st \<longleftrightarrow> table_of (in_network_edge P) es (in_network st) \<and>
     table_of (\<lambda>e. de_predicate e = ''contradicts'') es (contradicts st) \<and> nodes_of d P es (provenances st)"

lemma table_of_skip: "table_of Q es m \<Longrightarrow> \<not> Q e \<Longrightarrow> table_of Q (es @ [e]) m"
  by (auto simp: table_of_def)

lemma table_of_add:
  assumes "table_of Q es m" "Q e" "inj_on de_relation_id (set (es @ [e]))"
  shows "table_of Q (es @ [e]) (AList.update (de_relation_id e) (raw_edge_of e) m)"
proof -
  have "e' = e" if "e' \<in> set es" "de_relation_id e' = de_relation_id e" for e'
    using assms(3) that by (auto simp: inj_on_def)
  then show ?thesis using assms(1,2) unfolding table_of_def
    by (auto simp: update_conv' distinct_update)
qed

lemma provenance_in_snoc: "provenance_in P (es @ [e]) y = provenance_in P es y \<union> edge_provenance P e y"
  by (auto simp: provenance_in_def)

lemma nodes_of_skip:
  assumes "nodes_of d P es ps" "\<And>y. edge_provenance P e y = {}"
  shows "nodes_of d P (es @ [e]) ps"
  using assms by (simp add: nodes_of_def provenance_in_snoc)

lemma nodes_of_record:
  assumes "nodes_of d P es ps" "de_predicate e \<in> set DEFAULT_CONTEXT_EXPANSION_PREDICATES" "titled d e"
  shows "nodes_of d P (es @ [e]) (record_provenance P e ps)"
proof (cases "(de_source_id e \<in> P) = (de_target_id e \<in> P)")
  case True
  then have "edge_provenance P e y = {}" for y by (auto simp: edge_provenance_def)
  then show ?thesis using nodes_of_skip[OF assms(1)] True by (simp add: record_provenance_def Let_def)
next
  case False
  define out where "out = (de_source_id e \<in> P)"
  define y where "y = (if out then de_target_id e else de_source_id e)"
  define p where "p = (if out then (de_source_id e, de_predicate e, ''outbound'') else (de_target_id e, de_predicate e, ''inbound''))"
  have prov: "edge_provenance P e z = (if z = y then {p} else {})" for z
    using False assms(2) by (auto simp: edge_provenance_def out_def y_def p_def)
  define node where "node = (case map_of ps y of Some n \<Rightarrow> n | None \<Rightarrow> \<lparr>en_title = title_of d y, en_provenance = {}\<rparr>)"
  have rec: "record_provenance P e ps = AList.update y (node\<lparr>en_provenance := insert p (en_provenance node)\<rparr>) ps"
  proof (cases out)
    case True
    then have "de_source_id e \<in> P" "de_target_id e \<notin> P" using False by (auto simp: out_def)
    then show ?thesis using True assms(3) by (simp add: record_provenance_def Let_def titled_def y_def p_def node_def split: option.split)
  next
    case in_edge: False
    then have "de_target_id e \<in> P" "de_source_id e \<notin> P" using False by (auto simp: out_def)
    moreover from this have "de_target_id e \<noteq> de_source_id e" by auto
    ultimately show ?thesis using in_edge assms(3) by (simp add: record_provenance_def Let_def titled_def y_def p_def node_def split: option.split)
  qed
  have "node = \<lparr>en_title = title_of d y, en_provenance = provenance_in P es y\<rparr>"
    using assms(1) by (auto simp: node_def nodes_of_def)
  then show ?thesis using assms(1)
    unfolding rec by (auto simp: nodes_of_def provenance_in_snoc prov update_conv' distinct_update)
qed

lemma gathered_record:
  assumes "gathered d P es st" "titled d e" "inj_on de_relation_id (set (es @ [e]))"
  shows "gathered d P (es @ [e]) (record_edge P e st)"
proof -
  have st: "table_of (in_network_edge P) es (in_network st)" "table_of (\<lambda>e. de_predicate e = ''contradicts'') es (contradicts st)"
    "nodes_of d P es (provenances st)" using assms(1) by (simp_all add: gathered_def)
  have other: "''contradicts'' \<notin> set DEFAULT_CONTEXT_EXPANSION_PREDICATES" by (simp add: DEFAULT_CONTEXT_EXPANSION_PREDICATES_def)
  consider "de_predicate e = ''contradicts''"
    | "de_predicate e \<noteq> ''contradicts''" "de_predicate e \<notin> set DEFAULT_CONTEXT_EXPANSION_PREDICATES"
    | "de_predicate e \<noteq> ''contradicts''" "in_network_edge P e"
    | "de_predicate e \<noteq> ''contradicts''" "de_predicate e \<in> set DEFAULT_CONTEXT_EXPANSION_PREDICATES" "\<not> in_network_edge P e"
    unfolding in_network_edge_def by blast
  then show ?thesis
  proof cases
    case 1
    then have "\<not> in_network_edge P e" "\<And>y. edge_provenance P e y = {}" using other by (simp_all add: in_network_edge_def edge_provenance_def)
    then show ?thesis using 1 table_of_skip[OF st(1)] table_of_add[OF st(2) _ assms(3)] nodes_of_skip[OF st(3)]
      by (simp add: record_edge_def gathered_def)
  next
    case 2
    then have "\<not> in_network_edge P e" "\<And>y. edge_provenance P e y = {}" by (simp_all add: in_network_edge_def edge_provenance_def)
    then show ?thesis using 2 table_of_skip[OF st(1)] table_of_skip[OF st(2)] nodes_of_skip[OF st(3)]
      by (simp add: record_edge_def gathered_def)
  next
    case 3
    then have "\<And>y. edge_provenance P e y = {}" by (auto simp: in_network_edge_def edge_provenance_def)
    then show ?thesis using 3 table_of_add[OF st(1) _ assms(3)] table_of_skip[OF st(2)] nodes_of_skip[OF st(3)]
      by (simp add: record_edge_def gathered_def in_network_edge_def)
  next
    case 4
    then have "\<not> (de_source_id e \<in> P \<and> de_target_id e \<in> P)" by (simp add: in_network_edge_def)
    then have "record_edge P e st = st\<lparr>provenances := record_provenance P e (provenances st)\<rparr>"
      using 4(1,2) by (auto simp: record_edge_def)
    then show ?thesis using 4(1) table_of_skip[OF st(1) 4(3)] table_of_skip[OF st(2)] nodes_of_record[OF st(3) 4(2) assms(2)]
      by (simp add: gathered_def)
  qed
qed

section \<open>The answer as a specification\<close>

text \<open>One step of the graph from a primary hit, in either direction.\<close>

definition expansion_hop :: "env \<Rightarrow> db \<Rightarrow> string \<Rightarrow> string option \<Rightarrow> provenance \<Rightarrow> string \<Rightarrow> bool" where
  "expansion_hop \<Gamma> d pit agent = (\<lambda>(x, p, dir) y. \<exists>r. dep_admits \<Gamma> d pit agent r \<and> r_predicate r = p \<and>
     (dir = ''outbound'' \<and> r_source r = x \<and> r_target r = y \<or> dir = ''inbound'' \<and> r_target r = x \<and> r_source r = y))"

definition hops_into :: "env \<Rightarrow> db \<Rightarrow> string \<Rightarrow> string option \<Rightarrow> string set \<Rightarrow> string \<Rightarrow> provenance set" where
  "hops_into \<Gamma> d pit agent P y =
     {(x, p, dir). x \<in> P \<and> y \<notin> P \<and> p \<in> set DEFAULT_CONTEXT_EXPANSION_PREDICATES \<and> expansion_hop \<Gamma> d pit agent (x, p, dir) y}"

definition neighbour_node :: "env \<Rightarrow> db \<Rightarrow> string \<Rightarrow> string option \<Rightarrow> primary_hit list \<Rightarrow> string \<Rightarrow> ranked_node" where
  "neighbour_node \<Gamma> d pit agent hits y =
     (let hops = hops_into \<Gamma> d pit agent (set (map ph_id hits)) y in
      \<lparr>rn_entity_id = y, rn_title = title_of d y, rn_mutual_neighbor_count = card (fst ` hops),
       rn_tiebreak_score = Max ((\<lambda>p. score_of hits (fst p)) ` hops), rn_provenance = hops\<rparr>)"

text \<open>The edges with a hit at an end, all of them and those between two hits.\<close>

definition adjacent_edges :: "env \<Rightarrow> db \<Rightarrow> string \<Rightarrow> string option \<Rightarrow> string set \<Rightarrow> relation set" where
  "adjacent_edges \<Gamma> d pit agent P = {r. dep_admits \<Gamma> d pit agent r \<and> (r_source r \<in> P \<or> r_target r \<in> P)}"

definition raw_edge_of_relation :: "relation \<Rightarrow> raw_edge" where
  "raw_edge_of_relation r = \<lparr>re_relation_id = r_id r, re_source_id = r_source r, re_target_id = r_target r, re_predicate = r_predicate r\<rparr>"

abbreviation seen_edge :: "db \<Rightarrow> relation \<Rightarrow> dep_edge" where
  "seen_edge d r \<equiv> dep_edge_of d \<lparr>dr_rel = r, dr_depth = 1, dr_path = []\<rparr>"

lemma raw_edge_of_seen [simp]: "raw_edge_of (seen_edge d r) = raw_edge_of_relation r"
  by (simp add: raw_edge_of_def raw_edge_of_relation_def)

definition anchored :: "db \<Rightarrow> string option \<Rightarrow> string set \<Rightarrow> bool" where
  "anchored d agent P \<longleftrightarrow> (\<forall>i \<in> P. resolvable d agent i)"

lemma all_edges:
  assumes "sound_store d" "anchored d agent P" "pit \<noteq> []" "set order = P"
  shows "set (concat (map (hit_edges \<Gamma> d pit agent) order)) = seen_edge d ` adjacent_edges \<Gamma> d pit agent P"
proof -
  have "set (hit_edges \<Gamma> d pit agent i) = seen_edge d ` {r. dep_admits \<Gamma> d pit agent r \<and> touches i r}" if "i \<in> P" for i
    using hit_edges_set[OF assms(1) _ assms(3)] assms(2) that by (auto simp: anchored_def)
  then have "set (concat (map (hit_edges \<Gamma> d pit agent) order)) = (\<Union>i \<in> P. seen_edge d ` {r. dep_admits \<Gamma> d pit agent r \<and> touches i r})"
    using assms(4) by auto
  then show ?thesis by (auto simp: adjacent_edges_def touches_def)
qed

lemma adjacent_unique:
  assumes "sound_store d" "r \<in> adjacent_edges \<Gamma> d pit agent P" "r' \<in> adjacent_edges \<Gamma> d pit agent P" "r_id r = r_id r'"
  shows "r = r'"
  using assms(2,3,4) relation_unique[OF assms(1)] by (simp add: adjacent_edges_def dep_admits_def)

lemma gathered_all:
  assumes "sound_store d" "anchored d agent P" "pit \<noteq> []" "set order = P"
  shows "gathered d P (concat (map (hit_edges \<Gamma> d pit agent) order))
    (fold (collect_edges \<Gamma> d P pit agent) order \<lparr>in_network = [], contradicts = [], provenances = []\<rparr>)"
proof -
  let ?E = "concat (map (hit_edges \<Gamma> d pit agent) order)"
  let ?start = "\<lparr>in_network = [], contradicts = [], provenances = []\<rparr>"
  have inj: "inj_on de_relation_id (set ?E)"
    unfolding all_edges[OF assms] by (auto simp: inj_on_def dest: adjacent_unique[OF assms(1)])
  have titles: "titled d e" if "e \<in> set ?E" for e
    using that unfolding all_edges[OF assms] by (auto simp: titled_def)
  have "gathered d P es (fold (record_edge P) es ?start)" if "set es \<subseteq> set ?E" for es
    using that
  proof (induction es rule: rev_induct)
    case Nil
    then show ?case by (simp add: gathered_def table_of_def nodes_of_def provenance_in_def)
  next
    case (snoc e es)
    then show ?case using gathered_record[of d P es _ e] titles[of e] inj_on_subset[OF inj, of "set (es @ [e])"] by simp
  qed
  moreover have "fold (collect_edges \<Gamma> d P pit agent) xs st = fold (record_edge P) (concat (map (hit_edges \<Gamma> d pit agent) xs)) st" for xs st
    by (induction xs arbitrary: st) (simp_all add: collect_edges_def)
  ultimately show ?thesis by simp
qed

lemma gathered_provenance:
  assumes "sound_store d" "anchored d agent P" "pit \<noteq> []" "set order = P"
  shows "provenance_in P (concat (map (hit_edges \<Gamma> d pit agent) order)) y = hops_into \<Gamma> d pit agent P y"
  unfolding provenance_in_def all_edges[OF assms]
  by (auto simp: hops_into_def expansion_hop_def edge_provenance_def adjacent_edges_def split: if_splits)

lemma sort_key_unique:
  assumes "distinct xs" "distinct ys" "set xs = set ys" "inj_on f (set xs)"
  shows "sort_key f xs = sort_key f ys"
proof -
  have "sorted (map f (sort_key f xs))" "sorted (map f (sort_key f ys))" by simp_all
  moreover have "distinct (map f (sort_key f xs))" "distinct (map f (sort_key f ys))"
    using assms by (simp_all add: distinct_map)
  moreover have "set (map f (sort_key f xs)) = set (map f (sort_key f ys))" using assms(3) by simp
  ultimately have "map f (sort_key f xs) = map f (sort_key f ys)" using sorted_distinct_set_unique by blast
  moreover have "inj_on f (set (sort_key f xs) \<union> set (sort_key f ys))" using assms(3,4) by simp
  ultimately show ?thesis by (rule map_inj_on)
qed

lemma sorted_values_of:
  assumes "table_of Q es m" "table_of Q es' m'" "set es = set es'"
  shows "sorted_values m = sorted_values m'"
proof -
  have m: "distinct (map fst m)" "distinct (map fst m')" using assms by (simp_all add: table_of_def)
  have "map_of m k = Some v \<longleftrightarrow> map_of m' k = Some v" for k v
    using assms unfolding table_of_def by blast
  then have "map_of m = map_of m'" by (metis option.exhaust ext)
  then have "set m = set m'" using m by (simp add: map_of_inject_set)
  then show ?thesis using m unfolding sorted_values_def
    by (intro arg_cong[of _ _ "map snd"] sort_key_unique) (simp_all add: distinct_map)
qed

lemma rank_node_id [simp]: "rn_entity_id (rank_node f p) = fst p"
  by (simp add: rank_node_def split: prod.split)

lemma ranked_neighbours:
  assumes "nodes_of d (set (map ph_id hits)) es ps"
    "\<And>y. provenance_in (set (map ph_id hits)) es y = hops_into \<Gamma> d pit agent (set (map ph_id hits)) y"
  shows "distinct (map rn_entity_id (rank_expansion_nodes (score_of hits) ps))"
    "set (rank_expansion_nodes (score_of hits) ps) =
       neighbour_node \<Gamma> d pit agent hits ` {y. hops_into \<Gamma> d pit agent (set (map ph_id hits)) y \<noteq> {}}"
proof -
  define P where "P = set (map ph_id hits)"
  have keys: "distinct (map fst ps)" and look: "\<And>y. map_of ps y = (if hops_into \<Gamma> d pit agent P y = {} then None
      else Some \<lparr>en_title = title_of d y, en_provenance = hops_into \<Gamma> d pit agent P y\<rparr>)"
    using assms unfolding P_def[symmetric] by (simp_all add: nodes_of_def)
  have ids: "map rn_entity_id (map (rank_node (score_of hits)) ps) = map fst ps" by simp
  have "distinct (map rn_entity_id (map (rank_node (score_of hits)) ps))" unfolding ids by (rule keys)
  then show "distinct (map rn_entity_id (rank_expansion_nodes (score_of hits) ps))"
    unfolding rank_expansion_nodes_def by (simp only: distinct_map distinct_sort set_sort)
  have node: "rank_node (score_of hits) (y, \<lparr>en_title = title_of d y, en_provenance = hops_into \<Gamma> d pit agent P y\<rparr>) =
      neighbour_node \<Gamma> d pit agent hits y" for y
    unfolding P_def by (simp add: rank_node_def neighbour_node_def Let_def)
  have "set ps = {(y, \<lparr>en_title = title_of d y, en_provenance = hops_into \<Gamma> d pit agent P y\<rparr>) |y. hops_into \<Gamma> d pit agent P y \<noteq> {}}"
  proof (intro set_eqI iffI)
    fix q
    assume q: "q \<in> set ps"
    obtain y n where yn: "q = (y, n)" by force
    then have "map_of ps y = Some n" using q keys by simp
    then show "q \<in> {(y, \<lparr>en_title = title_of d y, en_provenance = hops_into \<Gamma> d pit agent P y\<rparr>) |y. hops_into \<Gamma> d pit agent P y \<noteq> {}}"
      using yn unfolding look by (auto split: if_splits)
  next
    fix q
    assume "q \<in> {(y, \<lparr>en_title = title_of d y, en_provenance = hops_into \<Gamma> d pit agent P y\<rparr>) |y. hops_into \<Gamma> d pit agent P y \<noteq> {}}"
    then obtain y where y: "q = (y, \<lparr>en_title = title_of d y, en_provenance = hops_into \<Gamma> d pit agent P y\<rparr>)"
      "hops_into \<Gamma> d pit agent P y \<noteq> {}" by blast
    then have "map_of ps y = Some (snd q)" unfolding look by simp
    then show "q \<in> set ps" using map_of_SomeD y(1) by fastforce
  qed
  then show "set (rank_expansion_nodes (score_of hits) ps) =
       neighbour_node \<Gamma> d pit agent hits ` {y. hops_into \<Gamma> d pit agent (set (map ph_id hits)) y \<noteq> {}}"
    unfolding P_def[symmetric] rank_expansion_nodes_def set_sort by (force simp: node image_iff)
qed

lemma ranked_unique:
  assumes "distinct (map rn_entity_id xs)" "distinct (map rn_entity_id ys)" "set xs = set ys"
  shows "sort_key rank_key xs = sort_key rank_key ys"
proof (rule sort_key_unique)
  show "distinct xs" "distinct ys" using assms by (simp_all add: distinct_map)
  show "inj_on rank_key (set xs)" using assms(1) by (auto simp: rank_key_def distinct_map inj_on_def)
qed (rule assms(3))

lemma sorted_values_set:
  assumes "table_of Q es m"
  shows "set (sorted_values m) = raw_edge_of ` {e \<in> set es. Q e}"
proof -
  have "set (sorted_values m) = snd ` set m" by (simp add: sorted_values_def)
  also have "\<dots> = raw_edge_of ` {e \<in> set es. Q e}"
  proof (intro set_eqI iffI)
    fix v
    assume "v \<in> snd ` set m"
    then obtain k where "(k, v) \<in> set m" by force
    then have "map_of m k = Some v" using assms by (simp add: table_of_def)
    then show "v \<in> raw_edge_of ` {e \<in> set es. Q e}" using assms unfolding table_of_def by blast
  next
    fix v
    assume "v \<in> raw_edge_of ` {e \<in> set es. Q e}"
    then obtain e where "e \<in> set es" "Q e" "v = raw_edge_of e" by blast
    then have "map_of m (de_relation_id e) = Some v" using assms unfolding table_of_def by blast
    then show "v \<in> snd ` set m" by (force dest: map_of_SomeD)
  qed
  finally show ?thesis .
qed

lemma seen_raw: "raw_edge_of ` {e \<in> seen_edge d ` A. Q e} = raw_edge_of_relation ` {r \<in> A. Q (seen_edge d r)}"
proof -
  have "{e \<in> seen_edge d ` A. Q e} = seen_edge d ` {r \<in> A. Q (seen_edge d r)}" by blast
  then show ?thesis by (simp add: image_image)
qed

lemma expansion_contradicts:
  assumes "sound_store d" "P = set (map ph_id hits)" "anchored d agent P" "set order = P"
    "pit = py_or point_in_time (now_iso \<Gamma>)" "pit \<noteq> []"
  shows "set (er_contradicts_edges (expand_context_candidates \<Gamma> d hits point_in_time agent order)) =
    raw_edge_of_relation ` {r \<in> adjacent_edges \<Gamma> d pit agent P. r_predicate r = ''contradicts''}"
proof -
  define st where "st = fold (collect_edges \<Gamma> d P pit agent) order \<lparr>in_network = [], contradicts = [], provenances = []\<rparr>"
  have "expand_context_candidates \<Gamma> d hits point_in_time agent order = expansion_output hits st"
    unfolding expand_context_candidates_def Let_def assms(5)[symmetric] st_def assms(2) ..
  moreover have "set (sorted_values (contradicts st)) = raw_edge_of `
      {e \<in> set (concat (map (hit_edges \<Gamma> d pit agent) order)). de_predicate e = ''contradicts''}"
    using gathered_all[OF assms(1,3,6,4)] sorted_values_set unfolding gathered_def st_def by blast
  ultimately show ?thesis unfolding all_edges[OF assms(1,3,6,4)] seen_raw by (simp add: expansion_output_def Let_def)
qed

section \<open>A sample\<close>

definition ring_hits :: "primary_hit list" where
  "ring_hits = [\<lparr>ph_id = ''a'', ph_score = 1\<rparr>]"

lemma ring_sound: "sound_store ring_db" "anchored ring_db (Some ''b'') {''a''}" "set (map ph_id ring_hits) = {''a''}"
  by code_simp+

lemma ring_candidates:
  "map ec_entity_id (er_expansion_candidates (expand_context_candidates sample_env ring_db ring_hits None (Some ''b'') [''a''])) = [''b'', ''c'']"
  by code_simp

lemma expansion_answer:
  assumes "sound_store d" "P = set (map ph_id hits)" "anchored d agent P" "set order = P"
    "pit = py_or point_in_time (now_iso \<Gamma>)" "pit \<noteq> []"
    "res = expand_context_candidates \<Gamma> d hits point_in_time agent order"
  shows "\<exists>ranked. distinct (map rn_entity_id ranked) \<and> sorted (map rank_key ranked) \<and>
      set ranked = neighbour_node \<Gamma> d pit agent hits ` {y. hops_into \<Gamma> d pit agent P y \<noteq> {}} \<and>
      er_expansion_candidates res = map render_expansion_node (take (10 * length hits) ranked) \<and>
      cr_eligible_count (er_fan_out res) = length ranked \<and>
      cr_dropped_count (er_fan_out res) = length ranked - length (er_expansion_candidates res) \<and>
      set (er_in_network_edges res) = raw_edge_of_relation ` {r \<in> adjacent_edges \<Gamma> d pit agent P.
        r_predicate r \<in> set DEFAULT_CONTEXT_EXPANSION_PREDICATES \<and> r_source r \<in> P \<and> r_target r \<in> P} \<and>
      set (er_contradicts_edges res) = raw_edge_of_relation ` {r \<in> adjacent_edges \<Gamma> d pit agent P. r_predicate r = ''contradicts''}"
proof -
  define es where "es = concat (map (hit_edges \<Gamma> d pit agent) order)"
  define st where "st = fold (collect_edges \<Gamma> d P pit agent) order \<lparr>in_network = [], contradicts = [], provenances = []\<rparr>"
  define ranked where "ranked = rank_expansion_nodes (score_of hits) (provenances st)"
  have g: "gathered d P es st" unfolding es_def st_def by (rule gathered_all[OF assms(1,3,6,4)])
  have res: "res = expansion_output hits st"
    unfolding assms(7) expand_context_candidates_def Let_def assms(5)[symmetric] st_def assms(2) ..
  have edges: "set es = seen_edge d ` adjacent_edges \<Gamma> d pit agent P" unfolding es_def by (rule all_edges[OF assms(1,3,6,4)])
  have prov: "provenance_in P es y = hops_into \<Gamma> d pit agent P y" for y
    unfolding es_def by (rule gathered_provenance[OF assms(1,3,6,4)])
  have ranked_set: "distinct (map rn_entity_id ranked)"
    "set ranked = neighbour_node \<Gamma> d pit agent hits ` {y. hops_into \<Gamma> d pit agent P y \<noteq> {}}"
    using ranked_neighbours[of d hits es "provenances st"] g prov unfolding ranked_def gathered_def assms(2) by blast+
  have "set (er_in_network_edges res) = raw_edge_of ` {e \<in> set es. in_network_edge P e}"
    using g sorted_values_set unfolding res expansion_output_def gathered_def by (auto simp: Let_def)
  then have "set (er_in_network_edges res) = raw_edge_of_relation ` {r \<in> adjacent_edges \<Gamma> d pit agent P.
        r_predicate r \<in> set DEFAULT_CONTEXT_EXPANSION_PREDICATES \<and> r_source r \<in> P \<and> r_target r \<in> P}"
    unfolding edges seen_raw by (simp add: in_network_edge_def)
  moreover have "set (er_contradicts_edges res) = raw_edge_of_relation ` {r \<in> adjacent_edges \<Gamma> d pit agent P. r_predicate r = ''contradicts''}"
    unfolding assms(7) by (rule expansion_contradicts[OF assms(1-6)])
  moreover have "er_expansion_candidates res = map render_expansion_node (take (10 * length hits) ranked)"
    "cr_eligible_count (er_fan_out res) = length ranked"
    "cr_dropped_count (er_fan_out res) = length ranked - length (er_expansion_candidates res)"
    unfolding res expansion_output_def ranked_def
    by (auto simp: Let_def expansion_cap_def CONTEXT_EXPANSION_TOP_K_RELATIONSHIPS_def)
  moreover have "sorted (map rank_key ranked)" by (simp add: ranked_def rank_expansion_nodes_def)
  ultimately show ?thesis using ranked_set by blast
qed

section \<open>Properties\<close>

text \<open>
  C25. Expansion answers the neighbourhood of the hits. The candidates are the memories outside the hits
  that a valid, visible relation with an admitted predicate joins to a hit, in either direction; each is
  ranked once, by the number of hits it touches, then by the best score of such a hit, then by id; its
  provenance names every such relation; and at most ten candidates per hit are kept, the rest are counted.
  The edges among the hits and the contradictions at a hit are answered completely.
\<close>

theorem expansion_exact:
  assumes "sound_store d" "P = set (map ph_id hits)" "anchored d agent P" "set order = P"
    "pit = py_or point_in_time (now_iso \<Gamma>)" "pit \<noteq> []"
    "res = expand_context_candidates \<Gamma> d hits point_in_time agent order"
  shows "\<exists>ranked. distinct (map rn_entity_id ranked) \<and> sorted (map rank_key ranked) \<and>
      set ranked = neighbour_node \<Gamma> d pit agent hits ` {y. hops_into \<Gamma> d pit agent P y \<noteq> {}} \<and>
      er_expansion_candidates res = map render_expansion_node (take (10 * length hits) ranked) \<and>
      cr_eligible_count (er_fan_out res) = length ranked \<and>
      cr_dropped_count (er_fan_out res) = length ranked - length (er_expansion_candidates res) \<and>
      set (er_in_network_edges res) = raw_edge_of_relation ` {r \<in> adjacent_edges \<Gamma> d pit agent P.
        r_predicate r \<in> set DEFAULT_CONTEXT_EXPANSION_PREDICATES \<and> r_source r \<in> P \<and> r_target r \<in> P} \<and>
      set (er_contradicts_edges res) = raw_edge_of_relation ` {r \<in> adjacent_edges \<Gamma> d pit agent P. r_predicate r = ''contradicts''}"
  using assms by (rule expansion_answer)

theorem expansion_exact_witness:
  "hops_into sample_env ring_db ''1970-01-01'' (Some ''b'') {''a''} ''c'' \<noteq> {}"
proof -
  define res where "res = expand_context_candidates sample_env ring_db ring_hits None (Some ''b'') [''a'']"
  have now: "''1970-01-01'' = py_or None (now_iso sample_env)" "''1970-01-01'' \<noteq> ([] :: string)" by code_simp+
  have anchored: "anchored ring_db (Some ''b'') (set (map ph_id ring_hits))" "set [''a''] = set (map ph_id ring_hits)"
    using ring_sound by simp_all
  obtain ranked where ranked: "set ranked = neighbour_node sample_env ring_db ''1970-01-01'' (Some ''b'') ring_hits `
      {y. hops_into sample_env ring_db ''1970-01-01'' (Some ''b'') (set (map ph_id ring_hits)) y \<noteq> {}}"
    "er_expansion_candidates res = map render_expansion_node (take (10 * length ring_hits) ranked)"
    using expansion_exact[OF ring_sound(1) refl anchored now res_def] by blast
  have "''c'' \<in> ec_entity_id ` set (er_expansion_candidates res)" using ring_candidates res_def by (metis list.set_intros list.set_map)
  then obtain n where n: "n \<in> set ranked" "''c'' = rn_entity_id n" unfolding ranked(2) by (auto simp: render_expansion_node_def dest: in_set_takeD)
  then obtain y where y: "n = neighbour_node sample_env ring_db ''1970-01-01'' (Some ''b'') ring_hits y"
    "hops_into sample_env ring_db ''1970-01-01'' (Some ''b'') {''a''} y \<noteq> {}"
    unfolding ranked(1) ring_sound(3) by blast
  then have "''c'' = y" using n(2) by (simp add: neighbour_node_def Let_def)
  then show ?thesis using y(2) by metis
qed

text \<open>
  The answer does not depend on the order in which Python runs over the set of hits.
\<close>

lemma expansion_order_irrelevant:
  assumes "sound_store d" "anchored d agent (set (map ph_id hits))" "set order = set (map ph_id hits)"
    "set order' = set (map ph_id hits)" "py_or point_in_time (now_iso \<Gamma>) \<noteq> []"
  shows "expand_context_candidates \<Gamma> d hits point_in_time agent order = expand_context_candidates \<Gamma> d hits point_in_time agent order'"
proof -
  let ?P = "set (map ph_id hits)"
  let ?pit = "py_or point_in_time (now_iso \<Gamma>)"
  define es where "es ord = concat (map (hit_edges \<Gamma> d ?pit agent) ord)" for ord
  define st where "st ord = fold (collect_edges \<Gamma> d ?P ?pit agent) ord \<lparr>in_network = [], contradicts = [], provenances = []\<rparr>" for ord
  have g: "gathered d ?P (es order) (st order)" "gathered d ?P (es order') (st order')"
    unfolding es_def st_def using gathered_all[OF assms(1,2,5)] assms(3,4) by blast+
  have same: "set (es order) = set (es order')" unfolding es_def using all_edges[OF assms(1,2,5)] assms(3,4) by metis
  have prov: "provenance_in ?P (es order) y = hops_into \<Gamma> d ?pit agent ?P y" "provenance_in ?P (es order') y = hops_into \<Gamma> d ?pit agent ?P y" for y
    unfolding es_def using gathered_provenance[OF assms(1,2,5)] assms(3,4) by blast+
  have "rank_expansion_nodes (score_of hits) (provenances (st order)) = rank_expansion_nodes (score_of hits) (provenances (st order'))"
  proof -
    have "distinct (map rn_entity_id (rank_expansion_nodes (score_of hits) (provenances (st ord))))"
      "set (rank_expansion_nodes (score_of hits) (provenances (st ord))) =
        neighbour_node \<Gamma> d ?pit agent hits ` {y. hops_into \<Gamma> d ?pit agent ?P y \<noteq> {}}" if "ord \<in> {order, order'}" for ord
      using ranked_neighbours[of d hits "es ord" "provenances (st ord)"] g prov that unfolding gathered_def by blast+
    then have "sort_key rank_key (rank_expansion_nodes (score_of hits) (provenances (st order))) =
        sort_key rank_key (rank_expansion_nodes (score_of hits) (provenances (st order')))"
      by (intro ranked_unique) auto
    then show ?thesis by (simp add: rank_expansion_nodes_def sorted_sort_id sort_key_id_if_sorted)
  qed
  moreover have "sorted_values (in_network (st order)) = sorted_values (in_network (st order'))"
    "sorted_values (contradicts (st order)) = sorted_values (contradicts (st order'))"
    using g same sorted_values_of unfolding gathered_def by blast+
  ultimately have "expansion_output hits (st order) = expansion_output hits (st order')" by (simp add: expansion_output_def)
  then show ?thesis by (simp add: expand_context_candidates_def st_def)
qed

lemma ring_order_irrelevant:
  "expand_context_candidates sample_env ring_db ring_hits None (Some ''b'') [''a''] =
   expand_context_candidates sample_env ring_db ring_hits None (Some ''b'') [''a'', ''a'']"
proof (rule expansion_order_irrelevant)
  show "sound_store ring_db" "anchored ring_db (Some ''b'') (set (map ph_id ring_hits))"
    "set [''a''] = set (map ph_id ring_hits)" "set [''a'', ''a''] = set (map ph_id ring_hits)"
    using ring_sound by simp_all
  show "py_or None (now_iso sample_env) \<noteq> []" by code_simp
qed

end
