(* ===== verification/Conflict_Sets.thy ===== *)
theory Conflict_Sets
  imports Context_Expansion
begin

text \<open>
  Contradictions, \<^verbatim>\<open>src/src/saltmdb/domain/services/conflict_set_service.py\<close>: a union-find structure with
  path compression over the contradiction edges, the grouping into components, the lifecycle check of a
  component, and the conflict sets with their cap. The parent dictionary is an association list and its
  recursive \<open>find\<close> a partial function: that it always returns is proved.
\<close>

section \<open>Union-find\<close>

type_synonym parents = "(string \<times> string) list"

partial_function (option) uf_find :: "parents \<Rightarrow> string \<Rightarrow> (string \<times> parents) option" where
  "uf_find parent x =
     (let p1 = (if map_of parent x = None then AList.update x x parent else parent);
          up = (case map_of p1 x of Some p \<Rightarrow> p | None \<Rightarrow> x)
      in if up \<noteq> x then Option.bind (uf_find p1 up) (\<lambda>(r, p2). Some (r, AList.update x r p2))
         else Some (x, p1))"

declare uf_find.simps [code]

definition uf_union :: "parents \<Rightarrow> string \<Rightarrow> string \<Rightarrow> parents option" where
  "uf_union parent first second =
     Option.bind (uf_find parent first) (\<lambda>(first_root, p1).
     Option.bind (uf_find p1 second) (\<lambda>(second_root, p2).
       Some (if first_root \<noteq> second_root then AList.update second_root first_root p2 else p2)))"

fun unite :: "raw_edge list \<Rightarrow> parents \<Rightarrow> parents option" where
  "unite [] parent = Some parent"
| "unite (e # es) parent = Option.bind (uf_union parent (re_source_id e) (re_target_id e)) (unite es)"

record component =
  co_member_ids :: "string set"
  co_edges :: "raw_edge list"

definition add_to_component :: "string \<Rightarrow> raw_edge \<Rightarrow> (string \<times> component) list \<Rightarrow> (string \<times> component) list" where
  "add_to_component r e cs =
     (let c = (case map_of cs r of Some c \<Rightarrow> c | None \<Rightarrow> \<lparr>co_member_ids = {}, co_edges = []\<rparr>)
      in AList.update r \<lparr>co_member_ids = co_member_ids c \<union> {re_source_id e, re_target_id e},
                        co_edges = co_edges c @ [e]\<rparr> cs)"

fun group_edges :: "raw_edge list \<Rightarrow> parents \<Rightarrow> (string \<times> component) list \<Rightarrow> ((string \<times> component) list \<times> parents) option" where
  "group_edges [] parent cs = Some (cs, parent)"
| "group_edges (e # es) parent cs =
     Option.bind (uf_find parent (re_source_id e)) (\<lambda>(r, p1). group_edges es p1 (add_to_component r e cs))"

section \<open>The lifecycle check\<close>

definition SUPERSESSION_CHAIN_MAX_DEPTH :: nat where
  "SUPERSESSION_CHAIN_MAX_DEPTH = 10"

text \<open>\<open>None\<close> stands for the status \<open>unknown\<close> of an id without a memory.\<close>

definition status_of :: "db \<Rightarrow> string \<Rightarrow> status option" where
  "status_of d i = map_option e_status (get_entity d i)"

definition lifecycle_reached :: "env \<Rightarrow> db \<Rightarrow> string \<Rightarrow> string \<Rightarrow> string set" where
  "lifecycle_reached \<Gamma> d pit i =
     (case (get_lineage_raw \<Gamma> d (Some i) ''ancestors'' (int SUPERSESSION_CHAIN_MAX_DEPTH) (Some pit) None,
            get_lineage_raw \<Gamma> d (Some i) ''descendants'' (int SUPERSESSION_CHAIN_MAX_DEPTH) (Some pit) None) of
        (Inr up, Inr down) \<Rightarrow> ln_id ` set (lg_nodes up) \<union> ln_id ` set (lg_nodes down)
      | _ \<Rightarrow> {})"

fun lifecycle_rounds :: "env \<Rightarrow> db \<Rightarrow> string \<Rightarrow> string set \<Rightarrow> nat \<Rightarrow> string set \<Rightarrow> string set \<Rightarrow> string set" where
  "lifecycle_rounds \<Gamma> d pit members 0 visited frontier = visited"
| "lifecycle_rounds \<Gamma> d pit members (Suc n) visited frontier =
     (if frontier = {} then visited
      else let newly = (\<Union>i \<in> frontier. lifecycle_reached \<Gamma> d pit i) - visited; visited' = visited \<union> newly
        in if members \<subseteq> visited' then visited' else lifecycle_rounds \<Gamma> d pit members n visited' newly)"

definition component_lifecycle_resolved :: "env \<Rightarrow> db \<Rightarrow> string \<Rightarrow> string set \<Rightarrow> bool" where
  "component_lifecycle_resolved \<Gamma> d pit members =
     (let visited = lifecycle_rounds \<Gamma> d pit members SUPERSESSION_CHAIN_MAX_DEPTH {Min members} {Min members}
      in members \<subseteq> visited \<and> card {m \<in> members. status_of d m \<noteq> Some Archived} = 1)"

record classified =
  cl_member_ids :: "string set"
  cl_edges :: "raw_edge list"
  cl_resolved :: bool

definition classify_contradicts_components :: "env \<Rightarrow> db \<Rightarrow> raw_edge list \<Rightarrow> string \<Rightarrow> classified list option" where
  "classify_contradicts_components \<Gamma> d edges pit =
     (if edges = [] then Some []
      else Option.bind (unite edges []) (\<lambda>parent.
        Option.bind (group_edges edges parent []) (\<lambda>(cs, _).
          Some (map (\<lambda>(r, c). \<lparr>cl_member_ids = co_member_ids c, cl_edges = co_edges c,
                  cl_resolved = component_lifecycle_resolved \<Gamma> d pit (co_member_ids c)\<rparr>) cs))))"

section \<open>Conflict sets\<close>

definition CONTEXT_EXPANSION_CONTRADICTS_CAP :: nat where
  "CONTEXT_EXPANSION_CONTRADICTS_CAP = 5"

datatype inclusion = Primary | Expansion | Conflict_Only | Orphan_Community | Community_Representative | Community_Member

text \<open>The title and status are \<open>null\<close> unless the member is included for the conflict only.\<close>

record conflict_member =
  cm_id :: string
  cm_inclusion :: inclusion
  cm_title :: "string option"
  cm_status :: "status option option"

record unresolved =
  un_members :: "conflict_member list"
  un_edges :: "raw_edge list"
  un_conflict_only_count :: nat
  un_tiebreak_score :: real
  un_member_sort_key :: "string list"

text \<open>\<open>_load_entity_info\<close>, with its defaults for an id without a memory.\<close>

definition info_title :: "db \<Rightarrow> string \<Rightarrow> string" where
  "info_title d i = (case get_entity d i of Some e \<Rightarrow> e_title e | None \<Rightarrow> ''Unknown'')"

definition conflict_member_of :: "db \<Rightarrow> string set \<Rightarrow> string set \<Rightarrow> string \<Rightarrow> conflict_member" where
  "conflict_member_of d primary expansion i =
     (if i \<in> primary then \<lparr>cm_id = i, cm_inclusion = Primary, cm_title = None, cm_status = None\<rparr>
      else if i \<in> expansion then \<lparr>cm_id = i, cm_inclusion = Expansion, cm_title = None, cm_status = None\<rparr>
      else \<lparr>cm_id = i, cm_inclusion = Conflict_Only, cm_title = Some (info_title d i), cm_status = Some (status_of d i)\<rparr>)"

text \<open>The outer \<open>None\<close> is the exception of \<open>max\<close> on no score, the inner one a resolved component.\<close>

definition build_unresolved_component ::
  "db \<Rightarrow> string set \<Rightarrow> (string \<Rightarrow> real) \<Rightarrow> string set \<Rightarrow> classified \<Rightarrow> unresolved option option" where
  "build_unresolved_component d primary score expansion c =
     (if cl_resolved c then Some None
      else let ids = cl_member_ids c in
        if ids \<inter> primary = {} then None
        else Some (Some
          \<lparr>un_members = map (conflict_member_of d primary expansion) (sorted_list_of_set ids),
           un_edges = cl_edges c,
           un_conflict_only_count = card {i \<in> ids. i \<notin> primary \<and> i \<notin> expansion},
           un_tiebreak_score = Max (score ` (ids \<inter> primary)),
           un_member_sort_key = sorted_list_of_set ids\<rparr>))"

fun admit_conflict_components :: "nat \<Rightarrow> unresolved list \<Rightarrow> unresolved list \<times> nat" where
  "admit_conflict_components admitted [] = ([], 0)"
| "admit_conflict_components admitted (c # cs) =
     (if admitted + un_conflict_only_count c > CONTEXT_EXPANSION_CONTRADICTS_CAP then ([], length (c # cs))
      else let (keep, dropped) = admit_conflict_components (admitted + un_conflict_only_count c) cs in (c # keep, dropped))"

record conflict_set =
  cs_members :: "conflict_member list"
  cs_edges :: "raw_edge list"

record conflict_sets_result =
  csr_conflict_sets :: "conflict_set list"
  csr_contradicts_cap :: cap_report

definition unresolved_key :: "unresolved \<Rightarrow> real \<times> string list" where
  "unresolved_key c = (- un_tiebreak_score c, un_member_sort_key c)"

definition conflict_sets_of :: "unresolved list \<Rightarrow> conflict_sets_result" where
  "conflict_sets_of cs =
     (let (admitted, dropped) = admit_conflict_components 0 (sort_key unresolved_key cs)
      in \<lparr>csr_conflict_sets = map (\<lambda>c. \<lparr>cs_members = un_members c, cs_edges = un_edges c\<rparr>) admitted,
          csr_contradicts_cap = \<lparr>cr_cap = CONTEXT_EXPANSION_CONTRADICTS_CAP, cr_eligible_count = length cs,
            cr_truncated = (dropped > 0), cr_dropped_count = dropped\<rparr>\<rparr>)"

definition assemble_conflict_sets ::
  "env \<Rightarrow> db \<Rightarrow> expansion_result \<Rightarrow> primary_hit list \<Rightarrow> string \<Rightarrow> conflict_sets_result option" where
  "assemble_conflict_sets \<Gamma> d er hits pit =
     (if er_contradicts_edges er = [] then Some (conflict_sets_of [])
      else
        let primary = set (map ph_id hits); expansion = set (map ec_entity_id (er_expansion_candidates er)) in
        Option.bind (classify_contradicts_components \<Gamma> d (er_contradicts_edges er) pit) (\<lambda>components.
        Option.bind (those (map (build_unresolved_component d primary (score_of hits) expansion) components)) (\<lambda>built.
          Some (conflict_sets_of (List.map_filter id built)))))"

section \<open>Union-find: representatives\<close>

inductive rep :: "(string \<rightharpoonup> string) \<Rightarrow> string \<Rightarrow> string \<Rightarrow> bool" for m where
  rep_root: "m x = Some x \<Longrightarrow> rep m x x"
| rep_step: "m x = Some p \<Longrightarrow> p \<noteq> x \<Longrightarrow> rep m p r \<Longrightarrow> rep m x r"

lemma rep_is_root: "rep m x r \<Longrightarrow> m r = Some r"
  by (induction rule: rep.induct) auto

lemma rep_dom: "rep m x r \<Longrightarrow> x \<in> dom m"
  by (auto elim: rep.cases)

lemma rep_unique: "rep m x r \<Longrightarrow> rep m x s \<Longrightarrow> r = s"
proof (induction arbitrary: s rule: rep.induct)
  case (rep_root x)
  from rep_root(2,1) show ?case by (cases rule: rep.cases) auto
next
  case (rep_step x p r)
  from rep_step(5,1,2,4) show ?case by (cases rule: rep.cases) auto
qed

definition uf_ok :: "(string \<rightharpoonup> string) \<Rightarrow> bool" where
  "uf_ok m \<longleftrightarrow> (\<forall>x \<in> dom m. \<exists>r. rep m x r)"

lemma rep_compress:
  assumes "rep m x r" "x \<noteq> r"
  shows "rep (m(x \<mapsto> r)) y s \<longleftrightarrow> rep m y s"
proof
  have r: "m r = Some r" by (rule rep_is_root[OF assms(1)])
  show "rep (m(x \<mapsto> r)) y s \<Longrightarrow> rep m y s"
  proof (induction rule: rep.induct)
    case (rep_root y)
    then show ?case using assms(2) by (auto intro: rep.rep_root split: if_splits)
  next
    case (rep_step y p s)
    show ?case
    proof (cases "y = x")
      case True
      then have "p = r" using rep_step by simp
      then have "rep m r s" using rep_step by simp
      moreover have "rep m r r" by (rule rep.rep_root) (rule r)
      ultimately have "s = r" by (rule rep_unique)
      then show ?thesis using assms(1) True by simp
    next
      case False
      then show ?thesis using rep_step by (auto intro: rep.rep_step)
    qed
  qed
next
  have r: "m r = Some r" by (rule rep_is_root[OF assms(1)])
  then have root: "rep (m(x \<mapsto> r)) r r" using assms(2) by (auto intro: rep.rep_root)
  show "rep m y s \<Longrightarrow> rep (m(x \<mapsto> r)) y s"
  proof (induction rule: rep.induct)
    case (rep_root y)
    then have "rep m y y" by (rule rep.rep_root)
    then have "y \<noteq> x" using assms rep_unique by blast
    then show ?case using rep_root by (auto intro: rep.rep_root)
  next
    case (rep_step y p s)
    show ?case
    proof (cases "y = x")
      case True
      have "rep m y s" by (rule rep.rep_step) (rule rep_step(1), rule rep_step(2), rule rep_step(3))
      then have "s = r" using True rep_unique assms(1) by blast
      moreover have "rep (m(x \<mapsto> r)) x r" by (rule rep.rep_step[of _ _ r]) (use assms(2) root in simp_all)
      ultimately show ?thesis using True by metis
    next
      case False
      then show ?thesis using rep_step by (auto intro: rep.rep_step)
    qed
  qed
qed

lemma rep_new:
  assumes "uf_ok m" "x \<notin> dom m"
  shows "rep (m(x \<mapsto> x)) y s \<longleftrightarrow> rep m y s \<or> (y = x \<and> s = x)"
proof
  show "rep (m(x \<mapsto> x)) y s \<Longrightarrow> rep m y s \<or> (y = x \<and> s = x)"
  proof (induction rule: rep.induct)
    case (rep_root y)
    then show ?case by (auto intro: rep.rep_root split: if_splits)
  next
    case (rep_step y p s)
    then have y: "y \<noteq> x" "m y = Some p" by (auto split: if_splits)
    then obtain t where "rep m y t" using assms(1) by (auto simp: uf_ok_def)
    then have "p \<in> dom m" using y rep_step(2) by (cases rule: rep.cases) (auto dest: rep_dom)
    then have "rep m p s" using rep_step(4) assms(2) by blast
    then show ?case using y rep_step(2) by (auto intro: rep.rep_step)
  qed
next
  assume "rep m y s \<or> (y = x \<and> s = x)"
  then show "rep (m(x \<mapsto> x)) y s"
  proof
    assume "rep m y s"
    then show ?thesis
    proof (induction rule: rep.induct)
      case (rep_root y)
      then show ?case using assms(2) by (auto intro: rep.rep_root)
    next
      case (rep_step y p s)
      then have "y \<noteq> x" using assms(2) by auto
      then show ?case using rep_step by (auto intro: rep.rep_step)
    qed
  qed (auto intro: rep.rep_root)
qed

lemma rep_link:
  assumes "m a = Some a" "m b = Some b" "a \<noteq> b"
  shows "rep (m(b \<mapsto> a)) y s \<longleftrightarrow> (\<exists>t. rep m y t \<and> s = (if t = b then a else t))"
proof
  have roots: "rep m a a" "rep m b b" using assms by (auto intro: rep.rep_root)
  show "rep (m(b \<mapsto> a)) y s \<Longrightarrow> \<exists>t. rep m y t \<and> s = (if t = b then a else t)"
  proof (induction rule: rep.induct)
    case (rep_root y)
    then have "m y = Some y" "y \<noteq> b" using assms(3) by (auto split: if_splits)
    then show ?case by (auto intro: rep.rep_root)
  next
    case (rep_step y p s)
    show ?case
    proof (cases "y = b")
      case True
      then have "p = a" using rep_step by simp
      then have "s = a" using rep_step(4) rep_unique[OF roots(1)] by (auto split: if_splits)
      then show ?thesis using True roots by auto
    next
      case False
      then show ?thesis using rep_step by (auto intro: rep.rep_step)
    qed
  qed
next
  have root: "rep (m(b \<mapsto> a)) a a" using assms by (auto intro: rep.rep_root)
  assume "\<exists>t. rep m y t \<and> s = (if t = b then a else t)"
  then obtain t where "rep m y t" "s = (if t = b then a else t)" by blast
  then show "rep (m(b \<mapsto> a)) y s"
  proof (induction arbitrary: s rule: rep.induct)
    case (rep_root y)
    have "rep (m(b \<mapsto> a)) b a" by (rule rep.rep_step[of _ _ a]) (use assms(3) root in auto)
    moreover have "rep (m(b \<mapsto> a)) y y" if "y \<noteq> b" by (rule rep.rep_root) (use that rep_root in simp)
    ultimately show ?case using rep_root(2) by metis
  next
    case (rep_step y p t)
    then have "y \<noteq> b" using assms(2) by auto
    then show ?case using rep_step by (auto intro: rep.rep_step)
  qed
qed

section \<open>Union-find: the operations\<close>

lemma uf_find_rep:
  assumes "rep m x r" "m = map_of parent"
  shows "\<exists>p'. uf_find parent x = Some (r, p') \<and> dom (map_of p') = dom m \<and> (\<forall>y s. rep (map_of p') y s \<longleftrightarrow> rep m y s)"
  using assms
proof (induction arbitrary: parent rule: rep.induct)
  case (rep_root x)
  then have "uf_find parent x = Some (x, parent)" by (subst uf_find.simps) (simp add: Let_def)
  then show ?case using rep_root by simp
next
  case (rep_step x p r)
  then obtain p' where p': "uf_find parent p = Some (r, p')" "dom (map_of p') = dom m" "\<forall>y s. rep (map_of p') y s \<longleftrightarrow> rep m y s" by blast
  then have find: "uf_find parent x = Some (r, AList.update x r p')"
    using rep_step(1,2,5) by (subst uf_find.simps) (simp add: Let_def)
  have x: "rep m x r" by (rule rep.rep_step) (rule rep_step(1), rule rep_step(2), rule rep_step(3))
  have "x \<noteq> r"
  proof
    assume "x = r"
    then have "m x = Some x" using rep_is_root[OF x] by simp
    then show False using rep_step(1,2) by simp
  qed
  then have "rep (map_of (AList.update x r p')) y s \<longleftrightarrow> rep m y s" for y s
    unfolding update_conv' using rep_compress[of "map_of p'" x r y s] p'(3) x by metis
  moreover have "dom (map_of (AList.update x r p')) = dom m" using p'(2) rep_step(1) by (auto simp: update_conv')
  ultimately show ?case using find by blast
qed

lemma uf_find_total:
  assumes "uf_ok (map_of parent)"
  obtains r p' where "uf_find parent x = Some (r, p')" "uf_ok (map_of p')" "rep (map_of p') x r"
    "dom (map_of p') = insert x (dom (map_of parent))"
    "\<And>y s. rep (map_of p') y s \<longleftrightarrow> rep (map_of parent) y s \<or> (x \<notin> dom (map_of parent) \<and> y = x \<and> s = x)"
proof -
  show ?thesis
  proof (cases "x \<in> dom (map_of parent)")
    case True
    then obtain r where r: "rep (map_of parent) x r" using assms by (auto simp: uf_ok_def)
    then obtain p' where p': "uf_find parent x = Some (r, p')" "dom (map_of p') = dom (map_of parent)"
      "\<And>y s. rep (map_of p') y s \<longleftrightarrow> rep (map_of parent) y s"
      using uf_find_rep[OF r refl] by blast
    show ?thesis
    proof (rule that[OF p'(1)])
      show "uf_ok (map_of p')" using assms p' by (simp add: uf_ok_def)
      show "rep (map_of p') x r" using p' r by simp
      show "dom (map_of p') = insert x (dom (map_of parent))" using p' True by auto
    qed (use p' True in simp)
  next
    case False
    define p' where "p' = AList.update x x parent"
    have m: "map_of p' = (map_of parent)(x \<mapsto> x)" by (simp add: p'_def update_conv')
    have find: "uf_find parent x = Some (x, p')"
      using False by (subst uf_find.simps) (simp add: Let_def p'_def update_conv' domIff)
    note new = rep_new[OF assms False, folded m]
    show ?thesis
    proof (rule that[OF find])
      have dom: "dom (map_of p') = insert x (dom (map_of parent))" unfolding m by simp
      then show "dom (map_of p') = insert x (dom (map_of parent))" .
      show "rep (map_of p') x x" unfolding new by simp
      show "uf_ok (map_of p')" using assms unfolding uf_ok_def dom new by auto
      show "rep (map_of p') y s \<longleftrightarrow> rep (map_of parent) y s \<or> (x \<notin> dom (map_of parent) \<and> y = x \<and> s = x)" for y s
        unfolding new using False by simp
    qed
  qed
qed

text \<open>Two ids are together when they are equal or have the same representative.\<close>

definition together :: "(string \<rightharpoonup> string) \<Rightarrow> string \<Rightarrow> string \<Rightarrow> bool" where
  "together m y z \<longleftrightarrow> y = z \<or> (\<exists>r. rep m y r \<and> rep m z r)"

lemma together_new:
  assumes "\<And>y s. rep m' y s \<longleftrightarrow> rep m y s \<or> (x \<notin> dom m \<and> y = x \<and> s = x)"
  shows "together m' y z \<longleftrightarrow> together m y z"
proof -
  have "\<not> rep m y x" if "x \<notin> dom m" for y using that rep_is_root by (metis domI)
  then show ?thesis unfolding together_def assms by blast
qed

lemma uf_union_total:
  assumes "uf_ok (map_of parent)"
  obtains p' where "uf_union parent a b = Some p'" "uf_ok (map_of p')"
    "dom (map_of p') = insert a (insert b (dom (map_of parent)))"
    "together (map_of p') a b" "\<And>y z. together (map_of parent) y z \<Longrightarrow> together (map_of p') y z"
    "\<And>y z. together (map_of p') y z \<Longrightarrow> together (map_of parent) y z \<or>
       (together (map_of parent) y a \<and> together (map_of parent) z b) \<or> (together (map_of parent) y b \<and> together (map_of parent) z a)"
proof -
  obtain ra p1 where 1: "uf_find parent a = Some (ra, p1)" "uf_ok (map_of p1)" "rep (map_of p1) a ra"
    "dom (map_of p1) = insert a (dom (map_of parent))"
    "\<And>y s. rep (map_of p1) y s \<longleftrightarrow> rep (map_of parent) y s \<or> (a \<notin> dom (map_of parent) \<and> y = a \<and> s = a)"
    using uf_find_total[OF assms] by metis
  obtain rb p2 where 2: "uf_find p1 b = Some (rb, p2)" "uf_ok (map_of p2)" "rep (map_of p2) b rb"
    "dom (map_of p2) = insert b (dom (map_of p1))"
    "\<And>y s. rep (map_of p2) y s \<longleftrightarrow> rep (map_of p1) y s \<or> (b \<notin> dom (map_of p1) \<and> y = b \<and> s = b)"
    using uf_find_total[OF 1(2)] by metis
  have a2: "rep (map_of p2) a ra" using 1(3) 2(5) by blast
  note b2 = 2(3)
  have roots: "map_of p2 ra = Some ra" "map_of p2 rb = Some rb" using rep_is_root a2 2(3) by blast+
  have same: "together (map_of p2) y z \<longleftrightarrow> together (map_of parent) y z" for y z
    using together_new[OF 1(5)] together_new[OF 2(5)] by blast
  define p' where "p' = (if ra \<noteq> rb then AList.update rb ra p2 else p2)"
  have union: "uf_union parent a b = Some p'" using 1(1) 2(1) by (simp add: uf_union_def p'_def)
  have rep': "rep (map_of p') y s \<longleftrightarrow> (\<exists>t. rep (map_of p2) y t \<and> s = (if t = rb then ra else t))" for y s
    unfolding p'_def using rep_link[OF roots] by (auto simp: update_conv')
  have moved: "rep (map_of p2) x t \<Longrightarrow> rep (map_of p') x (if t = rb then ra else t)" for x t unfolding rep' by blast
  have dom: "dom (map_of p') = dom (map_of p2)" using roots by (auto simp: p'_def update_conv')
  then have "uf_ok (map_of p')" using 2(2) moved unfolding uf_ok_def by blast
  moreover note dom
  moreover have "together (map_of p') a b" using moved[OF a2] moved[OF 2(3)] by (auto simp: together_def split: if_splits)
  moreover have "together (map_of p') y z" if "together (map_of parent) y z" for y z
    using that moved same[of y z] unfolding together_def by blast
  moreover have "together (map_of parent) y z \<or> (together (map_of parent) y a \<and> together (map_of parent) z b) \<or>
      (together (map_of parent) y b \<and> together (map_of parent) z a)" if yz: "together (map_of p') y z" for y z
  proof (cases "y = z")
    case True
    then show ?thesis by (simp add: together_def)
  next
    case False
    then obtain t u where t: "rep (map_of p2) y t" "rep (map_of p2) z u" "(if t = rb then ra else t) = (if u = rb then ra else u)"
      using yz rep' unfolding together_def by metis
    then have "t = u \<or> (t = rb \<and> u = ra) \<or> (t = ra \<and> u = rb)" by (metis (full_types))
    then consider "t = u" | "t = rb" "u = ra" | "t = ra" "u = rb" by blast
    then show ?thesis unfolding same[symmetric]
    proof cases
      case 1
      then have "together (map_of p2) y z" using t by (auto simp: together_def)
      then show "together (map_of p2) y z \<or> (together (map_of p2) y a \<and> together (map_of p2) z b) \<or> (together (map_of p2) y b \<and> together (map_of p2) z a)" ..
    next
      case 2
      then have "together (map_of p2) y b" "together (map_of p2) z a" using t a2 b2 by (auto simp: together_def)
      then show "together (map_of p2) y z \<or> (together (map_of p2) y a \<and> together (map_of p2) z b) \<or> (together (map_of p2) y b \<and> together (map_of p2) z a)" by blast
    next
      case 3
      then have "together (map_of p2) y a" "together (map_of p2) z b" using t a2 b2 by (auto simp: together_def)
      then show "together (map_of p2) y z \<or> (together (map_of p2) y a \<and> together (map_of p2) z b) \<or> (together (map_of p2) y b \<and> together (map_of p2) z a)" by blast
    qed
  qed
  ultimately show ?thesis using that[OF union] 2(4) 1(4) by (simp add: insert_commute)
qed

section \<open>The contradiction graph\<close>

definition joined :: "raw_edge list \<Rightarrow> string \<Rightarrow> string \<Rightarrow> bool" where
  "joined es a b \<longleftrightarrow> (\<exists>e \<in> set es. re_source_id e = a \<and> re_target_id e = b)"

definition ends :: "raw_edge list \<Rightarrow> string set" where
  "ends es = re_source_id ` set es \<union> re_target_id ` set es"

definition united :: "raw_edge list \<Rightarrow> parents \<Rightarrow> bool" where
  "united es parent \<longleftrightarrow> uf_ok (map_of parent) \<and> dom (map_of parent) = ends es \<and>
     (\<forall>y z. together (map_of parent) y z \<longleftrightarrow> equivclp (joined es) y z)"

lemma together_sym: "together m y z \<Longrightarrow> together m z y"
  by (auto simp: together_def)

lemma together_trans: "together m x y \<Longrightarrow> together m y z \<Longrightarrow> together m x z"
  unfolding together_def using rep_unique by metis

lemma joined_mono: "equivclp (joined es) y z \<Longrightarrow> equivclp (joined (es @ [e])) y z"
proof (induction rule: equivclp_induct)
  case base
  show ?case by simp
next
  case (step y z)
  then have "joined (es @ [e]) y z \<or> joined (es @ [e]) z y" by (auto simp: joined_def)
  with step(3) show ?case by (rule equivclp_into_equivclp)
qed

lemma united_snoc:
  assumes "united es parent"
  obtains p' where "uf_union parent (re_source_id e) (re_target_id e) = Some p'" "united (es @ [e]) p'"
proof -
  let ?a = "re_source_id e" and ?b = "re_target_id e"
  have ok: "uf_ok (map_of parent)" and old: "\<And>y z. together (map_of parent) y z \<longleftrightarrow> equivclp (joined es) y z"
    using assms by (simp_all add: united_def)
  obtain p' where p': "uf_union parent ?a ?b = Some p'" "uf_ok (map_of p')"
    "dom (map_of p') = insert ?a (insert ?b (dom (map_of parent)))"
    "together (map_of p') ?a ?b" "\<And>y z. together (map_of parent) y z \<Longrightarrow> together (map_of p') y z"
    "\<And>y z. together (map_of p') y z \<Longrightarrow> together (map_of parent) y z \<or>
       (together (map_of parent) y ?a \<and> together (map_of parent) z ?b) \<or> (together (map_of parent) y ?b \<and> together (map_of parent) z ?a)"
    using uf_union_total[OF ok] by metis
  let ?R = "equivclp (joined (es @ [e]))"
  have ab: "?R ?a ?b" by (rule r_into_equivclp) (simp add: joined_def)
  have mono: "together (map_of parent) y z \<Longrightarrow> ?R y z" for y z using old joined_mono by blast
  have "together (map_of p') y z \<longleftrightarrow> ?R y z" for y z
  proof
    assume "together (map_of p') y z"
    from p'(6)[OF this] show "?R y z" using mono ab by (metis equivclp_sym equivclp_trans)
  next
    assume "?R y z"
    then show "together (map_of p') y z"
    proof (induction rule: equivclp_induct)
      case base
      show ?case by (simp add: together_def)
    next
      case (step u z)
      have "together (map_of p') v w" if "joined (es @ [e]) v w" for v w
      proof (cases "joined es v w")
        case True
        then show ?thesis using p'(5) old by (meson r_into_equivclp)
      next
        case False
        then have "v = ?a" "w = ?b" using that by (auto simp: joined_def)
        then show ?thesis using p'(4) by simp
      qed
      then have "together (map_of p') u z" using step(2) together_sym by blast
      then show ?case using step(3) together_trans by blast
    qed
  qed
  moreover have "dom (map_of p') = ends (es @ [e])" using p'(3) assms by (auto simp: united_def ends_def)
  ultimately show ?thesis using that[OF p'(1)] p'(2) by (simp add: united_def)
qed

lemma unite_united: "united ds parent \<Longrightarrow> \<exists>p'. unite es parent = Some p' \<and> united (ds @ es) p'"
proof (induction es arbitrary: ds parent)
  case (Cons e es)
  obtain p1 where "uf_union parent (re_source_id e) (re_target_id e) = Some p1" "united (ds @ [e]) p1"
    using united_snoc[OF Cons.prems] by metis
  then show ?case using Cons.IH[of "ds @ [e]" p1] by simp
qed simp

section \<open>Grouping\<close>

text \<open>The representative of a known id.\<close>

definition root_of :: "parents \<Rightarrow> string \<Rightarrow> string" where
  "root_of parent x = fst (the (uf_find parent x))"

lemma root_of_rep:
  assumes "uf_ok (map_of parent)" "x \<in> dom (map_of parent)"
  shows "rep (map_of parent) x (root_of parent x)"
  using uf_find_rep assms unfolding uf_ok_def root_of_def by (metis fst_conv option.sel)

lemma group_edges_fold:
  assumes "uf_ok (map_of parent)" "\<forall>x \<in> dom (map_of parent). rep (map_of parent) x (f x)" "re_source_id ` set es \<subseteq> dom (map_of parent)"
  shows "\<exists>p'. group_edges es parent cs = Some (fold (\<lambda>e. add_to_component (f (re_source_id e)) e) es cs, p')"
  using assms
proof (induction es arbitrary: parent cs)
  case (Cons e es)
  let ?x = "re_source_id e"
  have "rep (map_of parent) ?x (f ?x)" using Cons.prems by auto
  then obtain p1 where p1: "uf_find parent ?x = Some (f ?x, p1)" "dom (map_of p1) = dom (map_of parent)"
    "\<And>y s. rep (map_of p1) y s \<longleftrightarrow> rep (map_of parent) y s" using uf_find_rep by blast
  have "uf_ok (map_of p1)" "\<forall>x \<in> dom (map_of p1). rep (map_of p1) x (f x)" "re_source_id ` set es \<subseteq> dom (map_of p1)"
    using Cons.prems p1(2,3) by (simp_all add: uf_ok_def)
  from Cons.IH[OF this] show ?case using p1(1) by simp
qed simp

definition grouped :: "(string \<Rightarrow> string) \<Rightarrow> raw_edge list \<Rightarrow> (string \<times> component) list \<Rightarrow> bool" where
  "grouped f es cs \<longleftrightarrow> distinct (map fst cs) \<and>
     (\<forall>r. map_of cs r = (let mine = filter (\<lambda>e. f (re_source_id e) = r) es in
        if mine = [] then None else Some \<lparr>co_member_ids = ends mine, co_edges = mine\<rparr>))"

lemma grouped_snoc:
  assumes "grouped f es cs"
  shows "grouped f (es @ [e]) (add_to_component (f (re_source_id e)) e cs)"
proof -
  let ?r = "f (re_source_id e)"
  define c where "c = (case map_of cs ?r of Some c \<Rightarrow> c | None \<Rightarrow> \<lparr>co_member_ids = {}, co_edges = []\<rparr>)"
  have c: "co_member_ids c = ends (filter (\<lambda>e. f (re_source_id e) = ?r) es)" "co_edges c = filter (\<lambda>e. f (re_source_id e) = ?r) es"
    using assms by (auto simp: c_def grouped_def Let_def ends_def filter_empty_conv)
  have add: "add_to_component ?r e cs = AList.update ?r \<lparr>co_member_ids = co_member_ids c \<union> {re_source_id e, re_target_id e},
      co_edges = co_edges c @ [e]\<rparr> cs" by (simp add: add_to_component_def c_def Let_def)
  show ?thesis unfolding grouped_def add
    using assms by (auto simp: update_conv' distinct_update grouped_def Let_def c ends_def)
qed

lemma fold_grouped: "grouped f es (fold (\<lambda>e. add_to_component (f (re_source_id e)) e) es [])"
proof (induction es rule: rev_induct)
  case Nil
  then show ?case by (simp add: grouped_def)
next
  case (snoc e es)
  then show ?case using grouped_snoc by simp
qed

text \<open>What the classification answers: the connected components of the edges, each with its edges in their order.\<close>

definition component_of :: "env \<Rightarrow> db \<Rightarrow> string \<Rightarrow> raw_edge list \<Rightarrow> string \<Rightarrow> classified" where
  "component_of \<Gamma> d pit es x =
     (let members = {y. equivclp (joined es) x y} in
      \<lparr>cl_member_ids = members, cl_edges = filter (\<lambda>e. re_source_id e \<in> members) es,
       cl_resolved = component_lifecycle_resolved \<Gamma> d pit members\<rparr>)"

lemma ends_closed: "equivclp (joined es) x y \<Longrightarrow> x \<in> ends es \<Longrightarrow> y \<in> ends es"
proof (induction rule: equivclp_induct)
  case (step y z)
  then show ?case by (auto simp: joined_def ends_def)
qed

lemma classify_components:
  "\<exists>cs. classify_contradicts_components \<Gamma> d es pit = Some cs \<and>
     set cs = component_of \<Gamma> d pit es ` ends es \<and> distinct (map cl_member_ids cs)"
proof (cases "es = []")
  case True
  then show ?thesis by (simp add: classify_contradicts_components_def ends_def)
next
  case False
  have "equivclp (joined []) y z \<longleftrightarrow> y = z" for y z
    by (auto elim!: equivclp_induct[of _ _ _ "\<lambda>z. y = z"] simp: joined_def)
  then have "united [] []" by (auto simp: united_def uf_ok_def ends_def together_def elim: rep.cases)
  then obtain parent where parent: "unite es [] = Some parent" "united es parent" using unite_united[of "[]" "[]" es] by auto
  let ?f = "root_of parent"
  have ok: "uf_ok (map_of parent)" "dom (map_of parent) = ends es" and same: "\<And>y z. together (map_of parent) y z \<longleftrightarrow> equivclp (joined es) y z"
    using parent(2) by (simp_all add: united_def)
  have rep: "rep (map_of parent) x (?f x)" if "x \<in> ends es" for x using root_of_rep[OF ok(1)] ok(2) that by simp
  have f: "?f x = ?f y \<longleftrightarrow> equivclp (joined es) x y" if "x \<in> ends es" "y \<in> ends es" for x y
    unfolding same[symmetric] together_def using rep[OF that(1)] rep[OF that(2)] rep_unique by metis
  define cs where "cs = fold (\<lambda>e. add_to_component (?f (re_source_id e)) e) es []"
  have "re_source_id ` set es \<subseteq> dom (map_of parent)" unfolding ok(2) by (auto simp: ends_def)
  then obtain p' where group: "group_edges es parent [] = Some (cs, p')"
    using group_edges_fold[OF ok(1), of ?f es "[]"] rep ok(2) unfolding cs_def by auto
  have g: "grouped ?f es cs" unfolding cs_def by (rule fold_grouped)
  define mine where "mine r = filter (\<lambda>e. ?f (re_source_id e) = r) es" for r
  have mine: "mine (?f x) = filter (\<lambda>e. re_source_id e \<in> {y. equivclp (joined es) x y}) es" if "x \<in> ends es" for x
    unfolding mine_def using f[OF _ that] by (intro filter_cong) (auto simp: ends_def intro: equivclp_sym)
  have members: "ends (mine (?f x)) = {y. equivclp (joined es) x y}" if x: "x \<in> ends es" for x
  proof (intro set_eqI iffI)
    fix y
    assume "y \<in> ends (mine (?f x))"
    then obtain e where e: "e \<in> set es" "equivclp (joined es) x (re_source_id e)" "y = re_source_id e \<or> y = re_target_id e"
      unfolding mine[OF x] by (auto simp: ends_def)
    then show "y \<in> {y. equivclp (joined es) x y}"
      using equivclp_into_equivclp[OF e(2), of "re_target_id e"] by (auto simp: joined_def)
  next
    fix y
    assume "y \<in> {y. equivclp (joined es) x y}"
    then have y: "equivclp (joined es) x y" by simp
    then obtain e where e: "e \<in> set es" "y = re_source_id e \<or> y = re_target_id e"
      using ends_closed[OF _ x] by (auto simp: ends_def)
    have "equivclp (joined es) x (re_source_id e)"
    proof (cases "y = re_source_id e")
      case False
      then have "joined es (re_source_id e) y" using e by (auto simp: joined_def)
      then show ?thesis using equivclp_into_equivclp[OF y] by blast
    qed (use y in simp)
    then show "y \<in> ends (mine (?f x))" unfolding mine[OF x] using e by (auto simp: ends_def)
  qed
  let ?g = "\<lambda>(r, c). \<lparr>cl_member_ids = co_member_ids c, cl_edges = co_edges c,
    cl_resolved = component_lifecycle_resolved \<Gamma> d pit (co_member_ids c)\<rparr>"
  have answer: "classify_contradicts_components \<Gamma> d es pit = Some (map ?g cs)"
    using False parent(1) group by (simp add: classify_contradicts_components_def)
  have look: "map_of cs r = (if mine r = [] then None else Some \<lparr>co_member_ids = ends (mine r), co_edges = mine r\<rparr>)" for r
    using g by (simp add: grouped_def mine_def Let_def)
  have keys: "distinct (map fst cs)" using g by (simp add: grouped_def)
  have used: "mine r \<noteq> [] \<longleftrightarrow> r \<in> ?f ` ends es" for r
  proof
    assume "mine r \<noteq> []"
    then obtain e where "e \<in> set (mine r)" by (meson last_in_set)
    then show "r \<in> ?f ` ends es" by (auto simp: mine_def ends_def)
  next
    assume "r \<in> ?f ` ends es"
    then obtain x where "x \<in> ends es" "r = ?f x" by blast
    then have "x \<in> ends (mine r)" using members by simp
    then show "mine r \<noteq> []" by (auto simp: ends_def)
  qed
  have entry: "(r, c) \<in> set cs \<longleftrightarrow> r \<in> ?f ` ends es \<and> c = \<lparr>co_member_ids = ends (mine r), co_edges = mine r\<rparr>" for r c
    using keys look used by (metis map_of_eq_Some_iff option.distinct(1) option.inject)
  have pair: "?g (?f x, \<lparr>co_member_ids = ends (mine (?f x)), co_edges = mine (?f x)\<rparr>) = component_of \<Gamma> d pit es x" if "x \<in> ends es" for x
    by (simp only: component_of_def Let_def prod.case component.simps members[OF that, unfolded mine[OF that]] mine[OF that])
  have cs: "set cs = (\<lambda>x. (?f x, \<lparr>co_member_ids = ends (mine (?f x)), co_edges = mine (?f x)\<rparr>)) ` ends es"
  proof (rule set_eqI)
    fix p :: "string \<times> component"
    obtain r c where p: "p = (r, c)" by force
    show "p \<in> set cs \<longleftrightarrow> p \<in> (\<lambda>x. (?f x, \<lparr>co_member_ids = ends (mine (?f x)), co_edges = mine (?f x)\<rparr>)) ` ends es"
      unfolding p entry by blast
  qed
  have "set (map ?g cs) = component_of \<Gamma> d pit es ` ends es"
    unfolding set_map cs image_image using pair by (intro image_cong) simp_all
  moreover have "distinct (map cl_member_ids (map ?g cs))"
  proof -
    have "p = q" if pq: "p \<in> set cs" "q \<in> set cs" "co_member_ids (snd p) = co_member_ids (snd q)" for p q
    proof -
      obtain x y where x: "x \<in> ends es" "p = (?f x, \<lparr>co_member_ids = ends (mine (?f x)), co_edges = mine (?f x)\<rparr>)"
        and y: "y \<in> ends es" "q = (?f y, \<lparr>co_member_ids = ends (mine (?f y)), co_edges = mine (?f y)\<rparr>)"
        using pq(1,2) unfolding cs by blast
      have "{z. equivclp (joined es) x z} = {z. equivclp (joined es) y z}" using pq(3) x y members by simp
      then have "equivclp (joined es) x y" by (metis equivclp_refl mem_Collect_eq)
      then show "p = q" using f[OF x(1) y(1)] x y by simp
    qed
    then have "inj_on (\<lambda>p. co_member_ids (snd p)) (set cs)" by (auto intro: inj_onI)
    then have "distinct (map (\<lambda>p. co_member_ids (snd p)) cs)" using keys by (simp add: distinct_map)
    moreover have "map cl_member_ids (map ?g cs) = map (\<lambda>p. co_member_ids (snd p)) cs" by (simp add: case_prod_beta)
    ultimately show ?thesis by (simp only:)
  qed
  ultimately show ?thesis using answer by blast
qed

section \<open>What a resolved component means\<close>

text \<open>Two memories are versions of each other when lifecycle edges join them, in either direction.\<close>

definition versions :: "env \<Rightarrow> db \<Rightarrow> string \<Rightarrow> string \<Rightarrow> string \<Rightarrow> bool" where
  "versions \<Gamma> d pit = equivclp (lineage_rel \<Gamma> d pit None ''ancestors'')"

lemma descendants_reversed: "lineage_rel \<Gamma> d pit agent ''descendants'' a b \<longleftrightarrow> lineage_rel \<Gamma> d pit agent ''ancestors'' b a"
  by (auto simp: lineage_rel_def edge_rel_def near_end_def next_end_def)

lemma versions_walk: "(lineage_rel \<Gamma> d pit None dir ^^ n) a b \<Longrightarrow> dir \<in> {''ancestors'', ''descendants''} \<Longrightarrow> versions \<Gamma> d pit a b"
proof (induction n arbitrary: b)
  case 0
  then show ?case by (simp add: versions_def)
next
  case (Suc n)
  then obtain c where c: "(lineage_rel \<Gamma> d pit None dir ^^ n) a c" "lineage_rel \<Gamma> d pit None dir c b" by auto
  then have "versions \<Gamma> d pit a c" using Suc by blast
  moreover have "lineage_rel \<Gamma> d pit None ''ancestors'' c b \<or> lineage_rel \<Gamma> d pit None ''ancestors'' b c"
    using c(2) Suc.prems(2) descendants_reversed by auto
  ultimately show ?case unfolding versions_def by (rule equivclp_into_equivclp)
qed

lemma collected_reach:
  assumes "collected target (lineage_query \<Gamma> d dir target max_depth pit agent) edges nodes" "y \<in> ln_id ` snd ` set nodes"
  shows "y = target \<or> (\<exists>n. (lineage_rel \<Gamma> d pit agent dir ^^ n) target y \<and>
    (\<exists>r \<in> set (relations d). y = r_source r \<or> y = r_target r))"
proof (cases "y = target")
  case False
  let ?Q = "lineage_query \<Gamma> d dir target max_depth pit agent"
  have ok: "nodes_ok target ?Q nodes" using assms(1) by (simp add: collected_def)
  obtain x n where n: "(x, n) \<in> set nodes" "ln_id n = y" using assms(2) by auto
  have "distinct (map fst nodes)" using ok unfolding nodes_ok_def by blast
  then have look: "map_of nodes x = Some n" using n(1) by simp
  then have "ln_id n = x" using ok unfolding nodes_ok_def by blast
  then have "map_of nodes y = Some n" using look n(2) by simp
  then have "first_reached ?Q y (ln_depth n)" using ok False unfolding nodes_ok_def by blast
  then obtain l where l: "l \<in> set ?Q" "lr_next l = y" by (auto simp: first_reached_def)
  have row: "(lr_rel l, nat (lr_depth l)) \<in> lineage_rows \<Gamma> d dir target max_depth pit agent" using l by (auto simp: lineage_rows_def)
  have "lr_rel l \<in> set (relations d)" "next_end dir (lr_rel l) = y"
    using lineage_row_cases[OF l(1)] l(2) by (auto simp: lineage_admits_def)
  moreover from this have "y = r_source (lr_rel l) \<or> y = r_target (lr_rel l)" by (auto simp: next_end_def)
  moreover have "(lineage_rel \<Gamma> d pit agent dir ^^ nat (lr_depth l)) target (next_end dir (lr_rel l))"
    using lin.row_reaches[OF row] by (simp add: lineage_rel_def)
  ultimately show ?thesis by blast
qed simp

lemma lifecycle_reached_versions:
  assumes "sound_store d" "resolvable d None i" "pit \<noteq> []" "y \<in> lifecycle_reached \<Gamma> d pit i"
  shows "versions \<Gamma> d pit i y \<and> resolvable d None y"
proof -
  have resolve: "resolve_entity_ref d (Some i) None = (Some i, [], False)" "i \<noteq> []" using anchor_resolves[OF assms(1,2)] by simp_all
  have ids: "distinct (map r_id (relations d))" "ends_exist d" using assms(1) by (simp_all add: sound_store_def)
  have one: "versions \<Gamma> d pit i y \<and> resolvable d None y"
    if raw: "get_lineage_raw \<Gamma> d (Some i) dir (int SUPERSESSION_CHAIN_MAX_DEPTH) (Some pit) None = Inr res"
      and y: "y \<in> ln_id ` set (lg_nodes res)" and dir: "dir \<in> {''ancestors'', ''descendants''}" for dir res
  proof -
    have "assemble_lineage_result d i dir (lineage_node_of d i 0)
        (lineage_query \<Gamma> d dir i (int SUPERSESSION_CHAIN_MAX_DEPTH) pit None) (int SUPERSESSION_CHAIN_MAX_DEPTH) pit = res"
      using raw resolve assms(3)
      by (simp add: get_lineage_raw_def Let_def SUPERSESSION_CHAIN_MAX_DEPTH_def split: if_splits)
    then obtain nodes where c: "collected i (lineage_query \<Gamma> d dir i (int SUPERSESSION_CHAIN_MAX_DEPTH) pit None) (lg_edges res) nodes"
      "lg_nodes res = sort_key (\<lambda>n. (ln_depth n, ln_id n)) (map snd nodes)"
      using lineage_assembled[OF ids(1)] by blast
    have "y \<in> ln_id ` snd ` set nodes" using y unfolding c(2) by simp
    from collected_reach[OF c(1) this] show ?thesis
    proof
      assume "y = i"
      then show ?thesis using assms(2) by (simp add: versions_def)
    next
      assume "\<exists>n. (lineage_rel \<Gamma> d pit None dir ^^ n) i y \<and> (\<exists>r \<in> set (relations d). y = r_source r \<or> y = r_target r)"
      then obtain n r where n: "(lineage_rel \<Gamma> d pit None dir ^^ n) i y" "r \<in> set (relations d)" "y = r_source r \<or> y = r_target r" by blast
      then have "get_entity d y \<noteq> None" using ids(2) by (auto simp: ends_exist_def list_all_iff)
      then have "resolvable d None y" using get_entity_Some by (fastforce simp: resolvable_def visible_def)
      then show ?thesis using versions_walk[OF n(1) dir] by blast
    qed
  qed
  show ?thesis using assms(4) one[of "''ancestors''"] one[of "''descendants''"]
    by (auto simp: lifecycle_reached_def split: sum.splits)
qed

lemma lifecycle_rounds_versions:
  assumes "sound_store d" "pit \<noteq> []"
    and "\<forall>y \<in> visited. versions \<Gamma> d pit a y \<and> resolvable d None y" "frontier \<subseteq> visited"
  shows "\<forall>y \<in> lifecycle_rounds \<Gamma> d pit members n visited frontier. versions \<Gamma> d pit a y \<and> resolvable d None y"
  using assms(3,4)
proof (induction n arbitrary: visited frontier)
  case (Suc n)
  define newly where "newly = (\<Union>i \<in> frontier. lifecycle_reached \<Gamma> d pit i) - visited"
  have "versions \<Gamma> d pit a y \<and> resolvable d None y" if newly: "y \<in> newly" for y
  proof -
    obtain i where i: "i \<in> frontier" "y \<in> lifecycle_reached \<Gamma> d pit i" using newly by (auto simp: newly_def)
    then have "versions \<Gamma> d pit a i" "resolvable d None i" using Suc.prems by blast+
    then show ?thesis using lifecycle_reached_versions[OF assms(1) _ assms(2) i(2)] unfolding versions_def by (blast intro: equivclp_trans)
  qed
  then have "\<forall>y \<in> visited \<union> newly. versions \<Gamma> d pit a y \<and> resolvable d None y" using Suc.prems(1) by blast
  then show ?case using Suc.IH[of "visited \<union> newly" newly] Suc.prems(1) by (simp add: Let_def newly_def[symmetric])
qed simp

section \<open>What is admitted\<close>

lemma admit_prefix:
  "admit_conflict_components n cs = (keep, dropped) \<Longrightarrow>
     keep = take (length keep) cs \<and> length cs = length keep + dropped \<and> (n \<le> CONTEXT_EXPANSION_CONTRADICTS_CAP \<longrightarrow>
       n + sum_list (map un_conflict_only_count keep) \<le> CONTEXT_EXPANSION_CONTRADICTS_CAP)"
proof (induction n cs arbitrary: keep dropped rule: admit_conflict_components.induct)
  case (2 n c cs)
  show ?case
  proof (cases "n + un_conflict_only_count c > CONTEXT_EXPANSION_CONTRADICTS_CAP")
    case False
    then obtain k where k: "admit_conflict_components (n + un_conflict_only_count c) cs = (k, dropped)" "keep = c # k"
      using 2(2) by (auto simp: Let_def split: prod.splits)
    then show ?thesis using 2(1)[OF False k(1)] False by auto
  qed (use 2(2) in auto)
qed simp

lemma those_map: "(\<And>x. x \<in> set xs \<Longrightarrow> f x = Some (g x)) \<Longrightarrow> those (map f xs) = Some (map g xs)"
  by (induction xs) auto

text \<open>The component of an id among the contradictions at the hits, as it is built when it is not resolved.\<close>

definition unresolved_of :: "db \<Rightarrow> string set \<Rightarrow> (string \<Rightarrow> real) \<Rightarrow> string set \<Rightarrow> classified \<Rightarrow> unresolved" where
  "unresolved_of d primary score expansion c = the (the (build_unresolved_component d primary score expansion c))"

lemma unresolved_fields:
  assumes "\<not> cl_resolved c" "cl_member_ids c \<inter> primary \<noteq> {}" "finite (cl_member_ids c)"
  shows "build_unresolved_component d primary score expansion c = Some (Some (unresolved_of d primary score expansion c))"
    "map cm_id (un_members (unresolved_of d primary score expansion c)) = sorted_list_of_set (cl_member_ids c)"
    "un_edges (unresolved_of d primary score expansion c) = cl_edges c"
    "un_conflict_only_count (unresolved_of d primary score expansion c) =
       length (filter (\<lambda>m. cm_inclusion m = Conflict_Only) (un_members (unresolved_of d primary score expansion c)))"
    "set (un_members (unresolved_of d primary score expansion c)) = conflict_member_of d primary expansion ` cl_member_ids c"
proof -
  have build: "build_unresolved_component d primary score expansion c = Some (Some
          \<lparr>un_members = map (conflict_member_of d primary expansion) (sorted_list_of_set (cl_member_ids c)),
           un_edges = cl_edges c,
           un_conflict_only_count = card {i \<in> cl_member_ids c. i \<notin> primary \<and> i \<notin> expansion},
           un_tiebreak_score = Max (score ` (cl_member_ids c \<inter> primary)),
           un_member_sort_key = sorted_list_of_set (cl_member_ids c)\<rparr>)"
    using assms(1,2) by (simp add: build_unresolved_component_def Let_def)
  show "build_unresolved_component d primary score expansion c = Some (Some (unresolved_of d primary score expansion c))"
    "un_edges (unresolved_of d primary score expansion c) = cl_edges c"
    "set (un_members (unresolved_of d primary score expansion c)) = conflict_member_of d primary expansion ` cl_member_ids c"
    using assms(3) by (simp_all add: unresolved_of_def build)
  have "cm_id (conflict_member_of d primary expansion i) = i" for i by (simp add: conflict_member_of_def)
  then show "map cm_id (un_members (unresolved_of d primary score expansion c)) = sorted_list_of_set (cl_member_ids c)"
    by (simp add: unresolved_of_def build comp_def)
  have only: "cm_inclusion (conflict_member_of d primary expansion i) = Conflict_Only \<longleftrightarrow> i \<notin> primary \<and> i \<notin> expansion" for i
    by (simp add: conflict_member_of_def)
  have "length (filter (\<lambda>i. i \<notin> primary \<and> i \<notin> expansion) (sorted_list_of_set (cl_member_ids c))) =
      card {i \<in> cl_member_ids c. i \<notin> primary \<and> i \<notin> expansion}"
    using assms(3) by (simp add: distinct_card[symmetric])
  then show "un_conflict_only_count (unresolved_of d primary score expansion c) =
       length (filter (\<lambda>m. cm_inclusion m = Conflict_Only) (un_members (unresolved_of d primary score expansion c)))"
    by (simp add: unresolved_of_def build filter_map comp_def only)
qed

lemma component_members:
  assumes "c \<in> component_of \<Gamma> d pit es ` ends es"
  shows "finite (cl_member_ids c)" "cl_member_ids c \<subseteq> ends es" "\<exists>e \<in> set es. re_source_id e \<in> cl_member_ids c \<and> re_target_id e \<in> cl_member_ids c"
    "x \<in> cl_member_ids c \<Longrightarrow> c = component_of \<Gamma> d pit es x"
proof -
  obtain a where a: "a \<in> ends es" "c = component_of \<Gamma> d pit es a" using assms by blast
  have ids: "cl_member_ids c = {y. equivclp (joined es) a y}" by (simp add: a(2) component_of_def Let_def)
  show sub: "cl_member_ids c \<subseteq> ends es" using ends_closed[OF _ a(1)] by (auto simp: ids)
  moreover have "finite (ends es)" by (simp add: ends_def)
  ultimately show "finite (cl_member_ids c)" by (rule finite_subset)
  obtain e where e: "e \<in> set es" "a = re_source_id e \<or> a = re_target_id e" using a(1) by (auto simp: ends_def)
  then have "joined es (re_source_id e) (re_target_id e)" by (auto simp: joined_def)
  then have "re_source_id e \<in> cl_member_ids c \<and> re_target_id e \<in> cl_member_ids c" using e(2) by (auto simp: ids)
  then show "\<exists>e \<in> set es. re_source_id e \<in> cl_member_ids c \<and> re_target_id e \<in> cl_member_ids c" using e(1) by blast
  show "c = component_of \<Gamma> d pit es x" if "x \<in> cl_member_ids c"
  proof -
    have ax: "equivclp (joined es) a x" using that ids by simp
    then have "{y. equivclp (joined es) x y} = {y. equivclp (joined es) a y}" by (auto intro: equivclp_trans equivclp_sym)
    then show ?thesis by (simp add: a(2) component_of_def)
  qed
qed

lemma sort_key_map_list: "sort_key f (map g xs) = map g (sort_key (f \<circ> g) xs)"
proof (induction xs)
  case (Cons x xs)
  have "insort_key f (g x) (map g ys) = map g (insort_key (f \<circ> g) x ys)" for ys by (induction ys) auto
  then show ?case using Cons by (simp add: comp_def)
qed simp

lemma distinct_listed_sets:
  "distinct xs \<Longrightarrow> (\<And>x. x \<in> set xs \<Longrightarrow> finite (f x)) \<Longrightarrow>
     (\<And>x y i. x \<in> set xs \<Longrightarrow> y \<in> set xs \<Longrightarrow> i \<in> f x \<Longrightarrow> i \<in> f y \<Longrightarrow> x = y) \<Longrightarrow>
     distinct (concat (map (\<lambda>x. sorted_list_of_set (f x)) xs))"
proof (induction xs)
  case (Cons x xs)
  have "i \<notin> f y" if "i \<in> f x" "y \<in> set xs" for i y using Cons.prems(1) Cons.prems(3)[of x y i] that by auto
  moreover have "finite (f y)" if "y \<in> set xs" for y using Cons.prems(2) that by simp
  moreover have "distinct (concat (map (\<lambda>x. sorted_list_of_set (f x)) xs))" using Cons by auto
  ultimately show ?case using Cons.prems(2)[of x] by fastforce
qed simp

lemma map_filter_cases: "List.map_filter id (map (\<lambda>c. if Q c then None else Some (u c)) cs) = map u (filter (\<lambda>c. \<not> Q c) cs)"
  by (induction cs) (auto simp: List.map_filter_def)

lemma assembled:
  assumes "\<forall>e \<in> set (er_contradicts_edges er). re_source_id e \<in> P \<or> re_target_id e \<in> P" "P = set (map ph_id hits)"
    "X = set (map ec_entity_id (er_expansion_candidates er))" "es = er_contradicts_edges er"
  obtains cs where "set cs = component_of \<Gamma> d pit es ` ends es" "distinct (map cl_member_ids cs)"
    "\<And>c. c \<in> set cs \<Longrightarrow> cl_member_ids c \<inter> P \<noteq> {}"
    "assemble_conflict_sets \<Gamma> d er hits pit =
       Some (conflict_sets_of (map (unresolved_of d P (score_of hits) X) (filter (\<lambda>c. \<not> cl_resolved c) cs)))"
proof -
  obtain cs where cs: "classify_contradicts_components \<Gamma> d es pit = Some cs"
    "set cs = component_of \<Gamma> d pit es ` ends es" "distinct (map cl_member_ids cs)"
    using classify_components by blast
  have touch: "cl_member_ids c \<inter> P \<noteq> {}" if "c \<in> set cs" for c
    using component_members(3)[of c \<Gamma> d pit es] that cs(2) assms(1,4) by blast
  have "build_unresolved_component d P (score_of hits) X c =
      Some (if cl_resolved c then None else Some (unresolved_of d P (score_of hits) X c))" if c: "c \<in> set cs" for c
  proof (cases "cl_resolved c")
    case False
    have "finite (cl_member_ids c)" using component_members(1) c unfolding cs(2) .
    then show ?thesis using unresolved_fields(1)[OF False touch[OF c]] False by simp
  qed (simp add: build_unresolved_component_def)
  then have built: "those (map (build_unresolved_component d P (score_of hits) X) cs) =
      Some (map (\<lambda>c. if cl_resolved c then None else Some (unresolved_of d P (score_of hits) X c)) cs)" by (rule those_map)
  have "assemble_conflict_sets \<Gamma> d er hits pit =
      Some (conflict_sets_of (map (unresolved_of d P (score_of hits) X) (filter (\<lambda>c. \<not> cl_resolved c) cs)))"
  proof (cases "es = []")
    case True
    then have "cs = []" using cs(2) by (simp add: ends_def)
    then show ?thesis using True assms(4) by (simp add: assemble_conflict_sets_def)
  next
    case False
    have "assemble_conflict_sets \<Gamma> d er hits pit = Option.bind (classify_contradicts_components \<Gamma> d es pit) (\<lambda>components.
        Option.bind (those (map (build_unresolved_component d P (score_of hits) X) components)) (\<lambda>built.
          Some (conflict_sets_of (List.map_filter id built))))"
      using False unfolding assms(2,3,4) by (simp add: assemble_conflict_sets_def Let_def)
    then show ?thesis by (simp add: cs(1) built map_filter_cases)
  qed
  then show ?thesis using that cs touch by blast
qed

lemma conflict_sets_answer:
  assumes "sound_store d" "P = set (map ph_id hits)" "anchored d agent P" "set order = P"
    "pit = py_or point_in_time (now_iso \<Gamma>)" "pit \<noteq> []"
    "er = expand_context_candidates \<Gamma> d hits point_in_time agent order" "es = er_contradicts_edges er"
    "X = set (map ec_entity_id (er_expansion_candidates er))"
  shows "\<exists>res. assemble_conflict_sets \<Gamma> d er hits pit = Some res \<and>
    length (filter (\<lambda>m. cm_inclusion m = Conflict_Only) (concat (map cs_members (csr_conflict_sets res)))) \<le> 5 \<and>
    distinct (map cm_id (concat (map cs_members (csr_conflict_sets res)))) \<and>
    cr_eligible_count (csr_contradicts_cap res) = length (csr_conflict_sets res) + cr_dropped_count (csr_contradicts_cap res) \<and>
    (\<forall>s \<in> set (csr_conflict_sets res). \<exists>x \<in> P. cm_id ` set (cs_members s) = {y. equivclp (joined es) x y} \<and>
       \<not> component_lifecycle_resolved \<Gamma> d pit {y. equivclp (joined es) x y} \<and>
       cs_edges s = filter (\<lambda>e. equivclp (joined es) x (re_source_id e)) es \<and>
       set (cs_members s) = conflict_member_of d P X ` {y. equivclp (joined es) x y})"
proof -
  have "\<forall>e \<in> set (er_contradicts_edges er). re_source_id e \<in> P \<or> re_target_id e \<in> P"
    unfolding assms(7) expansion_contradicts[OF assms(1-6)] by (auto simp: raw_edge_of_relation_def adjacent_edges_def)
  from assembled[OF this assms(2,9,8)]
  obtain cs where cs: "set cs = component_of \<Gamma> d pit es ` ends es" "distinct (map cl_member_ids cs)"
    "\<And>c. c \<in> set cs \<Longrightarrow> cl_member_ids c \<inter> P \<noteq> {}"
    and asm: "assemble_conflict_sets \<Gamma> d er hits pit =
      Some (conflict_sets_of (map (unresolved_of d P (score_of hits) X) (filter (\<lambda>c. \<not> cl_resolved c) cs)))" by metis
  let ?U = "unresolved_of d P (score_of hits) X"
  define open_cs where "open_cs = filter (\<lambda>c. \<not> cl_resolved c) cs"
  define ds where "ds = sort_key (unresolved_key \<circ> ?U) open_cs"
  obtain keep dropped where admit: "admit_conflict_components 0 (map ?U ds) = (keep, dropped)" by fastforce
  define k where "k = length keep"
  have kept: "keep = map ?U (take k ds)" "length ds = k + dropped" "sum_list (map un_conflict_only_count keep) \<le> 5"
    using admit_prefix[OF admit] by (simp_all add: take_map k_def CONTEXT_EXPANSION_CONTRADICTS_CAP_def)
  have sorted: "sort_key unresolved_key (map ?U open_cs) = map ?U ds" unfolding ds_def sort_key_map_list ..
  have length_ds: "length open_cs = length ds" by (simp add: ds_def)
  define res where "res = conflict_sets_of (map ?U open_cs)"
  have res: "assemble_conflict_sets \<Gamma> d er hits pit = Some res" unfolding res_def open_cs_def by (rule asm)
  have sets: "csr_conflict_sets res = map (\<lambda>c. \<lparr>cs_members = un_members (?U c), cs_edges = un_edges (?U c)\<rparr>) (take k ds)"
    "cr_eligible_count (csr_contradicts_cap res) = k + dropped" "cr_dropped_count (csr_contradicts_cap res) = dropped"
    using kept(2) length_ds by (simp_all add: res_def conflict_sets_of_def sorted admit kept(1))
  have c: "c \<in> set cs" "\<not> cl_resolved c" "finite (cl_member_ids c)" if "c \<in> set (take k ds)" for c
    using in_set_takeD[OF that] component_members(1)[of c \<Gamma> d pit es] by (auto simp: ds_def open_cs_def cs(1))
  note fields = unresolved_fields[OF c(2) cs(3)[OF c(1)] c(3)]
  have "concat (map cs_members (csr_conflict_sets res)) = concat (map (\<lambda>c. un_members (?U c)) (take k ds))"
    by (simp add: sets(1) comp_def)
  moreover have "length (filter Q (concat xss)) = sum_list (map (\<lambda>xs. length (filter Q xs)) xss)" for Q :: "conflict_member \<Rightarrow> bool" and xss
    by (induction xss) auto
  ultimately have "length (filter (\<lambda>m. cm_inclusion m = Conflict_Only) (concat (map cs_members (csr_conflict_sets res)))) =
      sum_list (map un_conflict_only_count keep)"
    unfolding kept(1) using fields(4) by (simp add: comp_def cong: map_cong)
  then have five: "length (filter (\<lambda>m. cm_inclusion m = Conflict_Only) (concat (map cs_members (csr_conflict_sets res)))) \<le> 5"
    using kept(3) by simp
  have ids: "map cm_id (concat (map cs_members (csr_conflict_sets res))) = concat (map (\<lambda>c. sorted_list_of_set (cl_member_ids c)) (take k ds))"
    using fields(2) by (simp add: sets(1) map_concat comp_def cong: map_cong)
  have "distinct ds" using cs(2) by (simp add: ds_def open_cs_def distinct_map)
  then have "distinct (take k ds)" by (rule distinct_take)
  moreover have "c = c'" if "c \<in> set (take k ds)" "c' \<in> set (take k ds)" "x \<in> cl_member_ids c" "x \<in> cl_member_ids c'" for c c' x
    using component_members(4)[of c \<Gamma> d pit es x] component_members(4)[of c' \<Gamma> d pit es x] c(1) that unfolding cs(1) by metis
  ultimately have apart: "distinct (map cm_id (concat (map cs_members (csr_conflict_sets res))))"
    unfolding ids using c(3) by (intro distinct_listed_sets) blast+
  have set_exact: "\<exists>x \<in> P. cm_id ` set (cs_members s) = {y. equivclp (joined es) x y} \<and>
       \<not> component_lifecycle_resolved \<Gamma> d pit {y. equivclp (joined es) x y} \<and>
       cs_edges s = filter (\<lambda>e. equivclp (joined es) x (re_source_id e)) es \<and>
       set (cs_members s) = conflict_member_of d P X ` {y. equivclp (joined es) x y}" if s: "s \<in> set (csr_conflict_sets res)" for s
  proof -
    obtain a where a: "a \<in> set (take k ds)" "s = \<lparr>cs_members = un_members (?U a), cs_edges = un_edges (?U a)\<rparr>"
      using s unfolding sets(1) by auto
    obtain x where x: "x \<in> cl_member_ids a" "x \<in> P" using cs(3)[OF c(1)[OF a(1)]] by blast
    have ax: "a = component_of \<Gamma> d pit es x" using component_members(4) x(1) c(1)[OF a(1)] unfolding cs(1) by blast
    have members: "cl_member_ids a = {y. equivclp (joined es) x y}" "cl_edges a = filter (\<lambda>e. equivclp (joined es) x (re_source_id e)) es"
      "cl_resolved a = component_lifecycle_resolved \<Gamma> d pit {y. equivclp (joined es) x y}"
      unfolding ax by (simp_all add: component_of_def Let_def)
    have "cm_id (conflict_member_of d P X i) = i" for i by (simp add: conflict_member_of_def)
    then have "cm_id ` set (cs_members s) = cl_member_ids a" unfolding a(2) by (simp add: fields(5)[OF a(1) a(1) a(1)] image_image)
    then show ?thesis using x(2) c(2)[OF a(1)] fields(3)[OF a(1) a(1) a(1)] fields(5)[OF a(1) a(1) a(1)] members a(2)
      by (intro bexI[of _ x]) simp_all
  qed
  have "length (csr_conflict_sets res) = k" unfolding sets(1) using kept(2) by simp
  then show ?thesis using res five apart set_exact sets(2,3) by (intro exI[of _ res]) simp
qed

section \<open>A sample\<close>

text \<open>\<open>a\<close> contradicts \<open>b\<close> and \<open>c\<close>, and \<open>e\<close>, an archived version of \<open>c\<close>, contradicts \<open>c\<close>.\<close>

definition dispute_db :: db where
  "dispute_db = sample_db\<lparr>entities := [version ''a'', version ''b'', version ''c'', (version ''e'')\<lparr>e_status := Archived\<rparr>],
     relations := [version_edge ''r1'' ''a'' ''b'' ''contradicts'', version_edge ''r2'' ''c'' ''a'' ''contradicts'',
       version_edge ''r3'' ''e'' ''c'' ''contradicts'', version_edge ''r4'' ''c'' ''e'' ''supersedes'']\<rparr>"

definition dispute_edges :: "raw_edge list" where
  "dispute_edges = map raw_edge_of_relation (filter (\<lambda>r. r_predicate r = ''contradicts'') (relations dispute_db))"

lemma dispute_sound: "sound_store dispute_db" "anchored dispute_db (Some ''b'') {''a''}"
  "\<forall>m \<in> {''c'', ''e''}. resolvable dispute_db None m"
  by code_simp+

lemma dispute_resolved: "component_lifecycle_resolved sample_env dispute_db ''1970-01-01'' {''c'', ''e''}"
  by code_simp

section \<open>Properties\<close>

text \<open>
  C26. The contradictions are grouped into connected components. For every list of contradiction edges
  the classification returns (its recursive \<open>find\<close> ends and its dictionaries have every key that is
  read), every memory at an end is in exactly one answered component, that component holds exactly the
  memories that chains of contradictions join to it, and all their edges, in their order.
\<close>

theorem conflict_components_exact:
  "\<exists>cs. classify_contradicts_components \<Gamma> d es pit = Some cs \<and> distinct (map cl_member_ids cs) \<and>
     \<Union> (cl_member_ids ` set cs) = ends es \<and>
     (\<forall>c \<in> set cs. \<forall>x \<in> cl_member_ids c. cl_member_ids c = {y. equivclp (joined es) x y} \<and>
        cl_edges c = filter (\<lambda>e. re_source_id e \<in> cl_member_ids c) es \<and>
        (\<forall>c' \<in> set cs. x \<in> cl_member_ids c' \<longrightarrow> c' = c))"
proof -
  obtain cs where cs: "classify_contradicts_components \<Gamma> d es pit = Some cs"
    "set cs = component_of \<Gamma> d pit es ` ends es" "distinct (map cl_member_ids cs)"
    using classify_components by blast
  have fields: "cl_member_ids (component_of \<Gamma> d pit es x) = {y. equivclp (joined es) x y}"
    "cl_edges (component_of \<Gamma> d pit es x) = filter (\<lambda>e. re_source_id e \<in> {y. equivclp (joined es) x y}) es" for x
    by (simp_all add: component_of_def Let_def)
  have "\<Union> (cl_member_ids ` set cs) = ends es"
  proof
    show "\<Union> (cl_member_ids ` set cs) \<subseteq> ends es" using component_members(2) unfolding cs(2) by blast
    show "ends es \<subseteq> \<Union> (cl_member_ids ` set cs)" unfolding cs(2) by (auto simp: fields)
  qed
  moreover have "cl_member_ids c = {y. equivclp (joined es) x y} \<and>
      cl_edges c = filter (\<lambda>e. re_source_id e \<in> cl_member_ids c) es \<and> (\<forall>c' \<in> set cs. x \<in> cl_member_ids c' \<longrightarrow> c' = c)"
    if c: "c \<in> set cs" "x \<in> cl_member_ids c" for c x
  proof -
    have cx: "c = component_of \<Gamma> d pit es x" using component_members(4) c unfolding cs(2) by blast
    have ids: "cl_member_ids c = {y. equivclp (joined es) x y}" unfolding cx by (rule fields(1))
    have "cl_edges c = filter (\<lambda>e. re_source_id e \<in> cl_member_ids c) es" unfolding ids unfolding cx by (rule fields(2))
    moreover have "c' = c" if "c' \<in> set cs" "x \<in> cl_member_ids c'" for c'
      using component_members(4) that cx unfolding cs(2) by blast
    ultimately show ?thesis using ids by blast
  qed
  ultimately show ?thesis using cs(1,3) by blast
qed

theorem conflict_components_exact_witness:
  "\<exists>cs. classify_contradicts_components sample_env dispute_db dispute_edges ''1970-01-01'' = Some cs \<and>
     \<Union> (cl_member_ids ` set cs) = {''a'', ''b'', ''c'', ''e''}"
proof -
  obtain cs where cs: "classify_contradicts_components sample_env dispute_db dispute_edges ''1970-01-01'' = Some cs"
    "\<Union> (cl_member_ids ` set cs) = ends dispute_edges"
    using conflict_components_exact[of sample_env dispute_db dispute_edges "''1970-01-01''"] by (elim exE conjE) (rule that)
  have "ends dispute_edges = {''a'', ''b'', ''c'', ''e''}" by code_simp
  with cs(2) have "\<Union> (cl_member_ids ` set cs) = {''a'', ''b'', ''c'', ''e''}" by (rule trans)
  with cs(1) show ?thesis by (intro exI conjI)
qed

text \<open>
  A component counts as resolved only with reason: exactly one of its memories is not archived, and
  any two of them are versions of each other, joined by valid lifecycle edges.
\<close>

lemma resolved_component_sound:
  assumes "component_lifecycle_resolved \<Gamma> d pit members" "sound_store d" "pit \<noteq> []" "finite members"
    "\<forall>m \<in> members. resolvable d None m"
  shows "(\<exists>!m. m \<in> members \<and> status_of d m \<noteq> Some Archived) \<and> (\<forall>x \<in> members. \<forall>y \<in> members. versions \<Gamma> d pit x y)"
proof -
  let ?a = "Min members"
  have one: "card {m \<in> members. status_of d m \<noteq> Some Archived} = 1"
    and sub: "members \<subseteq> lifecycle_rounds \<Gamma> d pit members SUPERSESSION_CHAIN_MAX_DEPTH {?a} {?a}"
    using assms(1) by (simp_all add: component_lifecycle_resolved_def Let_def)
  obtain a where a: "{m \<in> members. status_of d m \<noteq> Some Archived} = {a}" using one by (rule card_1_singletonE)
  have only: "m \<in> members \<and> status_of d m \<noteq> Some Archived \<longleftrightarrow> m = a" for m using a[THEN eqset_imp_iff, of m] by simp
  then have single: "\<exists>!m. m \<in> members \<and> status_of d m \<noteq> Some Archived" by simp
  have "a \<in> members" using only[of a] by simp
  then have "?a \<in> members" using Min_in[OF assms(4)] by blast
  then have "\<forall>y \<in> {?a}. versions \<Gamma> d pit ?a y \<and> resolvable d None y" using assms(5) by (simp add: versions_def)
  from lifecycle_rounds_versions[OF assms(2,3) this, of "{?a}"] have "\<forall>y \<in> members. versions \<Gamma> d pit ?a y" using sub by blast
  then have "\<forall>x \<in> members. \<forall>y \<in> members. versions \<Gamma> d pit x y" unfolding versions_def by (meson equivclp_sym equivclp_trans)
  then show ?thesis using single by blast
qed

lemma resolved_component_sound_witness: "versions sample_env dispute_db ''1970-01-01'' ''c'' ''e''"
  using resolved_component_sound[OF dispute_resolved dispute_sound(1) _ _ dispute_sound(3)] by simp

text \<open>
  C27. Conflict sets. For the edges that expansion surfaces, the assembly never fails; each conflict set
  is one unresolved component, listed once with all its memories and edges, and has a primary hit; no
  memory is in two sets; every member says truthfully whether it is a hit, a candidate or included for
  the conflict only; and all sets together include at most five memories for the conflict only.
\<close>

theorem conflict_sets_exact:
  assumes "sound_store d" "P = set (map ph_id hits)" "anchored d agent P" "set order = P"
    "pit = py_or point_in_time (now_iso \<Gamma>)" "pit \<noteq> []"
    "er = expand_context_candidates \<Gamma> d hits point_in_time agent order" "es = er_contradicts_edges er"
    "X = set (map ec_entity_id (er_expansion_candidates er))"
  shows "\<exists>res. assemble_conflict_sets \<Gamma> d er hits pit = Some res \<and>
    length (filter (\<lambda>m. cm_inclusion m = Conflict_Only) (concat (map cs_members (csr_conflict_sets res)))) \<le> 5 \<and>
    distinct (map cm_id (concat (map cs_members (csr_conflict_sets res)))) \<and>
    cr_eligible_count (csr_contradicts_cap res) = length (csr_conflict_sets res) + cr_dropped_count (csr_contradicts_cap res) \<and>
    (\<forall>s \<in> set (csr_conflict_sets res). \<exists>x \<in> P. cm_id ` set (cs_members s) = {y. equivclp (joined es) x y} \<and>
       \<not> component_lifecycle_resolved \<Gamma> d pit {y. equivclp (joined es) x y} \<and>
       cs_edges s = filter (\<lambda>e. equivclp (joined es) x (re_source_id e)) es \<and>
       set (cs_members s) = conflict_member_of d P X ` {y. equivclp (joined es) x y})"
  using assms by (rule conflict_sets_answer)

theorem conflict_sets_exact_witness:
  "\<exists>res. assemble_conflict_sets sample_env dispute_db
      (expand_context_candidates sample_env dispute_db ring_hits None (Some ''b'') [''a'']) ring_hits ''1970-01-01'' = Some res \<and>
    length (filter (\<lambda>m. cm_inclusion m = Conflict_Only) (concat (map cs_members (csr_conflict_sets res)))) \<le> 5"
proof -
  have now: "''1970-01-01'' = py_or None (now_iso sample_env)" "''1970-01-01'' \<noteq> ([] :: string)" by code_simp+
  have a: "{''a''} = set (map ph_id ring_hits)" "set [''a''] = {''a''}" by code_simp+
  obtain res where "assemble_conflict_sets sample_env dispute_db
      (expand_context_candidates sample_env dispute_db ring_hits None (Some ''b'') [''a'']) ring_hits ''1970-01-01'' = Some res"
    "length (filter (\<lambda>m. cm_inclusion m = Conflict_Only) (concat (map cs_members (csr_conflict_sets res)))) \<le> 5"
    using conflict_sets_exact[OF dispute_sound(1) a(1) dispute_sound(2) a(2) now refl refl refl] by (elim exE conjE) (rule that)
  then show ?thesis by (intro exI conjI)
qed

text \<open>The sample evaluated: one set with the hit and two memories included for the conflict only.\<close>

lemma dispute_conflict_set:
  "case assemble_conflict_sets sample_env dispute_db
      (expand_context_candidates sample_env dispute_db ring_hits None (Some ''b'') [''a'']) ring_hits ''1970-01-01'' of
     None \<Rightarrow> False
   | Some res \<Rightarrow> map (\<lambda>s. map (\<lambda>m. (cm_id m, cm_inclusion m)) (cs_members s)) (csr_conflict_sets res) =
       [[(''a'', Primary), (''b'', Conflict_Only), (''c'', Conflict_Only)]]"
  by code_simp

end
