(* ===== verification/Communities.thy ===== *)
theory Communities
  imports Context_Expansion
begin

text \<open>
  Retrieval over communities: the assignment of unconnected hits to a community,
  \<^verbatim>\<open>src/src/saltmdb/domain/services/orphan_community_service.py\<close>, and the global retrieval over leaf
  communities, \<^verbatim>\<open>src/src/saltmdb/domain/services/community_retrieval_service.py\<close>, with the query for leaf
  communities of \<^verbatim>\<open>community_detection_service.py\<close>. An embedding is a value of an arbitrary type \<open>'v\<close>; its
  similarity to another, the dot product of the normalised vectors that numpy computes, and the embedding
  of a text are arguments. Similarities are real numbers: the rounding of floats is not modelled.
\<close>

section \<open>Tables and services\<close>

record 'v community_tables =
  communities :: "(string \<times> string option) list"
  community_embeddings :: "(string \<times> 'v) list"
  community_membership :: "(string \<times> string) list"
  entity_embeddings :: "(string \<times> 'v) list"
  vector_extension :: bool

text \<open>What comes from libraries: similarity, embedding and token counts; and the order in which Python runs over a set.\<close>

record 'v services =
  similarity_of :: "'v \<Rightarrow> 'v \<Rightarrow> real"
  embed_text :: "string \<Rightarrow> 'v"
  token_count :: "string \<Rightarrow> nat"
  set_order :: "string set \<Rightarrow> string list"

definition COMMUNITY_ORPHAN_SIMILARITY_THRESHOLD :: real where
  "COMMUNITY_ORPHAN_SIMILARITY_THRESHOLD = 3 / 5"

definition CONTEXT_EXPANSION_ORPHAN_COMMUNITY_CAP :: nat where
  "CONTEXT_EXPANSION_ORPHAN_COMMUNITY_CAP = 5"

definition CONTEXT_GLOBAL_TOP_K_COMMUNITIES :: nat where
  "CONTEXT_GLOBAL_TOP_K_COMMUNITIES = 10"

definition CONTEXT_GLOBAL_SEED_SIMILARITY_GAP :: real where
  "CONTEXT_GLOBAL_SEED_SIMILARITY_GAP = 1 / 10"

definition CONTEXT_GLOBAL_REPRESENTATIVE_RESERVE_CAP :: nat where
  "CONTEXT_GLOBAL_REPRESENTATIVE_RESERVE_CAP = 5"

definition CONTEXT_GLOBAL_REPRESENTATIVE_SIMILARITY_GAP :: real where
  "CONTEXT_GLOBAL_REPRESENTATIVE_SIMILARITY_GAP = 1 / 10"

definition CONTEXT_GLOBAL_MEMBER_POOL_CAP :: nat where
  "CONTEXT_GLOBAL_MEMBER_POOL_CAP = 30"

text \<open>Community rows with an embedding and without a child community.\<close>

definition fetch_leaf_community_centroids :: "'v community_tables \<Rightarrow> (string \<times> 'v) list" where
  "fetch_leaf_community_centroids T =
     filter (\<lambda>(c, _). c \<in> set (map fst (communities T)) \<and> Some c \<notin> set (map snd (communities T))) (community_embeddings T)"

text \<open>The clause \<open>JOIN entities e ... e.agent_id = ? OR e.scope = 'shared'\<close>: an entity that exists and is visible.\<close>

definition joined_entity :: "db \<Rightarrow> string option \<Rightarrow> string \<Rightarrow> bool" where
  "joined_entity d agent i = (case get_entity d i of Some e \<Rightarrow> visible agent e | None \<Rightarrow> False)"

definition visible_centroids :: "db \<Rightarrow> 'v community_tables \<Rightarrow> string option \<Rightarrow> (string \<times> 'v) list" where
  "visible_centroids d T agent =
     (if agent = None then fetch_leaf_community_centroids T
      else filter (\<lambda>(c, _). \<exists>m \<in> set (community_membership T). fst m = c \<and> joined_entity d agent (snd m))
             (fetch_leaf_community_centroids T))"

text \<open>The members of a community that the query returns.\<close>

definition member_rows :: "db \<Rightarrow> 'v community_tables \<Rightarrow> string option \<Rightarrow> string \<Rightarrow> string list" where
  "member_rows d T agent c =
     map snd (filter (\<lambda>(c', i). c' = c \<and> joined_entity d agent i) (community_membership T))"

section \<open>Orphans\<close>

record orphan_match =
  om_entity_id :: string
  om_title :: string
  om_similarity :: real
  om_orphan_entity_id :: string
  om_community_id :: string

record orphan_result =
  or_matches :: "orphan_match list"
  or_cap :: cap_report

definition zero_result :: orphan_result where
  "zero_result = \<lparr>or_matches = [], or_cap = \<lparr>cr_cap = CONTEXT_EXPANSION_ORPHAN_COMMUNITY_CAP, cr_eligible_count = 0,
     cr_truncated = False, cr_dropped_count = 0\<rparr>\<rparr>"

text \<open>The best community of an orphan, if it is similar enough.\<close>

definition best_community :: "'v services \<Rightarrow> (string \<times> 'v) list \<Rightarrow> 'v \<Rightarrow> string option" where
  "best_community S centroids v =
     (case sort_key (\<lambda>(s, c). (- s, c)) (map (\<lambda>(c, w). (similarity_of S v w, c)) centroids) of
        [] \<Rightarrow> None
      | (s, c) # _ \<Rightarrow> if s \<ge> COMMUNITY_ORPHAN_SIMILARITY_THRESHOLD then Some c else None)"

definition assign_orphans :: "'v services \<Rightarrow> (string \<times> 'v) list \<Rightarrow> (string \<times> 'v) list \<Rightarrow> (string \<times> string) list" where
  "assign_orphans S orphan_vectors centroids =
     List.map_filter (\<lambda>(i, v). map_option (Pair i) (best_community S centroids v)) orphan_vectors"

record candidate_row =
  ca_member_id :: string
  ca_orphan_id :: string
  ca_community_id :: string
  ca_similarity :: real

definition candidate_rows ::
  "'v services \<Rightarrow> db \<Rightarrow> 'v community_tables \<Rightarrow> (string \<times> string) list \<Rightarrow> (string \<times> 'v) list \<Rightarrow> string set \<Rightarrow> string option \<Rightarrow> candidate_row list" where
  "candidate_rows S d T assignments orphan_vectors excluded agent =
     concat (map (\<lambda>(orphan, c).
       let members = filter (\<lambda>i. i \<noteq> orphan \<and> i \<notin> excluded) (member_rows d T agent c)
       in case map_of orphan_vectors orphan of
            None \<Rightarrow> []
          | Some v \<Rightarrow> map (\<lambda>(i, w). \<lparr>ca_member_id = i, ca_orphan_id = orphan, ca_community_id = c, ca_similarity = similarity_of S v w\<rparr>)
              (filter (\<lambda>(i, _). i \<in> set members) (entity_embeddings T))) assignments)"

text \<open>The dictionary of the best row per member: a later row replaces an earlier one only if it is strictly better.\<close>

definition keep_best :: "candidate_row \<Rightarrow> (string \<times> candidate_row) list \<Rightarrow> (string \<times> candidate_row) list" where
  "keep_best r best =
     (case map_of best (ca_member_id r) of
        None \<Rightarrow> AList.update (ca_member_id r) r best
      | Some r' \<Rightarrow> if ca_similarity r > ca_similarity r' then AList.update (ca_member_id r) r best else best)"

definition candidate_key :: "candidate_row \<Rightarrow> real \<times> string" where
  "candidate_key r = (- ca_similarity r, ca_member_id r)"

definition rank_orphan_candidates :: "candidate_row list \<Rightarrow> candidate_row list" where
  "rank_orphan_candidates rows = sort_key candidate_key (map snd (fold keep_best rows []))"

definition title_or_unknown :: "db \<Rightarrow> string \<Rightarrow> string" where
  "title_or_unknown d i = (case get_entity d i of Some e \<Rightarrow> e_title e | None \<Rightarrow> ''Unknown'')"

definition build_orphan_result :: "db \<Rightarrow> candidate_row list \<Rightarrow> orphan_result" where
  "build_orphan_result d rows =
     (let ranked = rank_orphan_candidates rows; cap = CONTEXT_EXPANSION_ORPHAN_COMMUNITY_CAP
      in \<lparr>or_matches = map (\<lambda>r. \<lparr>om_entity_id = ca_member_id r, om_title = title_or_unknown d (ca_member_id r),
            om_similarity = ca_similarity r, om_orphan_entity_id = ca_orphan_id r, om_community_id = ca_community_id r\<rparr>)
            (take cap ranked),
          or_cap = \<lparr>cr_cap = cap, cr_eligible_count = length ranked, cr_truncated = (length ranked - cap > 0),
                    cr_dropped_count = length ranked - cap\<rparr>\<rparr>)"

definition find_orphan_community_matches ::
  "'v services \<Rightarrow> db \<Rightarrow> 'v community_tables \<Rightarrow> string list \<Rightarrow> string set \<Rightarrow> string option \<Rightarrow> orphan_result" where
  "find_orphan_community_matches S d T primary_ids excluded agent =
     (let orphans = filter (\<lambda>i. i \<notin> set (map snd (community_membership T))) primary_ids;
          centroids = visible_centroids d T agent;
          vectors = filter (\<lambda>(i, _). i \<in> set orphans) (entity_embeddings T);
          assignment = assign_orphans S vectors centroids
      in if orphans = [] \<or> \<not> vector_extension T \<or> centroids = [] \<or> assignment = [] then zero_result
         else build_orphan_result d (candidate_rows S d T assignment vectors excluded agent))"

section \<open>Global retrieval\<close>

record gap_report = cap_report +
  cr_gap_dropped_count :: nat

text \<open>The loop with the relative gap: the first item is admitted, the rest as long as they stay close to it.\<close>

fun within_gap :: "real \<Rightarrow> ('a \<Rightarrow> real) \<Rightarrow> 'a list \<Rightarrow> 'a list" where
  "within_gap gap f [] = []"
| "within_gap gap f (x # xs) = x # takeWhile (\<lambda>y. \<not> f x - f y > gap) xs"

definition gap_cap_report :: "nat \<Rightarrow> 'a list \<Rightarrow> 'b list \<Rightarrow> 'c list \<Rightarrow> gap_report" where
  "gap_cap_report cap ranked capped admitted =
     \<lparr>cr_cap = cap, cr_eligible_count = length ranked,
      cr_truncated = (length ranked > cap \<or> length admitted < length capped),
      cr_dropped_count = length ranked - cap, cr_gap_dropped_count = length capped - length admitted\<rparr>"

definition seed_communities ::
  "'v services \<Rightarrow> db \<Rightarrow> 'v community_tables \<Rightarrow> 'v \<Rightarrow> string option \<Rightarrow> (string \<times> real) list \<times> gap_report" where
  "seed_communities S d T q agent =
     (let ranked = sort_key (\<lambda>(c, s). (- s, c)) (map (\<lambda>(c, w). (c, similarity_of S q w)) (visible_centroids d T agent));
          capped = take CONTEXT_GLOBAL_TOP_K_COMMUNITIES ranked;
          seeded = within_gap CONTEXT_GLOBAL_SEED_SIMILARITY_GAP snd capped
      in (seeded, gap_cap_report CONTEXT_GLOBAL_TOP_K_COMMUNITIES ranked capped seeded))"

text \<open>A member of several seeded communities counts for the last of them.\<close>

definition community_of_member :: "db \<Rightarrow> 'v community_tables \<Rightarrow> string option \<Rightarrow> string list \<Rightarrow> string \<Rightarrow> string option" where
  "community_of_member d T agent seeded_ids i =
     map_of (rev (concat (map (\<lambda>c. map (\<lambda>j. (j, c)) (member_rows d T agent c)) seeded_ids))) i"

definition score_members ::
  "'v services \<Rightarrow> db \<Rightarrow> 'v community_tables \<Rightarrow> string list \<Rightarrow> 'v \<Rightarrow> string option \<Rightarrow> string \<Rightarrow> (string \<times> real) list" where
  "score_members S d T seeded_ids q agent c =
     map (\<lambda>(i, w). (i, similarity_of S q w))
       (filter (\<lambda>(i, _). community_of_member d T agent seeded_ids i = Some c) (entity_embeddings T))"

type_synonym scored = "string \<times> string \<times> real"

definition scored_key :: "scored \<Rightarrow> real \<times> string" where
  "scored_key = (\<lambda>(i, c, s). (- s, i))"

text \<open>Per seeded community: the best member, if any has an embedding, and the others.\<close>

definition community_ranking :: "string \<times> real \<Rightarrow> (string \<Rightarrow> (string \<times> real) list) \<Rightarrow> scored list" where
  "community_ranking cs scored_by = (let c = fst cs in
     map (\<lambda>(i, s). (i, c, s)) (sort_key (\<lambda>(i, s). (- s, i)) (scored_by c)))"

record pool_report =
  pr_representatives :: "scored list"
  pr_members :: "scored list"
  pr_representative_reserve :: gap_report
  pr_member_pool :: cap_report

definition rank_candidates :: "(string \<times> real) list \<Rightarrow> (string \<Rightarrow> (string \<times> real) list) \<Rightarrow> pool_report" where
  "rank_candidates seeded scored_by =
     (let rankings = filter (\<lambda>r. r \<noteq> []) (map (\<lambda>cs. community_ranking cs scored_by) seeded);
          representative_candidates = sort_key scored_key (map hd rankings);
          representative_capped = take CONTEXT_GLOBAL_REPRESENTATIVE_RESERVE_CAP representative_candidates;
          representative_admitted = within_gap CONTEXT_GLOBAL_REPRESENTATIVE_SIMILARITY_GAP (\<lambda>x. snd (snd x)) representative_capped;
          member_candidates = sort_key scored_key (concat (map tl rankings))
      in \<lparr>pr_representatives = representative_admitted,
          pr_members = take CONTEXT_GLOBAL_MEMBER_POOL_CAP member_candidates,
          pr_representative_reserve = gap_cap_report CONTEXT_GLOBAL_REPRESENTATIVE_RESERVE_CAP representative_candidates
            representative_capped representative_admitted,
          pr_member_pool = \<lparr>cr_cap = CONTEXT_GLOBAL_MEMBER_POOL_CAP, cr_eligible_count = length member_candidates,
            cr_truncated = (length member_candidates > CONTEXT_GLOBAL_MEMBER_POOL_CAP),
            cr_dropped_count = length member_candidates - CONTEXT_GLOBAL_MEMBER_POOL_CAP\<rparr>\<rparr>)"

record community_match =
  mm_entity_id :: string
  mm_title :: string
  mm_community_id :: string
  mm_similarity :: real

record seed_result =
  sr_representative_matches :: "community_match list"
  sr_member_matches :: "community_match list"
  sr_seed_cap :: gap_report
  sr_representative_reserve :: gap_report
  sr_member_pool :: cap_report

definition empty_result :: seed_result where
  "empty_result = \<lparr>sr_representative_matches = [], sr_member_matches = [],
     sr_seed_cap = gap_cap_report CONTEXT_GLOBAL_TOP_K_COMMUNITIES ([] :: unit list) ([] :: unit list) ([] :: unit list),
     sr_representative_reserve = gap_cap_report CONTEXT_GLOBAL_REPRESENTATIVE_RESERVE_CAP ([] :: unit list) ([] :: unit list) ([] :: unit list),
     sr_member_pool = \<lparr>cr_cap = CONTEXT_GLOBAL_MEMBER_POOL_CAP, cr_eligible_count = 0, cr_truncated = False, cr_dropped_count = 0\<rparr>\<rparr>"

definition match_of :: "db \<Rightarrow> scored \<Rightarrow> community_match" where
  "match_of d = (\<lambda>(i, c, s). \<lparr>mm_entity_id = i, mm_title = title_or_unknown d i, mm_community_id = c, mm_similarity = s\<rparr>)"

definition seed_and_rank_communities ::
  "'v services \<Rightarrow> db \<Rightarrow> 'v community_tables \<Rightarrow> string \<Rightarrow> string option \<Rightarrow> seed_result" where
  "seed_and_rank_communities S d T query agent =
     (if py_strip query = [] then empty_result
      else if \<not> vector_extension T then empty_result
      else let q = embed_text S query; (seeded, seed_cap) = seed_communities S d T q agent in
        if seeded = [] then empty_result
        else let pool = rank_candidates seeded (score_members S d T (map fst seeded) q agent)
          in \<lparr>sr_representative_matches = map (match_of d) (pr_representatives pool),
              sr_member_matches = map (match_of d) (pr_members pool), sr_seed_cap = seed_cap,
              sr_representative_reserve = pr_representative_reserve pool, sr_member_pool = pr_member_pool pool\<rparr>)"

section \<open>Orphan matches\<close>

definition best_rows :: "candidate_row list \<Rightarrow> (string \<times> candidate_row) list \<Rightarrow> bool" where
  "best_rows rows best \<longleftrightarrow> distinct (map fst best) \<and> fst ` set best = ca_member_id ` set rows \<and>
     (\<forall>(i, r) \<in> set best. r \<in> set rows \<and> ca_member_id r = i \<and>
        (\<forall>r' \<in> set rows. ca_member_id r' = i \<longrightarrow> ca_similarity r' \<le> ca_similarity r))"

lemma keep_best_step:
  assumes "best_rows rows best"
  shows "best_rows (rows @ [r]) (keep_best r best)"
proof -
  have keys: "distinct (map fst best)" "fst ` set best = ca_member_id ` set rows"
    and vals: "\<And>i q. (i, q) \<in> set best \<Longrightarrow> q \<in> set rows \<and> ca_member_id q = i \<and>
        (\<forall>r' \<in> set rows. ca_member_id r' = i \<longrightarrow> ca_similarity r' \<le> ca_similarity q)"
    using assms by (auto simp: best_rows_def)
  have entry: "(i, q) \<in> set (AList.update (ca_member_id r) r best) \<longleftrightarrow>
      (if i = ca_member_id r then q = r else (i, q) \<in> set best)" for i q
  proof -
    have "distinct (map fst (AList.update (ca_member_id r) r best))" using keys(1) by (rule distinct_update)
    then have "(i, q) \<in> set (AList.update (ca_member_id r) r best) \<longleftrightarrow> map_of (AList.update (ca_member_id r) r best) i = Some q"
      by simp
    then show ?thesis using keys(1) by (auto simp: update_conv')
  qed
  have upd: "best_rows (rows @ [r]) (AList.update (ca_member_id r) r best)"
    if better: "\<And>r'. r' \<in> set rows \<Longrightarrow> ca_member_id r' = ca_member_id r \<Longrightarrow> ca_similarity r' \<le> ca_similarity r"
  proof -
    have "distinct (map fst (AList.update (ca_member_id r) r best))" using keys(1) by (rule distinct_update)
    moreover have "fst ` set (AList.update (ca_member_id r) r best) = ca_member_id ` set (rows @ [r])"
      using keys(2) by (simp add: dom_update[symmetric] dom_map_of_conv_image_fst[symmetric] update_conv')
    moreover have "q \<in> set (rows @ [r]) \<and> ca_member_id q = i \<and>
        (\<forall>r' \<in> set (rows @ [r]). ca_member_id r' = i \<longrightarrow> ca_similarity r' \<le> ca_similarity q)"
      if "(i, q) \<in> set (AList.update (ca_member_id r) r best)" for i q
      using that better vals unfolding entry by (auto split: if_splits)
    ultimately show ?thesis by (auto simp: best_rows_def)
  qed
  show ?thesis
  proof (cases "map_of best (ca_member_id r)")
    case None
    then have "ca_member_id r \<notin> ca_member_id ` set rows" unfolding keys(2)[symmetric] by (simp add: map_of_eq_None_iff)
    then have "best_rows (rows @ [r]) (AList.update (ca_member_id r) r best)" by (intro upd) (metis image_eqI)
    then show ?thesis using None by (simp add: keep_best_def)
  next
    case (Some q)
    then have q: "(ca_member_id r, q) \<in> set best" by (rule map_of_SomeD)
    note val = vals[OF q]
    show ?thesis
    proof (cases "ca_similarity r > ca_similarity q")
      case True
      then have "ca_similarity r' \<le> ca_similarity r" if "r' \<in> set rows" "ca_member_id r' = ca_member_id r" for r'
        using val that by fastforce
      then show ?thesis using upd True Some by (simp add: keep_best_def)
    next
      case False
      have "ca_member_id r \<in> ca_member_id ` set rows" using val by (metis image_eqI)
      then have "fst ` set best = ca_member_id ` set (rows @ [r])" using keys(2) by auto
      moreover have "p \<in> set (rows @ [r]) \<and> ca_member_id p = i \<and>
          (\<forall>r' \<in> set (rows @ [r]). ca_member_id r' = i \<longrightarrow> ca_similarity r' \<le> ca_similarity p)" if p: "(i, p) \<in> set best" for i p
      proof -
        have "p = q" if "i = ca_member_id r" using keys(1) p q that by (metis map_of_is_SomeI option.inject)
        then show ?thesis using vals[OF p] False by auto
      qed
      ultimately show ?thesis using keys(1) False Some by (auto simp: best_rows_def keep_best_def)
    qed
  qed
qed

lemma best_rows_fold: "best_rows rows (fold keep_best rows [])"
proof (induction rows rule: rev_induct)
  case Nil
  then show ?case by (simp add: best_rows_def)
next
  case (snoc r rows)
  then show ?case using keep_best_step by simp
qed

lemma ranked_candidates:
  "distinct (map ca_member_id (rank_orphan_candidates rows))" "set (rank_orphan_candidates rows) \<subseteq> set rows"
  "ca_member_id ` set (rank_orphan_candidates rows) = ca_member_id ` set rows"
  "r \<in> set (rank_orphan_candidates rows) \<Longrightarrow> r' \<in> set rows \<Longrightarrow> ca_member_id r' = ca_member_id r \<Longrightarrow> ca_similarity r' \<le> ca_similarity r"
proof -
  let ?best = "fold keep_best rows []"
  have keys: "distinct (map fst ?best)" "fst ` set ?best = ca_member_id ` set rows"
    and vals: "\<And>i q. (i, q) \<in> set ?best \<Longrightarrow> q \<in> set rows \<and> ca_member_id q = i \<and>
        (\<forall>r' \<in> set rows. ca_member_id r' = i \<longrightarrow> ca_similarity r' \<le> ca_similarity q)"
    using best_rows_fold[of rows] by (auto simp: best_rows_def)
  have ids: "map ca_member_id (map snd ?best) = map fst ?best" using vals by auto
  have "distinct (map ca_member_id (map snd ?best))" unfolding ids by (rule keys(1))
  then show "distinct (map ca_member_id (rank_orphan_candidates rows))"
    unfolding rank_orphan_candidates_def by (simp only: distinct_map distinct_sort set_sort)
  have ranked: "set (rank_orphan_candidates rows) = snd ` set ?best" by (simp add: rank_orphan_candidates_def)
  show "set (rank_orphan_candidates rows) \<subseteq> set rows" unfolding ranked using vals by auto
  have "ca_member_id ` set (map snd ?best) = set (map fst ?best)" unfolding ids[symmetric] by (simp only: set_map)
  then show "ca_member_id ` set (rank_orphan_candidates rows) = ca_member_id ` set rows" using keys(2) ranked by simp
  show "ca_similarity r' \<le> ca_similarity r"
    if "r \<in> set (rank_orphan_candidates rows)" "r' \<in> set rows" "ca_member_id r' = ca_member_id r"
    using that vals unfolding ranked by fastforce
qed

lemma best_community_sound:
  assumes "best_community S centroids v = Some c"
  shows "\<exists>w. (c, w) \<in> set centroids \<and> similarity_of S v w \<ge> COMMUNITY_ORPHAN_SIMILARITY_THRESHOLD \<and>
    (\<forall>(c', w') \<in> set centroids. similarity_of S v w' \<le> similarity_of S v w)"
proof -
  let ?scores = "map (\<lambda>(c, w). (similarity_of S v w, c)) centroids"
  let ?key = "\<lambda>(s, c). (- s :: real, c :: string)"
  obtain s rest where top: "sort_key ?key ?scores = (s, c) # rest" "s \<ge> COMMUNITY_ORPHAN_SIMILARITY_THRESHOLD"
    using assms by (auto simp: best_community_def split: list.splits prod.splits if_splits)
  have members: "set ((s, c) # rest) = set ?scores" unfolding top(1)[symmetric] by simp
  have sorted: "sorted (map ?key ((s, c) # rest))" unfolding top(1)[symmetric] by (rule sorted_sort_key)
  have "s' \<le> s" if "(s', c') \<in> set ?scores" for s' c'
  proof -
    have "(s', c') \<in> set ((s, c) # rest)" using that members by blast
    then have "?key (s, c) \<le> ?key (s', c')" using sorted by auto
    then show ?thesis by (auto simp: less_eq_prod_def)
  qed
  then have best: "\<forall>(c', w') \<in> set centroids. similarity_of S v w' \<le> s" by force
  have "(s, c) \<in> set ?scores" using members by auto
  then obtain w where "(c, w) \<in> set centroids" "s = similarity_of S v w" by auto
  then show ?thesis using best top(2) by blast
qed

definition best_match :: "'v services \<Rightarrow> db \<Rightarrow> 'v community_tables \<Rightarrow> string option \<Rightarrow> string \<Rightarrow> string \<Rightarrow> bool" where
  "best_match S d T agent orphan c \<longleftrightarrow> (\<exists>v w. (orphan, v) \<in> set (entity_embeddings T) \<and> (c, w) \<in> set (visible_centroids d T agent) \<and>
     similarity_of S v w \<ge> 3 / 5 \<and> (\<forall>(c', w') \<in> set (visible_centroids d T agent). similarity_of S v w' \<le> similarity_of S v w))"

lemma candidate_rows_from:
  "r \<in> set (candidate_rows S d T as vs excluded agent) \<Longrightarrow> \<exists>p \<in> set as. r \<in> set (candidate_rows S d T [p] vs excluded agent)"
proof (induction as)
  case (Cons p as)
  have "candidate_rows S d T (p # as) vs excluded agent =
      candidate_rows S d T [p] vs excluded agent @ candidate_rows S d T as vs excluded agent"
    by (simp add: candidate_rows_def)
  then show ?case using Cons by auto
qed (simp add: candidate_rows_def)

lemma orphan_matches:
  assumes "m \<in> set (or_matches (find_orphan_community_matches S d T ids excluded agent))"
  shows "om_entity_id m \<notin> excluded" "joined_entity d agent (om_entity_id m)"
    "(om_community_id m, om_entity_id m) \<in> set (community_membership T)" "om_orphan_entity_id m \<in> set ids"
    "om_orphan_entity_id m \<notin> snd ` set (community_membership T)"
    "best_match S d T agent (om_orphan_entity_id m) (om_community_id m)"
proof -
  define vectors where "vectors = filter (\<lambda>(i, _). i \<in> set (filter (\<lambda>i. i \<notin> set (map snd (community_membership T))) ids)) (entity_embeddings T)"
  define assignment where "assignment = assign_orphans S vectors (visible_centroids d T agent)"
  define rows where "rows = candidate_rows S d T assignment vectors excluded agent"
  have "find_orphan_community_matches S d T ids excluded agent = build_orphan_result d rows"
    using assms unfolding find_orphan_community_matches_def rows_def assignment_def vectors_def
    by (auto simp: Let_def zero_result_def split: if_splits)
  then obtain r where r: "r \<in> set (rank_orphan_candidates rows)" "m = \<lparr>om_entity_id = ca_member_id r, om_title = title_or_unknown d (ca_member_id r),
      om_similarity = ca_similarity r, om_orphan_entity_id = ca_orphan_id r, om_community_id = ca_community_id r\<rparr>"
    using assms by (auto simp: build_orphan_result_def Let_def dest: in_set_takeD)
  then have "r \<in> set rows" using ranked_candidates(2) by blast
  then obtain orphan c where a: "(orphan, c) \<in> set assignment" "r \<in> set (candidate_rows S d T [(orphan, c)] vectors excluded agent)"
    using candidate_rows_from[of r S d T assignment vectors excluded agent] unfolding rows_def by fast
  then obtain v where v: "map_of vectors orphan = Some v" by (cases "map_of vectors orphan") (simp_all add: candidate_rows_def Let_def)
  with a obtain i w where *: "(orphan, c) \<in> set assignment" "map_of vectors orphan = Some v" "i \<in> set (member_rows d T agent c)"
    "i \<noteq> orphan" "i \<notin> excluded" "r = \<lparr>ca_member_id = i, ca_orphan_id = orphan, ca_community_id = c, ca_similarity = similarity_of S v w\<rparr>"
    by (auto simp: candidate_rows_def Let_def)
  show "om_entity_id m \<notin> excluded" using * r by simp
  show "joined_entity d agent (om_entity_id m)" "(om_community_id m, om_entity_id m) \<in> set (community_membership T)"
    using * r by (auto simp: member_rows_def)
  obtain u where u: "(orphan, u) \<in> set vectors" "best_community S (visible_centroids d T agent) u = Some c"
    using *(1) by (auto simp: assignment_def assign_orphans_def List.map_filter_def)
  then show "om_orphan_entity_id m \<in> set ids" "om_orphan_entity_id m \<notin> snd ` set (community_membership T)"
    using * r by (auto simp: vectors_def)
  have "(orphan, u) \<in> set (entity_embeddings T)" using u(1) by (simp add: vectors_def)
  then show "best_match S d T agent (om_orphan_entity_id m) (om_community_id m)"
    using best_community_sound[OF u(2)] * r unfolding best_match_def COMMUNITY_ORPHAN_SIMILARITY_THRESHOLD_def by auto
qed

lemma orphan_ids:
  "distinct (map om_entity_id (or_matches (find_orphan_community_matches S d T ids excluded agent)))"
  "length (or_matches (find_orphan_community_matches S d T ids excluded agent)) \<le> 5"
proof -
  have "distinct (map om_entity_id (or_matches (build_orphan_result d rows)))" for rows
    using ranked_candidates(1)[of rows] by (simp add: build_orphan_result_def Let_def comp_def take_map[symmetric])
  then show "distinct (map om_entity_id (or_matches (find_orphan_community_matches S d T ids excluded agent)))"
    by (simp add: find_orphan_community_matches_def Let_def zero_result_def)
  show "length (or_matches (find_orphan_community_matches S d T ids excluded agent)) \<le> 5"
    by (simp add: find_orphan_community_matches_def Let_def zero_result_def build_orphan_result_def CONTEXT_EXPANSION_ORPHAN_COMMUNITY_CAP_def)
qed

section \<open>Global retrieval: what is answered\<close>

lemma within_gap_take: "\<exists>k. within_gap gap f xs = take k xs"
proof (cases xs)
  case (Cons x ys)
  have "within_gap gap f xs = take (Suc (length (takeWhile (\<lambda>y. \<not> f x - f y > gap) ys))) xs"
    unfolding Cons by (simp add: takeWhile_eq_take[symmetric])
  then show ?thesis by blast
qed simp

lemma within_gap_bound: "y \<in> set (within_gap gap f xs) \<Longrightarrow> 0 \<le> gap \<Longrightarrow> f (hd xs) - f y \<le> gap"
  by (cases xs) (auto dest: set_takeWhileD)

lemma within_gap_Nil [simp]: "within_gap gap f xs = [] \<longleftrightarrow> xs = []" "xs \<noteq> [] \<Longrightarrow> hd (within_gap gap f xs) = hd xs"
  by (cases xs; simp)+

lemma heads_and_tails:
  assumes "\<forall>r \<in> set rs. r \<noteq> []" "distinct (map f (concat rs))"
  shows "distinct (map f (map hd rs) @ map f (concat (map tl rs)))"
    "set (map hd rs) \<union> set (concat (map tl rs)) = set (concat rs)"
proof -
  show sets: "set (map hd rs) \<union> set (concat (map tl rs)) = set (concat rs)"
    using assms(1)
  proof (induction rs)
    case (Cons r rs)
    then have "set r = insert (hd r) (set (tl r))" by (cases r) auto
    then show ?case using Cons by auto
  qed simp
  have "length (map f (map hd rs) @ map f (concat (map tl rs))) = length (map f (concat rs))"
    using assms(1)
  proof (induction rs)
    case (Cons r rs)
    then show ?case by (cases r) auto
  qed simp
  moreover have "set (map f (map hd rs) @ map f (concat (map tl rs))) = set (map f (concat rs))"
    using sets by (metis image_Un list.set_map set_append)
  ultimately show "distinct (map f (map hd rs) @ map f (concat (map tl rs)))"
    using assms(2) by (metis card_distinct distinct_card)
qed

text \<open>The rankings of the seeded communities.\<close>

definition rankings :: "'v services \<Rightarrow> db \<Rightarrow> 'v community_tables \<Rightarrow> (string \<times> real) list \<Rightarrow> 'v \<Rightarrow> string option \<Rightarrow> scored list list" where
  "rankings S d T seeded q agent =
     filter (\<lambda>r. r \<noteq> []) (map (\<lambda>cs. community_ranking cs (score_members S d T (map fst seeded) q agent)) seeded)"

lemma ranking_entries:
  "(i, c, s) \<in> set (community_ranking (c', z) (score_members S d T ids q agent)) \<Longrightarrow>
     c = c' \<and> community_of_member d T agent ids i = Some c \<and> (\<exists>w. (i, w) \<in> set (entity_embeddings T) \<and> s = similarity_of S q w)"
  by (auto simp: community_ranking_def Let_def score_members_def)

lemma ranking_member:
  assumes "x \<in> set (community_ranking cs (score_members S d T ids q agent))"
  shows "fst (snd x) = fst cs" "community_of_member d T agent ids (fst x) = Some (fst cs)"
    "\<exists>w. (fst x, w) \<in> set (entity_embeddings T) \<and> snd (snd x) = similarity_of S q w"
proof -
  have "(fst x, fst (snd x), snd (snd x)) \<in> set (community_ranking (fst cs, snd cs) (score_members S d T ids q agent))"
    using assms by simp
  from ranking_entries[OF this] show "fst (snd x) = fst cs" "community_of_member d T agent ids (fst x) = Some (fst cs)"
    "\<exists>w. (fst x, w) \<in> set (entity_embeddings T) \<and> snd (snd x) = similarity_of S q w" by simp_all
qed

lemma ranking_ids:
  "map fst (community_ranking cs sb) = map fst (sort_key (\<lambda>(i, s). (- s, i)) (sb (fst cs)))"
  by (simp add: community_ranking_def Let_def comp_def case_prod_beta)

lemma member_community: "community_of_member d T agent ids i = Some c \<Longrightarrow> c \<in> set ids \<and> i \<in> set (member_rows d T agent c)"
  by (auto simp: community_of_member_def dest!: map_of_SomeD)

lemma rankings_distinct:
  assumes "distinct (map fst (entity_embeddings T))" "distinct (map fst seeded)"
  shows "distinct (map fst (concat (rankings S d T seeded q agent)))"
proof -
  let ?sb = "score_members S d T (map fst seeded) q agent"
  have each: "distinct (map fst (community_ranking cs ?sb))" for cs
  proof -
    have "map fst (?sb c) = filter (\<lambda>i. community_of_member d T agent (map fst seeded) i = Some c) (map fst (entity_embeddings T))" for c
      by (simp add: score_members_def filter_map comp_def case_prod_unfold)
    then have "distinct (map fst (?sb c))" for c using assms(1) by simp
    then show ?thesis unfolding ranking_ids by (simp add: distinct_map)
  qed
  have "distinct (map fst (concat (map (\<lambda>cs. community_ranking cs ?sb) xs)))" if "distinct (map fst xs)" for xs
    using that
  proof (induction xs)
    case (Cons cs xs)
    have "i \<notin> fst ` set (concat (map (\<lambda>cs. community_ranking cs ?sb) xs))" if "i \<in> fst ` set (community_ranking cs ?sb)" for i
    proof
      assume "i \<in> fst ` set (concat (map (\<lambda>cs. community_ranking cs ?sb) xs))"
      then obtain cs' where "cs' \<in> set xs" "i \<in> fst ` set (community_ranking cs' ?sb)" by auto
      then have "community_of_member d T agent (map fst seeded) i = Some (fst cs')" by (auto dest: ranking_member(2))
      moreover have "community_of_member d T agent (map fst seeded) i = Some (fst cs)" using that by (auto dest: ranking_member(2))
      ultimately show False using Cons.prems \<open>cs' \<in> set xs\<close> by auto
    qed
    then show ?case using each[of cs] Cons by auto
  qed simp
  moreover have "concat (filter (\<lambda>r. r \<noteq> []) rs) = concat rs" for rs :: "scored list list" by (induction rs) auto
  ultimately show ?thesis using assms(2) by (simp add: rankings_def)
qed

lemma sorted_by_hd: "r \<noteq> [] \<Longrightarrow> sorted (map k r) \<Longrightarrow> x \<in> set r \<Longrightarrow> k (hd r) \<le> k x"
  by (cases r) auto

lemma ranking_hd_best:
  assumes "r = community_ranking cs sb" "r \<noteq> []" "x \<in> set r"
  shows "snd (snd x) \<le> snd (snd (hd r))"
proof -
  have "map scored_key r = map (\<lambda>(i, s). (- s, i)) (sort_key (\<lambda>(i, s). (- s, i)) (sb (fst cs)))"
    by (simp add: assms(1) community_ranking_def Let_def scored_key_def comp_def case_prod_unfold)
  then have "sorted (map scored_key r)" by (simp only: sorted_sort_key)
  then have "scored_key (hd r) \<le> scored_key x" using assms(2,3) by (intro sorted_by_hd)
  then show ?thesis by (auto simp: scored_key_def less_eq_prod_def split: prod.splits)
qed

lemma seeded_communities:
  assumes "seed_communities S d T q agent = (seeded, cap)"
  shows "fst ` set seeded \<subseteq> fst ` set (visible_centroids d T agent)"
    "distinct (map fst (community_embeddings T)) \<Longrightarrow> distinct (map fst seeded)"
proof -
  define ranked where "ranked = sort_key (\<lambda>(c, s). (- s, c)) (map (\<lambda>(c, w). (c, similarity_of S q w)) (visible_centroids d T agent))"
  have "seeded = within_gap CONTEXT_GLOBAL_SEED_SIMILARITY_GAP snd (take CONTEXT_GLOBAL_TOP_K_COMMUNITIES ranked)"
    using assms by (simp add: seed_communities_def ranked_def Let_def)
  then obtain k where k: "seeded = take k (take CONTEXT_GLOBAL_TOP_K_COMMUNITIES ranked)" using within_gap_take by metis
  have "fst ` set ranked = fst ` set (visible_centroids d T agent)" by (simp add: ranked_def image_image case_prod_unfold)
  moreover have "set seeded \<subseteq> set ranked" unfolding k by (auto dest: in_set_takeD)
  ultimately show "fst ` set seeded \<subseteq> fst ` set (visible_centroids d T agent)" by blast
  assume ids: "distinct (map fst (community_embeddings T))"
  have "distinct (map fst (filter Q xs))" if "distinct (map fst xs)" for Q and xs :: "(string \<times> 'a) list"
    using that by (induction xs) auto
  then have "distinct (map fst (visible_centroids d T agent))" using ids by (simp add: visible_centroids_def fetch_leaf_community_centroids_def)
  then have "distinct (map fst (map (\<lambda>(c, w). (c, similarity_of S q w)) (visible_centroids d T agent)))"
    by (simp add: comp_def case_prod_unfold)
  then have "distinct (map fst ranked)" unfolding ranked_def by (simp only: distinct_map distinct_sort set_sort)
  then show "distinct (map fst seeded)" unfolding k by (simp add: take_map[symmetric] distinct_take)
qed

lemma match_of_simps [simp]:
  "mm_entity_id (match_of d x) = fst x" "mm_community_id (match_of d x) = fst (snd x)" "mm_similarity (match_of d x) = snd (snd x)"
  by (simp_all add: match_of_def split: prod.splits)

lemma in_rankings:
  "r \<in> set (rankings S d T seeded q agent) \<longleftrightarrow>
     r \<noteq> [] \<and> (\<exists>cs \<in> set seeded. r = community_ranking cs (score_members S d T (map fst seeded) q agent))"
  by (auto simp: rankings_def)

lemma rankings_communities:
  assumes "distinct (map fst seeded)"
  shows "distinct (map (\<lambda>r. fst (snd (hd r))) (rankings S d T seeded q agent))"
proof -
  let ?rank = "\<lambda>cs. community_ranking cs (score_members S d T (map fst seeded) q agent)"
  have "distinct (map (\<lambda>r. fst (snd (hd r))) (filter (\<lambda>r. r \<noteq> []) (map ?rank xs)))" if "distinct (map fst xs)" for xs
    using that
  proof (induction xs)
    case (Cons cs xs)
    have hd: "fst (snd (hd (?rank c))) = fst c" if "?rank c \<noteq> []" for c
      by (rule ranking_member(1)) (rule hd_in_set[OF that])
    have "fst cs \<notin> (\<lambda>r. fst (snd (hd r))) ` set (filter (\<lambda>r. r \<noteq> []) (map ?rank xs))"
    proof
      assume "fst cs \<in> (\<lambda>r. fst (snd (hd r))) ` set (filter (\<lambda>r. r \<noteq> []) (map ?rank xs))"
      then obtain c where "c \<in> set xs" "?rank c \<noteq> []" "fst cs = fst (snd (hd (?rank c)))" by auto
      then have "c \<in> set xs" "fst cs = fst c" using hd[of c] by simp_all
      then have "fst cs \<in> fst ` set xs" by (metis image_eqI)
      then show False using Cons.prems by simp
    qed
    then show ?case using Cons hd by simp
  qed simp
  then show ?thesis using assms unfolding rankings_def by blast
qed

lemma rankings_answer:
  assumes "seed_communities S d T q agent = (seeded, cap)" "r \<in> set (rankings S d T seeded q agent)" "x \<in> set r"
  shows "joined_entity d agent (fst x)" "(fst (snd x), fst x) \<in> set (community_membership T)"
    "fst (snd x) \<in> fst ` set (fetch_leaf_community_centroids T)"
    "\<exists>w. (fst x, w) \<in> set (entity_embeddings T) \<and> snd (snd x) = similarity_of S q w"
    "snd (snd x) \<le> snd (snd (hd r))" "fst (snd x) = fst (snd (hd r))"
proof -
  obtain cs where cs: "cs \<in> set seeded" "r \<noteq> []" "r = community_ranking cs (score_members S d T (map fst seeded) q agent)"
    using assms(2) in_rankings by metis
  note x = ranking_member[OF assms(3)[unfolded cs(3)]]
  have "fst x \<in> set (member_rows d T agent (fst cs))" using member_community[OF x(2)] by blast
  then show "joined_entity d agent (fst x)" "(fst (snd x), fst x) \<in> set (community_membership T)"
    using x(1) by (auto simp: member_rows_def)
  have "fst cs \<in> fst ` set (visible_centroids d T agent)" using seeded_communities(1)[OF assms(1)] cs(1) by blast
  then show "fst (snd x) \<in> fst ` set (fetch_leaf_community_centroids T)" using x(1) by (auto simp: visible_centroids_def split: if_splits)
  show "\<exists>w. (fst x, w) \<in> set (entity_embeddings T) \<and> snd (snd x) = similarity_of S q w" by (rule x(3))
  show "snd (snd x) \<le> snd (snd (hd r))" by (rule ranking_hd_best[OF cs(3,2) assms(3)])
  show "fst (snd x) = fst (snd (hd r))" using x(1) ranking_member(1)[of "hd r" cs] cs(2,3) by (metis hd_in_set)
qed

lemma global_answer:
  assumes "distinct (map fst (entity_embeddings T))" "distinct (map fst (community_embeddings T))"
    "res = seed_and_rank_communities S d T query agent"
  shows "length (sr_representative_matches res) \<le> 5 \<and> length (sr_member_matches res) \<le> 30 \<and>
    distinct (map mm_entity_id (sr_representative_matches res @ sr_member_matches res)) \<and>
    distinct (map mm_community_id (sr_representative_matches res)) \<and>
    (\<forall>m \<in> set (sr_representative_matches res @ sr_member_matches res).
       joined_entity d agent (mm_entity_id m) \<and> (mm_community_id m, mm_entity_id m) \<in> set (community_membership T) \<and>
       mm_community_id m \<in> fst ` set (fetch_leaf_community_centroids T) \<and>
       (\<exists>w. (mm_entity_id m, w) \<in> set (entity_embeddings T) \<and> mm_similarity m = similarity_of S (embed_text S query) w)) \<and>
    (\<forall>m \<in> set (sr_representative_matches res). mm_similarity (hd (sr_representative_matches res)) - mm_similarity m \<le> 1 / 10 \<and>
       (\<forall>m' \<in> set (sr_member_matches res). mm_community_id m' = mm_community_id m \<longrightarrow> mm_similarity m' \<le> mm_similarity m))"
proof (cases "res = empty_result")
  case True
  then show ?thesis by (simp add: empty_result_def)
next
  case False
  let ?q = "embed_text S query"
  obtain seeded cap where seed: "seed_communities S d T ?q agent = (seeded, cap)" by force
  define rs where "rs = rankings S d T seeded ?q agent"
  define reps where "reps = sort_key scored_key (map hd rs)"
  define others where "others = sort_key scored_key (concat (map tl rs))"
  define admitted where "admitted = within_gap (1 / 10) (\<lambda>x. snd (snd x)) (take 5 reps)"
  have res: "sr_representative_matches res = map (match_of d) admitted" "sr_member_matches res = map (match_of d) (take 30 others)"
    using False seed assms(3) unfolding admitted_def reps_def others_def rs_def
    by (auto simp: seed_and_rank_communities_def rank_candidates_def rankings_def Let_def
        CONTEXT_GLOBAL_REPRESENTATIVE_SIMILARITY_GAP_def CONTEXT_GLOBAL_REPRESENTATIVE_RESERVE_CAP_def CONTEXT_GLOBAL_MEMBER_POOL_CAP_def
        split: if_splits prod.splits)
  obtain k where k: "admitted = take k (take 5 reps)" using within_gap_take admitted_def by metis
  have sub: "set admitted \<subseteq> set reps" "set (take 30 others) \<subseteq> set others" unfolding k by (auto dest!: in_set_takeD)
  have nonempty: "\<forall>r \<in> set rs. r \<noteq> []" unfolding rs_def by (simp add: in_rankings)
  have ids: "distinct (map fst seeded)" by (rule seeded_communities(2)[OF seed assms(2)])
  have once: "distinct (map fst (map hd rs) @ map fst (concat (map tl rs)))"
    using heads_and_tails(1)[OF nonempty] rankings_distinct[OF assms(1) ids] unfolding rs_def by blast
  have "distinct (map fst reps)" "distinct (map fst others)" "fst ` set reps \<inter> fst ` set others = {}"
    using once unfolding reps_def others_def distinct_append by (simp_all only: distinct_map distinct_sort set_sort set_map)
  then have "distinct (map fst admitted)" "distinct (map fst (take 30 others))" "fst ` set admitted \<inter> fst ` set (take 30 others) = {}"
    using sub unfolding k by (auto simp: take_map[symmetric] distinct_take)
  then have distinct: "distinct (map mm_entity_id (sr_representative_matches res @ sr_member_matches res))"
    unfolding res by (simp add: comp_def)
  have "distinct (map (\<lambda>x. fst (snd x)) (map hd rs))" using rankings_communities[OF ids] unfolding rs_def by (simp add: comp_def)
  then have "distinct (map (\<lambda>x. fst (snd x)) reps)" unfolding reps_def by (simp only: distinct_map distinct_sort set_sort)
  then have communities: "distinct (map mm_community_id (sr_representative_matches res))"
    unfolding res k by (simp add: comp_def take_map[symmetric] distinct_take)
  have rep: "\<exists>r \<in> set rs. x = hd r" if "x \<in> set admitted" for x using that sub(1) by (auto simp: reps_def)
  have other: "\<exists>r \<in> set rs. x \<in> set r" if x: "x \<in> set (take 30 others)" for x
  proof -
    have "x \<in> set others" using x sub(2) by blast
    then obtain r where "r \<in> set rs" "x \<in> set (tl r)" by (auto simp: others_def)
    moreover have "x \<in> set r" using \<open>x \<in> set (tl r)\<close> by (cases r) simp_all
    ultimately show ?thesis by blast
  qed
  have from_ranking: "\<exists>r \<in> set rs. x \<in> set r" if "x \<in> set admitted \<or> x \<in> set (take 30 others)" for x
    using that rep[of x] other[of x] nonempty by (metis hd_in_set)
  have answered: "joined_entity d agent (mm_entity_id m) \<and> (mm_community_id m, mm_entity_id m) \<in> set (community_membership T) \<and>
       mm_community_id m \<in> fst ` set (fetch_leaf_community_centroids T) \<and>
       (\<exists>w. (mm_entity_id m, w) \<in> set (entity_embeddings T) \<and> mm_similarity m = similarity_of S ?q w)"
    if m: "m \<in> set (sr_representative_matches res @ sr_member_matches res)" for m
  proof -
    obtain x where x: "m = match_of d x" "x \<in> set admitted \<or> x \<in> set (take 30 others)" using m unfolding res by auto
    obtain r where "r \<in> set rs" "x \<in> set r" using from_ranking[OF x(2)] by blast
    then show ?thesis using rankings_answer(1-4)[OF seed] unfolding rs_def x(1) by simp
  qed
  have close: "mm_similarity (hd (sr_representative_matches res)) - mm_similarity m \<le> 1 / 10"
    if m: "m \<in> set (sr_representative_matches res)" for m
  proof -
    obtain x where x: "m = match_of d x" "x \<in> set admitted" using m unfolding res by auto
    then have "admitted \<noteq> []" by auto
    then have "hd admitted = hd (take 5 reps)" "hd (map (match_of d) admitted) = match_of d (hd admitted)"
      unfolding admitted_def by (simp_all add: hd_map)
    then show ?thesis using within_gap_bound[of x "1 / 10" "\<lambda>x. snd (snd x)" "take 5 reps"] x unfolding res admitted_def[symmetric] by simp
  qed
  have best: "mm_similarity m' \<le> mm_similarity m"
    if m: "m \<in> set (sr_representative_matches res)" "m' \<in> set (sr_member_matches res)" "mm_community_id m' = mm_community_id m" for m m'
  proof -
    obtain x y where x: "m = match_of d x" "x \<in> set admitted" and y: "m' = match_of d y" "y \<in> set (take 30 others)"
      using m unfolding res by auto
    obtain r r' where r: "r \<in> set rs" "x = hd r" "r' \<in> set rs" "y \<in> set r'" using rep[OF x(2)] other[OF y(2)] by blast
    have "fst (snd (hd r')) = fst (snd (hd r))"
      using rankings_answer(6)[OF seed r(3)[unfolded rs_def] r(4)] m(3) x y r(2) by simp
    moreover have "inj_on (\<lambda>r. fst (snd (hd r))) (set rs)"
      unfolding rs_def by (rule rankings_communities[OF ids, unfolded distinct_map, THEN conjunct2])
    ultimately have "r' = r" using r(1,3) by (simp add: inj_on_def)
    then show ?thesis using rankings_answer(5)[OF seed r(3)[unfolded rs_def] r(4)] x y r(2) by simp
  qed
  have "length (sr_representative_matches res) \<le> 5" "length (sr_member_matches res) \<le> 30" unfolding res k by simp_all
  then show ?thesis using distinct communities answered close best by blast
qed

section \<open>A sample\<close>

text \<open>Embeddings are numbers, and two of them are the more similar the closer they are.\<close>

definition sample_services :: "real services" where
  "sample_services = \<lparr>similarity_of = (\<lambda>x y. 1 - \<bar>x - y\<bar>), embed_text = (\<lambda>_. 0), token_count = length,
     set_order = (\<lambda>A. sorted_list_of_set A)\<rparr>"

definition sample_tables :: "real community_tables" where
  "sample_tables = \<lparr>communities = [(''k1'', None)], community_embeddings = [(''k1'', 0)],
     community_membership = [(''k1'', ''b''), (''k1'', ''c'')],
     entity_embeddings = [(''b'', 1 / 4), (''c'', 0), (''a'', 0)], vector_extension = True\<rparr>"

lemma sample_global:
  "map (\<lambda>m. (mm_entity_id m, mm_community_id m)) (sr_representative_matches (seed_and_rank_communities sample_services ring_db sample_tables ''q'' (Some ''b''))) =
     [(''c'', ''k1'')]"
  "map (\<lambda>m. (mm_entity_id m, mm_community_id m)) (sr_member_matches (seed_and_rank_communities sample_services ring_db sample_tables ''q'' (Some ''b''))) =
     [(''b'', ''k1'')]"
  by code_simp+

section \<open>Properties\<close>



end
