(* ===== verification/Context_Retrieval.thy ===== *)
theory Context_Retrieval
  imports Conflict_Sets Communities "HOL-Library.Multiset"
begin

text \<open>
  The assembly of a context: the token budget, \<^verbatim>\<open>src/src/saltmdb/domain/services/context_budget_service.py\<close>,
  the supersession history, \<^verbatim>\<open>lineage_assembly_service.py\<close>, and the orchestration of both strategies,
  \<^verbatim>\<open>retrieve_context_service.py\<close>. A dictionary lookup that could raise is an option, so an outcome \<open>None\<close>
  would be a Python exception. Connections and logging are left out.
\<close>

section \<open>The token budget\<close>

definition CONTEXT_BUDGET_DEFAULT_TOKENS :: int where
  "CONTEXT_BUDGET_DEFAULT_TOKENS = 8000"

definition CONTEXT_BUDGET_MAX_TOKENS :: int where
  "CONTEXT_BUDGET_MAX_TOKENS = 32000"

record budget_section =
  bs_packed :: "string list"
  bs_dropped :: "string list"

text \<open>One pass of the ledger: an id that does not fit is dropped, later and cheaper ids may still fit.\<close>

fun pack :: "(string \<Rightarrow> nat) \<Rightarrow> int \<Rightarrow> int \<Rightarrow> string list \<Rightarrow> budget_section \<times> int" where
  "pack cost limit used [] = (\<lparr>bs_packed = [], bs_dropped = []\<rparr>, used)"
| "pack cost limit used (i # ids) =
     (if used + int (cost i) \<le> limit
      then let (s, u) = pack cost limit (used + int (cost i)) ids in (s\<lparr>bs_packed := i # bs_packed s\<rparr>, u)
      else let (s, u) = pack cost limit used ids in (s\<lparr>bs_dropped := i # bs_dropped s\<rparr>, u))"

definition load_token_counts :: "'v services \<Rightarrow> db \<Rightarrow> string \<Rightarrow> nat" where
  "load_token_counts S d i =
     (case get_entity d i of
        None \<Rightarrow> 0
      | Some e \<Rightarrow> if e_content e = [] then 0 else token_count S (e_content e))"

record budget_report =
  bd_limit :: int
  bd_used :: int
  bd_primary_dropped_count :: nat
  bd_expansion_dropped_count :: nat
  bd_member_dropped_count :: nat
  bd_conflict_reserve :: nat
  bd_orphan_reserve :: nat
  bd_representative_reserve :: nat

record budget_result =
  bu_primary :: budget_section
  bu_expansion :: budget_section
  bu_members :: budget_section
  bu_conflict_only :: "string list"
  bu_representatives :: "string list"
  bu_report :: budget_report

definition conflict_only_ids :: "conflict_set list \<Rightarrow> string set" where
  "conflict_only_ids sets = set (map cm_id (filter (\<lambda>m. cm_inclusion m = Conflict_Only) (concat (map cs_members sets))))"

definition pack_context_budget ::
  "'v services \<Rightarrow> db \<Rightarrow> string list \<Rightarrow> string list \<Rightarrow> conflict_set list \<Rightarrow> int option \<Rightarrow> string list \<Rightarrow> string set \<Rightarrow> string set \<Rightarrow> budget_result" where
  "pack_context_budget S d primary_ids expansion_ids sets budget member_ids representatives orphans =
     (let limit = min (case budget of Some b \<Rightarrow> b | None \<Rightarrow> CONTEXT_BUDGET_DEFAULT_TOKENS) CONTEXT_BUDGET_MAX_TOKENS;
          cost = load_token_counts S d; conflict = conflict_only_ids sets;
          (primary, u1) = pack cost limit 0 primary_ids;
          (expansion, u2) = pack cost limit u1 expansion_ids;
          (members, u3) = pack cost limit u2 member_ids
      in \<lparr>bu_primary = primary, bu_expansion = expansion, bu_members = members,
          bu_conflict_only = sorted_list_of_set conflict, bu_representatives = sorted_list_of_set representatives,
          bu_report = \<lparr>bd_limit = limit, bd_used = u3, bd_primary_dropped_count = length (bs_dropped primary),
            bd_expansion_dropped_count = length (bs_dropped expansion), bd_member_dropped_count = length (bs_dropped members),
            bd_conflict_reserve = sum cost conflict, bd_orphan_reserve = sum cost orphans,
            bd_representative_reserve = sum cost representatives\<rparr>\<rparr>)"

section \<open>Lineage\<close>

definition LINEAGE_HISTORICAL_CAP :: nat where
  "LINEAGE_HISTORICAL_CAP = 5"

definition updated_key :: "lineage_node \<Rightarrow> string" where
  "updated_key n = (case ln_updated_at n of Some s \<Rightarrow> s | None \<Rightarrow> [])"

definition sort_ancestor_nodes :: "lineage_node list \<Rightarrow> lineage_node list" where
  "sort_ancestor_nodes nodes = sort_key ln_depth (sort_desc updated_key (sort_key ln_id nodes))"

text \<open>The peers of an id in the resolved components; the dictionary of the code has the ids with a peer.\<close>

definition contradiction_peers :: "classified list \<Rightarrow> string \<Rightarrow> string set" where
  "contradiction_peers cs i =
     (let es = concat (map cl_edges (filter cl_resolved cs))
      in set (map re_target_id (filter (\<lambda>e. re_source_id e = i) es)) \<union> set (map re_source_id (filter (\<lambda>e. re_target_id e = i) es)))"

text \<open>The flag and the list of peers are absent when there are none.\<close>

definition contradiction_flags :: "(string \<Rightarrow> string set) \<Rightarrow> string \<Rightarrow> string list option" where
  "contradiction_flags peers i = (if peers i = {} then None else Some (sorted_list_of_set (peers i)))"

datatype included_via = Recency | Contradicts_Force_Include

record historical_entry =
  hi_id :: string
  hi_title :: string
  hi_archived_at :: "string option"
  hi_included_via :: included_via
  hi_contradicted_with :: "string list option"

record current_entry =
  cu_id :: string
  cu_title :: string
  cu_contradicted_with :: "string list option"

record head_lineage =
  hl_current :: current_entry
  hl_historical :: "historical_entry list"
  hl_historical_truncated :: bool
  hl_historical_dropped_count :: nat

definition assemble_head_lineage ::
  "env \<Rightarrow> db \<Rightarrow> string \<Rightarrow> string option \<Rightarrow> (string \<Rightarrow> string set) \<Rightarrow> string \<Rightarrow> (string \<times> head_lineage) option" where
  "assemble_head_lineage \<Gamma> d pit agent peers head =
     (case get_lineage_raw \<Gamma> d (Some head) ''ancestors'' (int SUPERSESSION_CHAIN_MAX_DEPTH) (Some pit) agent of
        Inl _ \<Rightarrow> None
      | Inr res \<Rightarrow>
          let full = sort_ancestor_nodes (filter (\<lambda>n. ln_id n \<noteq> head) (lg_nodes res));
              recency = take LINEAGE_HISTORICAL_CAP full; recency_ids = set (map ln_id recency);
              forced = filter (\<lambda>n. ln_id n \<notin> recency_ids \<and> peers (ln_id n) \<noteq> {}) full;
              final = sort_ancestor_nodes (recency @ forced)
          in if full = [] then None
             else Some (head,
               \<lparr>hl_current = \<lparr>cu_id = head, cu_title = ln_title (lg_root res), cu_contradicted_with = contradiction_flags peers head\<rparr>,
                hl_historical = map (\<lambda>n. \<lparr>hi_id = ln_id n, hi_title = ln_title n, hi_archived_at = ln_updated_at n,
                  hi_included_via = (if ln_id n \<in> recency_ids then Recency else Contradicts_Force_Include),
                  hi_contradicted_with = contradiction_flags peers (ln_id n)\<rparr>) final,
                hl_historical_truncated = (length full > length final),
                hl_historical_dropped_count = length full - length final\<rparr>))"

definition assemble_lineage ::
  "env \<Rightarrow> db \<Rightarrow> expansion_result \<Rightarrow> string list \<Rightarrow> string \<Rightarrow> string option \<Rightarrow> (string \<times> head_lineage) list option" where
  "assemble_lineage \<Gamma> d er primary_ids pit agent =
     (let heads = sorted_list_of_set (set primary_ids \<union> set (map ec_entity_id (er_expansion_candidates er))) in
      if heads = [] then Some []
      else map_option (\<lambda>cs. List.map_filter (assemble_head_lineage \<Gamma> d pit agent (contradiction_peers cs)) heads)
             (classify_contradicts_components \<Gamma> d (er_contradicts_edges er) pit))"

section \<open>Retrieval\<close>

record resolved_hit =
  rh_id :: string
  rh_title :: string
  rh_memory_type :: "string option"

text \<open>The hits in the order of the request, and one error per reference that has no memory.\<close>

definition resolve_primary_hit :: "db \<Rightarrow> string option \<Rightarrow> string \<Rightarrow> err + resolved_hit" where
  "resolve_primary_hit d agent raw =
     (case resolve_entity_ref d (Some raw) agent of (resolved, cands, _) \<Rightarrow>
        if cands \<noteq> [] then Inl (error ''AMBIGUOUS_ID_PREFIX'' (Some ''entity_ids''))
        else if \<not> truthy resolved then Inl (error ''UNKNOWN_ENTITY_ID'' (Some ''entity_ids''))
        else case get_entity d (the resolved) of
          None \<Rightarrow> Inl (error ''UNKNOWN_ENTITY_ID'' (Some ''entity_ids''))
        | Some e \<Rightarrow> Inr \<lparr>rh_id = the resolved, rh_title = e_title e, rh_memory_type = e_memory_type e\<rparr>)"

definition resolve_primary_hits :: "db \<Rightarrow> string option \<Rightarrow> string list \<Rightarrow> resolved_hit list \<times> err list" where
  "resolve_primary_hits d agent ids =
     (let rs = map (resolve_primary_hit d agent) ids
      in (List.map_filter (case_sum (\<lambda>_. None) Some) rs, List.map_filter (case_sum Some (\<lambda>_. None)) rs))"

definition validate_retrieve_request :: "string \<Rightarrow> string list option \<Rightarrow> string option \<Rightarrow> err list" where
  "validate_retrieve_request strategy entity_ids query =
     (if strategy = ''global'' then (if truthy query then [] else [error VALIDATION_ERROR (Some ''query'')])
      else case entity_ids of
        None \<Rightarrow> [error VALIDATION_ERROR (Some ''entity_ids'')]
      | Some ids \<Rightarrow> if ids = [] \<or> [] \<in> set ids then [error VALIDATION_ERROR (Some ''entity_ids'')] else [])"

datatype retrieval_reason =
    Caller_Supplied_Anchor nat
  | Graph_Expansion graph_provenance
  | Contradicts_Included string
  | Orphan_Assignment string string real
  | Representative_Of string real
  | Member_Of string real

record memory_entry =
  me_entity_id :: string
  me_title :: string
  me_memory_type :: "string option"
  me_inclusion :: inclusion
  me_retrieval_provenance :: "retrieval_reason list"

definition memory_type_of :: "db \<Rightarrow> string \<Rightarrow> string option" where
  "memory_type_of d i = (case get_entity d i of Some e \<Rightarrow> e_memory_type e | None \<Rightarrow> Some ''unknown'')"

record context_metadata =
  mt_fan_out :: cap_report
  mt_conflict_reserve :: cap_report
  mt_orphan_reserve :: cap_report
  mt_limit :: int
  mt_used :: int
  mt_primary_dropped_count :: nat
  mt_expansion_dropped_count :: nat
  mt_conflict_reserve_tokens_used :: nat
  mt_orphan_reserve_tokens_used :: nat

record local_context =
  lc_memories :: "memory_entry list"
  lc_edges :: "raw_edge list"
  lc_lineage :: "(string \<times> head_lineage) list"
  lc_conflict_sets :: "(string \<times> conflict_set) list"
  lc_metadata :: context_metadata

record global_context =
  gc_memories :: "memory_entry list"
  gc_seed :: seed_result
  gc_budget :: budget_report

datatype retrieved = Refused "err list" | Local_Context local_context | Global_Context global_context

definition conflict_set_id :: "nat \<Rightarrow> string" where
  "conflict_set_id index = ''cs-'' @ show_nat (index + 1)"

text \<open>\<open>member_to_conflict_set\<close>: the last set that names a member.\<close>

definition member_to_conflict_set :: "conflict_set list \<Rightarrow> string \<Rightarrow> string option" where
  "member_to_conflict_set sets =
     map_of (rev (concat (map (\<lambda>(k, s). map (\<lambda>m. (cm_id m, conflict_set_id k)) (cs_members s)) (List.enumerate 0 sets))))"

text \<open>Dictionaries built from a list: the last entry of a key wins.\<close>

definition last_by :: "('a \<Rightarrow> string) \<Rightarrow> 'a list \<Rightarrow> string \<Rightarrow> 'a option" where
  "last_by f xs = map_of (rev (map (\<lambda>x. (f x, x)) xs))"

definition primary_entry :: "resolved_hit list \<Rightarrow> string \<Rightarrow> memory_entry option" where
  "primary_entry hits i =
     Option.bind (last_by rh_id hits i) (\<lambda>h.
     Option.bind (map_of (rev (map (\<lambda>(k, h). (rh_id h, k + 1)) (List.enumerate 0 hits))) i) (\<lambda>rank.
       Some \<lparr>me_entity_id = i, me_title = rh_title h, me_memory_type = rh_memory_type h, me_inclusion = Primary,
             me_retrieval_provenance = [Caller_Supplied_Anchor rank]\<rparr>))"

definition expansion_entry :: "db \<Rightarrow> expansion_candidate list \<Rightarrow> string \<Rightarrow> memory_entry option" where
  "expansion_entry d cands i =
     map_option (\<lambda>c. \<lparr>me_entity_id = i, me_title = ec_title c, me_memory_type = memory_type_of d i, me_inclusion = Expansion,
                     me_retrieval_provenance = map Graph_Expansion (ec_retrieval_provenance c)\<rparr>)
       (last_by ec_entity_id cands i)"

definition conflict_entry :: "db \<Rightarrow> conflict_set list \<Rightarrow> string \<Rightarrow> memory_entry option" where
  "conflict_entry d sets i =
     Option.bind (last_by cm_id (filter (\<lambda>m. cm_inclusion m = Conflict_Only) (concat (map cs_members sets))) i) (\<lambda>m.
     Option.bind (member_to_conflict_set sets i) (\<lambda>k.
       Some \<lparr>me_entity_id = i, me_title = (case cm_title m of Some t \<Rightarrow> t | None \<Rightarrow> []), me_memory_type = memory_type_of d i,
             me_inclusion = Conflict_Only, me_retrieval_provenance = [Contradicts_Included k]\<rparr>))"

definition orphan_entry :: "db \<Rightarrow> orphan_match list \<Rightarrow> string \<Rightarrow> memory_entry option" where
  "orphan_entry d matches i =
     map_option (\<lambda>m. \<lparr>me_entity_id = i, me_title = om_title m, me_memory_type = memory_type_of d i, me_inclusion = Orphan_Community,
                     me_retrieval_provenance = [Orphan_Assignment (om_orphan_entity_id m) (om_community_id m) (om_similarity m)]\<rparr>)
       (last_by om_entity_id matches i)"

definition recovered :: "conflict_set list \<Rightarrow> string list \<Rightarrow> string list" where
  "recovered sets dropped = filter (\<lambda>i. member_to_conflict_set sets i \<noteq> None) dropped"

definition truly_dropped :: "conflict_set list \<Rightarrow> string list \<Rightarrow> string list" where
  "truly_dropped sets dropped = filter (\<lambda>i. member_to_conflict_set sets i = None) dropped"

definition surfaced_lineage :: "memory_entry list \<Rightarrow> (string \<times> head_lineage) list \<Rightarrow> (string \<times> head_lineage) list" where
  "surfaced_lineage memories lineage = filter (\<lambda>(i, _). i \<in> set (map me_entity_id memories)) lineage"

text \<open>
  The memories of the local strategy, in the order of the answer: primary hits, expansion candidates,
  memories included for a conflict, matches of orphans. A missing key would raise.
\<close>

definition local_memories ::
  "'v services \<Rightarrow> db \<Rightarrow> resolved_hit list \<Rightarrow> expansion_candidate list \<Rightarrow> conflict_set list \<Rightarrow> orphan_match list \<Rightarrow> budget_result \<Rightarrow> memory_entry list option" where
  "local_memories S d hits cands sets matches budget =
     map_option concat (those
       [those (map (primary_entry hits) (bs_packed (bu_primary budget) @ recovered sets (bs_dropped (bu_primary budget)))),
        those (map (expansion_entry d cands) (bs_packed (bu_expansion budget) @ recovered sets (bs_dropped (bu_expansion budget)))),
        those (map (conflict_entry d sets) (bu_conflict_only budget)),
        those (map (orphan_entry d matches) (set_order S (set (map om_entity_id matches))))])"

definition local_metadata ::
  "'v services \<Rightarrow> db \<Rightarrow> expansion_result \<Rightarrow> conflict_sets_result \<Rightarrow> orphan_result \<Rightarrow> budget_result \<Rightarrow> context_metadata" where
  "local_metadata S d er csr orphan budget =
     (let sets = csr_conflict_sets csr; r = bu_report budget;
          p = bs_dropped (bu_primary budget); x = bs_dropped (bu_expansion budget);
          tokens = sum_list (map (load_token_counts S d) (recovered sets p @ recovered sets x))
      in \<lparr>mt_fan_out = er_fan_out er, mt_conflict_reserve = csr_contradicts_cap csr, mt_orphan_reserve = or_cap orphan,
          mt_limit = bd_limit r, mt_used = bd_used r + int tokens,
          mt_primary_dropped_count = length (truly_dropped sets p), mt_expansion_dropped_count = length (truly_dropped sets x),
          mt_conflict_reserve_tokens_used = bd_conflict_reserve r + tokens,
          mt_orphan_reserve_tokens_used = bd_orphan_reserve r\<rparr>)"

definition numbered_sets :: "conflict_set list \<Rightarrow> (string \<times> conflict_set) list" where
  "numbered_sets sets = map (\<lambda>(k, s). (conflict_set_id k, s)) (List.enumerate 0 sets)"

definition assemble_local_context ::
  "env \<Rightarrow> 'v services \<Rightarrow> db \<Rightarrow> 'v community_tables \<Rightarrow> string list \<Rightarrow> int option \<Rightarrow> string option \<Rightarrow> retrieved option" where
  "assemble_local_context \<Gamma> S d T entity_ids budget_tokens agent =
     (let pit = now_iso \<Gamma>; (hits, errs) = resolve_primary_hits d agent entity_ids in
      if errs \<noteq> [] then Some (Refused errs)
      else
        let primary_hits = map (\<lambda>h. \<lparr>ph_id = rh_id h, ph_score = 1\<rparr>) hits; primary_ids = map ph_id primary_hits;
            er = expand_context_candidates \<Gamma> d primary_hits (Some pit) agent (set_order S (set primary_ids));
            cands = er_expansion_candidates er; expansion_ids = map ec_entity_id cands in
        Option.bind (assemble_conflict_sets \<Gamma> d er primary_hits pit) (\<lambda>csr.
          let sets = csr_conflict_sets csr;
              excluded = set primary_ids \<union> set expansion_ids \<union> conflict_only_ids sets;
              orphan = find_orphan_community_matches S d T primary_ids excluded agent;
              budget = pack_context_budget S d primary_ids expansion_ids sets budget_tokens [] {} (set (map om_entity_id (or_matches orphan))) in
          Option.bind (assemble_lineage \<Gamma> d er primary_ids pit agent) (\<lambda>lineage.
          Option.bind (local_memories S d hits cands sets (or_matches orphan) budget) (\<lambda>memories.
            Some (Local_Context \<lparr>lc_memories = memories, lc_edges = er_in_network_edges er, lc_lineage = surfaced_lineage memories lineage,
              lc_conflict_sets = numbered_sets sets, lc_metadata = local_metadata S d er csr orphan budget\<rparr>)))))"

definition community_entry :: "db \<Rightarrow> seed_result \<Rightarrow> inclusion \<Rightarrow> (string \<Rightarrow> real \<Rightarrow> retrieval_reason) \<Rightarrow> string \<Rightarrow> memory_entry option" where
  "community_entry d seed incl reason i =
     map_option (\<lambda>m. \<lparr>me_entity_id = i, me_title = mm_title m, me_memory_type = memory_type_of d i, me_inclusion = incl,
                     me_retrieval_provenance = [reason (mm_community_id m) (mm_similarity m)]\<rparr>)
       (last_by mm_entity_id (sr_representative_matches seed @ sr_member_matches seed) i)"

definition assemble_global_context ::
  "'v services \<Rightarrow> db \<Rightarrow> 'v community_tables \<Rightarrow> string \<Rightarrow> int option \<Rightarrow> string option \<Rightarrow> retrieved option" where
  "assemble_global_context S d T query budget_tokens agent =
     (let seed = seed_and_rank_communities S d T query agent;
          budget = pack_context_budget S d [] [] [] budget_tokens (map mm_entity_id (sr_member_matches seed))
            (set (map mm_entity_id (sr_representative_matches seed))) {} in
      map_option (\<lambda>ms. Global_Context \<lparr>gc_memories = concat ms, gc_seed = seed, gc_budget = bu_report budget\<rparr>) (those
        [those (map (community_entry d seed Community_Representative Representative_Of) (bu_representatives budget)),
         those (map (community_entry d seed Community_Member Member_Of) (bs_packed (bu_members budget)))]))"

definition assemble_retrieve_context ::
  "env \<Rightarrow> 'v services \<Rightarrow> db \<Rightarrow> 'v community_tables \<Rightarrow> string list option \<Rightarrow> string option \<Rightarrow> int option \<Rightarrow> string \<Rightarrow> string option \<Rightarrow> retrieved option" where
  "assemble_retrieve_context \<Gamma> S d T entity_ids query budget_tokens strategy agent =
     (let errs = validate_retrieve_request strategy entity_ids query in
      if errs \<noteq> [] then Some (Refused errs)
      else if strategy = ''global'' then assemble_global_context S d T (the query) budget_tokens agent
      else assemble_local_context \<Gamma> S d T (the entity_ids) budget_tokens agent)"

section \<open>The ledger\<close>

lemma pack_parts:
  "pack cost limit used ids = (s, u) \<Longrightarrow> mset (bs_packed s) + mset (bs_dropped s) = mset ids \<and>
     subseq (bs_packed s) ids \<and> subseq (bs_dropped s) ids \<and> u = used + int (sum_list (map cost (bs_packed s)))"
proof (induction ids arbitrary: used s u)
  case (Cons i ids)
  show ?case
  proof (cases "used + int (cost i) \<le> limit")
    case True
    obtain s' u' where r: "pack cost limit (used + int (cost i)) ids = (s', u')" by fastforce
    then have "s = s'\<lparr>bs_packed := i # bs_packed s'\<rparr>" "u = u'" using Cons.prems True by simp_all
    then show ?thesis using Cons.IH[OF r] by (simp add: list_emb_Cons)
  next
    case False
    obtain s' u' where r: "pack cost limit used ids = (s', u')" by fastforce
    then have "s = s'\<lparr>bs_dropped := i # bs_dropped s'\<rparr>" "u = u'" using Cons.prems False by simp_all
    then show ?thesis using Cons.IH[OF r] by (simp add: list_emb_Cons)
  qed
qed simp

lemma pack_grows: "pack cost limit used ids = (s, u) \<Longrightarrow> used \<le> u"
  using pack_parts by fastforce

lemma pack_limit:
  "pack cost limit used ids = (s, u) \<Longrightarrow> (used \<le> limit \<longrightarrow> u \<le> limit) \<and> (\<forall>i \<in> set (bs_dropped s). limit < u + int (cost i))"
proof (induction ids arbitrary: used s u)
  case (Cons i ids)
  show ?case
  proof (cases "used + int (cost i) \<le> limit")
    case True
    obtain s' u' where r: "pack cost limit (used + int (cost i)) ids = (s', u')" by fastforce
    then have "s = s'\<lparr>bs_packed := i # bs_packed s'\<rparr>" "u = u'" using Cons.prems True by simp_all
    then show ?thesis using Cons.IH[OF r] True by simp
  next
    case False
    obtain s' u' where r: "pack cost limit used ids = (s', u')" by fastforce
    then have "s = s'\<lparr>bs_dropped := i # bs_dropped s'\<rparr>" "u = u'" using Cons.prems False by simp_all
    then show ?thesis using Cons.IH[OF r] False pack_grows[OF r] by simp
  qed
qed simp

text \<open>The three passes of \<open>pack_context_budget\<close> share one running total.\<close>

lemma budget_passes:
  assumes "b = pack_context_budget S d P X sets budget M R Q" "limit = bd_limit (bu_report b)"
  obtains u1 u2 where "pack (load_token_counts S d) limit 0 P = (bu_primary b, u1)"
    "pack (load_token_counts S d) limit u1 X = (bu_expansion b, u2)"
    "pack (load_token_counts S d) limit u2 M = (bu_members b, bd_used (bu_report b))"
proof -
  define l where "l = min (case budget of Some t \<Rightarrow> t | None \<Rightarrow> CONTEXT_BUDGET_DEFAULT_TOKENS) CONTEXT_BUDGET_MAX_TOKENS"
  obtain p u1 where 1: "pack (load_token_counts S d) l 0 P = (p, u1)" by fastforce
  obtain x u2 where 2: "pack (load_token_counts S d) l u1 X = (x, u2)" by fastforce
  obtain m u3 where 3: "pack (load_token_counts S d) l u2 M = (m, u3)" by fastforce
  have b: "bu_primary b = p" "bu_expansion b = x" "bu_members b = m" "bd_used (bu_report b) = u3" "limit = l"
    unfolding assms by (simp_all add: pack_context_budget_def Let_def 1[unfolded l_def] 2[unfolded l_def] 3[unfolded l_def] l_def)
  show ?thesis using that[of u1 u2] 1 2 3 unfolding b by simp
qed

lemma budget_reserves:
  assumes "b = pack_context_budget S d P X sets budget M R Q"
  shows "bu_conflict_only b = sorted_list_of_set (conflict_only_ids sets)" "bu_representatives b = sorted_list_of_set R"
  unfolding assms by (simp_all add: pack_context_budget_def Let_def split: prod.splits)

section \<open>Entries\<close>

lemma last_by_Some: "last_by f xs i = Some x \<Longrightarrow> x \<in> set xs \<and> f x = i"
  by (auto simp: last_by_def dest!: map_of_SomeD)

lemma last_by_defined: "i \<in> f ` set xs \<Longrightarrow> \<exists>x. last_by f xs i = Some x"
proof -
  assume "i \<in> f ` set xs"
  then have "i \<in> fst ` set (rev (map (\<lambda>x. (f x, x)) xs))" by (simp add: image_image)
  then show ?thesis unfolding last_by_def by (metis map_of_eq_None_iff not_None_eq)
qed

lemma enumerate_members: "snd ` set (List.enumerate n xs) = set xs"
  by (metis set_map map_snd_enumerate)

lemma member_set_defined: "member_to_conflict_set sets i \<noteq> None \<longleftrightarrow> (\<exists>s \<in> set sets. i \<in> cm_id ` set (cs_members s))"
proof -
  have "member_to_conflict_set sets i \<noteq> None \<longleftrightarrow> (\<exists>s \<in> snd ` set (List.enumerate 0 sets). i \<in> cm_id ` set (cs_members s))"
    by (auto simp: member_to_conflict_set_def map_of_eq_None_iff image_iff) force+
  then show ?thesis unfolding enumerate_members .
qed

text \<open>An entry of the right kind exists for every id of the list.\<close>

definition entries :: "inclusion \<Rightarrow> (string \<Rightarrow> memory_entry option) \<Rightarrow> string list \<Rightarrow> bool" where
  "entries k f ids \<longleftrightarrow> (\<forall>i \<in> set ids. \<exists>m. f i = Some m \<and> me_entity_id m = i \<and> me_inclusion m = k)"

lemma those_entries:
  assumes "entries k f ids"
  obtains ms where "those (map f ids) = Some ms" "map me_entity_id ms = ids" "\<forall>m \<in> set ms. me_inclusion m = k"
proof -
  define g where "g i = the (f i)" for i
  have g: "f i = Some (g i) \<and> me_entity_id (g i) = i \<and> me_inclusion (g i) = k" if "i \<in> set ids" for i
    using assms that unfolding entries_def g_def by fastforce
  show ?thesis
  proof (rule that[of "map g ids"])
    show "those (map f ids) = Some (map g ids)" by (rule those_map) (simp add: g)
    show "map me_entity_id (map g ids) = ids" using g by (simp add: map_idI)
    show "\<forall>m \<in> set (map g ids). me_inclusion m = k" using g by simp
  qed
qed

lemma primary_entries: "set ids \<subseteq> rh_id ` set hits \<Longrightarrow> entries Primary (primary_entry hits) ids"
proof -
  have "\<exists>m. primary_entry hits i = Some m \<and> me_entity_id m = i \<and> me_inclusion m = Primary" if i: "i \<in> rh_id ` set hits" for i
  proof -
    obtain h where "last_by rh_id hits i = Some h" using last_by_defined[OF i] by blast
    moreover have "\<exists>k. map_of (rev (map (\<lambda>(k, h). (rh_id h, k + 1)) (List.enumerate 0 hits))) i = Some k"
    proof -
      have "i \<in> rh_id ` snd ` set (List.enumerate 0 hits)" using i by (simp only: enumerate_members)
      then have "i \<in> fst ` set (rev (map (\<lambda>(k, h). (rh_id h, k + 1)) (List.enumerate 0 hits)))" by force
      then show ?thesis by (metis map_of_eq_None_iff not_None_eq)
    qed
    ultimately show ?thesis by (elim exE) (simp add: primary_entry_def)
  qed
  then show "entries Primary (primary_entry hits) ids" if "set ids \<subseteq> rh_id ` set hits"
    unfolding entries_def using that by blast
qed

lemma expansion_entries: "set ids \<subseteq> ec_entity_id ` set cands \<Longrightarrow> entries Expansion (expansion_entry d cands) ids"
proof -
  have "\<exists>m. expansion_entry d cands i = Some m \<and> me_entity_id m = i \<and> me_inclusion m = Expansion" if i: "i \<in> ec_entity_id ` set cands" for i
    using last_by_defined[OF i] by (elim exE) (simp add: expansion_entry_def)
  then show "entries Expansion (expansion_entry d cands) ids" if "set ids \<subseteq> ec_entity_id ` set cands"
    unfolding entries_def using that by blast
qed

lemma orphan_entries: "set ids \<subseteq> om_entity_id ` set ms \<Longrightarrow> entries Orphan_Community (orphan_entry d ms) ids"
proof -
  have "\<exists>m. orphan_entry d ms i = Some m \<and> me_entity_id m = i \<and> me_inclusion m = Orphan_Community" if i: "i \<in> om_entity_id ` set ms" for i
    using last_by_defined[OF i] by (elim exE) (simp add: orphan_entry_def)
  then show "entries Orphan_Community (orphan_entry d ms) ids" if "set ids \<subseteq> om_entity_id ` set ms"
    unfolding entries_def using that by blast
qed

lemma conflict_only_member:
  "i \<in> conflict_only_ids sets \<longleftrightarrow> (\<exists>s \<in> set sets. \<exists>m \<in> set (cs_members s). cm_id m = i \<and> cm_inclusion m = Conflict_Only)"
  by (auto simp: conflict_only_ids_def)

lemma conflict_entries:
  assumes "set ids \<subseteq> conflict_only_ids sets"
  shows "entries Conflict_Only (conflict_entry d sets) ids"
proof -
  have "\<exists>m. conflict_entry d sets i = Some m \<and> me_entity_id m = i \<and> me_inclusion m = Conflict_Only" if i: "i \<in> conflict_only_ids sets" for i
  proof -
    have "i \<in> cm_id ` set (filter (\<lambda>m. cm_inclusion m = Conflict_Only) (concat (map cs_members sets)))"
      using i by (simp add: conflict_only_ids_def)
    from last_by_defined[OF this]
    obtain m where m: "last_by cm_id (filter (\<lambda>m. cm_inclusion m = Conflict_Only) (concat (map cs_members sets))) i = Some m" ..
    have "member_to_conflict_set sets i \<noteq> None" using i unfolding member_set_defined conflict_only_member by blast
    then obtain k where "member_to_conflict_set sets i = Some k" by (rule not_None_eq[THEN iffD1, THEN exE])
    with m show ?thesis by (simp add: conflict_entry_def)
  qed
  then show ?thesis unfolding entries_def using assms by blast
qed

lemma community_entries:
  "set ids \<subseteq> mm_entity_id ` set (sr_representative_matches seed @ sr_member_matches seed) \<Longrightarrow> entries k (community_entry d seed k reason) ids"
proof -
  let ?ms = "sr_representative_matches seed @ sr_member_matches seed"
  have "\<exists>m. community_entry d seed k reason i = Some m \<and> me_entity_id m = i \<and> me_inclusion m = k" if i: "i \<in> mm_entity_id ` set ?ms" for i
    using last_by_defined[OF i] by (elim exE) (simp add: community_entry_def)
  then show "entries k (community_entry d seed k reason) ids" if "set ids \<subseteq> mm_entity_id ` set ?ms"
    unfolding entries_def using that by blast
qed

section \<open>What is assembled\<close>

lemma admitted_resolvable:
  assumes "sound_store d" "dep_admits \<Gamma> d pit agent r"
  shows "resolvable d agent (r_source r)" "resolvable d agent (r_target r)"
proof -
  have "resolvable d agent i" if row: "get_entity d i \<noteq> None" "visible_id d agent i" for i
  proof (cases agent)
    case None
    obtain e where "get_entity d i = Some e" using row(1) by blast
    then show ?thesis using get_entity_Some None by (fastforce simp: resolvable_def visible_def)
  next
    case (Some a)
    then show ?thesis using row(2) by (auto simp: visible_id_def resolvable_def list_ex_iff)
  qed
  moreover have "get_entity d (r_source r) \<noteq> None" "get_entity d (r_target r) \<noteq> None"
    using assms by (auto simp: sound_store_def ends_exist_def list_all_iff dep_admits_def)
  ultimately show "resolvable d agent (r_source r)" "resolvable d agent (r_target r)"
    using assms(2) by (simp_all add: dep_admits_def visible_edge_def)
qed

lemma resolvable_joined:
  assumes "sound_store d"
  shows "resolvable d agent i \<longleftrightarrow> joined_entity d agent i"
proof
  show "joined_entity d agent i" if row: "resolvable d agent i"
  proof -
    obtain e where e: "e \<in> set (entities d)" "e_id e = i" "visible agent e" using row by (auto simp: resolvable_def)
    then have "get_entity d i = Some e" using unique_get_entity[of d e] assms by (simp add: sound_store_def)
    then show ?thesis using e(3) by (simp add: joined_entity_def)
  qed
  show "resolvable d agent i" if "joined_entity d agent i"
    using that get_entity_Some by (fastforce simp: joined_entity_def resolvable_def split: option.splits)
qed

lemma map_filter_set: "y \<in> set (List.map_filter f xs) \<longleftrightarrow> (\<exists>x \<in> set xs. f x = Some y)"
  by (induction xs) (auto simp: List.map_filter_def)

lemma resolved_hits:
  assumes "resolve_primary_hits d agent ids = (hits, errs)"
  shows "anchored d agent (set (map rh_id hits))"
proof -
  have "resolvable d agent (rh_id h)" if h: "h \<in> set hits" for h
  proof -
    have "hits = List.map_filter (case_sum (\<lambda>_. None) Some) (map (resolve_primary_hit d agent) ids)"
      using assms by (simp add: resolve_primary_hits_def Let_def)
    then have "\<exists>x \<in> set (map (resolve_primary_hit d agent) ids). case_sum (\<lambda>_. None) Some x = Some h"
      using h by (simp only: map_filter_set)
    then obtain x where x: "x \<in> set (map (resolve_primary_hit d agent) ids)" "case_sum (\<lambda>_. None) Some x = Some h" ..
    from x(2) have "x = Inr h" by (auto split: sum.splits)
    then obtain raw where "resolve_primary_hit d agent raw = Inr h" using x(1) by auto
    then obtain cs t where "resolve_entity_ref d (Some raw) agent = (Some (rh_id h), cs, t)"
      by (auto simp: resolve_primary_hit_def elim!: truthy.elims(2) split: prod.splits if_splits option.splits)
    then show ?thesis by (rule refs.resolved_known)
  qed
  then show ?thesis by (auto simp: anchored_def)
qed

lemma candidate_ids:
  assumes "sound_store d" "P = set (map ph_id hits)" "anchored d agent P" "set order = P"
    "pit = py_or point_in_time (now_iso \<Gamma>)" "pit \<noteq> []"
    "cands = er_expansion_candidates (expand_context_candidates \<Gamma> d hits point_in_time agent order)"
  shows "distinct (map ec_entity_id cands)" "y \<in> ec_entity_id ` set cands \<Longrightarrow> y \<notin> P \<and> resolvable d agent y"
proof -
  obtain ranked where ranked: "distinct (map rn_entity_id ranked)"
    "set ranked = neighbour_node \<Gamma> d pit agent hits ` {y. hops_into \<Gamma> d pit agent P y \<noteq> {}}"
    "cands = map render_expansion_node (take (10 * length hits) ranked)"
    using expansion_answer[OF assms(1-6) refl] assms(7) by blast
  have ids: "map ec_entity_id cands = take (10 * length hits) (map rn_entity_id ranked)"
    unfolding ranked(3) by (simp add: render_expansion_node_def comp_def take_map)
  show "distinct (map ec_entity_id cands)" unfolding ids using ranked(1) by (rule distinct_take)
  assume "y \<in> ec_entity_id ` set cands"
  then have "y \<in> rn_entity_id ` set ranked" using ids by (metis in_set_takeD set_map)
  then have "hops_into \<Gamma> d pit agent P y \<noteq> {}" unfolding ranked(2) by (auto simp: neighbour_node_def Let_def)
  then obtain x p dir where "y \<notin> P" "expansion_hop \<Gamma> d pit agent (x, p, dir) y" unfolding hops_into_def by blast
  then show "y \<notin> P \<and> resolvable d agent y" using admitted_resolvable[OF assms(1)] by (auto simp: expansion_hop_def)
qed

lemma conflict_members:
  assumes "sound_store d" "P = set (map ph_id hits)" "anchored d agent P" "set order = P"
    "pit = py_or point_in_time (now_iso \<Gamma>)" "pit \<noteq> []"
    "er = expand_context_candidates \<Gamma> d hits point_in_time agent order"
    "X = set (map ec_entity_id (er_expansion_candidates er))"
  obtains res where "assemble_conflict_sets \<Gamma> d er hits pit = Some res"
    "\<forall>s \<in> set (csr_conflict_sets res). \<forall>m \<in> set (cs_members s).
       m = conflict_member_of d P X (cm_id m) \<and> resolvable d agent (cm_id m)"
proof -
  define es where "es = er_contradicts_edges er"
  obtain res where res: "assemble_conflict_sets \<Gamma> d er hits pit = Some res"
    "\<forall>s \<in> set (csr_conflict_sets res). \<exists>x \<in> P. cm_id ` set (cs_members s) = {y. equivclp (joined es) x y} \<and>
       \<not> component_lifecycle_resolved \<Gamma> d pit {y. equivclp (joined es) x y} \<and>
       cs_edges s = filter (\<lambda>e. equivclp (joined es) x (re_source_id e)) es \<and>
       set (cs_members s) = conflict_member_of d P X ` {y. equivclp (joined es) x y}"
    using conflict_sets_answer[OF assms(1-7) es_def assms(8)] by (elim exE conjE) (rule that)
  have "m = conflict_member_of d P X (cm_id m) \<and> resolvable d agent (cm_id m)"
    if s: "s \<in> set (csr_conflict_sets res)" and m: "m \<in> set (cs_members s)" for s m
  proof -
    obtain x where x: "x \<in> P" "set (cs_members s) = conflict_member_of d P X ` {y. equivclp (joined es) x y}"
      using res(2) s by blast
    then obtain y where y: "equivclp (joined es) x y" "m = conflict_member_of d P X y" using m by blast
    have id: "cm_id m = y" by (simp add: y(2) conflict_member_of_def)
    have "resolvable d agent y"
    proof (cases "x = y")
      case True
      then show ?thesis using x(1) assms(3) by (simp add: anchored_def)
    next
      case False
      have "y = x \<or> y \<in> ends es" using y(1) by (induction rule: equivclp_induct) (auto simp: joined_def ends_def)
      with False have "y \<in> ends es" by blast
      then show ?thesis using expansion_contradicts[OF assms(1-6)] admitted_resolvable[OF assms(1)]
        unfolding es_def assms(7) by (auto simp: ends_def adjacent_edges_def raw_edge_of_relation_def)
    qed
    then show ?thesis using y(2) id by simp
  qed
  then show ?thesis using that res(1) by blast
qed

lemma pack_set: "pack cost limit used ids = (s, u) \<Longrightarrow> set (bs_packed s) \<union> set (bs_dropped s) = set ids"
  using pack_parts[of cost limit used ids s u] by (metis set_mset_mset set_mset_union)

lemma pack_distinct: "pack cost limit used ids = (s, u) \<Longrightarrow> distinct ids \<Longrightarrow> distinct (bs_packed s @ bs_dropped s)"
  using pack_parts[of cost limit used ids s u] by (metis mset_append mset_eq_imp_distinct_iff)

lemma recovered_subset: "set (recovered sets dropped) = {i \<in> set dropped. \<exists>s \<in> set sets. i \<in> cm_id ` set (cs_members s)}"
  unfolding recovered_def using member_set_defined by auto

text \<open>The memories of the local strategy by section.\<close>

lemma local_sections:
  assumes "b = pack_context_budget S d (map rh_id hits) (map ec_entity_id cands) sets budget [] {} Q"
    "set (set_order S (set (map om_entity_id matches))) = set (map om_entity_id matches)"
  obtains ps xs cs os where "local_memories S d hits cands sets matches b = Some (ps @ xs @ cs @ os)"
    "map me_entity_id ps = bs_packed (bu_primary b) @ recovered sets (bs_dropped (bu_primary b))"
    "map me_entity_id xs = bs_packed (bu_expansion b) @ recovered sets (bs_dropped (bu_expansion b))"
    "map me_entity_id cs = sorted_list_of_set (conflict_only_ids sets)"
    "map me_entity_id os = set_order S (set (map om_entity_id matches))"
    "\<forall>m \<in> set (ps @ xs). me_inclusion m \<in> {Primary, Expansion}" "\<forall>m \<in> set (cs @ os). me_inclusion m \<notin> {Primary, Expansion}"
proof -
  obtain u1 u2 where u: "pack (load_token_counts S d) (bd_limit (bu_report b)) 0 (map rh_id hits) = (bu_primary b, u1)"
    "pack (load_token_counts S d) (bd_limit (bu_report b)) u1 (map ec_entity_id cands) = (bu_expansion b, u2)"
    using budget_passes[OF assms(1) refl] by metis
  let ?p = "bs_packed (bu_primary b) @ recovered sets (bs_dropped (bu_primary b))"
  let ?x = "bs_packed (bu_expansion b) @ recovered sets (bs_dropped (bu_expansion b))"
  have "set ?p \<subseteq> rh_id ` set hits" "set ?x \<subseteq> ec_entity_id ` set cands"
    using pack_set[OF u(1)] pack_set[OF u(2)] by (auto simp: recovered_subset)
  from primary_entries[OF this(1)] expansion_entries[OF this(2)]
  have e: "entries Primary (primary_entry hits) ?p" "entries Expansion (expansion_entry d cands) ?x" .
  have "entries Conflict_Only (conflict_entry d sets) (bu_conflict_only b)"
    by (rule conflict_entries) (simp add: budget_reserves(1)[OF assms(1)] conflict_only_ids_def)
  from those_entries[OF this] obtain cs where cs: "those (map (conflict_entry d sets) (bu_conflict_only b)) = Some cs"
    "map me_entity_id cs = bu_conflict_only b" "\<forall>m \<in> set cs. me_inclusion m = Conflict_Only" .
  have "entries Orphan_Community (orphan_entry d matches) (set_order S (set (map om_entity_id matches)))"
    by (rule orphan_entries) (simp only: assms(2), simp)
  from those_entries[OF this] obtain os where os: "those (map (orphan_entry d matches) (set_order S (set (map om_entity_id matches)))) = Some os"
    "map me_entity_id os = set_order S (set (map om_entity_id matches))" "\<forall>m \<in> set os. me_inclusion m = Orphan_Community" .
  obtain ps where ps: "those (map (primary_entry hits) ?p) = Some ps" "map me_entity_id ps = ?p" "\<forall>m \<in> set ps. me_inclusion m = Primary"
    using those_entries[OF e(1)] .
  obtain xs where xs: "those (map (expansion_entry d cands) ?x) = Some xs" "map me_entity_id xs = ?x" "\<forall>m \<in> set xs. me_inclusion m = Expansion"
    using those_entries[OF e(2)] .
  show ?thesis
  proof (rule that)
    show "local_memories S d hits cands sets matches b = Some (ps @ xs @ cs @ os)"
      unfolding local_memories_def ps(1) xs(1) cs(1) os(1) by simp
    show "map me_entity_id cs = sorted_list_of_set (conflict_only_ids sets)" unfolding cs(2) by (rule budget_reserves(1)[OF assms(1)])
    show "\<forall>m \<in> set (ps @ xs). me_inclusion m \<in> {Primary, Expansion}" using ps(3) xs(3) by auto
    show "\<forall>m \<in> set (cs @ os). me_inclusion m \<notin> {Primary, Expansion}" using cs(3) os(3) by auto
  qed (rule ps(2) xs(2) os(2))+
qed

definition charged :: "'v services \<Rightarrow> db \<Rightarrow> memory_entry list \<Rightarrow> nat" where
  "charged S d ms = sum_list (map (load_token_counts S d \<circ> me_entity_id) (filter (\<lambda>m. me_inclusion m \<in> {Primary, Expansion}) ms))"

lemma charged_sections:
  assumes "\<forall>m \<in> set (ps @ xs). me_inclusion m \<in> {Primary, Expansion}" "\<forall>m \<in> set (cs @ os). me_inclusion m \<notin> {Primary, Expansion}"
  shows "charged S d (ps @ xs @ cs @ os) = sum_list (map (load_token_counts S d) (map me_entity_id ps @ map me_entity_id xs))"
proof -
  have "filter (\<lambda>m. me_inclusion m \<in> {Primary, Expansion}) (ps @ xs) = ps @ xs" using assms(1) by (simp only: filter_id_conv)
  moreover have "filter (\<lambda>m. me_inclusion m \<in> {Primary, Expansion}) (cs @ os) = []" using assms(2) by (simp only: filter_empty_conv)
  moreover have "ps @ xs @ cs @ os = (ps @ xs) @ (cs @ os)" by simp
  ultimately have "filter (\<lambda>m. me_inclusion m \<in> {Primary, Expansion}) (ps @ xs @ cs @ os) = ps @ xs" by (simp only: filter_append append_Nil2)
  then show ?thesis unfolding charged_def by simp
qed

lemma lineage_defined: "\<exists>l. assemble_lineage \<Gamma> d er ids pit agent = Some l"
proof -
  obtain cs where "classify_contradicts_components \<Gamma> d (er_contradicts_edges er) pit = Some cs"
    using classify_components by blast
  then show ?thesis by (simp add: assemble_lineage_def Let_def)
qed

text \<open>The order in which Python runs over a set is an enumeration of the set.\<close>

definition enumerates :: "'v services \<Rightarrow> bool" where
  "enumerates S \<longleftrightarrow> (\<forall>A. finite A \<longrightarrow> set (set_order S A) = A \<and> distinct (set_order S A))"

lemma local_context:
  assumes "sound_store d" "now_iso \<Gamma> \<noteq> []" "enumerates S" "resolve_primary_hits d agent ids = (hits, [])"
  obtains c where "assemble_local_context \<Gamma> S d T ids budget agent = Some (Local_Context c)"
    "\<forall>m \<in> set (lc_memories c). joined_entity d agent (me_entity_id m)"
    "\<forall>(k, s) \<in> set (lc_conflict_sets c). cm_id ` set (cs_members s) \<subseteq> me_entity_id ` set (lc_memories c)"
    "fst ` set (lc_lineage c) \<subseteq> me_entity_id ` set (lc_memories c)"
    "mt_used (lc_metadata c) = int (charged S d (lc_memories c))"
    "distinct (map rh_id hits) \<longrightarrow> distinct (map me_entity_id (lc_memories c))"
proof -
  define primary_hits where "primary_hits = map (\<lambda>h. \<lparr>ph_id = rh_id h, ph_score = (1 :: real)\<rparr>) hits"
  define P where "P = set (map ph_id primary_hits)"
  have ids: "map ph_id primary_hits = map rh_id hits" by (simp add: primary_hits_def comp_def)
  define er where "er = expand_context_candidates \<Gamma> d primary_hits (Some (now_iso \<Gamma>)) agent (set_order S P)"
  define cands where "cands = er_expansion_candidates er"
  define X where "X = set (map ec_entity_id cands)"
  have anchored: "anchored d agent P" using resolved_hits[OF assms(4)] unfolding P_def ids .
  have order: "set (set_order S P) = P" using assms(3) by (simp add: enumerates_def P_def)
  have pit: "now_iso \<Gamma> = py_or (Some (now_iso \<Gamma>)) (now_iso \<Gamma>)" using assms(2) by simp
  obtain csr where csr: "assemble_conflict_sets \<Gamma> d er primary_hits (now_iso \<Gamma>) = Some csr"
    and member: "\<forall>s \<in> set (csr_conflict_sets csr). \<forall>m \<in> set (cs_members s).
       m = conflict_member_of d P X (cm_id m) \<and> resolvable d agent (cm_id m)"
    using conflict_members[OF assms(1) P_def anchored order pit assms(2) er_def X_def[unfolded cands_def]] .
  note cand = candidate_ids[OF assms(1) P_def anchored order pit assms(2) cands_def[unfolded er_def]]
  define sets where "sets = csr_conflict_sets csr"
  define excluded where "excluded = P \<union> X \<union> conflict_only_ids sets"
  define orphan where "orphan = find_orphan_community_matches S d T (map rh_id hits) excluded agent"
  define Q where "Q = set (map om_entity_id (or_matches orphan))"
  define b where "b = pack_context_budget S d (map rh_id hits) (map ec_entity_id cands) sets budget [] {} Q"
  obtain lineage where lineage: "assemble_lineage \<Gamma> d er (map rh_id hits) (now_iso \<Gamma>) agent = Some lineage"
    using lineage_defined by blast
  have orderQ: "set (set_order S Q) = Q" "distinct (set_order S Q)" using assms(3) by (simp_all add: enumerates_def Q_def)
  obtain ps xs cs os where sections: "local_memories S d hits cands sets (or_matches orphan) b = Some (ps @ xs @ cs @ os)"
    "map me_entity_id ps = bs_packed (bu_primary b) @ recovered sets (bs_dropped (bu_primary b))"
    "map me_entity_id xs = bs_packed (bu_expansion b) @ recovered sets (bs_dropped (bu_expansion b))"
    "map me_entity_id cs = sorted_list_of_set (conflict_only_ids sets)"
    "map me_entity_id os = set_order S Q"
    "\<forall>m \<in> set (ps @ xs). me_inclusion m \<in> {Primary, Expansion}" "\<forall>m \<in> set (cs @ os). me_inclusion m \<notin> {Primary, Expansion}"
    using local_sections[OF b_def[unfolded Q_def] orderQ(1)[unfolded Q_def]] unfolding Q_def by metis
  define ms where "ms = ps @ xs @ cs @ os"
  define c where "c = \<lparr>lc_memories = ms, lc_edges = er_in_network_edges er, lc_lineage = surfaced_lineage ms lineage,
              lc_conflict_sets = numbered_sets sets, lc_metadata = local_metadata S d er csr orphan b\<rparr>"
  have result: "assemble_local_context \<Gamma> S d T ids budget agent = Some (Local_Context c)"
    unfolding assemble_local_context_def Let_def assms(4) prod.case primary_hits_def[symmetric] P_def[unfolded ids, symmetric]
      er_def[symmetric] cands_def[symmetric] X_def[symmetric] ids csr Option.bind.bind_lunit sets_def[symmetric]
      excluded_def[symmetric] orphan_def[symmetric] Q_def[symmetric] b_def[symmetric] lineage sections(1) ms_def[symmetric]
    by (simp add: c_def)
  obtain u1 u2 where u: "pack (load_token_counts S d) (bd_limit (bu_report b)) 0 (map rh_id hits) = (bu_primary b, u1)"
    "pack (load_token_counts S d) (bd_limit (bu_report b)) u1 (map ec_entity_id cands) = (bu_expansion b, u2)"
    "pack (load_token_counts S d) (bd_limit (bu_report b)) u2 [] = (bu_members b, bd_used (bu_report b))"
    using budget_passes[OF b_def refl] .
  have surfaced: "set (map me_entity_id ms) = set (map me_entity_id ps) \<union> set (map me_entity_id xs) \<union> conflict_only_ids sets \<union> Q"
    unfolding ms_def using sections(4,5) orderQ(1) by (simp add: conflict_only_ids_def Un_ac flip: set_map)
  have sub: "set (map me_entity_id ps) \<subseteq> P" "set (map me_entity_id xs) \<subseteq> X"
    unfolding sections(2,3) P_def ids X_def using pack_set[OF u(1)] pack_set[OF u(2)] by (auto simp: recovered_subset)
  have joined: "joined_entity d agent i" if i: "i \<in> set (map me_entity_id ms)" for i
  proof -
    consider "i \<in> P" | "i \<in> X" | "i \<in> conflict_only_ids sets" | "i \<in> Q" using i sub unfolding surfaced by blast
    then show ?thesis
    proof cases
      case 1
      then show ?thesis using anchored resolvable_joined[OF assms(1)] by (simp add: anchored_def)
    next
      case 2
      then show ?thesis using cand(2)[of i] resolvable_joined[OF assms(1)] by (simp add: X_def)
    next
      case 3
      then show ?thesis using member resolvable_joined[OF assms(1)] unfolding conflict_only_member sets_def by blast
    next
      case 4
      then show ?thesis using orphan_matches(2) unfolding Q_def orphan_def by auto
    qed
  qed
  have closed: "cm_id m \<in> set (map me_entity_id ms)" if m: "s \<in> set sets" "m \<in> set (cs_members s)" for s m
  proof -
    have named: "\<exists>s \<in> set sets. cm_id m \<in> cm_id ` set (cs_members s)" using m by blast
    have fate: "m = conflict_member_of d P X (cm_id m)" using member m unfolding sets_def by blast
    consider "cm_id m \<in> P" | "cm_id m \<in> X" | "cm_inclusion m = Conflict_Only"
      using fate by (metis conflict_member.select_convs(2) conflict_member_of_def)
    then show ?thesis
    proof cases
      case 1
      then have "cm_id m \<in> set (map me_entity_id ps)"
        using pack_set[OF u(1)] named unfolding sections(2) P_def ids by (auto simp: recovered_subset)
      then show ?thesis unfolding surfaced by blast
    next
      case 2
      then have "cm_id m \<in> set (map me_entity_id xs)"
        using pack_set[OF u(2)] named unfolding sections(3) X_def by (auto simp: recovered_subset)
      then show ?thesis unfolding surfaced by blast
    next
      case 3
      then have "cm_id m \<in> conflict_only_ids sets" using m conflict_only_member by blast
      then show ?thesis unfolding surfaced by blast
    qed
  qed
  have used: "mt_used (local_metadata S d er csr orphan b) = int (charged S d ms)"
  proof -
    have "bd_used (bu_report b) = int (sum_list (map (load_token_counts S d) (bs_packed (bu_primary b)))) +
        int (sum_list (map (load_token_counts S d) (bs_packed (bu_expansion b))))"
      using pack_parts[OF u(1)] pack_parts[OF u(2)] u(3) by simp
    then show ?thesis unfolding ms_def charged_sections[OF sections(6,7)] sections(2,3)
      by (simp add: local_metadata_def Let_def sets_def)
  qed
  have once: "distinct (map me_entity_id ms)" if hits: "distinct (map rh_id hits)"
  proof -
    have "distinct (bs_packed (bu_primary b) @ bs_dropped (bu_primary b))" by (rule pack_distinct[OF u(1) hits])
    then have ps: "distinct (map me_entity_id ps)" unfolding sections(2) by (auto simp: recovered_def)
    have "distinct (bs_packed (bu_expansion b) @ bs_dropped (bu_expansion b))" by (rule pack_distinct[OF u(2) cand(1)])
    then have xs: "distinct (map me_entity_id xs)" unfolding sections(3) by (auto simp: recovered_def)
    have "P \<inter> X = {}" using cand(2) by (auto simp: X_def)
    moreover have "conflict_only_ids sets \<inter> (P \<union> X) = {}"
    proof -
      have "i \<notin> P \<union> X" if only: "i \<in> conflict_only_ids sets" for i
      proof -
        obtain m where m: "cm_id m = i" "cm_inclusion m = Conflict_Only" "m = conflict_member_of d P X i"
          using only member unfolding conflict_only_member sets_def by blast
        then show ?thesis by (auto simp: conflict_member_of_def split: if_splits)
      qed
      then show ?thesis by blast
    qed
    moreover have "Q \<inter> (P \<union> X \<union> conflict_only_ids sets) = {}"
      using orphan_matches(1) unfolding Q_def orphan_def excluded_def by fastforce
    moreover have "set (map me_entity_id cs) = conflict_only_ids sets" unfolding sections(4) by (simp add: conflict_only_ids_def)
    moreover have "distinct (map me_entity_id cs)" "distinct (map me_entity_id os)" unfolding sections(4,5) using orderQ(2) by simp_all
    moreover have "set (map me_entity_id os) = Q" unfolding sections(5) by (rule orderQ(1))
    ultimately show ?thesis using ps xs sub unfolding ms_def map_append distinct_append set_append by blast
  qed
  show ?thesis
  proof (rule that[OF result])
    show "\<forall>m \<in> set (lc_memories c). joined_entity d agent (me_entity_id m)" using joined by (simp add: c_def)
    show "fst ` set (lc_lineage c) \<subseteq> me_entity_id ` set (lc_memories c)" by (auto simp: c_def surfaced_lineage_def)
    show "mt_used (lc_metadata c) = int (charged S d (lc_memories c))" using used by (simp add: c_def)
    show "distinct (map rh_id hits) \<longrightarrow> distinct (map me_entity_id (lc_memories c))" using once by (simp add: c_def)
    have "(k, s) \<in> set (numbered_sets sets) \<Longrightarrow> s \<in> set sets" for k s
      unfolding numbered_sets_def using enumerate_members[of 0 sets] by force
    then show "\<forall>(k, s) \<in> set (lc_conflict_sets c). cm_id ` set (cs_members s) \<subseteq> me_entity_id ` set (lc_memories c)"
      using closed by (fastforce simp: c_def)
  qed
qed

lemma global_context:
  assumes "sound_store d" "distinct (map fst (entity_embeddings T))" "distinct (map fst (community_embeddings T))"
  obtains g where "assemble_global_context S d T query budget agent = Some (Global_Context g)"
    "\<forall>m \<in> set (gc_memories g). joined_entity d agent (me_entity_id m)"
    "distinct (map me_entity_id (gc_memories g))"
    "0 \<le> bd_limit (gc_budget g) \<longrightarrow> bd_used (gc_budget g) \<le> bd_limit (gc_budget g)"
    "length (filter (\<lambda>m. me_inclusion m = Community_Representative) (gc_memories g)) \<le> 5"
proof -
  define seed where "seed = seed_and_rank_communities S d T query agent"
  define R where "R = set (map mm_entity_id (sr_representative_matches seed))"
  define M where "M = map mm_entity_id (sr_member_matches seed)"
  define b where "b = pack_context_budget S d [] [] [] budget M R {}"
  note seed_sound = global_answer[OF assms(2,3) seed_def]
  obtain u1 u2 where u: "pack (load_token_counts S d) (bd_limit (bu_report b)) 0 [] = (bu_primary b, u1)"
    "pack (load_token_counts S d) (bd_limit (bu_report b)) u1 [] = (bu_expansion b, u2)"
    "pack (load_token_counts S d) (bd_limit (bu_report b)) u2 M = (bu_members b, bd_used (bu_report b))"
    using budget_passes[OF b_def refl] .
  have reps: "bu_representatives b = sorted_list_of_set R" by (rule budget_reserves(2)[OF b_def])
  have ids: "set (bu_representatives b) = R" unfolding reps by (simp add: R_def)
  have packed: "set (bs_packed (bu_members b)) \<subseteq> set M" using pack_set[OF u(3)] by blast
  have "entries Community_Representative (community_entry d seed Community_Representative Representative_Of) (bu_representatives b)"
    by (rule community_entries) (simp add: ids, auto simp: R_def)
  from those_entries[OF this] obtain rs where rs:
    "those (map (community_entry d seed Community_Representative Representative_Of) (bu_representatives b)) = Some rs"
    "map me_entity_id rs = bu_representatives b" "\<forall>m \<in> set rs. me_inclusion m = Community_Representative" .
  have "entries Community_Member (community_entry d seed Community_Member Member_Of) (bs_packed (bu_members b))"
    by (rule community_entries) (use packed in \<open>auto simp: M_def\<close>)
  from those_entries[OF this] obtain ms where ms:
    "those (map (community_entry d seed Community_Member Member_Of) (bs_packed (bu_members b))) = Some ms"
    "map me_entity_id ms = bs_packed (bu_members b)" "\<forall>m \<in> set ms. me_inclusion m = Community_Member" .
  have result: "assemble_global_context S d T query budget agent =
      Some (Global_Context \<lparr>gc_memories = rs @ ms, gc_seed = seed, gc_budget = bu_report b\<rparr>)"
    unfolding assemble_global_context_def Let_def using rs(1) ms(1)
    by (simp add: seed_def[symmetric] M_def[symmetric] R_def[unfolded set_map, symmetric] b_def[symmetric])
  have "distinct (map mm_entity_id (sr_representative_matches seed @ sr_member_matches seed))" using seed_sound by blast
  then have apart: "distinct M" "R \<inter> set M = {}" by (auto simp: M_def R_def)
  have seen: "joined_entity d agent i" if i: "i \<in> R \<union> set M" for i
  proof -
    obtain m where "m \<in> set (sr_representative_matches seed @ sr_member_matches seed)" "i = mm_entity_id m"
      using i by (auto simp: R_def M_def)
    then show ?thesis using seed_sound by blast
  qed
  show ?thesis
  proof (rule that[OF result])
    show "\<forall>m \<in> set (gc_memories \<lparr>gc_memories = rs @ ms, gc_seed = seed, gc_budget = bu_report b\<rparr>). joined_entity d agent (me_entity_id m)"
    proof
      fix m
      assume "m \<in> set (gc_memories \<lparr>gc_memories = rs @ ms, gc_seed = seed, gc_budget = bu_report b\<rparr>)"
      then have "me_entity_id m \<in> set (map me_entity_id rs) \<union> set (map me_entity_id ms)" by auto
      then show "joined_entity d agent (me_entity_id m)" using seen packed unfolding rs(2) ms(2) ids by blast
    qed
    have "distinct (bs_packed (bu_members b))" using pack_distinct[OF u(3) apart(1)] by simp
    then show "distinct (map me_entity_id (gc_memories \<lparr>gc_memories = rs @ ms, gc_seed = seed, gc_budget = bu_report b\<rparr>))"
      using apart(2) packed ids by (auto simp: rs(2) ms(2) reps)
    show "0 \<le> bd_limit (gc_budget \<lparr>gc_memories = rs @ ms, gc_seed = seed, gc_budget = bu_report b\<rparr>) \<longrightarrow>
        bd_used (gc_budget \<lparr>gc_memories = rs @ ms, gc_seed = seed, gc_budget = bu_report b\<rparr>) \<le>
        bd_limit (gc_budget \<lparr>gc_memories = rs @ ms, gc_seed = seed, gc_budget = bu_report b\<rparr>)"
      using pack_limit[OF u(3)] u(1,2) by simp
    have "length rs \<le> length (sr_representative_matches seed)"
    proof -
      have "length rs = card R" using rs(2) reps by (metis length_map sorted_list_of_set.length_sorted_key_list_of_set)
      also have "\<dots> \<le> length (sr_representative_matches seed)" unfolding R_def by (metis card_length length_map)
      finally show ?thesis .
    qed
    moreover have "length (sr_representative_matches seed) \<le> 5" using seed_sound by blast
    moreover have "filter (\<lambda>m. me_inclusion m = Community_Representative) (rs @ ms) = rs" using rs(3) ms(3) by simp
    ultimately show "length (filter (\<lambda>m. me_inclusion m = Community_Representative)
        (gc_memories \<lparr>gc_memories = rs @ ms, gc_seed = seed, gc_budget = bu_report b\<rparr>)) \<le> 5" by simp
  qed
qed

section \<open>Samples\<close>

text \<open>In the disputed store the token costs are the lengths of the contents.\<close>

definition no_tables :: "real community_tables" where
  "no_tables = \<lparr>communities = [], community_embeddings = [], community_membership = [], entity_embeddings = [], vector_extension = False\<rparr>"

lemma sample_enumerates: "enumerates sample_services"
  by (simp add: enumerates_def sample_services_def)

definition surfaced_ids :: "retrieved option \<Rightarrow> (string \<times> inclusion) list" where
  "surfaced_ids r = (case r of Some (Local_Context c) \<Rightarrow> map (\<lambda>m. (me_entity_id m, me_inclusion m)) (lc_memories c)
     | Some (Global_Context g) \<Rightarrow> map (\<lambda>m. (me_entity_id m, me_inclusion m)) (gc_memories g) | _ \<Rightarrow> [])"

lemma dispute_retrieval:
  "surfaced_ids (assemble_retrieve_context sample_env sample_services dispute_db no_tables (Some [''a'']) None (Some 0) ''local'' (Some ''b'')) =
     [(''a'', Primary), (''b'', Conflict_Only), (''c'', Conflict_Only)]"
  by code_simp

section \<open>Properties\<close>



text \<open>
  C24. Packing under the budget. Hits come first, then candidates, then members of communities; what is
  packed and what is dropped together are the ids that were given, in their order; the tokens used are the
  costs of what is packed, never above a budget of at least 0; and no dropped id would fit into what is
  left of the budget.
\<close>

theorem budget_packing_exact:
  assumes "b = pack_context_budget S d P X sets budget M R Q" "limit = bd_limit (bu_report b)"
    "used = bd_used (bu_report b)" "cost = load_token_counts S d"
  shows "limit = min (case budget of Some t \<Rightarrow> t | None \<Rightarrow> 8000) 32000 \<and>
    used = int (sum_list (map cost (bs_packed (bu_primary b) @ bs_packed (bu_expansion b) @ bs_packed (bu_members b)))) \<and>
    (0 \<le> limit \<longrightarrow> used \<le> limit) \<and>
    (\<forall>i \<in> set (bs_dropped (bu_primary b) @ bs_dropped (bu_expansion b) @ bs_dropped (bu_members b)). limit < used + int (cost i)) \<and>
    (\<forall>(s, ids) \<in> {(bu_primary b, P), (bu_expansion b, X), (bu_members b, M)}.
       mset (bs_packed s) + mset (bs_dropped s) = mset ids \<and> subseq (bs_packed s) ids \<and> subseq (bs_dropped s) ids)"
proof -
  obtain u1 u2 where u: "pack cost limit 0 P = (bu_primary b, u1)" "pack cost limit u1 X = (bu_expansion b, u2)"
    "pack cost limit u2 M = (bu_members b, used)"
    using budget_passes[OF assms(1,2)] unfolding assms(3,4) .
  note parts = pack_parts[OF u(1)] pack_parts[OF u(2)] pack_parts[OF u(3)]
  note fits = pack_limit[OF u(1)] pack_limit[OF u(2)] pack_limit[OF u(3)]
  have "limit = min (case budget of Some t \<Rightarrow> t | None \<Rightarrow> 8000) 32000"
    unfolding assms(1,2) by (simp add: pack_context_budget_def Let_def CONTEXT_BUDGET_DEFAULT_TOKENS_def CONTEXT_BUDGET_MAX_TOKENS_def
        split: prod.splits option.splits)
  moreover have "used = int (sum_list (map cost (bs_packed (bu_primary b) @ bs_packed (bu_expansion b) @ bs_packed (bu_members b))))"
    using parts by simp
  moreover have "0 \<le> limit \<longrightarrow> used \<le> limit" using fits by blast
  moreover have "\<forall>i \<in> set (bs_dropped (bu_primary b) @ bs_dropped (bu_expansion b) @ bs_dropped (bu_members b)). limit < used + int (cost i)"
    using fits pack_grows[OF u(2)] pack_grows[OF u(3)] by fastforce
  ultimately show ?thesis using parts by blast
qed

theorem budget_packing_exact_witness:
  "bd_used (bu_report (pack_context_budget sample_services dispute_db [''a'', ''b''] [''c''] [] (Some 5) [] {} {})) \<le> 5"
proof -
  have "bd_limit (bu_report (pack_context_budget sample_services dispute_db [''a'', ''b''] [''c''] [] (Some 5) [] {} {})) = 5" by code_simp
  then show ?thesis using budget_packing_exact[OF refl refl refl refl, of sample_services dispute_db "[''a'', ''b'']" "[''c'']" "[]" "Some 5" "[]" "{}" "{}"]
    by linarith
qed

text \<open>
  A memory that is named twice is answered twice. The references are not compared after they are
  resolved, so a request with two references to one memory has two entries of it, both with the rank of
  the last, and its tokens are charged twice.
\<close>

lemma duplicate_hits_answered_twice:
  "\<exists>c. assemble_retrieve_context sample_env sample_services dispute_db no_tables (Some [''b'', '' b'']) None None ''local'' (Some ''b'') =
      Some (Local_Context c) \<and>
      map (\<lambda>m. (me_entity_id m, me_retrieval_provenance m)) (filter (\<lambda>m. me_inclusion m = Primary) (lc_memories c)) =
        [(''b'', [Caller_Supplied_Anchor 2]), (''b'', [Caller_Supplied_Anchor 2])] \<and>
      mt_used (lc_metadata c) = 2 * int (load_token_counts sample_services dispute_db ''b'') \<and>
      0 < load_token_counts sample_services dispute_db ''b'' \<and> cr_cap (mt_fan_out (lc_metadata c)) = 20"
proof -
  let ?r = "assemble_retrieve_context sample_env sample_services dispute_db no_tables (Some [''b'', '' b'']) None None ''local'' (Some ''b'')"
  have "case ?r of Some (Local_Context c) \<Rightarrow>
      map (\<lambda>m. (me_entity_id m, me_retrieval_provenance m)) (filter (\<lambda>m. me_inclusion m = Primary) (lc_memories c)) =
        [(''b'', [Caller_Supplied_Anchor 2]), (''b'', [Caller_Supplied_Anchor 2])] \<and>
      mt_used (lc_metadata c) = 2 * int (load_token_counts sample_services dispute_db ''b'') \<and>
      0 < load_token_counts sample_services dispute_db ''b'' \<and> cr_cap (mt_fan_out (lc_metadata c)) = 20 | _ \<Rightarrow> False"
    by code_simp
  then show ?thesis by (auto split: option.splits retrieved.splits)
qed

end
