(* ===== verification/Consolidation.thy ===== *)
theory Consolidation
  imports Core_Governance Dependencies Traces
begin

text \<open>
  Consolidation of memories, the lifecycle half of \<^verbatim>\<open>src/src/saltmdb/domain/services/relation_service.py\<close>: one
  canonical memory replaces two or more parents, which are archived. The preflight reads the store \<open>d0\<close>
  before the write transaction begins; the commit runs on the store \<open>d1\<close> it then finds, which other writers
  may have changed. A batch runs all its items in one transaction. Embedding tables, the near-duplicate
  check that only logs, and the list of parent ids on the new row are left out.
\<close>

section \<open>Requests and services\<close>

definition COHESION_MIN_PAIRWISE_THRESHOLD :: rat where
  "COHESION_MIN_PAIRWISE_THRESHOLD = 6547 / 10000"

definition MAX_MEMORY_CONTENT_CHARS :: nat where
  "MAX_MEMORY_CONTENT_CHARS = 40000"

text \<open>The dictionaries of \<open>get_fresh_entity_centroids\<close>: centroids, reasons for having none, observed states.\<close>

type_synonym observed = "(string \<times> (string option \<times> status)) list"

record bulk_context =
  precomputed_centroids :: "(string \<times> rat list) list"
  precomputed_unresolved :: "(string \<times> string) list"
  precomputed_observed_state :: observed

text \<open>The numeric services: cohesion over embeddings, the text-quality score, and Python's \<open>f"{x:.4f}"\<close>.\<close>

record merge_services =
  fresh_centroids :: "db \<Rightarrow> string list \<Rightarrow> bulk_context"
  quality_rejects :: "string \<Rightarrow> bool"
  four_decimals :: "rat \<Rightarrow> string"

record merge_request =
  mr_parent_ids :: "string list"
  mr_title :: string
  mr_content :: string
  mr_tags :: "string option list"
  mr_override :: "string option"
  mr_scope :: scope
  mr_is_core :: py_value
  mr_core_reason :: "string option"
  mr_core_exit_condition :: "string option"
  mr_core_review_after :: "string option"
  mr_detail_memory_ids :: "string list option"
  mr_agent_id :: "string option"
  mr_memory_type :: "string option"
  mr_weight :: int
  mr_context_id :: "string option"
  mr_metadata :: "(string \<times> string) list option"

definition slice :: "(string \<times> 'v) list \<Rightarrow> string list \<Rightarrow> (string \<times> 'v) list" where
  "slice m ids = List.map_filter (\<lambda>i. map_option (Pair i) (map_of m i)) ids"

definition for_parents :: "bulk_context \<Rightarrow> string list \<Rightarrow> bulk_context" where
  "for_parents b ids = \<lparr>precomputed_centroids = slice (precomputed_centroids b) ids,
     precomputed_unresolved = slice (precomputed_unresolved b) ids,
     precomputed_observed_state = slice (precomputed_observed_state b) ids\<rparr>"

section \<open>Parents\<close>

definition validate_parent_reference :: "db \<Rightarrow> string \<Rightarrow> string list \<Rightarrow> (err + string) \<times> string list" where
  "validate_parent_reference d raw seen =
     (case resolve_entity_ref d (Some raw) None of (resolved, cands, _) \<Rightarrow>
        if \<not> truthy resolved
        then (Inl (error (if cands \<noteq> [] then ''AMBIGUOUS_PARENT_ID'' else ''UNKNOWN_PARENT_ID'') None), seen)
        else let i = the resolved in
          if i \<in> set seen then (Inr i, seen)
          else case get_entity d i of
            None \<Rightarrow> (Inl (error ''UNKNOWN_PARENT_ID'' None), i # seen)
          | Some e \<Rightarrow>
              if e_status e \<noteq> Raw then (Inl (error ''INACTIVE_PARENT'' None), i # seen)
              else (Inr i, i # seen))"

fun resolve_parents :: "db \<Rightarrow> string list \<Rightarrow> string list \<Rightarrow> string list \<Rightarrow> err + string list" where
  "resolve_parents d seen resolved [] = Inr resolved"
| "resolve_parents d seen resolved (raw # raws) =
     (case validate_parent_reference d raw seen of
        (Inl e, _) \<Rightarrow> Inl e
      | (Inr i, seen') \<Rightarrow> resolve_parents d seen' (if i \<in> set resolved then resolved else resolved @ [i]) raws)"

definition resolve_and_validate_parent_ids :: "db \<Rightarrow> string list \<Rightarrow> err + string list" where
  "resolve_and_validate_parent_ids d ids =
     (case resolve_parents d [] [] ids of
        Inl e \<Rightarrow> Inl e
      | Inr parents \<Rightarrow> if length parents < 2 then Inl (error ''REJECT_PARENT_COUNT'' None) else Inr parents)"

section \<open>Preflight\<close>

definition consolidation_validate_request :: "merge_request \<Rightarrow> err option" where
  "consolidation_validate_request req =
     (if mr_parent_ids req = [] then Some (error ''INVALID_PARENT_IDS'' None)
      else if mr_title req = [] \<or> mr_content req = [] then Some (error ''MISSING_REQUIRED_FIELDS'' None)
      else if length (mr_content req) > MAX_MEMORY_CONTENT_CHARS then Some (error ''CONTENT_TOO_LONG'' None)
      else None)"

definition consolidation_validate_parents :: "db \<Rightarrow> merge_request \<Rightarrow> err + string list" where
  "consolidation_validate_parents d req =
     (case resolve_and_validate_parent_ids d (mr_parent_ids req) of
        Inl e \<Rightarrow> Inl e
      | Inr parents \<Rightarrow>
          (case validate_tag_names (mr_tags req) of
             Some _ \<Rightarrow> Inl (error ''INVALID_TAG_NAME'' None)
           | None \<Rightarrow> Inr parents))"

text \<open>The states of the parents when no cohesion is measured: \<open>WHERE id IN (...) AND status != 'archived'\<close>.\<close>

definition observe_parent_state :: "db \<Rightarrow> string list \<Rightarrow> observed" where
  "observe_parent_state d ids =
     map (\<lambda>e. (e_id e, e_content_hash e, e_status e)) (filter (\<lambda>e. e_id e \<in> set ids \<and> e_status e \<noteq> Archived) (entities d))"

record cohesion_measurement =
  hm_min_sim :: rat
  hm_offending_pair :: "(string \<times> string) option"
  hm_unresolved :: "(string \<times> string) list"
  hm_observed_state :: observed

definition consolidation_measure_cohesion ::
  "env \<Rightarrow> merge_services \<Rightarrow> db \<Rightarrow> string list \<Rightarrow> bulk_context option \<Rightarrow> cohesion_measurement" where
  "consolidation_measure_cohesion \<Gamma> S d parents bulk =
     (if length parents < 2
      then \<lparr>hm_min_sim = 1, hm_offending_pair = None, hm_unresolved = [], hm_observed_state = observe_parent_state d parents\<rparr>
      else
        let b = (case bulk of Some b \<Rightarrow> b | None \<Rightarrow> fresh_centroids S d parents);
            (min_sim, pair) =
              (case precomputed_unresolved b of
                 (i, why) # _ \<Rightarrow> (0, Some (i, ''<'' @ why @ ''>''))
               | [] \<Rightarrow> min_pairwise_cohesion \<Gamma> (precomputed_centroids b))
        in \<lparr>hm_min_sim = min_sim, hm_offending_pair = pair, hm_unresolved = precomputed_unresolved b,
            hm_observed_state = precomputed_observed_state b\<rparr>)"

record cohesion_result =
  hr_override_applied :: bool
  hr_min_sim :: rat
  hr_offending_pair :: "(string \<times> string) option"
  hr_unresolved :: "(string \<times> string) list"
  hr_justification :: string

definition override_note :: "merge_services \<Rightarrow> cohesion_measurement \<Rightarrow> string \<Rightarrow> string" where
  "override_note S m justification =
     newline @ newline @ ''---'' @ newline @
     ''[Consolidation Override] This merge was forced past the automatic cohesion gate. '' @
     ''The minimum pairwise similarity between parents was '' @ four_decimals S (hm_min_sim m) @
     '', below the required threshold of 0.6547. '' @
     (if hm_unresolved m \<noteq> [] then ''One or more parents had no usable content for scoring. '' else []) @
     ''Justification: '' @ justification"

definition consolidation_apply_cohesion_override ::
  "merge_services \<Rightarrow> string \<Rightarrow> string option \<Rightarrow> cohesion_measurement \<Rightarrow> err + string \<times> cohesion_result" where
  "consolidation_apply_cohesion_override S content override m =
     (let justification = py_strip (py_or override []);
          applied = hm_min_sim m < COHESION_MIN_PAIRWISE_THRESHOLD
      in if applied \<and> length justification < cohesion_override_min_length
         then Inl (error ''REJECT_LOW_COHESION'' None)
         else Inr (if applied then content @ override_note S m justification else content,
           \<lparr>hr_override_applied = applied, hr_min_sim = hm_min_sim m, hr_offending_pair = hm_offending_pair m,
            hr_unresolved = hm_unresolved m, hr_justification = justification\<rparr>))"

record merge_content =
  kc_content :: string
  kc_title :: string
  kc_agent :: string
  kc_content_hash :: string

definition consolidation_content_preflight ::
  "env \<Rightarrow> merge_services \<Rightarrow> merge_request \<Rightarrow> string \<Rightarrow> err + merge_content" where
  "consolidation_content_preflight \<Gamma> S req content =
     (case parse_is_core (mr_is_core req) of
        Inl _ \<Rightarrow> Inl (error ''INVALID_CORE_REQUEST'' None)
      | Inr _ \<Rightarrow>
          let redacted = redact_secrets \<Gamma> content in
          if quality_rejects S redacted then Inl (error ''REJECT_QUALITY'' None)
          else Inr \<lparr>kc_content = redacted, kc_title = redact_secrets \<Gamma> (mr_title req),
                    kc_agent = py_or (mr_agent_id req) ''system'', kc_content_hash = compute_content_hash \<Gamma> redacted\<rparr>)"

definition consolidation_duplicate_preflight :: "db \<Rightarrow> string list \<Rightarrow> merge_content \<Rightarrow> err option" where
  "consolidation_duplicate_preflight d parents c =
     (if find_row (\<lambda>e. e_content_hash e = Some (kc_content_hash c) \<and> e_agent_id e = Some (kc_agent c) \<and>
           e_status e \<noteq> Archived \<and> e_id e \<notin> set parents) (entities d) \<noteq> None
      then Some (error ''REJECT_EXACT_DUPLICATE'' None) else None)"

record merge_plan =
  pl_parents :: "string list"
  pl_cohesion :: cohesion_result
  pl_observed_state :: observed
  pl_content :: merge_content

definition consolidation_build_plan ::
  "env \<Rightarrow> merge_services \<Rightarrow> db \<Rightarrow> merge_request \<Rightarrow> bulk_context option \<Rightarrow> err + merge_plan" where
  "consolidation_build_plan \<Gamma> S d req bulk =
     (case consolidation_validate_parents d req of
        Inl e \<Rightarrow> Inl e
      | Inr parents \<Rightarrow>
          let m = consolidation_measure_cohesion \<Gamma> S d parents bulk in
          (case consolidation_apply_cohesion_override S (mr_content req) (mr_override req) m of
             Inl e \<Rightarrow> Inl e
           | Inr (content, cohesion) \<Rightarrow>
               (case consolidation_content_preflight \<Gamma> S req content of
                  Inl e \<Rightarrow> Inl e
                | Inr c \<Rightarrow>
                    (case consolidation_duplicate_preflight d parents c of
                       Some e \<Rightarrow> Inl e
                     | None \<Rightarrow> Inr \<lparr>pl_parents = parents, pl_cohesion = cohesion,
                         pl_observed_state = hm_observed_state m, pl_content = c\<rparr>))))"

definition consolidation_preflight ::
  "env \<Rightarrow> merge_services \<Rightarrow> db \<Rightarrow> merge_request \<Rightarrow> bulk_context option \<Rightarrow> err + merge_plan" where
  "consolidation_preflight \<Gamma> S d req bulk =
     (case consolidation_validate_request req of
        Some e \<Rightarrow> Inl e
      | None \<Rightarrow> consolidation_build_plan \<Gamma> S d req bulk)"

section \<open>Commit\<close>

text \<open>The ids the commit draws.\<close>

record merge_ids =
  mi_entity :: string
  mi_audit :: string
  mi_details :: "nat \<Rightarrow> string \<times> string"
  mi_tags :: "nat \<Rightarrow> string \<times> string \<times> string"
  mi_core_tag :: "string \<times> string \<times> string"
  mi_lineage :: "nat \<Rightarrow> string"

definition current_state :: "db \<Rightarrow> string \<Rightarrow> (string option \<times> status) option" where
  "current_state d i = map_option (\<lambda>e. (e_content_hash e, e_status e)) (get_entity d i)"

definition consolidation_revalidate :: "db \<Rightarrow> string list \<Rightarrow> observed \<Rightarrow> bool" where
  "consolidation_revalidate d parents obs = list_all (\<lambda>p. map_of obs p = current_state d p) parents"

definition merge_core_entry :: "merge_request \<Rightarrow> merge_content \<Rightarrow> string \<Rightarrow> core_entry" where
  "merge_core_entry req c i =
     \<lparr>ce_id = i, ce_title = kc_title c, ce_memory_type = Some (py_or (mr_memory_type req) ''fact''),
      ce_core_reason = mr_core_reason req, ce_core_exit_condition = mr_core_exit_condition req,
      ce_core_review_after = mr_core_review_after req, ce_full_content = kc_content c\<rparr>"

definition requested_core :: "py_value \<Rightarrow> bool option" where
  "requested_core v = (case v of Py_Bool b \<Rightarrow> Some b | _ \<Rightarrow> None)"

definition consolidation_core_state ::
  "env \<Rightarrow> db \<Rightarrow> merge_request \<Rightarrow> string list \<Rightarrow> merge_content \<Rightarrow> string \<Rightarrow> core_exn + core_state" where
  "consolidation_core_state \<Gamma> d req parents c i =
     resolve_derived_core_state \<Gamma> d parents (requested_core (mr_is_core req)) (kc_content c) (mr_scope req)
       (mr_core_reason req) (mr_core_exit_condition req) (mr_core_review_after req) (mr_detail_memory_ids req)
       (merge_core_entry req c i)"

definition merge_audit_of :: "merge_plan \<Rightarrow> string \<Rightarrow> merge_audit" where
  "merge_audit_of plan i = (let h = pl_cohesion plan in
     \<lparr>ma_parent_ids = pl_parents plan, ma_min_similarity = hr_min_sim h, ma_offending_pair = hr_offending_pair h,
      ma_unresolved = hr_unresolved h, ma_justification = hr_justification h, ma_consolidated_id = i\<rparr>)"

definition consolidation_audit_override :: "env \<Rightarrow> merge_ids \<Rightarrow> merge_plan \<Rightarrow> unit act" where
  "consolidation_audit_override \<Gamma> ids plan d =
     (if \<not> hr_override_applied (pl_cohesion plan) then (Inr (), d)
      else case log_event \<Gamma> (mi_audit ids) (kc_agent (pl_content plan)) ''consolidation_gate_override''
             (Merge_Override (merge_audit_of plan (mi_entity ids))) d of
        (res, d1) \<Rightarrow> if is_rejected res then (Inl RuntimeError, d1) else (Inr (), d1))"

definition consolidated_row :: "env \<Rightarrow> merge_ids \<Rightarrow> merge_request \<Rightarrow> merge_content \<Rightarrow> core_state \<Rightarrow> entity" where
  "consolidated_row \<Gamma> ids req c st =
     \<lparr>e_id = mi_entity ids, e_title = kc_title c, e_content = kc_content c, e_status = Consolidated,
      e_scope = mr_scope req, e_agent_id = Some (kc_agent c), e_created_at = now_iso \<Gamma>, e_updated_at = now_iso \<Gamma>,
      e_valid_to = None, e_content_hash = Some (kc_content_hash c),
      e_memory_type = Some (case mr_memory_type req of Some t \<Rightarrow> t | None \<Rightarrow> ''fact''),
      e_embedding_status = ''pending'', e_is_core = cs_is_core st, e_core_reason = cs_core_reason st,
      e_core_exit_condition = cs_core_exit_condition st, e_core_review_after = cs_core_review_after st,
      e_core_detail_memory_ids = (if cs_core_detail_memory_ids st = [] then Detail_Null
                                  else Detail_Ids (cs_core_detail_memory_ids st)),
      e_core_last_reviewed_at = None, e_core_last_reviewed_by = None, e_core_review_rationale = None,
      e_weight = mr_weight req, e_context_id = mr_context_id req,
      e_metadata = (case mr_metadata req of None \<Rightarrow> Meta_Null | Some m \<Rightarrow> if m = [] then Meta_Null else Meta_Object m)\<rparr>"

definition consolidation_insert_entity ::
  "env \<Rightarrow> merge_ids \<Rightarrow> merge_request \<Rightarrow> merge_content \<Rightarrow> core_state \<Rightarrow> unit act" where
  "consolidation_insert_entity \<Gamma> ids req c st d =
     (if mi_entity ids \<in> e_id ` set (entities d) then (Inl IntegrityError, d)
      else let d1 = d\<lparr>entities := entities d @ [consolidated_row \<Gamma> ids req c st]\<rparr> in
        if cs_is_core st \<and> cs_core_detail_memory_ids st \<noteq> []
        then reconcile_detail_relations \<Gamma> (mi_details ids) (mi_entity ids) (Some (kc_agent c)) (cs_core_detail_memory_ids st) [] d1
        else (Inr (), d1))"

fun attach_tags :: "env \<Rightarrow> (nat \<Rightarrow> string \<times> string \<times> string) \<Rightarrow> nat \<Rightarrow> string \<Rightarrow> string option \<Rightarrow> string option list \<Rightarrow> unit act" where
  "attach_tags \<Gamma> gen k i agent [] d = (Inr (), d)"
| "attach_tags \<Gamma> gen k i agent (t # ts) d =
     (case resolve_or_create_tag \<Gamma> (fst (gen k)) (snd (gen k)) t agent d of
        (Inl e, d1) \<Rightarrow> (Inl e, d1)
      | (Inr tid, d1) \<Rightarrow> attach_tags \<Gamma> gen (Suc k) i agent ts (if truthy tid then attach_tag i (the tid) d1 else d1))"

definition archive_row :: "env \<Rightarrow> entity \<Rightarrow> entity" where
  "archive_row \<Gamma> e = e\<lparr>e_status := Archived, e_embedding_status := ''archived'', e_updated_at := now_iso \<Gamma>,
     e_valid_to := Some (now_iso \<Gamma>)\<rparr>"

definition consolidation_archive_parents ::
  "env \<Rightarrow> merge_ids \<Rightarrow> merge_request \<Rightarrow> string list \<Rightarrow> merge_content \<Rightarrow> bool \<Rightarrow> unit act" where
  "consolidation_archive_parents \<Gamma> ids req parents c is_core d =
     (case attach_tags \<Gamma> (mi_tags ids) 0 (mi_entity ids) (Some (kc_agent c)) (mr_tags req) d of
        (Inl e, d1) \<Rightarrow> (Inl e, d1)
      | (Inr _, d1) \<Rightarrow>
          (case (if is_core then attach_tags \<Gamma> (\<lambda>_. mi_core_tag ids) 0 (mi_entity ids) (Some (kc_agent c)) [Some ''#core''] d1
                 else (Inr (), d1)) of
             (Inl e, d2) \<Rightarrow> (Inl e, d2)
           | (Inr _, d2) \<Rightarrow> (Inr (), d2\<lparr>entities := update_where (\<lambda>e. e_id e \<in> set parents) (archive_row \<Gamma>) (entities d2)\<rparr>)))"

record orphaned_edge =
  oe_predicate :: string
  oe_other_endpoint :: string
  oe_originating_parent :: string
  oe_source_id :: string
  oe_target_id :: string

definition orphaned_edge_of :: "string list \<Rightarrow> relation \<Rightarrow> orphaned_edge" where
  "orphaned_edge_of parents r =
     (let inside = r_source r \<in> set parents in
      \<lparr>oe_predicate = r_predicate r, oe_other_endpoint = (if inside then r_target r else r_source r),
       oe_originating_parent = (if inside then r_source r else r_target r), oe_source_id = r_source r, oe_target_id = r_target r\<rparr>)"

text \<open>Rows of one query have distinct ids, so the code's set of seen ids drops nothing; it is kept as a fold.\<close>

fun unseen_rows :: "string list \<Rightarrow> relation list \<Rightarrow> relation list" where
  "unseen_rows seen [] = []"
| "unseen_rows seen (r # rs) = (if r_id r \<in> set seen then unseen_rows seen rs else r # unseen_rows (r_id r # seen) rs)"

definition consolidation_collect_worklist :: "db \<Rightarrow> string list \<Rightarrow> orphaned_edge list" where
  "consolidation_collect_worklist d parents =
     map (orphaned_edge_of parents)
       (unseen_rows [] (filter (\<lambda>r. (r_source r \<in> set parents \<or> r_target r \<in> set parents) \<and> live r \<and>
          r_predicate r \<notin> set LINEAGE_PREDICATES) (relations d)))"

definition lineage_row_of :: "env \<Rightarrow> string \<Rightarrow> string \<Rightarrow> string \<Rightarrow> relation" where
  "lineage_row_of \<Gamma> rid i parent =
     \<lparr>r_id = rid, r_source = i, r_target = parent, r_predicate = ''consolidated_from'', r_created_at = now_iso \<Gamma>,
      r_valid_from = Some (now_iso \<Gamma>), r_valid_to = None, r_valid_at = None, r_invalid_at = None\<rparr>"

fun consolidation_insert_lineage :: "env \<Rightarrow> (nat \<Rightarrow> string) \<Rightarrow> nat \<Rightarrow> string \<Rightarrow> string list \<Rightarrow> unit act" where
  "consolidation_insert_lineage \<Gamma> gen k i [] d = (Inr (), d)"
| "consolidation_insert_lineage \<Gamma> gen k i (p # ps) d =
     (if gen k \<in> r_id ` set (relations d) then (Inl IntegrityError, d)
      else consolidation_insert_lineage \<Gamma> gen (Suc k) i ps (d\<lparr>relations := relations d @ [lineage_row_of \<Gamma> (gen k) i p]\<rparr>))"

text \<open>
  The core state is resolved before the first write, so a core exception leaves the store as it is; it is the
  left side of the result. Every other exception ends the transaction.
\<close>

definition consolidation_commit ::
  "env \<Rightarrow> merge_ids \<Rightarrow> merge_request \<Rightarrow> merge_plan \<Rightarrow> (core_exn + orphaned_edge list) act" where
  "consolidation_commit \<Gamma> ids req plan d =
     (let parents = pl_parents plan; c = pl_content plan in
      if \<not> consolidation_revalidate d parents (pl_observed_state plan) then (Inl RuntimeError, d)
      else case consolidation_core_state \<Gamma> d req parents c (mi_entity ids) of
        Inl ce \<Rightarrow> (Inr (Inl ce), d)
      | Inr st \<Rightarrow>
          (case consolidation_audit_override \<Gamma> ids plan d of
             (Inl e, d1) \<Rightarrow> (Inl e, d1)
           | (Inr _, d1) \<Rightarrow>
          (case consolidation_insert_entity \<Gamma> ids req c st d1 of
             (Inl e, d2) \<Rightarrow> (Inl e, d2)
           | (Inr _, d2) \<Rightarrow>
          (case consolidation_archive_parents \<Gamma> ids req parents c (cs_is_core st) d2 of
             (Inl e, d3) \<Rightarrow> (Inl e, d3)
           | (Inr _, d3) \<Rightarrow>
          (case consolidation_insert_lineage \<Gamma> (mi_lineage ids) 0 (mi_entity ids) parents d3 of
             (Inl e, d4) \<Rightarrow> (Inl e, d4)
           | (Inr _, d4) \<Rightarrow> (Inr (Inr (consolidation_collect_worklist d3 parents)), d4))))))"

definition core_failure_code :: "core_exn \<Rightarrow> string" where
  "core_failure_code e = (case e of Core_Decision_Required _ _ _ \<Rightarrow> ''CORE_DECISION_REQUIRED'' | _ \<Rightarrow> ''CONSOLIDATION_FAILED'')"

record merge_data =
  md_entity_id :: string
  md_orphaned_relations :: "orphaned_edge list"

definition consolidation_response :: "merge_ids \<Rightarrow> exn + core_exn + orphaned_edge list \<Rightarrow> merge_data envelope" where
  "consolidation_response ids r =
     (case r of
        Inl _ \<Rightarrow> Rejected [error ''CONSOLIDATION_FAILED'' None]
      | Inr (Inl ce) \<Rightarrow> Rejected [error (core_failure_code ce) None]
      | Inr (Inr edges) \<Rightarrow> Ok \<lparr>md_entity_id = mi_entity ids, md_orphaned_relations = edges\<rparr> [])"

text \<open>One consolidation in a transaction of its own.\<close>

definition consolidate_memories ::
  "env \<Rightarrow> merge_services \<Rightarrow> (nat \<Rightarrow> bool) \<Rightarrow> merge_ids \<Rightarrow> merge_request \<Rightarrow> db \<Rightarrow> db \<Rightarrow> merge_data envelope \<times> db" where
  "consolidate_memories \<Gamma> S locks ids req d0 d1 =
     (case consolidation_preflight \<Gamma> S d0 req None of
        Inl e \<Rightarrow> (Rejected [e], d1)
      | Inr plan \<Rightarrow>
          (case write_transaction_retrying locks (consolidation_commit \<Gamma> ids req plan) d1 of
             (r, d') \<Rightarrow> (consolidation_response ids r, d')))"

section \<open>Batches\<close>

text \<open>An item of a batch runs in the transaction of the batch: preflight and commit see the same store.\<close>

definition commit_bulk_consolidation_item ::
  "env \<Rightarrow> merge_services \<Rightarrow> merge_ids \<Rightarrow> bulk_context \<Rightarrow> merge_request \<Rightarrow> db \<Rightarrow> merge_data envelope \<times> db" where
  "commit_bulk_consolidation_item \<Gamma> S ids bulk req d =
     (case consolidation_preflight \<Gamma> S d req (Some (for_parents bulk (mr_parent_ids req))) of
        Inl e \<Rightarrow> (Rejected [e], d)
      | Inr plan \<Rightarrow>
          (case consolidation_commit \<Gamma> ids req plan d of
             (r, d') \<Rightarrow> (consolidation_response ids r, d')))"

text \<open>
  Metadata and memory type are not passed on for an item, and the agent is that of the batch.
\<close>

definition bulk_item :: "string option \<Rightarrow> merge_request \<Rightarrow> string list \<Rightarrow> merge_request" where
  "bulk_item agent req parents = req\<lparr>mr_parent_ids := parents, mr_agent_id := agent, mr_memory_type := None,
     mr_metadata := None\<rparr>"

fun write_bulk_consolidations ::
  "env \<Rightarrow> merge_services \<Rightarrow> (nat \<Rightarrow> merge_ids) \<Rightarrow> bulk_context \<Rightarrow> string option \<Rightarrow> nat \<Rightarrow> (merge_request \<times> string list) list \<Rightarrow>
   db \<Rightarrow> (nat \<times> err list + merge_data list) \<times> db" where
  "write_bulk_consolidations \<Gamma> S gen bulk agent k [] d = (Inr [], d)"
| "write_bulk_consolidations \<Gamma> S gen bulk agent k ((req, parents) # items) d =
     (case commit_bulk_consolidation_item \<Gamma> S (gen k) bulk (bulk_item agent req parents) d of
        (Rejected es, d1) \<Rightarrow> (Inl (k, es), d1)
      | (Ok x _, d1) \<Rightarrow>
          (case write_bulk_consolidations \<Gamma> S gen bulk agent (Suc k) items d1 of
             (Inl e, d2) \<Rightarrow> (Inl e, d2)
           | (Inr xs, d2) \<Rightarrow> (Inr (x # xs), d2)))"

fun prepare_bulk_consolidation_parents :: "db \<Rightarrow> nat \<Rightarrow> merge_request list \<Rightarrow> nat \<times> err + string list list" where
  "prepare_bulk_consolidation_parents d k [] = Inr []"
| "prepare_bulk_consolidation_parents d k (req # reqs) =
     (case resolve_and_validate_parent_ids d (mr_parent_ids req) of
        Inl e \<Rightarrow> Inl (k, e)
      | Inr parents \<Rightarrow>
          (case prepare_bulk_consolidation_parents d (Suc k) reqs of
             Inl e \<Rightarrow> Inl e
           | Inr ps \<Rightarrow> Inr (parents # ps)))"

definition items_field :: "nat \<Rightarrow> string \<Rightarrow> string" where
  "items_field k name = ''items['' @ show_nat k @ '']'' @ (if name = [] then [] else ''.'' @ name)"

definition prefix_consolidation_errors :: "err list \<Rightarrow> nat \<Rightarrow> err list" where
  "prefix_consolidation_errors es k =
     map (\<lambda>e. case err_field e of
            None \<Rightarrow> e\<lparr>err_field := Some (items_field k (if err_code e = ''CORE_DECISION_REQUIRED'' then ''parent_memory_ids'' else []))\<rparr>
          | Some f \<Rightarrow> if f = []
              then e\<lparr>err_field := Some (items_field k (if err_code e = ''CORE_DECISION_REQUIRED'' then ''parent_memory_ids'' else []))\<rparr>
              else if prefix ''items['' f then e else e\<lparr>err_field := Some (items_field k f)\<rparr>) es"

datatype submitted_merge = Merge_Not_Object | Merge merge_request

fun normalize_consolidation_items :: "nat \<Rightarrow> submitted_merge list \<Rightarrow> err + merge_request list" where
  "normalize_consolidation_items k [] = Inr []"
| "normalize_consolidation_items k (Merge_Not_Object # _) = Inl (error VALIDATION_ERROR (Some (items_field k [])))"
| "normalize_consolidation_items k (Merge req # items) =
     (case normalize_consolidation_items (Suc k) items of Inl e \<Rightarrow> Inl e | Inr reqs \<Rightarrow> Inr (req # reqs))"

fun validate_cross_item_parents :: "string list \<Rightarrow> nat \<Rightarrow> string list list \<Rightarrow> err option" where
  "validate_cross_item_parents owned k [] = None"
| "validate_cross_item_parents owned k (ps # pss) =
     (if \<exists>p \<in> set ps. p \<in> set owned then Some (error ''DUPLICATE_PARENT_ID'' (Some (items_field k ''parent_memory_ids'')))
      else validate_cross_item_parents (owned @ ps) (Suc k) pss)"

record merged_item =
  it_memory_id :: string
  it_title :: string
  it_parent_memory_ids :: "string list"
  it_orphaned_relations :: "orphaned_edge list"

text \<open>The title is read back from the store; \<open>fetchone()[0]\<close> on a missing row would raise.\<close>

definition consolidation_batch_result :: "db \<Rightarrow> merge_data list \<Rightarrow> string list list \<Rightarrow> merged_item list option" where
  "consolidation_batch_result d results parents =
     those (map (\<lambda>(x, ps). map_option (\<lambda>e. \<lparr>it_memory_id = md_entity_id x, it_title = e_title e, it_parent_memory_ids = ps,
          it_orphaned_relations = md_orphaned_relations x\<rparr>) (get_entity d (md_entity_id x))) (zip results parents))"

definition bulk_transaction ::
  "env \<Rightarrow> merge_services \<Rightarrow> (nat \<Rightarrow> merge_ids) \<Rightarrow> bulk_context \<Rightarrow> string option \<Rightarrow> (merge_request \<times> string list) list \<Rightarrow>
   (nat \<times> err list + merge_data list) act" where
  "bulk_transaction \<Gamma> S gen bulk agent items d =
     (case write_bulk_consolidations \<Gamma> S gen bulk agent 0 items d of
        (Inl rej, _) \<Rightarrow> (Inr (Inl rej), d)
      | (Inr xs, d') \<Rightarrow> (Inr (Inr xs), d'))"

text \<open>
  On a connection of the write coordinator an unexpected exception is raised again instead of answered; the store is
  the same. The titles are read after the commit, here from the store the batch left.
\<close>

definition apply_consolidations ::
  "env \<Rightarrow> merge_services \<Rightarrow> (nat \<Rightarrow> bool) \<Rightarrow> (nat \<Rightarrow> merge_ids) \<Rightarrow> submitted_merge list \<Rightarrow> string option \<Rightarrow> db \<Rightarrow> db \<Rightarrow>
   merged_item list envelope \<times> db" where
  "apply_consolidations \<Gamma> S locks gen items agent d0 d1 =
     (if items = [] then (Rejected [error VALIDATION_ERROR (Some ''items'')], d1)
      else case normalize_consolidation_items 0 items of
        Inl e \<Rightarrow> (Rejected [e], d1)
      | Inr reqs \<Rightarrow>
          (case prepare_bulk_consolidation_parents d0 0 reqs of
             Inl (k, e) \<Rightarrow> (Rejected [e\<lparr>err_field := Some (items_field k ''parent_memory_ids'')\<rparr>], d1)
           | Inr parents \<Rightarrow>
               (case validate_cross_item_parents [] 0 parents of
                  Some e \<Rightarrow> (Rejected [e], d1)
                | None \<Rightarrow>
                    (case write_transaction_retrying locks
                        (bulk_transaction \<Gamma> S gen (fresh_centroids S d0 (remdups (concat parents))) agent (zip reqs parents)) d1 of
                       (Inl _, d') \<Rightarrow> (Rejected [error INTERNAL_ERROR None], d')
                     | (Inr (Inl (k, es)), d') \<Rightarrow> (Rejected (prefix_consolidation_errors es k), d')
                     | (Inr (Inr results), d') \<Rightarrow>
                         (case consolidation_batch_result d' results parents of
                            None \<Rightarrow> (Rejected [error INTERNAL_ERROR None], d')
                          | Some xs \<Rightarrow> (Ok xs [], d'))))))"

section \<open>Parents are distinct, raw and stored\<close>

lemma resolved_parents:
  "resolve_parents d seen acc raws = Inr ps \<Longrightarrow> set acc = set seen \<Longrightarrow> distinct acc \<Longrightarrow>
     \<forall>p \<in> set acc. \<exists>e. get_entity d p = Some e \<and> e_status e = Raw \<Longrightarrow>
   distinct ps \<and> (\<forall>p \<in> set ps. \<exists>e. get_entity d p = Some e \<and> e_status e = Raw)"
proof (induction d seen acc raws rule: resolve_parents.induct)
  case (2 d seen acc raw raws)
  obtain v seen' where v: "validate_parent_reference d raw seen = (v, seen')" by fastforce
  obtain i where i: "v = Inr i" using 2(2) v by (cases v) auto
  have step: "(i \<in> set seen \<and> seen' = seen) \<or> (i \<notin> set seen \<and> seen' = i # seen \<and> (\<exists>e. get_entity d i = Some e \<and> e_status e = Raw))"
    using v i by (auto simp: validate_parent_reference_def Let_def split: prod.splits if_splits option.splits)
  have rest: "resolve_parents d seen' (if i \<in> set acc then acc else acc @ [i]) raws = Inr ps" using 2(2) v i by simp
  show ?case
    by (rule 2(1)[OF v[symmetric] i rest]) (use step 2(3,4,5) in auto)
qed simp

lemma valid_parents:
  assumes "resolve_and_validate_parent_ids d ids = Inr ps"
  shows "2 \<le> length ps" "distinct ps" "\<forall>p \<in> set ps. \<exists>e. get_entity d p = Some e \<and> e_status e = Raw"
proof -
  have "resolve_parents d [] [] ids = Inr ps" and len: "2 \<le> length ps"
    using assms by (auto simp: resolve_and_validate_parent_ids_def split: sum.splits if_splits)
  from resolved_parents[OF this(1)] len show "2 \<le> length ps" "distinct ps"
    "\<forall>p \<in> set ps. \<exists>e. get_entity d p = Some e \<and> e_status e = Raw" by simp_all
qed

lemma measured:
  assumes "\<not> length parents < 2" "b = (case bulk of Some b \<Rightarrow> b | None \<Rightarrow> fresh_centroids S d parents)"
  shows "hm_observed_state (consolidation_measure_cohesion \<Gamma> S d parents bulk) = precomputed_observed_state b"
    "hm_unresolved (consolidation_measure_cohesion \<Gamma> S d parents bulk) = precomputed_unresolved b"
    "hm_min_sim (consolidation_measure_cohesion \<Gamma> S d parents bulk) =
       (if precomputed_unresolved b = [] then fst (min_pairwise_cohesion \<Gamma> (precomputed_centroids b)) else 0)"
  unfolding consolidation_measure_cohesion_def Let_def assms(2)[symmetric] using assms(1)
  by (auto split: list.splits prod.splits)

text \<open>What a plan promises.\<close>

lemma planned:
  assumes "consolidation_preflight \<Gamma> S d req bulk = Inr plan"
  defines "b \<equiv> (case bulk of Some b \<Rightarrow> b | None \<Rightarrow> fresh_centroids S d (pl_parents plan))"
  shows "resolve_and_validate_parent_ids d (mr_parent_ids req) = Inr (pl_parents plan)"
    "pl_observed_state plan = precomputed_observed_state b"
    "hr_override_applied (pl_cohesion plan) = (hr_min_sim (pl_cohesion plan) < COHESION_MIN_PAIRWISE_THRESHOLD)"
    "hr_override_applied (pl_cohesion plan) \<Longrightarrow> 20 \<le> length (hr_justification (pl_cohesion plan))"
    "hr_min_sim (pl_cohesion plan) = (if precomputed_unresolved b = [] then fst (min_pairwise_cohesion \<Gamma> (precomputed_centroids b)) else 0)"
    "hr_unresolved (pl_cohesion plan) = precomputed_unresolved b"
    "hr_justification (pl_cohesion plan) = py_strip (py_or (mr_override req) [])"
    "length (mr_content req) \<le> MAX_MEMORY_CONTENT_CHARS"
    "kc_content (pl_content plan) = redact_secrets \<Gamma> (mr_content req @
       (if hr_override_applied (pl_cohesion plan)
        then override_note S (consolidation_measure_cohesion \<Gamma> S d (pl_parents plan) bulk) (hr_justification (pl_cohesion plan)) else []))"
    "kc_agent (pl_content plan) = py_or (mr_agent_id req) ''system''"
proof -
  obtain parents where parents: "consolidation_validate_parents d req = Inr parents" and size: "length (mr_content req) \<le> MAX_MEMORY_CONTENT_CHARS"
    using assms(1) by (auto simp: consolidation_preflight_def consolidation_validate_request_def consolidation_build_plan_def
        split: if_splits sum.splits)
  define m where "m = consolidation_measure_cohesion \<Gamma> S d parents bulk"
  obtain content h where h: "consolidation_apply_cohesion_override S (mr_content req) (mr_override req) m = Inr (content, h)"
    using assms(1) parents unfolding m_def
    by (auto simp: consolidation_preflight_def consolidation_build_plan_def Let_def split: option.splits sum.splits)
  obtain c where c: "consolidation_content_preflight \<Gamma> S req content = Inr c" and
    plan: "plan = \<lparr>pl_parents = parents, pl_cohesion = h, pl_observed_state = hm_observed_state m, pl_content = c\<rparr>"
    using assms(1) parents h unfolding m_def
    by (auto simp: consolidation_preflight_def consolidation_build_plan_def Let_def split: option.splits sum.splits)
  have ids: "resolve_and_validate_parent_ids d (mr_parent_ids req) = Inr parents"
    using parents by (auto simp: consolidation_validate_parents_def split: sum.splits option.splits)
  have two: "\<not> length parents < 2" using valid_parents(1)[OF ids] by simp
  have b: "b = (case bulk of Some b \<Rightarrow> b | None \<Rightarrow> fresh_centroids S d parents)" by (simp add: b_def plan cong: option.case_cong)
  have m: "hm_observed_state m = precomputed_observed_state b" "hm_unresolved m = precomputed_unresolved b"
    "hm_min_sim m = (if precomputed_unresolved b = [] then fst (min_pairwise_cohesion \<Gamma> (precomputed_centroids b)) else 0)"
    using measured[OF two b] by (simp_all add: m_def)
  have h': "hr_override_applied h = (hm_min_sim m < COHESION_MIN_PAIRWISE_THRESHOLD)" "hr_min_sim h = hm_min_sim m"
    "hr_unresolved h = hm_unresolved m" "hr_justification h = py_strip (py_or (mr_override req) [])"
    "hr_override_applied h \<Longrightarrow> 20 \<le> length (hr_justification h)"
    "content = mr_content req @ (if hr_override_applied h then override_note S m (hr_justification h) else [])"
    using h by (auto simp: consolidation_apply_cohesion_override_def Let_def cohesion_override_min_length_def split: if_splits)
  have c': "kc_content c = redact_secrets \<Gamma> content" "kc_agent c = py_or (mr_agent_id req) ''system''"
    using c by (auto simp: consolidation_content_preflight_def Let_def split: sum.splits if_splits)
  show "resolve_and_validate_parent_ids d (mr_parent_ids req) = Inr (pl_parents plan)" using ids by (simp add: plan)
  show "pl_observed_state plan = precomputed_observed_state b" by (simp add: plan m)
  show "hr_override_applied (pl_cohesion plan) = (hr_min_sim (pl_cohesion plan) < COHESION_MIN_PAIRWISE_THRESHOLD)"
    by (simp add: plan h'(1,2))
  show "hr_override_applied (pl_cohesion plan) \<Longrightarrow> 20 \<le> length (hr_justification (pl_cohesion plan))"
    using h'(5) by (simp add: plan)
  show "hr_min_sim (pl_cohesion plan) = (if precomputed_unresolved b = [] then fst (min_pairwise_cohesion \<Gamma> (precomputed_centroids b)) else 0)"
    using h'(2) m(3) by (simp add: plan)
  show "hr_unresolved (pl_cohesion plan) = precomputed_unresolved b" using h'(3) m(2) by (simp add: plan)
  show "hr_justification (pl_cohesion plan) = py_strip (py_or (mr_override req) [])" using h'(4) by (simp add: plan)
  show "length (mr_content req) \<le> MAX_MEMORY_CONTENT_CHARS" by (rule size)
  show "kc_content (pl_content plan) = redact_secrets \<Gamma> (mr_content req @
       (if hr_override_applied (pl_cohesion plan)
        then override_note S (consolidation_measure_cohesion \<Gamma> S d (pl_parents plan) bulk) (hr_justification (pl_cohesion plan)) else []))"
    using c'(1) h'(6) by (simp add: plan m_def)
  show "kc_agent (pl_content plan) = py_or (mr_agent_id req) ''system''" using c'(2) by (simp add: plan)
qed

section \<open>The steps of a commit\<close>

definition merge_audits :: "db \<Rightarrow> event list" where
  "merge_audits d = filter (\<lambda>e. ev_type e = ''consolidation_gate_override'') (events d)"

lemma tag_issue_audits [simp]: "merge_audits (log_tag_issue \<Gamma> ev agent content d) = merge_audits d"
  by (simp add: log_tag_issue_def log_event_def merge_audits_def Let_def)

lemma sanitize_audits: "sanitize_resolution_name \<Gamma> evs name agent d = (n, d') \<Longrightarrow> merge_audits d' = merge_audits d"
  by (auto simp: sanitize_resolution_name_def Let_def split: prod.splits option.splits if_splits)

lemma resolve_tag_audits:
  assumes "resolve_or_create_tag \<Gamma> tid evs t agent d = (r, d')"
  shows "merge_audits d' = merge_audits d"
proof (cases "normalize_tag_name t = [] \<or> normalize_tag_name t = ''#''")
  case True
  then show ?thesis using assms by (auto simp: resolve_or_create_tag_def)
next
  case False
  obtain n d1 where s: "sanitize_resolution_name \<Gamma> evs (normalize_tag_name t) agent d = (n, d1)" by fastforce
  have "merge_audits d' = merge_audits d1"
    using assms False s by (auto simp: resolve_or_create_tag_def Let_def merge_audits_def split: if_splits option.splits)
  then show ?thesis using sanitize_audits[OF s] by simp
qed

lemma attach_tag_frame [simp]:
  "entities (attach_tag i t d) = entities d" "relations (attach_tag i t d) = relations d" "merge_audits (attach_tag i t d) = merge_audits d"
  by (simp_all add: attach_tag_def merge_audits_def)

lemma attach_tags_frame:
  "attach_tags \<Gamma> gen k i agent ts d = (r, d') \<Longrightarrow> entities d' = entities d \<and> relations d' = relations d \<and> merge_audits d' = merge_audits d"
proof (induction \<Gamma> gen k i agent ts d arbitrary: r d' rule: attach_tags.induct)
  case (2 \<Gamma> gen k i agent t ts d)
  obtain x d1 where x: "resolve_or_create_tag \<Gamma> (fst (gen k)) (snd (gen k)) t agent d = (x, d1)" by fastforce
  have f: "entities d1 = entities d \<and> relations d1 = relations d" using x by (cases rule: resolve_or_create_tag_cases) simp_all
  note a = resolve_tag_audits[OF x]
  show ?case
  proof (cases x)
    case (Inl e)
    then show ?thesis using 2(2) x f a by simp
  next
    case (Inr tid)
    then have "attach_tags \<Gamma> gen (Suc k) i agent ts (if truthy tid then attach_tag i (the tid) d1 else d1) = (r, d')"
      using 2(2) x by simp
    from 2(1)[OF x[symmetric] Inr this] show ?thesis using f a by (cases "truthy tid") simp_all
  qed
qed simp

lemma insert_lineage_rows:
  "consolidation_insert_lineage \<Gamma> gen k i ps d = (Inr u, d') \<Longrightarrow>
     d' = d\<lparr>relations := relations d @ map (\<lambda>(n, p). lineage_row_of \<Gamma> (gen n) i p) (List.enumerate k ps)\<rparr> \<and>
     (distinct (map r_id (relations d)) \<longrightarrow> distinct (map r_id (relations d')))"
proof (induction \<Gamma> gen k i ps d arbitrary: d' rule: consolidation_insert_lineage.induct)
  case (2 \<Gamma> gen k i p ps d)
  then have fresh: "gen k \<notin> r_id ` set (relations d)" by (auto split: if_splits)
  have rest: "consolidation_insert_lineage \<Gamma> gen (Suc k) i ps (d\<lparr>relations := relations d @ [lineage_row_of \<Gamma> (gen k) i p]\<rparr>) = (Inr u, d')"
    using 2(2) fresh by simp
  have id: "r_id (lineage_row_of \<Gamma> (gen k) i p) = gen k" by (simp add: lineage_row_of_def)
  note IH = 2(1)[OF fresh rest]
  have "distinct (map r_id (relations d)) \<Longrightarrow> distinct (map r_id (relations (d\<lparr>relations := relations d @ [lineage_row_of \<Gamma> (gen k) i p]\<rparr>)))"
    using fresh by (simp add: id)
  then have "distinct (map r_id (relations d)) \<longrightarrow> distinct (map r_id (relations d'))" using IH by blast
  moreover have "d' = d\<lparr>relations := relations d @ map (\<lambda>(n, p). lineage_row_of \<Gamma> (gen n) i p) (List.enumerate k (p # ps))\<rparr>"
    using IH by simp
  ultimately show ?case by (rule conjI[rotated])
qed simp

lemma audit_step:
  assumes "consolidation_audit_override \<Gamma> ids plan d = (Inr u, d')"
  shows "entities d' = entities d" "relations d' = relations d"
    "if hr_override_applied (pl_cohesion plan)
     then \<exists>e. merge_audits d' = merge_audits d @ [e] \<and> ev_content e = Merge_Override (merge_audit_of plan (mi_entity ids)) \<and>
       ev_agent_id e = kc_agent (pl_content plan)
     else d' = d"
  using assms by (auto simp: consolidation_audit_override_def log_event_def is_rejected_def merge_audits_def Let_def split: if_splits)

lemma archive_step:
  assumes "consolidation_archive_parents \<Gamma> ids req parents c is_core d = (Inr u, d')"
  shows "entities d' = update_where (\<lambda>e. e_id e \<in> set parents) (archive_row \<Gamma>) (entities d)" "relations d' = relations d"
    "merge_audits d' = merge_audits d"
proof -
  obtain d1 where 1: "attach_tags \<Gamma> (mi_tags ids) 0 (mi_entity ids) (Some (kc_agent c)) (mr_tags req) d = (Inr (), d1)"
    using assms by (auto simp: consolidation_archive_parents_def split: sum.splits prod.splits)
  obtain d2 where 2: "(if is_core then attach_tags \<Gamma> (\<lambda>_. mi_core_tag ids) 0 (mi_entity ids) (Some (kc_agent c)) [Some ''#core''] d1
      else (Inr (), d1)) = (Inr (), d2)" and
    d': "d' = d2\<lparr>entities := update_where (\<lambda>e. e_id e \<in> set parents) (archive_row \<Gamma>) (entities d2)\<rparr>"
    using assms 1 by (auto simp: consolidation_archive_parents_def simp del: attach_tags.simps split: sum.splits prod.splits)
  have "entities d2 = entities d1 \<and> relations d2 = relations d1 \<and> merge_audits d2 = merge_audits d1"
  proof (cases is_core)
    case True
    then show ?thesis using 2 attach_tags_frame by (metis (full_types))
  qed (use 2 in simp)
  then show "entities d' = update_where (\<lambda>e. e_id e \<in> set parents) (archive_row \<Gamma>) (entities d)" "relations d' = relations d"
    "merge_audits d' = merge_audits d"
    using attach_tags_frame[OF 1] d' by (simp_all add: merge_audits_def)
qed

lemma store_relation_audits:
  assumes "store_relation \<Gamma> locks a d = (res, d')" "\<not> is_rejected res"
  shows "merge_audits d' = merge_audits d"
  using assms(1)
proof (cases rule: store_relation_cases)
  case (failed src tgt e)
  then show ?thesis using assms(2) by (simp add: is_rejected_def)
next
  case (written src tgt d1)
  from written(4) have "merge_audits d1 = merge_audits d"
    by (cases rule: store_relation_write_cases) (auto simp: merge_audits_def override_event_def)
  then show ?thesis using written(5) by (auto simp: merge_audits_def trigger_community_detection_def split: if_splits)
qed simp

lemma link_details_audits:
  "link_details \<Gamma> c agent gen k ids d = (Inr u, d') \<Longrightarrow> merge_audits d' = merge_audits d"
proof (induction \<Gamma> c agent gen k ids d arbitrary: d' rule: link_details.induct)
  case (2 \<Gamma> c agent gen k x xs d)
  obtain res d1 where s: "store_relation \<Gamma> (\<lambda>_. False) (detail_args c agent (gen k) x) d = (res, d1)" by fastforce
  have ok: "\<not> is_rejected res" and rest: "link_details \<Gamma> c agent gen (Suc k) xs d1 = (Inr u, d')"
    using 2(2) s by (auto split: if_splits)
  show ?case using 2(1)[OF s[symmetric] ok rest] store_relation_audits[OF s ok] by simp
qed simp

lemma link_details_evolves:
  "link_details \<Gamma> c agent gen k ids d = (r, d') \<Longrightarrow> rel.evolves True d d'"
proof (induction \<Gamma> c agent gen k ids d arbitrary: r d' rule: link_details.induct)
  case (2 \<Gamma> c agent gen k x xs d)
  obtain res d1 where s: "store_relation \<Gamma> (\<lambda>_. False) (detail_args c agent (gen k) x) d = (res, d1)" by fastforce
  have e: "rel.evolves True d d1" using store_relation_evolves[OF s] by simp
  show ?case
  proof (cases "is_rejected res")
    case True
    then show ?thesis using 2(2) s e by simp
  next
    case False
    then have "link_details \<Gamma> c agent gen (Suc k) xs d1 = (r, d')" using 2(2) s by simp
    from rel.evolves_trans[OF e 2(1)[OF s[symmetric] False this]] show ?thesis .
  qed
qed simp

lemma insert_step:
  assumes "consolidation_insert_entity \<Gamma> ids req c st d = (Inr u, d')"
  defines "row \<equiv> consolidated_row \<Gamma> ids req c st"
  shows "mi_entity ids \<notin> e_id ` set (entities d)" "entities d' = entities d @ [row]" "merge_audits d' = merge_audits d"
    "\<not> cs_is_core st \<or> cs_core_detail_memory_ids st = [] \<Longrightarrow> relations d' = relations d"
    "rel.evolves True (d\<lparr>entities := entities d @ [row]\<rparr>) d'"
proof -
  let ?d1 = "d\<lparr>entities := entities d @ [row]\<rparr>"
  let ?gen = "mi_details ids" and ?agent = "Some (kc_agent c)" and ?new = "cs_core_detail_memory_ids st"
  show fresh: "mi_entity ids \<notin> e_id ` set (entities d)"
    using assms(1) by (auto simp: consolidation_insert_entity_def split: if_splits)
  have run: "(Inr u, d') = (if cs_is_core st \<and> ?new \<noteq> [] then reconcile_detail_relations \<Gamma> ?gen (mi_entity ids) ?agent ?new [] ?d1
      else (Inr (), ?d1))"
    unfolding assms(1)[symmetric] consolidation_insert_entity_def row_def Let_def by (subst if_not_P[OF fresh]) (rule refl)
  show plain: "relations d' = relations d" if "\<not> cs_is_core st \<or> ?new = []" using run that by (auto split: if_splits)
  have all: "entities d' = entities ?d1 \<and> merge_audits d' = merge_audits ?d1 \<and> rel.evolves True ?d1 d'"
  proof (cases "cs_is_core st \<and> ?new \<noteq> []")
    case True
    then have rc: "reconcile_detail_relations \<Gamma> ?gen (mi_entity ids) ?agent ?new [] ?d1 = (Inr u, d')" using run by simp
    then have l: "link_details \<Gamma> (mi_entity ids) ?agent ?gen 0 ?new ?d1 = (Inr (), d')"
      by (auto simp: reconcile_detail_relations_def split: prod.splits sum.splits)
    show ?thesis using reconcile_frame[OF rc] link_details_audits[OF l] link_details_evolves[OF l] by (simp add: same_base_def)
  qed (use run in auto)
  then show "entities d' = entities d @ [row]" "merge_audits d' = merge_audits d" "rel.evolves True ?d1 d'"
    by (simp_all add: merge_audits_def)
qed

text \<open>The three ways a commit ends.\<close>

lemma commit_cases:
  assumes "consolidation_commit \<Gamma> ids req plan d = (r, d')"
  obtains
    (raised) e where "r = Inl e"
  | (governed) ce where "r = Inr (Inl ce)" "d' = d"
  | (merged) st d1 d2 d3 where "consolidation_revalidate d (pl_parents plan) (pl_observed_state plan)"
      "consolidation_core_state \<Gamma> d req (pl_parents plan) (pl_content plan) (mi_entity ids) = Inr st"
      "consolidation_audit_override \<Gamma> ids plan d = (Inr (), d1)"
      "consolidation_insert_entity \<Gamma> ids req (pl_content plan) st d1 = (Inr (), d2)"
      "consolidation_archive_parents \<Gamma> ids req (pl_parents plan) (pl_content plan) (cs_is_core st) d2 = (Inr (), d3)"
      "consolidation_insert_lineage \<Gamma> (mi_lineage ids) 0 (mi_entity ids) (pl_parents plan) d3 = (Inr (), d')"
      "r = Inr (Inr (consolidation_collect_worklist d3 (pl_parents plan)))"
  using assms by (auto simp: consolidation_commit_def Let_def split: if_splits sum.splits prod.splits)

section \<open>One consolidation\<close>

lemma consolidate_cases:
  assumes "consolidate_memories \<Gamma> S locks ids req d0 d1 = (r, d')"
  obtains
    (refused) "d' = d1" "is_rejected r"
  | (merged) plan st d2 d3 d4 where "consolidation_preflight \<Gamma> S d0 req None = Inr plan"
      "consolidation_revalidate d1 (pl_parents plan) (pl_observed_state plan)"
      "consolidation_core_state \<Gamma> d1 req (pl_parents plan) (pl_content plan) (mi_entity ids) = Inr st"
      "consolidation_audit_override \<Gamma> ids plan d1 = (Inr (), d2)"
      "consolidation_insert_entity \<Gamma> ids req (pl_content plan) st d2 = (Inr (), d3)"
      "consolidation_archive_parents \<Gamma> ids req (pl_parents plan) (pl_content plan) (cs_is_core st) d3 = (Inr (), d4)"
      "consolidation_insert_lineage \<Gamma> (mi_lineage ids) 0 (mi_entity ids) (pl_parents plan) d4 = (Inr (), d')"
      "r = Ok \<lparr>md_entity_id = mi_entity ids, md_orphaned_relations = consolidation_collect_worklist d4 (pl_parents plan)\<rparr> []"
proof (cases "consolidation_preflight \<Gamma> S d0 req None")
  case (Inl e)
  then have "d' = d1" "is_rejected r" using assms by (auto simp: consolidate_memories_def is_rejected_def)
  then show thesis by (rule refused)
next
  case (Inr plan)
  obtain x where w: "write_transaction_retrying locks (consolidation_commit \<Gamma> ids req plan) d1 = (x, d')"
    and r: "r = consolidation_response ids x"
    using assms Inr by (auto simp: consolidate_memories_def split: prod.splits)
  show thesis
  proof (cases x)
    case (Inl e)
    then have "d' = d1" using w by (simp only:) (rule retrying_abort)
    moreover have "is_rejected r" using r Inl by (simp add: consolidation_response_def is_rejected_def)
    ultimately show thesis by (rule refused)
  next
    case x: (Inr y)
    have run: "consolidation_commit \<Gamma> ids req plan d1 = (Inr y, d')" by (rule retrying_commit[OF w[unfolded x]])
    then show thesis
    proof (cases rule: commit_cases)
      case (governed ce)
      then show thesis using r x by (intro refused) (simp_all add: consolidation_response_def is_rejected_def)
    next
      case (merged st d2 d3 d4)
      then show thesis using that(2)[OF Inr merged(1-6)] r x by (simp add: consolidation_response_def)
    qed simp
  qed
qed

text \<open>What a merge of the parents does to the store, the audit apart.\<close>

definition merges :: "env \<Rightarrow> merge_ids \<Rightarrow> merge_request \<Rightarrow> string list \<Rightarrow> merge_content \<Rightarrow> core_state \<Rightarrow> db \<Rightarrow> db \<Rightarrow> orphaned_edge list \<Rightarrow> bool" where
  "merges \<Gamma> ids req parents c st d d' edges \<longleftrightarrow>
     mi_entity ids \<notin> e_id ` set (entities d) \<and>
     entities d' = update_where (\<lambda>e. e_id e \<in> set parents) (archive_row \<Gamma>) (entities d @ [consolidated_row \<Gamma> ids req c st]) \<and>
     (\<exists>kept fresh. relations d' = kept @ fresh @
          map (\<lambda>(n, p). lineage_row_of \<Gamma> (mi_lineage ids n) (mi_entity ids) p) (List.enumerate 0 parents) \<and>
        (\<not> cs_is_core st \<longrightarrow> kept = relations d \<and> fresh = []) \<and>
        (rel_inv d \<longrightarrow> list_all2 closes (relations d) kept \<and> uniq_live (kept @ fresh) \<and> distinct (map r_id (relations d')) \<and>
           list_all (admissible True (d\<lparr>entities := entities d @ [consolidated_row \<Gamma> ids req c st]\<rparr>)) fresh \<and>
           edges = map (orphaned_edge_of parents) (filter (\<lambda>r. (r_source r \<in> set parents \<or> r_target r \<in> set parents) \<and> live r \<and>
             r_predicate r \<notin> set LINEAGE_PREDICATES) (kept @ fresh))))"

lemma unseen_all: "distinct (map r_id rs) \<Longrightarrow> set seen \<inter> r_id ` set rs = {} \<Longrightarrow> unseen_rows seen rs = rs"
  by (induction seen rs rule: unseen_rows.induct) auto

lemma worklist_all:
  assumes "distinct (map r_id (relations d))"
  shows "consolidation_collect_worklist d parents =
    map (orphaned_edge_of parents) (filter (\<lambda>r. (r_source r \<in> set parents \<or> r_target r \<in> set parents) \<and> live r \<and>
      r_predicate r \<notin> set LINEAGE_PREDICATES) (relations d))"
proof -
  have "unseen_rows [] (filter Q (relations d)) = filter Q (relations d)" for Q
    using assms by (intro unseen_all) (simp_all add: distinct_map_filter)
  then show ?thesis unfolding consolidation_collect_worklist_def by simp
qed

lemma merged_store:
  assumes "consolidation_audit_override \<Gamma> ids plan d1 = (Inr (), d2)"
    "consolidation_insert_entity \<Gamma> ids req c st d2 = (Inr (), d3)"
    "consolidation_archive_parents \<Gamma> ids req parents c (cs_is_core st) d3 = (Inr (), d4)"
    "consolidation_insert_lineage \<Gamma> (mi_lineage ids) 0 (mi_entity ids) parents d4 = (Inr (), d')"
  shows "merges \<Gamma> ids req parents c st d1 d' (consolidation_collect_worklist d4 parents)"
proof -
  let ?row = "consolidated_row \<Gamma> ids req c st"
  let ?lineage = "map (\<lambda>(n, p). lineage_row_of \<Gamma> (mi_lineage ids n) (mi_entity ids) p) (List.enumerate 0 parents)"
  note a = audit_step[OF assms(1)] and i = insert_step[OF assms(2)] and p = archive_step[OF assms(3)]
  note l = insert_lineage_rows[OF assms(4)]
  have ents: "entities d' = update_where (\<lambda>e. e_id e \<in> set parents) (archive_row \<Gamma>) (entities d1 @ [?row])"
    using l p(1) i(2) a(1) by simp
  have rels: "relations d' = relations d3 @ ?lineage" using l p(2) by simp
  define kept fresh where "kept = take (length (relations d1)) (relations d3)" and "fresh = drop (length (relations d1)) (relations d3)"
  have split: "relations d3 = kept @ fresh" by (simp add: kept_def fresh_def)
  have plain: "kept = relations d1 \<and> fresh = []" if "\<not> cs_is_core st"
    using i(4) that a(2) by (simp add: kept_def fresh_def)
  have inv: "list_all2 closes (relations d1) kept \<and> uniq_live (kept @ fresh) \<and> distinct (map r_id (relations d')) \<and>
      list_all (admissible True (d1\<lparr>entities := entities d1 @ [?row]\<rparr>)) fresh \<and>
      consolidation_collect_worklist d4 parents = map (orphaned_edge_of parents)
        (filter (\<lambda>r. (r_source r \<in> set parents \<or> r_target r \<in> set parents) \<and> live r \<and> r_predicate r \<notin> set LINEAGE_PREDICATES) (kept @ fresh))"
    if "rel_inv d1"
  proof -
    let ?d = "d2\<lparr>entities := entities d2 @ [?row]\<rparr>"
    have "rel_inv ?d" using that a(2) by (simp add: rel_inv_def)
    then have e: "rel_inv d3" "rel_hist True ?d d3" using i(5) unfolding rel.evolves_def by blast+
    from e(2) obtain old new where on: "relations d3 = old @ new" "list_all2 closes (relations d2) old"
      "list_all (admissible True ?d) new" unfolding rel_hist_def by auto
    have "length old = length (relations d1)" using list_all2_lengthD[OF on(2)] a(2) by simp
    then have "kept = old" "fresh = new" using on(1) by (simp_all add: kept_def fresh_def)
    moreover have "admissible True ?d = admissible True (d1\<lparr>entities := entities d1 @ [?row]\<rparr>)"
      using a(1) by (intro admissible_entities) simp
    moreover have "distinct (map r_id (relations d4))" using e(1) p(2) by (simp add: rel_inv_def)
    moreover from this have "distinct (map r_id (relations d'))" using l by blast
    moreover have "uniq_live (relations d3)" using e(1) by (simp add: rel_inv_def)
    ultimately show ?thesis using on(2,3) a(2) worklist_all[of d4 parents] p(2) split by simp
  qed
  show ?thesis
    unfolding merges_def using i(1) a(1) ents rels split plain inv
    by (intro conjI exI[of _ kept] exI[of _ fresh]) simp_all
qed

text \<open>The services observe the states that the store has when they read it.\<close>

definition observes_states :: "merge_services \<Rightarrow> db \<Rightarrow> bool" where
  "observes_states S d \<longleftrightarrow> (\<forall>ids p v. map_of (precomputed_observed_state (fresh_centroids S d ids)) p = Some v \<longrightarrow> current_state d p = Some v)"

definition rows_kept :: "db \<Rightarrow> db \<Rightarrow> bool" where
  "rows_kept d d' \<longleftrightarrow> e_id ` set (entities d) \<subseteq> e_id ` set (entities d')"

lemma get_entity_defined: "get_entity d i \<noteq> None \<longleftrightarrow> i \<in> e_id ` set (entities d)"
  by (auto simp: get_entity_def find_row_None image_iff)

lemma unchanged_parent:
  assumes "resolve_and_validate_parent_ids d0 raws = Inr parents" "p \<in> set parents" "rows_kept d0 d1" "map_of obs p = current_state d1 p"
    "\<And>v. map_of obs p = Some v \<Longrightarrow> current_state d0 p = Some v"
  obtains e0 e1 where "get_entity d0 p = Some e0" "get_entity d1 p = Some e1" "e_status e1 = Raw" "e_content_hash e1 = e_content_hash e0"
proof -
  obtain e0 where e0: "get_entity d0 p = Some e0" "e_status e0 = Raw" using valid_parents(3)[OF assms(1)] assms(2) by blast
  then have "p \<in> e_id ` set (entities d1)" using assms(3) get_entity_defined unfolding rows_kept_def by blast
  then obtain e1 where e1: "get_entity d1 p = Some e1" using get_entity_defined by blast
  then have "current_state d0 p = Some (e_content_hash e1, e_status e1)" using assms(4,5) by (simp add: current_state_def)
  then show ?thesis using that e0 e1 by (simp add: current_state_def)
qed

lemma archive_row_fields [simp]:
  "e_id (archive_row \<Gamma> e) = e_id e" "e_status (archive_row \<Gamma> e) = Archived" "e_content (archive_row \<Gamma> e) = e_content e"
  "e_title (archive_row \<Gamma> e) = e_title e" "e_is_core (archive_row \<Gamma> e) = e_is_core e"
  by (simp_all add: archive_row_def)

lemma consolidated_row_fields [simp]:
  "e_id (consolidated_row \<Gamma> ids req c st) = mi_entity ids" "e_status (consolidated_row \<Gamma> ids req c st) = Consolidated"
  "e_is_core (consolidated_row \<Gamma> ids req c st) = cs_is_core st" "e_title (consolidated_row \<Gamma> ids req c st) = kc_title c"
  by (simp_all add: consolidated_row_def)

section \<open>Well-formed stores\<close>

definition active_count :: "db \<Rightarrow> nat" where
  "active_count d = length (filter active_core (entities d))"

definition well_formed :: "db \<Rightarrow> bool" where
  "well_formed d \<longleftrightarrow> entity_keys d \<and> rel_inv d \<and> ends_exist d \<and> active_count d \<le> CORE_MAX_ACTIVE"

lemma merged_ids: "merges \<Gamma> ids req parents c st d d' edges \<Longrightarrow> map e_id (entities d') = map e_id (entities d) @ [mi_entity ids]"
  unfolding merges_def by (simp add: map_update_where)

lemma archived_out:
  "filter active_core (update_where (\<lambda>e. e_id e \<in> set parents) (archive_row \<Gamma>) es) =
     filter (\<lambda>e. e_id e \<notin> set parents \<and> active_core e) es"
  unfolding update_where_def by (induction es) (auto simp: active_core_def)

lemma merged_count:
  assumes "merges \<Gamma> ids req parents c st d d' edges" "mi_entity ids \<notin> set parents"
    "cs_is_core st \<Longrightarrow> length (filter (\<lambda>e. e_id e \<notin> set parents \<and> active_core e) (entities d)) < CORE_MAX_ACTIVE"
    "active_count d \<le> CORE_MAX_ACTIVE"
  shows "active_count d' \<le> CORE_MAX_ACTIVE"
proof -
  let ?row = "consolidated_row \<Gamma> ids req c st"
  have ents: "entities d' = update_where (\<lambda>e. e_id e \<in> set parents) (archive_row \<Gamma>) (entities d @ [?row])"
    using assms(1) unfolding merges_def by (elim conjE)
  have row: "active_core ?row = cs_is_core st" by (simp add: active_core_def)
  have "active_count d' = length (filter (\<lambda>e. e_id e \<notin> set parents \<and> active_core e) (entities d)) + (if cs_is_core st then 1 else 0)"
    unfolding active_count_def ents archived_out using assms(2) by (simp add: row)
  moreover have "length (filter (\<lambda>e. e_id e \<notin> set parents \<and> active_core e) es) \<le> length (filter active_core es)" for es
    by (induction es) auto
  ultimately show ?thesis using assms(3,4) unfolding active_count_def
    by (cases "cs_is_core st") (auto intro: le_trans)
qed

lemma derived_count:
  assumes "resolve_derived_core_state \<Gamma> d parents ic content sc reason exit_condition review details entry = Inr st" "cs_is_core st"
  shows "length (filter (\<lambda>e. e_id e \<notin> set parents \<and> active_core e) (entities d)) < CORE_MAX_ACTIVE"
proof -
  have "check_capacity_admission \<Gamma> d parents (Some entry) = None"
    using assms unfolding resolve_derived_core_state_def Let_def
    by (auto split: sum.splits if_splits option.splits core_exn.splits)
  then have "length (prospective_entries \<Gamma> d parents (Some entry)) \<le> CORE_MAX_ACTIVE"
    by (auto simp: check_capacity_admission_def Let_def split: if_splits)
  moreover have "length (filter (\<lambda>e. e_id e \<notin> set parents) (load_active_cores \<Gamma> d)) =
      length (filter (\<lambda>e. e_id e \<notin> set parents \<and> active_core e) (entities d))"
  proof -
    have "mset (filter (\<lambda>e. e_id e \<notin> set parents) (load_active_cores \<Gamma> d)) = mset (filter (\<lambda>e. e_id e \<notin> set parents \<and> active_core e) (entities d))"
      by (simp add: load_active_cores_def filter_filter_mset conj_commute)
    then show ?thesis by (metis size_mset)
  qed
  ultimately show ?thesis by (simp add: prospective_entries_def)
qed

section \<open>Committed merges\<close>

lemma commit_merges:
  assumes "consolidation_commit \<Gamma> ids req plan d = (Inr (Inr edges), d')"
  obtains st where "consolidation_revalidate d (pl_parents plan) (pl_observed_state plan)"
    "consolidation_core_state \<Gamma> d req (pl_parents plan) (pl_content plan) (mi_entity ids) = Inr st"
    "merges \<Gamma> ids req (pl_parents plan) (pl_content plan) st d d' edges"
    "if hr_override_applied (pl_cohesion plan)
     then \<exists>e. merge_audits d' = merge_audits d @ [e] \<and> ev_content e = Merge_Override (merge_audit_of plan (mi_entity ids)) \<and>
       ev_agent_id e = kc_agent (pl_content plan)
     else merge_audits d' = merge_audits d"
  using assms
proof (cases rule: commit_cases)
  case (merged st d1 d2 d3)
  have "merge_audits d' = merge_audits d1"
    using insert_step(3)[OF merged(4)] archive_step(3)[OF merged(5)] insert_lineage_rows[OF merged(6)]
    by (auto simp: merge_audits_def)
  moreover have "merges \<Gamma> ids req (pl_parents plan) (pl_content plan) st d d' edges"
    using merged_store[OF merged(3-6)] merged(7) by simp
  ultimately show thesis using that merged(1,2) audit_step(3)[OF merged(3)] by (cases "hr_override_applied (pl_cohesion plan)") auto
qed simp_all

lemma consolidate_committed:
  assumes "consolidate_memories \<Gamma> S locks ids req d0 d1 = (r, d')"
  obtains
    (refused) "d' = d1" "is_rejected r"
  | (merged) plan edges where "consolidation_preflight \<Gamma> S d0 req None = Inr plan"
      "consolidation_commit \<Gamma> ids req plan d1 = (Inr (Inr edges), d')"
      "r = Ok \<lparr>md_entity_id = mi_entity ids, md_orphaned_relations = edges\<rparr> []"
  using assms
proof (cases rule: consolidate_cases)
  case (merged plan st d2 d3 d4)
  have "consolidation_commit \<Gamma> ids req plan d1 = (Inr (Inr (consolidation_collect_worklist d4 (pl_parents plan))), d')"
    using merged(2-7) by (simp add: consolidation_commit_def Let_def)
  from that(2)[OF merged(1) this merged(8)] show thesis .
qed

lemma merged_uniq:
  assumes "uniq_live rs" "distinct parents" "\<And>r. r \<in> set rs \<Longrightarrow> r_source r \<noteq> i \<or> r_predicate r \<noteq> ''consolidated_from''"
  shows "uniq_live (rs @ map (\<lambda>(n, p). lineage_row_of \<Gamma> (gen n) i p) (List.enumerate 0 parents))"
proof -
  let ?new = "map (\<lambda>(n, p). lineage_row_of \<Gamma> (gen n) i p) (List.enumerate 0 parents)"
  have key: "r_source r = i \<and> r_predicate r = ''consolidated_from'' \<and> (\<exists>n < length parents. r = lineage_row_of \<Gamma> (gen n) i (parents ! n) \<and> r_target r = parents ! n)"
    if new: "r \<in> set ?new" for r
    using new by (auto simp: in_set_enumerate_eq lineage_row_of_def)
  have new: "r' = r" if a: "r \<in> set ?new" "r' \<in> set ?new" "r_target r = r_target r'" for r r'
  proof -
    obtain n where n: "n < length parents" "r = lineage_row_of \<Gamma> (gen n) i (parents ! n)" "r_target r = parents ! n" using key[OF a(1)] by blast
    obtain k where k: "k < length parents" "r' = lineage_row_of \<Gamma> (gen k) i (parents ! k)" "r_target r' = parents ! k" using key[OF a(2)] by blast
    have "n = k" using a(3) n(1,3) k(1,3) assms(2) by (simp add: nth_eq_iff_index_eq)
    then show ?thesis using n(2) k(2) by simp
  qed
  show ?thesis unfolding uniq_live_def
  proof (intro ballI impI)
    fix r r' assume m: "r \<in> set (rs @ ?new)" "r' \<in> set (rs @ ?new)" and l: "live r" "live r'"
      and e: "edge_is (r_source r) (r_target r) (r_predicate r) r'"
    have e': "r_source r' = r_source r" "r_target r' = r_target r" "r_predicate r' = r_predicate r" using e by (simp_all add: edge_is_def)
    consider "r \<in> set rs" "r' \<in> set rs" | "r \<in> set ?new" "r' \<in> set ?new" | "r \<in> set rs" "r' \<in> set ?new" | "r \<in> set ?new" "r' \<in> set rs"
      using m by (simp only: set_append) blast
    then show "r' = r"
    proof cases
      case 1 then show ?thesis using assms(1) l e unfolding uniq_live_def by blast
    next
      case 2 then show ?thesis by (rule new) (simp add: e')
    next
      case 3 then show ?thesis using key[OF 3(2)] assms(3)[OF 3(1)] e' by simp
    next
      case 4 then show ?thesis using key[OF 4(1)] assms(3)[OF 4(2)] e' by simp
    qed
  qed
qed

lemma closes_ends: "list_all2 closes rs kept \<Longrightarrow> r \<in> set kept \<Longrightarrow> \<exists>r0 \<in> set rs. r_source r0 = r_source r \<and> r_target r0 = r_target r"
  by (induction rule: list_all2_induct) (auto simp: closes_def)

lemma merged_well_formed:
  assumes "well_formed d" "merges \<Gamma> ids req parents c st d d' edges" "distinct parents" "mi_entity ids \<noteq> []"
    "\<And>p. p \<in> set parents \<Longrightarrow> get_entity d p \<noteq> None"
    "cs_is_core st \<Longrightarrow> length (filter (\<lambda>e. e_id e \<notin> set parents \<and> active_core e) (entities d)) < CORE_MAX_ACTIVE"
  shows "well_formed d'"
proof -
  let ?E = "e_id ` set (entities d)" and ?E' = "e_id ` set (entities d')"
  let ?new = "map (\<lambda>(n, p). lineage_row_of \<Gamma> (mi_lineage ids n) (mi_entity ids) p) (List.enumerate 0 parents)"
  have w: "entity_keys d" "rel_inv d" "ends_exist d" "active_count d \<le> CORE_MAX_ACTIVE" using assms(1) by (simp_all add: well_formed_def)
  have fresh: "mi_entity ids \<notin> ?E" using assms(2) unfolding merges_def by blast
  have ids: "map e_id (entities d') = map e_id (entities d) @ [mi_entity ids]" by (rule merged_ids[OF assms(2)])
  have E': "?E' = insert (mi_entity ids) ?E" using arg_cong[OF ids, of set] by simp
  have par: "set parents \<subseteq> ?E" using assms(5) get_entity_defined by blast
  obtain kept new where rels: "relations d' = kept @ new @ ?new" and kept: "list_all2 closes (relations d) kept"
    and uniq: "uniq_live (kept @ new)" and dist: "distinct (map r_id (relations d'))"
    and adm: "list_all (admissible True (d\<lparr>entities := entities d @ [consolidated_row \<Gamma> ids req c st]\<rparr>)) new"
    using assms(2) w(2) unfolding merges_def by (elim conjE exE) blast
  have k: "r_source r \<in> ?E \<and> r_target r \<in> ?E" if r: "r \<in> set kept" for r
    using closes_ends[OF kept r] w(3) get_entity_defined unfolding ends_exist_def list_all_iff by metis
  have n: "r_source r \<in> ?E' \<and> r_target r \<in> ?E' \<and> r_predicate r \<in> set agent_selectable_predicates" if r: "r \<in> set new" for r
  proof -
    have "admissible True (d\<lparr>entities := entities d @ [consolidated_row \<Gamma> ids req c st]\<rparr>) r" using adm r by (simp add: list_all_iff)
    then show ?thesis unfolding admissible_def get_entity_defined E' by auto
  qed
  have l: "r_source r \<in> ?E' \<and> r_target r \<in> ?E'" if r: "r \<in> set ?new" for r
    using r subsetD[OF par nth_mem] E' by (auto simp: in_set_enumerate_eq lineage_row_of_def)
  have "entity_keys d'"
  proof -
    have "distinct (map e_id (entities d'))" using w(1) fresh unfolding ids entity_keys_def by simp
    moreover have "[] \<notin> ?E'" using w(1) assms(4) unfolding E' entity_keys_def by auto
    ultimately show ?thesis unfolding entity_keys_def by (auto simp: image_iff)
  qed
  moreover have "rel_inv d'"
  proof -
    have sel: "''consolidated_from'' \<notin> set agent_selectable_predicates" by code_simp
    have "uniq_live ((kept @ new) @ ?new)"
    proof (rule merged_uniq[OF uniq assms(3)])
      fix r assume "r \<in> set (kept @ new)"
      then consider "r_source r \<in> ?E" | "r_predicate r \<in> set agent_selectable_predicates" using k n by (auto simp only: set_append Un_iff)
      then show "r_source r \<noteq> mi_entity ids \<or> r_predicate r \<noteq> ''consolidated_from''" using fresh sel by cases metis+
    qed
    then show ?thesis unfolding rel_inv_def using dist rels by simp
  qed
  moreover have "ends_exist d'"
    unfolding ends_exist_def list_all_iff get_entity_defined rels set_append using k n l E' by blast
  moreover have "active_count d' \<le> CORE_MAX_ACTIVE"
    using fresh par by (intro merged_count[OF assms(2) _ assms(6) w(4)]) blast
  ultimately show ?thesis by (simp add: well_formed_def)
qed

lemma commit_well_formed:
  assumes "consolidation_commit \<Gamma> ids req plan d = (Inr (Inr edges), d')" "well_formed d" "mi_entity ids \<noteq> []"
    "distinct (pl_parents plan)" "\<And>p. p \<in> set (pl_parents plan) \<Longrightarrow> get_entity d p \<noteq> None"
  shows "well_formed d'"
  using assms(1)
proof (cases rule: commit_merges)
  case (1 st)
  show ?thesis by (rule merged_well_formed[OF assms(2) 1(3) assms(4,3,5) derived_count[OF 1(2)[unfolded consolidation_core_state_def]]])
qed

section \<open>A sample merge\<close>

definition sample_services :: merge_services where
  "sample_services = \<lparr>fresh_centroids = (\<lambda>d ids. \<lparr>precomputed_centroids = [], precomputed_unresolved = [(''m1'', ''no content'')],
     precomputed_observed_state = observe_parent_state d ids\<rparr>), quality_rejects = (\<lambda>_. False), four_decimals = (\<lambda>_. ''0.0000'')\<rparr>"

definition sample_merge :: merge_request where
  "sample_merge = \<lparr>mr_parent_ids = [''m1'', ''m2'', ''m1''], mr_title = ''merged'', mr_content = ''both'', mr_tags = [Some ''t''],
     mr_override = Some ''these two are the same fact'', mr_scope = Shared, mr_is_core = Py_None, mr_core_reason = None,
     mr_core_exit_condition = None, mr_core_review_after = None, mr_detail_memory_ids = None, mr_agent_id = Some ''a'',
     mr_memory_type = None, mr_weight = 1, mr_context_id = None, mr_metadata = None\<rparr>"

definition sample_merge_ids :: merge_ids where
  "sample_merge_ids = \<lparr>mi_entity = ''m3'', mi_audit = ''v1'', mi_details = (\<lambda>_. ([], [])), mi_tags = (\<lambda>_. (''t1'', ''v2'', ''v3'')),
     mi_core_tag = (''t2'', ''v4'', ''v5''), mi_lineage = (\<lambda>n. ''l'' @ show_nat n)\<rparr>"

definition sample_note :: string where
  "sample_note = override_note sample_services
     (consolidation_measure_cohesion sample_env sample_services sample_db [''m1'', ''m2''] None) ''these two are the same fact''"

definition sample_plan :: merge_plan where
  "sample_plan = \<lparr>pl_parents = [''m1'', ''m2''],
     pl_cohesion = \<lparr>hr_override_applied = True, hr_min_sim = 0, hr_offending_pair = Some (''m1'', ''<no content>''),
       hr_unresolved = [(''m1'', ''no content'')], hr_justification = ''these two are the same fact''\<rparr>,
     pl_observed_state = [(''m1'', Some ''h'', Raw), (''m2'', Some ''h'', Raw)],
     pl_content = \<lparr>kc_content = ''both'' @ sample_note, kc_title = ''merged'', kc_agent = ''a'',
       kc_content_hash = compute_content_hash sample_env (''both'' @ sample_note)\<rparr>\<rparr>"

lemma sample_parents: "resolve_and_validate_parent_ids sample_db [''m1'', ''m2'', ''m1''] = Inr [''m1'', ''m2'']"
  by code_simp

lemma sample_why: "py_strip ''these two are the same fact'' = ''these two are the same fact''"
  "validate_tag_names [Some ''t''] = None"
  by code_simp+

lemma sample_observed: "observe_parent_state sample_db [''m1'', ''m2''] = [(''m1'', Some ''h'', Raw), (''m2'', Some ''h'', Raw)]"
  by code_simp

lemma sample_preflight_bulk:
  assumes "resolve_and_validate_parent_ids sample_db raws = Inr [''m1'', ''m2'']" "raws \<noteq> []"
    "bulk = None \<or> bulk = Some (fresh_centroids sample_services sample_db [''m1'', ''m2''])"
  shows "consolidation_preflight sample_env sample_services sample_db (sample_merge\<lparr>mr_parent_ids := raws\<rparr>) bulk = Inr sample_plan"
proof -
  let ?m = "consolidation_measure_cohesion sample_env sample_services sample_db [''m1'', ''m2'']"
  note measure = consolidation_measure_cohesion_def[of _ _ _ "[''m1'', ''m2'']"]
  have m: "?m bulk = ?m None" using assms(3) by (auto simp: measure)
  have "consolidation_validate_parents sample_db (sample_merge\<lparr>mr_parent_ids := raws\<rparr>) = Inr [''m1'', ''m2'']"
    by (simp add: consolidation_validate_parents_def sample_merge_def assms(1) sample_why(2) del: validate_tag_names.simps)
  moreover have "consolidation_apply_cohesion_override sample_services (mr_content sample_merge) (mr_override sample_merge) (?m None) =
      Inr (''both'' @ sample_note, pl_cohesion sample_plan)"
    unfolding sample_note_def consolidation_apply_cohesion_override_def Let_def
    by (simp add: measure sample_merge_def sample_why(1) sample_services_def sample_plan_def COHESION_MIN_PAIRWISE_THRESHOLD_def
        cohesion_override_min_length_def)
  moreover have "consolidation_content_preflight sample_env sample_services (sample_merge\<lparr>mr_parent_ids := raws\<rparr>) (''both'' @ sample_note) =
      Inr (pl_content sample_plan)"
    by (simp add: consolidation_content_preflight_def sample_merge_def sample_services_def sample_plan_def sample_env_def Let_def)
  moreover have "consolidation_duplicate_preflight sample_db [''m1'', ''m2''] (pl_content sample_plan) = None"
    by (simp add: consolidation_duplicate_preflight_def sample_plan_def find_row_None sample_db_def sample_entity_def)
  moreover have "hm_observed_state (?m None) = pl_observed_state sample_plan"
    by (simp add: measure sample_services_def sample_observed sample_plan_def)
  moreover have "consolidation_validate_request (sample_merge\<lparr>mr_parent_ids := raws\<rparr>) = None"
    by (simp add: consolidation_validate_request_def sample_merge_def MAX_MEMORY_CONTENT_CHARS_def assms(2))
  ultimately show ?thesis
    by (simp add: consolidation_preflight_def consolidation_build_plan_def Let_def m) (simp add: sample_plan_def)
qed

lemma sample_preflight: "consolidation_preflight sample_env sample_services sample_db sample_merge None = Inr sample_plan"
  using sample_preflight_bulk[OF sample_parents, of None] by (simp add: sample_merge_def)

lemma sample_commit:
  "case consolidation_commit sample_env sample_merge_ids sample_merge sample_plan sample_db of
     (Inr (Inr edges), d') \<Rightarrow> map e_status (entities d') = [Archived, Archived, Consolidated] \<and> map r_target (relations d') = [''m1'', ''m2'']
   | _ \<Rightarrow> False"
  by code_simp
lemma sample_run:
  obtains edges d' where "consolidation_commit sample_env sample_merge_ids sample_merge sample_plan sample_db = (Inr (Inr edges), d')"
    "consolidate_memories sample_env sample_services (\<lambda>_. False) sample_merge_ids sample_merge sample_db sample_db =
       (Ok \<lparr>md_entity_id = ''m3'', md_orphaned_relations = edges\<rparr> [], d')"
    "map e_status (entities d') = [Archived, Archived, Consolidated]" "map r_target (relations d') = [''m1'', ''m2'']"
proof -
  obtain edges d' where run: "consolidation_commit sample_env sample_merge_ids sample_merge sample_plan sample_db = (Inr (Inr edges), d')"
    and res: "map e_status (entities d') = [Archived, Archived, Consolidated]" "map r_target (relations d') = [''m1'', ''m2'']"
    using sample_commit by (auto split: prod.splits sum.splits)
  have tx: "write_transaction_retrying (\<lambda>_. False) (consolidation_commit sample_env sample_merge_ids sample_merge sample_plan) sample_db =
      (Inr (Inr edges), d')"
    using run by (simp add: retrying_unlocked write_transaction_commit)
  have "consolidate_memories sample_env sample_services (\<lambda>_. False) sample_merge_ids sample_merge sample_db sample_db =
       (Ok \<lparr>md_entity_id = ''m3'', md_orphaned_relations = edges\<rparr> [], d')"
    unfolding consolidate_memories_def sample_preflight by (simp add: tx consolidation_response_def) (simp add: sample_merge_ids_def)
  from that[OF run this res] show thesis .
qed

lemma sample_observes: "observes_states sample_services sample_db"
proof -
  have ents: "entities sample_db = [sample_entity, sample_entity\<lparr>e_id := ''m2''\<rparr>]" by (simp add: sample_db_def)
  have fields: "e_id sample_entity = ''m1''" "e_status sample_entity = Raw" "e_content_hash sample_entity = Some ''h''"
    by (simp_all add: sample_entity_def)
  have get: "current_state sample_db i = (if i = ''m1'' \<or> i = ''m2'' then Some (Some ''h'', Raw) else None)" for i
    by (simp add: current_state_def get_entity_def sample_db_def sample_entity_def)
  show ?thesis
    unfolding observes_states_def
    by (auto simp: sample_services_def observe_parent_state_def get ents fields split: if_splits)
qed

lemma sample_well_formed: "well_formed sample_db"
  by (simp add: well_formed_def sample_keys rel_inv_def uniq_live_def ends_exist_def active_count_def sample_no_core)

section \<open>What a consolidation does\<close>





section \<open>Well-formed stores and batches\<close>

text \<open>
  C12. Consolidation keeps the store well formed: entity ids stay unique and non-empty, relation ids unique, no two live
  relations agree in source, target and predicate, every relation joins stored entities, and at most five active
  memories are core.
\<close>

theorem consolidation_well_formed:
  assumes "well_formed d1" "rows_kept d0 d1" "mi_entity ids \<noteq> []"
    "consolidate_memories \<Gamma> S locks ids req d0 d1 = (r, d')"
  shows "well_formed d'"
  using assms(4)
proof (cases rule: consolidate_committed)
  case (merged plan edges)
  note par = valid_parents[OF planned(1)[OF merged(1)]]
  have "get_entity d1 p \<noteq> None" if p: "p \<in> set (pl_parents plan)" for p
    using par(3) p assms(2) unfolding rows_kept_def get_entity_defined[of d1] by (metis get_entity_defined option.distinct(1) subsetD)
  from commit_well_formed[OF merged(2) assms(1,3) par(2) this] show ?thesis .
qed (use assms(1) in simp)

theorem consolidation_well_formed_witness:
  "\<exists>edges d'. consolidate_memories sample_env sample_services (\<lambda>_. False) sample_merge_ids sample_merge sample_db sample_db =
     (Ok \<lparr>md_entity_id = ''m3'', md_orphaned_relations = edges\<rparr> [], d') \<and> well_formed d' \<and> map r_target (relations d') = [''m1'', ''m2'']"
proof -
  obtain edges d' where run: "consolidate_memories sample_env sample_services (\<lambda>_. False) sample_merge_ids sample_merge sample_db sample_db =
       (Ok \<lparr>md_entity_id = ''m3'', md_orphaned_relations = edges\<rparr> [], d')" and t: "map r_target (relations d') = [''m1'', ''m2'']"
    by (rule sample_run)
  from consolidation_well_formed[OF sample_well_formed _ _ run] have "well_formed d'" by (simp add: rows_kept_def sample_merge_ids_def)
  from run this t show ?thesis by (intro exI conjI)
qed

lemma item_committed:
  assumes "commit_bulk_consolidation_item \<Gamma> S ids bulk req d = (Ok x ws, d')"
  obtains plan edges where "consolidation_preflight \<Gamma> S d req (Some (for_parents bulk (mr_parent_ids req))) = Inr plan"
    "consolidation_commit \<Gamma> ids req plan d = (Inr (Inr edges), d')" "md_entity_id x = mi_entity ids"
  using assms by (auto simp: commit_bulk_consolidation_item_def consolidation_response_def split: sum.splits prod.splits)

lemma item_run:
  assumes "commit_bulk_consolidation_item \<Gamma> S ids bulk req d = (Ok x ws, d')"
  shows "map e_id (entities d') = map e_id (entities d) @ [md_entity_id x]"
    "well_formed d \<Longrightarrow> mi_entity ids \<noteq> [] \<Longrightarrow> well_formed d'"
  using assms
proof (induction rule: item_committed)
  case (1 plan edges)
  from 1(2) show "map e_id (entities d') = map e_id (entities d) @ [md_entity_id x]"
    by (cases rule: commit_merges) (simp add: merged_ids 1(3))
  note par = valid_parents[OF planned(1)[OF 1(1)]]
  show "well_formed d'" if "well_formed d" "mi_entity ids \<noteq> []"
    using par(3) by (intro commit_well_formed[OF 1(2) that par(2)]) auto
qed

lemma bulk_run:
  "write_bulk_consolidations \<Gamma> S gen bulk agent k items d = (Inr xs, d') \<Longrightarrow>
     length xs = length items \<and> map e_id (entities d') = map e_id (entities d) @ map md_entity_id xs \<and>
     ((\<forall>k. mi_entity (gen k) \<noteq> []) \<longrightarrow> well_formed d \<longrightarrow> well_formed d')"
proof (induction \<Gamma> S gen bulk agent k items d arbitrary: xs d' rule: write_bulk_consolidations.induct)
  case (2 \<Gamma> S gen bulk agent k req parents items d)
  obtain x ws d1 where x: "commit_bulk_consolidation_item \<Gamma> S (gen k) bulk (bulk_item agent req parents) d = (Ok x ws, d1)"
    using 2(2) by (auto split: prod.splits envelope.splits)
  obtain ys where ys: "write_bulk_consolidations \<Gamma> S gen bulk agent (Suc k) items d1 = (Inr ys, d')" "xs = x # ys"
    using 2(2) x by (auto split: prod.splits sum.splits)
  from 2(1)[OF x[symmetric] refl ys(1)] item_run[OF x] show ?case by (simp add: ys(2))
qed simp

lemma disjoint_parents:
  "validate_cross_item_parents owned k pss = None \<Longrightarrow> \<forall>ps \<in> set pss. distinct ps \<Longrightarrow>
     distinct (concat pss) \<and> set owned \<inter> set (concat pss) = {}"
  by (induction owned k pss rule: validate_cross_item_parents.induct) (auto split: if_splits)

lemma prepared_parents:
  "prepare_bulk_consolidation_parents d k reqs = Inr pss \<Longrightarrow> length pss = length reqs \<and> (\<forall>ps \<in> set pss. distinct ps \<and> 2 \<le> length ps)"
  by (induction d k reqs arbitrary: pss rule: prepare_bulk_consolidation_parents.induct)
    (auto split: sum.splits dest: valid_parents(1,2))

lemma normalized_items: "normalize_consolidation_items k items = Inr reqs \<Longrightarrow> items = map Merge reqs"
  by (induction k items arbitrary: reqs rule: normalize_consolidation_items.induct) (auto split: sum.splits)

lemma batch_answer:
  assumes "length results = length parents" "set (map md_entity_id results) \<subseteq> e_id ` set (entities d)"
  obtains xs where "consolidation_batch_result d results parents = Some xs"
    "map it_memory_id xs = map md_entity_id results" "map it_parent_memory_ids xs = parents"
proof -
  have "\<exists>xs. consolidation_batch_result d results parents = Some xs \<and>
    map it_memory_id xs = map md_entity_id results \<and> map it_parent_memory_ids xs = parents"
    using assms
  proof (induction results parents rule: list_induct2)
    case (Cons x xs ps pss)
    then obtain e where "get_entity d (md_entity_id x) = Some e" using get_entity_defined by fastforce
    with Cons show ?case by (auto simp: consolidation_batch_result_def)
  qed (simp add: consolidation_batch_result_def)
  then show thesis using that by blast
qed


lemma sample_batch_run:
  obtains d' xs where "apply_consolidations sample_env sample_services (\<lambda>_. False) (\<lambda>_. sample_merge_ids) [Merge sample_merge] (Some ''a'')
      sample_db sample_db = (Ok xs [], d')"
proof -
  let ?bulk = "fresh_centroids sample_services sample_db [''m1'', ''m2'']" and ?req = "sample_merge\<lparr>mr_parent_ids := [''m1'', ''m2'']\<rparr>"
  have item: "bulk_item (Some ''a'') sample_merge [''m1'', ''m2''] = ?req" by (simp add: bulk_item_def sample_merge_def)
  have slice: "for_parents ?bulk [''m1'', ''m2''] = ?bulk"
    by (simp add: for_parents_def slice_def sample_services_def sample_observed List.map_filter_def)
  have parents: "resolve_and_validate_parent_ids sample_db [''m1'', ''m2''] = Inr [''m1'', ''m2'']" by code_simp
  have pre: "consolidation_preflight sample_env sample_services sample_db ?req (Some ?bulk) = Inr sample_plan"
    by (rule sample_preflight_bulk[OF parents]) simp_all
  have "case consolidation_commit sample_env sample_merge_ids ?req sample_plan sample_db of
     (Inr (Inr edges), d') \<Rightarrow> map e_id (entities d') = [''m1'', ''m2'', ''m3''] | _ \<Rightarrow> False" by code_simp
  then obtain edges d' where run: "consolidation_commit sample_env sample_merge_ids ?req sample_plan sample_db = (Inr (Inr edges), d')"
    and ids: "map e_id (entities d') = [''m1'', ''m2'', ''m3'']"
    by (auto split: prod.splits sum.splits)
  let ?x = "\<lparr>md_entity_id = ''m3'', md_orphaned_relations = edges\<rparr>"
  have one: "commit_bulk_consolidation_item sample_env sample_services sample_merge_ids ?bulk ?req sample_db = (Ok ?x [], d')"
    by (simp add: commit_bulk_consolidation_item_def slice pre run consolidation_response_def) (simp add: sample_merge_ids_def)
  have tx: "write_transaction_retrying (\<lambda>_. False) (bulk_transaction sample_env sample_services (\<lambda>_. sample_merge_ids) ?bulk (Some ''a'')
      [(sample_merge, [''m1'', ''m2''])]) sample_db = (Inr (Inr [?x]), d')"
    by (simp add: retrying_unlocked write_transaction_commit bulk_transaction_def item one)
  have e: "''m3'' \<in> e_id ` set (entities d')" using arg_cong[OF ids, of set] by simp
  obtain xs where xs: "consolidation_batch_result d' [?x] [[''m1'', ''m2'']] = Some xs"
    using batch_answer[of "[?x]" "[[''m1'', ''m2'']]" d'] e by auto
  have "mr_parent_ids sample_merge = [''m1'', ''m2'', ''m1'']" by (simp add: sample_merge_def)
  then have "apply_consolidations sample_env sample_services (\<lambda>_. False) (\<lambda>_. sample_merge_ids) [Merge sample_merge] (Some ''a'')
      sample_db sample_db = (Ok xs [], d')"
    by (simp add: apply_consolidations_def sample_parents tx xs)
  then show thesis by (rule that)
qed


end
