(* ===== verification/Lifecycle.thy ===== *)
theory Lifecycle
  imports Consolidation
begin

text \<open>
  Replacing and archiving memories, and reading one memory: \<^verbatim>\<open>memory_service/lifecycle.py\<close>. A replacement
  writes a new raw memory, archives its predecessor, joins the two by a lineage edge and, on request, re-points
  the semantic edges of the predecessor. As in consolidation the preflight reads the store \<open>d0\<close> and the
  transaction finds the store \<open>d1\<close>. Left out are the columns the rows of the model do not have (session,
  quality, retrieval text, access time, parent ids), embedding jobs, the lists of inherited and changed fields and the
  lineage report of a rejection, and the exception that a coordinator connection raises again.
\<close>

section \<open>Replacement: request and preflight\<close>

definition TITLE_MIN_LENGTH :: nat where
  "TITLE_MIN_LENGTH = 5"

definition TITLE_MAX_LENGTH :: nat where
  "TITLE_MAX_LENGTH = 200"

definition RETRIEVAL_TEXT_MAX_CHARS :: nat where
  "RETRIEVAL_TEXT_MAX_CHARS = 4000"

record core_declaration =
  cd_is_core :: "bool option"
  cd_core_reason :: "string option"
  cd_core_exit_condition :: "string option"
  cd_core_review_after :: "string option"
  cd_detail_memory_ids :: "string list option"

record replacement_request =
  rr_entity_id :: "string option"
  rr_title :: "string option"
  rr_tags :: "string list option"
  rr_content :: "string option"
  rr_reason :: "string option"
  rr_agent_id :: "string option"
  rr_scope :: "string option"
  rr_memory_type :: "string option"
  rr_context_id :: "string option"
  rr_metadata :: "(string \<times> string) list option"
  rr_retrieval_text :: "string option"
  rr_core :: core_declaration
  rr_repoint_relations :: bool
  rr_in_transaction :: bool

text \<open>The quality score, Unicode normalisation, and whether the message of a core rejection mentions a private memory.\<close>

record replacement_services =
  text_rejected :: "string \<Rightarrow> bool"
  nfkc :: "string \<Rightarrow> string"
  mentions_private :: "core_declaration \<Rightarrow> bool"

definition memory_types :: "string list" where
  "memory_types = [''fact'', ''event'', ''procedure'', ''decision'', ''preference'']"

definition blank :: "string option \<Rightarrow> bool" where
  "blank v \<longleftrightarrow> (case v of None \<Rightarrow> True | Some s \<Rightarrow> py_strip s = [])"

definition validate_replacement_required_fields ::
  "string option \<Rightarrow> string option \<Rightarrow> string option \<Rightarrow> string option \<Rightarrow> err option" where
  "validate_replacement_required_fields entity_id title content reason =
     (if blank entity_id then Some (error ''MISSING_ENTITY_ID'' (Some ''entity_id''))
      else if blank title then Some (error ''MISSING_TITLE'' (Some ''title''))
      else if blank content then Some (error ''MISSING_CONTENT'' (Some ''content''))
      else if length (the content) > MAX_MEMORY_CONTENT_CHARS then Some (error ''CONTENT_TOO_LONG'' (Some ''content''))
      else if blank reason then Some (error ''MISSING_REASON'' (Some ''reason''))
      else None)"

definition validate_replacement_optional_fields :: "string list option \<Rightarrow> string option \<Rightarrow> string option \<Rightarrow> err option" where
  "validate_replacement_optional_fields tgs sc memory_type =
     (if (case tgs of None \<Rightarrow> False | Some ts \<Rightarrow> ts = [] \<or> list_ex (\<lambda>t. py_strip t = []) ts)
      then Some (error ''INVALID_TAGS'' (Some ''tags''))
      else if (case sc of None \<Rightarrow> False | Some s \<Rightarrow> s \<notin> {''private'', ''shared''})
      then Some (error ''INVALID_SCOPE'' (Some ''scope''))
      else if (case memory_type of None \<Rightarrow> False | Some t \<Rightarrow> t \<notin> set memory_types)
      then Some (error ''INVALID_MEMORY_TYPE'' (Some ''memory_type''))
      else None)"

definition validate_replacement_inputs :: "replacement_request \<Rightarrow> err option" where
  "validate_replacement_inputs req =
     (case validate_replacement_required_fields (rr_entity_id req) (rr_title req) (rr_content req) (rr_reason req) of
        Some e \<Rightarrow> Some e
      | None \<Rightarrow> validate_replacement_optional_fields (rr_tags req) (rr_scope req) (rr_memory_type req))"

definition replacement_target :: "db \<Rightarrow> string \<Rightarrow> err + string" where
  "replacement_target d entity_id =
     (case resolve_entity_ref d (Some entity_id) None of (resolved, cands, _) \<Rightarrow>
        if cands \<noteq> [] then Inl (error ''AMBIGUOUS_ID_PREFIX'' (Some ''entity_id''))
        else if \<not> truthy resolved then Inl (error ''UNKNOWN_ENTITY_ID'' (Some ''entity_id''))
        else case get_entity d (the resolved) of
          None \<Rightarrow> Inl (error ''UNKNOWN_ENTITY_ID'' (Some ''entity_id''))
        | Some e \<Rightarrow>
            if e_status e \<noteq> Raw then Inl (error ''INACTIVE_TARGET'' (Some ''entity_id''))
            else Inr (the resolved))"

text \<open>The worklist of edges: the join with the titles and states of both ends, ordered by id.\<close>

record worklist_edge =
  we_relation :: relation
  we_other_endpoint :: string
  we_source :: "(string \<times> status) option"
  we_target :: "(string \<times> status) option"

definition end_info :: "db \<Rightarrow> string \<Rightarrow> (string \<times> status) option" where
  "end_info d i = map_option (\<lambda>e. (e_title e, e_status e)) (get_entity d i)"

definition semantic_edges :: "db \<Rightarrow> string \<Rightarrow> relation list" where
  "semantic_edges d i = sort_key r_id (filter (\<lambda>r. (r_source r = i \<or> r_target r = i) \<and> live r \<and>
     r_predicate r \<notin> set LINEAGE_PREDICATES) (relations d))"

definition semantic_edge_worklist :: "db \<Rightarrow> string \<Rightarrow> worklist_edge list" where
  "semantic_edge_worklist d i =
     map (\<lambda>r. \<lparr>we_relation = r, we_other_endpoint = (if r_source r = i then r_target r else r_source r),
              we_source = end_info d (r_source r), we_target = end_info d (r_target r)\<rparr>) (semantic_edges d i)"

definition validate_memory_input :: "string \<Rightarrow> string list option \<Rightarrow> bool" where
  "validate_memory_input title tgs \<longleftrightarrow>
     (title = [] \<or> (length (py_strip title) \<le> TITLE_MAX_LENGTH \<and> TITLE_MIN_LENGTH \<le> length (py_strip title))) \<and>
     (case tgs of None \<Rightarrow> True | Some ts \<Rightarrow> ts = [] \<or> validate_tag_names (map Some ts) = None)"

record replacement_content =
  nc_title :: string
  nc_content :: string
  nc_content_hash :: string

definition replacement_content_of ::
  "env \<Rightarrow> replacement_services \<Rightarrow> string \<Rightarrow> string \<Rightarrow> string list option \<Rightarrow> err + replacement_content" where
  "replacement_content_of \<Gamma> S title content tgs =
     (let new_title = redact_secrets \<Gamma> (py_strip title); new_content = redact_secrets \<Gamma> content in
      if \<not> validate_memory_input new_title tgs then Inl (error ''INVALID_MEMORY'' None)
      else if text_rejected S new_content then Inl (error ''MEMORY_QUALITY_REJECTED'' None)
      else Inr \<lparr>nc_title = new_title, nc_content = new_content, nc_content_hash = compute_content_hash \<Gamma> new_content\<rparr>)"

record replacement_fields =
  nf_agent_id :: "string option"
  nf_scope :: scope
  nf_memory_type :: string
  nf_tags :: "string list"
  nf_context_id :: "string option"
  nf_metadata :: metadata_column

definition scope_named :: "string \<Rightarrow> scope" where
  "scope_named s = (if s = ''shared'' then Shared else Private)"

definition replacement_fields_of :: "entity \<Rightarrow> string list \<Rightarrow> replacement_request \<Rightarrow> replacement_fields" where
  "replacement_fields_of before inherited_tags req =
     \<lparr>nf_agent_id = (case rr_agent_id req of None \<Rightarrow> e_agent_id before | Some a \<Rightarrow> Some a),
      nf_scope = (case rr_scope req of None \<Rightarrow> e_scope before | Some s \<Rightarrow> scope_named s),
      nf_memory_type = (case rr_memory_type req of None \<Rightarrow> py_or (e_memory_type before) ''fact'' | Some t \<Rightarrow> t),
      nf_tags = (case rr_tags req of None \<Rightarrow> inherited_tags | Some ts \<Rightarrow> ts),
      nf_context_id = (case rr_context_id req of None \<Rightarrow> e_context_id before | Some c \<Rightarrow> Some c),
      nf_metadata = (case rr_metadata req of None \<Rightarrow> e_metadata before | Some m \<Rightarrow> Meta_Object m)\<rparr>"

definition normalize_retrieval_text :: "env \<Rightarrow> replacement_services \<Rightarrow> string \<Rightarrow> exn + string option" where
  "normalize_retrieval_text \<Gamma> S v =
     (let n = py_strip (nfkc S v) in
      if n = [] then Inr None
      else let redacted = redact_secrets \<Gamma> n in
        if length redacted > RETRIEVAL_TEXT_MAX_CHARS then Inl ValueError else Inr (Some redacted))"

record replacement_plan =
  np_before :: entity
  np_orphaned_edges :: "worklist_edge list"
  np_content :: replacement_content
  np_fields :: replacement_fields
  np_reason :: string
  np_core :: core_declaration

definition replacement_prepare ::
  "env \<Rightarrow> replacement_services \<Rightarrow> db \<Rightarrow> replacement_request \<Rightarrow> string \<Rightarrow> err + replacement_plan" where
  "replacement_prepare \<Gamma> S d req i =
     (let inherited_tags = (if rr_tags req = None then list_entity_tags d i False else []) in
      case get_entity d i of
        None \<Rightarrow> Inl (error ''UNKNOWN_ENTITY_ID'' (Some ''entity_id''))
      | Some before \<Rightarrow>
          (case replacement_content_of \<Gamma> S (the (rr_title req)) (the (rr_content req)) (rr_tags req) of
             Inl e \<Rightarrow> Inl e
           | Inr c \<Rightarrow>
               (case (case rr_retrieval_text req of None \<Rightarrow> Inr None | Some t \<Rightarrow> normalize_retrieval_text \<Gamma> S t) of
                  Inl _ \<Rightarrow> Inl (error ''INVALID_RETRIEVAL_TEXT'' (Some ''retrieval_text''))
                | Inr _ \<Rightarrow> Inr \<lparr>np_before = before, np_orphaned_edges = semantic_edge_worklist d i, np_content = c,
                    np_fields = replacement_fields_of before inherited_tags req, np_reason = the (rr_reason req),
                    np_core = rr_core req\<rparr>)))"

section \<open>Replacement: the transaction\<close>

record replacement_ids =
  ni_entity :: string
  ni_relation :: string
  ni_details :: "nat \<Rightarrow> string \<times> string"
  ni_tags :: "nat \<Rightarrow> string \<times> string \<times> string"
  ni_core_tag :: "string \<times> string \<times> string"
  ni_repointed :: "nat \<Rightarrow> string"

definition frozen ::
  "entity \<Rightarrow> string \<times> string \<times> string option \<times> string option \<times> scope \<times> string option \<times> string \<times> string option \<times> metadata_column" where
  "frozen e = (e_title e, e_content e, e_agent_id e, e_context_id e, e_scope e, e_memory_type e, e_created_at e,
     e_content_hash e, e_metadata e)"

definition replacement_locked_source :: "db \<Rightarrow> string \<Rightarrow> entity \<Rightarrow> err + entity" where
  "replacement_locked_source d i before =
     (case get_entity d i of
        None \<Rightarrow> Inl (error ''UNKNOWN_ENTITY_ID'' (Some ''entity_id''))
      | Some e \<Rightarrow>
          if e_status e \<noteq> Raw then Inl (error ''INACTIVE_TARGET'' (Some ''entity_id''))
          else if frozen e \<noteq> frozen before then Inl (error ''TARGET_CHANGED'' (Some ''entity_id''))
          else Inr e)"

definition tag_key :: "string \<Rightarrow> string" where
  "tag_key t = filter (\<lambda>c. c \<notin> {CHR ''-'', CHR ''_'', CHR '' ''}) (dropWhile (\<lambda>c. c = CHR ''#'') (py_lower t))"

fun distinct_tags :: "string list \<Rightarrow> string list \<Rightarrow> string list" where
  "distinct_tags seen [] = []"
| "distinct_tags seen (t # ts) =
     (let n = py_strip t in
      if tag_key n \<in> set seen then distinct_tags seen ts else n # distinct_tags (tag_key n # seen) ts)"

definition insert_replacement_tags ::
  "env \<Rightarrow> (nat \<Rightarrow> string \<times> string \<times> string) \<Rightarrow> string \<Rightarrow> string list \<Rightarrow> string option \<Rightarrow> unit act" where
  "insert_replacement_tags \<Gamma> gen i ts agent = attach_tags \<Gamma> gen 0 i agent (map Some (distinct_tags [] ts))"

definition replacement_insert_core_tags :: "env \<Rightarrow> replacement_ids \<Rightarrow> replacement_plan \<Rightarrow> core_state \<Rightarrow> unit act" where
  "replacement_insert_core_tags \<Gamma> ids plan st d =
     (if \<not> cs_is_core st then (Inr (), d)
      else let agent = nf_agent_id (np_fields plan) in
        case attach_tags \<Gamma> (\<lambda>_. ni_core_tag ids) 0 (ni_entity ids) agent [Some ''#core''] d of
          (Inl e, d1) \<Rightarrow> (Inl e, d1)
        | (Inr _, d1) \<Rightarrow>
            reconcile_detail_relations \<Gamma> (ni_details ids) (ni_entity ids) agent (cs_core_detail_memory_ids st) [] d1)"

definition replacement_row :: "env \<Rightarrow> replacement_ids \<Rightarrow> replacement_plan \<Rightarrow> core_state \<Rightarrow> entity \<Rightarrow> entity" where
  "replacement_row \<Gamma> ids plan st locked =
     locked\<lparr>e_id := ni_entity ids, e_created_at := now_iso \<Gamma>, e_updated_at := now_iso \<Gamma>,
       e_agent_id := nf_agent_id (np_fields plan), e_scope := nf_scope (np_fields plan),
       e_memory_type := Some (nf_memory_type (np_fields plan)), e_status := Raw, e_embedding_status := ''pending'',
       e_title := nc_title (np_content plan), e_content := nc_content (np_content plan), e_valid_to := None,
       e_content_hash := Some (nc_content_hash (np_content plan)), e_is_core := cs_is_core st,
       e_core_reason := cs_core_reason st, e_core_exit_condition := cs_core_exit_condition st,
       e_core_review_after := cs_core_review_after st,
       e_core_detail_memory_ids := Detail_Ids (cs_core_detail_memory_ids st), e_core_last_reviewed_at := None,
       e_core_last_reviewed_by := None, e_core_review_rationale := None,
       e_context_id := nf_context_id (np_fields plan), e_metadata := nf_metadata (np_fields plan)\<rparr>"

definition lifecycle_row :: "env \<Rightarrow> string \<Rightarrow> string \<Rightarrow> string \<Rightarrow> string \<Rightarrow> relation" where
  "lifecycle_row \<Gamma> rid s t p =
     \<lparr>r_id = rid, r_source = s, r_target = t, r_predicate = p, r_created_at = now_iso \<Gamma>,
      r_valid_from = Some (now_iso \<Gamma>), r_valid_to = None, r_valid_at = Some (now_iso \<Gamma>), r_invalid_at = None\<rparr>"

text \<open>An insert into \<open>relations\<close>: the primary key and the unique index on live triples.\<close>

definition insert_lifecycle_edge :: "relation \<Rightarrow> unit act" where
  "insert_lifecycle_edge r d =
     (if r_id r \<in> r_id ` set (relations d) \<or> live_edge d (r_source r) (r_target r) (r_predicate r) \<noteq> None
      then (Inl IntegrityError, d) else (Inr (), d\<lparr>relations := relations d @ [r]\<rparr>))"

definition replacement_insert_entity ::
  "env \<Rightarrow> replacement_ids \<Rightarrow> string \<Rightarrow> replacement_plan \<Rightarrow> core_state \<Rightarrow> entity \<Rightarrow> string \<Rightarrow> unit act" where
  "replacement_insert_entity \<Gamma> ids op plan st locked i d =
     (if ni_entity ids \<in> e_id ` set (entities d) then (Inl IntegrityError, d)
      else case insert_replacement_tags \<Gamma> (ni_tags ids) (ni_entity ids) (nf_tags (np_fields plan)) (nf_agent_id (np_fields plan))
             (d\<lparr>entities := entities d @ [replacement_row \<Gamma> ids plan st locked]\<rparr>) of
        (Inl e, d1) \<Rightarrow> (Inl e, d1)
      | (Inr _, d1) \<Rightarrow>
          (case replacement_insert_core_tags \<Gamma> ids plan st d1 of
             (Inl e, d2) \<Rightarrow> (Inl e, d2)
           | (Inr _, d2) \<Rightarrow>
               insert_lifecycle_edge (lifecycle_row \<Gamma> (ni_relation ids) (ni_entity ids) i op)
                 (d2\<lparr>entities := update_where (\<lambda>e. e_id e = i \<and> e_status e = Raw) (archive_row \<Gamma>) (entities d2)\<rparr>)))"

record repointed_relation =
  rl_old_relation_id :: string
  rl_new_relation_id :: string
  rl_source_id :: string
  rl_target_id :: string
  rl_predicate :: string

definition moved_end :: "string \<Rightarrow> string \<Rightarrow> string \<Rightarrow> string" where
  "moved_end old new i = (if i = old then new else i)"

text \<open>Whether an edge stays where it is: a detail of an old core, or an edge that would become a loop.\<close>

definition stays :: "bool \<Rightarrow> string \<Rightarrow> string \<Rightarrow> relation \<Rightarrow> bool" where
  "stays core old new r \<longleftrightarrow> (core \<and> r_predicate r = ''elaborates_on'' \<and> r_target r = old) \<or>
     moved_end old new (r_source r) = moved_end old new (r_target r)"

fun repoint_edges ::
  "env \<Rightarrow> (nat \<Rightarrow> string) \<Rightarrow> nat \<Rightarrow> bool \<Rightarrow> string \<Rightarrow> string \<Rightarrow> relation list \<Rightarrow> (repointed_relation list \<times> string list) act" where
  "repoint_edges \<Gamma> gen k core old new [] d = (Inr ([], []), d)"
| "repoint_edges \<Gamma> gen k core old new (r # rs) d =
     (if stays core old new r
      then case repoint_edges \<Gamma> gen k core old new rs d of
          (Inl e, d1) \<Rightarrow> (Inl e, d1)
        | (Inr (moved, orphaned), d1) \<Rightarrow> (Inr (moved, r_id r # orphaned), d1)
      else let s = moved_end old new (r_source r); t = moved_end old new (r_target r); p = r_predicate r;
               d1 = d\<lparr>relations := invalidate_row (r_id r) (now_iso \<Gamma>) (relations d)\<rparr>
        in if gen k \<in> r_id ` set (relations d1) then (Inl IntegrityError, d1)
        else let present = live_edge d1 s t p \<noteq> None;
                 d2 = (if present then d1 else d1\<lparr>relations := relations d1 @ [lifecycle_row \<Gamma> (gen k) s t p]\<rparr>)
          in case repoint_edges \<Gamma> gen (Suc k) core old new rs d2 of
            (Inl e, d3) \<Rightarrow> (Inl e, d3)
          | (Inr (moved, orphaned), d3) \<Rightarrow>
              (Inr (if present then moved
                    else \<lparr>rl_old_relation_id = r_id r, rl_new_relation_id = gen k, rl_source_id = s, rl_target_id = t,
                           rl_predicate = p\<rparr> # moved, orphaned), d3))"

definition replacement_repoint_edges ::
  "env \<Rightarrow> (nat \<Rightarrow> string) \<Rightarrow> string \<Rightarrow> string \<Rightarrow> (repointed_relation list \<times> string list) act" where
  "replacement_repoint_edges \<Gamma> gen i new d =
     (case get_entity d i of
        None \<Rightarrow> (Inl RuntimeError, d)
      | Some e \<Rightarrow> repoint_edges \<Gamma> gen 0 (e_is_core e) i new (semantic_edges d i) d)"

record replacement_outcome =
  no_core_state :: core_state
  no_repointed :: "repointed_relation list"
  no_still_orphaned :: "string list"

definition replacement_core_entry :: "replacement_ids \<Rightarrow> replacement_plan \<Rightarrow> core_entry" where
  "replacement_core_entry ids plan =
     \<lparr>ce_id = ni_entity ids, ce_title = nc_title (np_content plan), ce_memory_type = Some (nf_memory_type (np_fields plan)),
      ce_core_reason = cd_core_reason (np_core plan), ce_core_exit_condition = cd_core_exit_condition (np_core plan),
      ce_core_review_after = cd_core_review_after (np_core plan), ce_full_content = nc_content (np_content plan)\<rparr>"

definition replacement_core_state :: "env \<Rightarrow> db \<Rightarrow> replacement_ids \<Rightarrow> replacement_plan \<Rightarrow> string \<Rightarrow> core_exn + core_state" where
  "replacement_core_state \<Gamma> d ids plan i =
     (let c = np_core plan in
      resolve_derived_core_state \<Gamma> d [i] (cd_is_core c) (nc_content (np_content plan)) (nf_scope (np_fields plan))
        (cd_core_reason c) (cd_core_exit_condition c) (cd_core_review_after c) (cd_detail_memory_ids c)
        (replacement_core_entry ids plan))"

text \<open>Rejections raised inside the transaction come before its first write; they are the left side of the result.\<close>

definition replacement_write ::
  "env \<Rightarrow> replacement_ids \<Rightarrow> string \<Rightarrow> string \<Rightarrow> replacement_plan \<Rightarrow> bool \<Rightarrow> ((err + core_exn) + replacement_outcome) act" where
  "replacement_write \<Gamma> ids op i plan repoint d =
     (case replacement_locked_source d i (np_before plan) of
        Inl e \<Rightarrow> (Inr (Inl (Inl e)), d)
      | Inr locked \<Rightarrow>
          (case replacement_core_state \<Gamma> d ids plan i of
             Inl ce \<Rightarrow> (Inr (Inl (Inr ce)), d)
           | Inr st \<Rightarrow>
               (case replacement_insert_entity \<Gamma> ids op plan st locked i d of
                  (Inl e, d1) \<Rightarrow> (Inl e, d1)
                | (Inr _, d1) \<Rightarrow>
                    (case (if repoint then replacement_repoint_edges \<Gamma> (ni_repointed ids) i (ni_entity ids) d1
                           else (Inr ([], []), d1)) of
                       (Inl e, d2) \<Rightarrow> (Inl e, d2)
                     | (Inr (moved, orphaned), d2) \<Rightarrow>
                         (Inr (Inr \<lparr>no_core_state = st, no_repointed = moved, no_still_orphaned = orphaned\<rparr>), d2)))))"

record replacement_data =
  nd_old_id :: string
  nd_new_id :: string
  nd_relation_id :: string
  nd_predicate :: string
  nd_reason :: string
  nd_orphaned_semantic_edges :: "worklist_edge list"
  nd_semantic_relations_repointed :: bool
  nd_repointed_relations :: "repointed_relation list"

definition replacement_response ::
  "replacement_ids \<Rightarrow> string \<Rightarrow> string \<Rightarrow> replacement_plan \<Rightarrow> replacement_outcome \<Rightarrow> bool \<Rightarrow> replacement_data" where
  "replacement_response ids op i plan out repoint =
     \<lparr>nd_old_id = i, nd_new_id = ni_entity ids, nd_relation_id = ni_relation ids, nd_predicate = op,
      nd_reason = py_strip (np_reason plan),
      nd_orphaned_semantic_edges = (if repoint
        then filter (\<lambda>w. r_id (we_relation w) \<in> set (no_still_orphaned out)) (np_orphaned_edges plan)
        else np_orphaned_edges plan),
      nd_semantic_relations_repointed = repoint, nd_repointed_relations = no_repointed out\<rparr>"

definition core_rejection :: "replacement_services \<Rightarrow> core_declaration \<Rightarrow> core_exn \<Rightarrow> err" where
  "core_rejection S c ce =
     (case ce of
        Core_Decision_Required _ _ _ \<Rightarrow> error ''CORE_DECISION_REQUIRED'' (Some ''entity_id'')
      | Core_Governance_Capacity _ \<Rightarrow> error ''CORE_CAPACITY_EXCEEDED'' None
      | _ \<Rightarrow> error VALIDATION_ERROR (Some (if mentions_private S c then ''scope'' else ''core'')))"

definition replacement_execute ::
  "env \<Rightarrow> replacement_services \<Rightarrow> (nat \<Rightarrow> bool) \<Rightarrow> replacement_ids \<Rightarrow> string \<Rightarrow> string \<Rightarrow> replacement_plan \<Rightarrow>
   replacement_request \<Rightarrow> db \<Rightarrow> replacement_data envelope \<times> db" where
  "replacement_execute \<Gamma> S locks ids op i plan req d =
     (let tx = replacement_write \<Gamma> ids op i plan (rr_repoint_relations req) in
      case (if rr_in_transaction req then write_transaction tx d else write_transaction_retrying locks tx d) of
        (Inl _, d') \<Rightarrow> (Rejected [error ''LIFECYCLE_WRITE_FAILED'' None], d')
      | (Inr (Inl (Inl e)), d') \<Rightarrow> (Rejected [e], d')
      | (Inr (Inl (Inr ce)), d') \<Rightarrow> (Rejected [core_rejection S (np_core plan) ce], d')
      | (Inr (Inr out), d') \<Rightarrow> (Ok (replacement_response ids op i plan out (rr_repoint_relations req)) [], d'))"

definition replace_memory ::
  "env \<Rightarrow> replacement_services \<Rightarrow> (nat \<Rightarrow> bool) \<Rightarrow> replacement_ids \<Rightarrow> string \<Rightarrow> replacement_request \<Rightarrow> db \<Rightarrow> db \<Rightarrow>
   replacement_data envelope \<times> db" where
  "replace_memory \<Gamma> S locks ids op req d0 d1 =
     (case validate_replacement_inputs req of
        Some e \<Rightarrow> (Rejected [e], d1)
      | None \<Rightarrow>
          (case replacement_target d0 (the (rr_entity_id req)) of
             Inl e \<Rightarrow> (Rejected [e], d1)
           | Inr i \<Rightarrow>
               (case replacement_prepare \<Gamma> S d0 req i of
                  Inl e \<Rightarrow> (Rejected [e], d1)
                | Inr plan \<Rightarrow> replacement_execute \<Gamma> S locks ids op i plan req d1)))"

definition revise_memory ::
  "env \<Rightarrow> replacement_services \<Rightarrow> (nat \<Rightarrow> bool) \<Rightarrow> replacement_ids \<Rightarrow> replacement_request \<Rightarrow> db \<Rightarrow> db \<Rightarrow> replacement_data envelope \<times> db" where
  "revise_memory \<Gamma> S locks ids req = replace_memory \<Gamma> S locks ids ''revises''
     (req\<lparr>rr_retrieval_text := None, rr_core := \<lparr>cd_is_core = None, cd_core_reason = None, cd_core_exit_condition = None,
        cd_core_review_after = None, cd_detail_memory_ids = None\<rparr>\<rparr>)"

definition supersede_memory ::
  "env \<Rightarrow> replacement_services \<Rightarrow> (nat \<Rightarrow> bool) \<Rightarrow> replacement_ids \<Rightarrow> replacement_request \<Rightarrow> db \<Rightarrow> db \<Rightarrow> replacement_data envelope \<times> db" where
  "supersede_memory \<Gamma> S locks ids req = replace_memory \<Gamma> S locks ids ''supersedes''
     (req\<lparr>rr_retrieval_text := None, rr_core := \<lparr>cd_is_core = None, cd_core_reason = None, cd_core_exit_condition = None,
        cd_core_review_after = None, cd_detail_memory_ids = None\<rparr>, rr_in_transaction := False\<rparr>)"

section \<open>Archiving\<close>

text \<open>A request that is not a string is \<open>None\<close>.\<close>

definition resolve_archive_id :: "db \<Rightarrow> string option \<Rightarrow> err + string" where
  "resolve_archive_id d request =
     (if blank request then Inl (error VALIDATION_ERROR None)
      else if get_entity d (the request) \<noteq> None then Inr (the request)
      else case resolve_id_prefix d request None of (resolved, cands, _) \<Rightarrow>
        if cands \<noteq> [] then Inl (error ''AMBIGUOUS_ID_PREFIX'' None)
        else if \<not> truthy resolved then Inl (error NOT_FOUND None)
        else Inr (the resolved))"

record archive_target =
  at_memory_id :: string
  at_already_archived :: bool

definition resolve_archive_target :: "db \<Rightarrow> string option \<Rightarrow> string option \<Rightarrow> err + archive_target" where
  "resolve_archive_target d agent request =
     (case resolve_archive_id d request of
        Inl e \<Rightarrow> Inl e
      | Inr i \<Rightarrow>
          (case get_entity d i of
             None \<Rightarrow> Inl (error NOT_FOUND None)
           | Some e \<Rightarrow>
               if e_status e = Archived then Inr \<lparr>at_memory_id = i, at_already_archived = True\<rparr>
               else if truthy agent \<and> truthy (e_agent_id e) \<and> e_agent_id e \<noteq> agent then Inl (error CONFLICT None)
               else Inr \<lparr>at_memory_id = i, at_already_archived = False\<rparr>))"

definition memory_ids_field :: "nat \<Rightarrow> string" where
  "memory_ids_field k = ''memory_ids['' @ show_nat k @ '']''"

fun validate_archive_requests :: "db \<Rightarrow> string option \<Rightarrow> nat \<Rightarrow> string list \<Rightarrow> string option list \<Rightarrow> archive_target list \<times> err list" where
  "validate_archive_requests d agent k seen [] = ([], [])"
| "validate_archive_requests d agent k seen (q # qs) =
     (case resolve_archive_target d agent q of
        Inl e \<Rightarrow> (case validate_archive_requests d agent (Suc k) seen qs of
            (xs, es) \<Rightarrow> (xs, e\<lparr>err_field := Some (memory_ids_field k)\<rparr> # es))
      | Inr x \<Rightarrow>
          if at_memory_id x \<in> set seen
          then (case validate_archive_requests d agent (Suc k) seen qs of
              (xs, es) \<Rightarrow> (xs, error ''DUPLICATE_ID'' (Some (memory_ids_field k)) # es))
          else (case validate_archive_requests d agent (Suc k) (at_memory_id x # seen) qs of (xs, es) \<Rightarrow> (x # xs, es)))"

record archive_data =
  ar_items :: "archive_target list"
  ar_archived_count :: nat
  ar_already_archived_count :: nat

definition archive_batch_response :: "archive_target list \<Rightarrow> archive_data" where
  "archive_batch_response xs =
     (let n = length (filter (\<lambda>x. \<not> at_already_archived x) xs) in
      \<lparr>ar_items = xs, ar_archived_count = n, ar_already_archived_count = length xs - n\<rparr>)"

definition archive_batch_transaction :: "env \<Rightarrow> string option \<Rightarrow> string option list \<Rightarrow> archive_data envelope act" where
  "archive_batch_transaction \<Gamma> agent requests d =
     (case validate_archive_requests d agent 0 [] requests of (xs, es) \<Rightarrow>
        if es \<noteq> [] then (Inr (Rejected es), d)
        else (Inr (Ok (archive_batch_response xs) []),
              fold (archive_entity_unchecked \<Gamma>) (map at_memory_id (filter (\<lambda>x. \<not> at_already_archived x) xs)) d))"

definition archive_memories :: "env \<Rightarrow> (nat \<Rightarrow> bool) \<Rightarrow> string option list \<Rightarrow> string option \<Rightarrow> db \<Rightarrow> archive_data envelope \<times> db" where
  "archive_memories \<Gamma> locks requests agent d =
     (if requests = [] then (Rejected [error VALIDATION_ERROR (Some ''memory_ids'')], d)
      else case write_transaction_retrying locks (archive_batch_transaction \<Gamma> agent requests) d of
        (Inl _, d') \<Rightarrow> (Rejected [error INTERNAL_ERROR None], d')
      | (Inr (Rejected es), d') \<Rightarrow> (Rejected es, d')
      | (Inr (Ok x ws), d') \<Rightarrow> (Ok x ws, trigger_community_detection d'))"

definition archive_memory :: "env \<Rightarrow> (nat \<Rightarrow> bool) \<Rightarrow> string option \<Rightarrow> string option \<Rightarrow> bool \<Rightarrow> db \<Rightarrow> string envelope \<times> db" where
  "archive_memory \<Gamma> locks entity_id agent in_transaction d =
     (if \<not> truthy entity_id then (Rejected [error VALIDATION_ERROR (Some ''entity_id'')], d)
      else let resolved = resolve_entity_id d entity_id in
        if \<not> truthy resolved then (Rejected [error NOT_FOUND (Some ''entity_id'')], d)
        else case get_entity d (the resolved) of
          None \<Rightarrow> (Rejected [error NOT_FOUND (Some ''entity_id'')], d)
        | Some e \<Rightarrow>
            if e_status e = Archived then (Ok (the resolved) [ALREADY_DONE], d)
            else if truthy agent \<and> truthy (e_agent_id e) \<and> e_agent_id e \<noteq> agent then (Rejected [error CONFLICT (Some ''agent_id'')], d)
            else let tx = (\<lambda>d. (Inr (), archive_entity_unchecked \<Gamma> (the resolved) d)) in
              (case (if in_transaction then tx d else write_transaction_retrying locks tx d) of
                 (Inl _, d') \<Rightarrow> (Rejected [error INTERNAL_ERROR None], d')
               | (Inr _, d') \<Rightarrow> (Ok (the resolved) [], d')))"

section \<open>Reading one memory\<close>

definition CONTENT_FILE_DUMP_THRESHOLD_CHARS :: nat where
  "CONTENT_FILE_DUMP_THRESHOLD_CHARS = 20000"

text \<open>A long text is written to a file; the answer then has its path, which is not modelled, and a preview.\<close>

datatype content_view = Content string | Content_File string | Snippet string

definition large_content_descriptor :: "string \<Rightarrow> content_view" where
  "large_content_descriptor content =
     (if length content \<le> CONTENT_FILE_DUMP_THRESHOLD_CHARS then Content content else Content_File (take 500 content))"

definition can_read_entity :: "db \<Rightarrow> string \<Rightarrow> string option \<Rightarrow> bool" where
  "can_read_entity d i agent \<longleftrightarrow> agent = None \<or> find_row (\<lambda>e. e_id e = i \<and> visible agent e) (entities d) \<noteq> None"

definition lineage_nodes :: "lineage_result envelope \<Rightarrow> lineage_node list" where
  "lineage_nodes r = (case r of Rejected _ \<Rightarrow> [] | Ok res _ \<Rightarrow> lg_nodes res)"

record memory_neighbours =
  mn_ancestors :: "lineage_node list"
  mn_descendants :: "lineage_node list"

text \<open>The lineage is read without an agent and its nodes are filtered afterwards.\<close>

definition memory_lineage :: "env \<Rightarrow> db \<Rightarrow> string \<Rightarrow> int \<Rightarrow> string option \<Rightarrow> memory_neighbours" where
  "memory_lineage \<Gamma> d i max_depth agent =
     (let nodes = (\<lambda>dir. filter (\<lambda>n. ln_id n \<noteq> i \<and> can_read_entity d (ln_id n) agent)
            (lineage_nodes (get_lineage \<Gamma> d (Some i) dir max_depth None None)))
      in \<lparr>mn_ancestors = nodes ''ancestors'', mn_descendants = nodes ''descendants''\<rparr>)"

definition successor_details :: "env \<Rightarrow> db \<Rightarrow> string \<Rightarrow> lineage_node list \<times> memory_neighbours" where
  "successor_details \<Gamma> d i =
     (let l = memory_lineage \<Gamma> d i 10 None in (filter (\<lambda>n. ln_status n = Some Raw) (mn_descendants l), l))"

record memory_record =
  mv_entity :: entity
  mv_visible_tags :: "string list"
  mv_view :: content_view
  mv_lineage :: "memory_neighbours option"
  mv_trace_provenance :: "(string \<times> string \<times> string \<times> trace_status) list option"

definition assemble_memory_record ::
  "env \<Rightarrow> db \<Rightarrow> string \<Rightarrow> bool \<Rightarrow> bool \<Rightarrow> int \<Rightarrow> string option \<Rightarrow> bool \<Rightarrow> memory_record option" where
  "assemble_memory_record \<Gamma> d i include_content include_lineage max_depth agent provenance =
     map_option (\<lambda>e. \<lparr>mv_entity = e, mv_visible_tags = list_entity_tags d i False,
        mv_view = (if include_content then large_content_descriptor (e_content e)
                   else Snippet (snd (extract_title_and_snippet (e_content e)))),
        mv_lineage = (if include_lineage then Some (memory_lineage \<Gamma> d i max_depth agent) else None),
        mv_trace_provenance = (if provenance then Some (entity_trace_provenance d i 5) else None)\<rparr>) (get_entity d i)"

definition read_memory ::
  "env \<Rightarrow> db \<Rightarrow> bool \<Rightarrow> string option \<Rightarrow> int \<Rightarrow> string option \<Rightarrow> bool \<Rightarrow> memory_record envelope" where
  "read_memory \<Gamma> d include_content entity_id max_depth agent provenance =
     (if blank entity_id then Rejected [error ''MISSING_ENTITY_ID'' (Some ''entity_id'')]
      else case resolve_entity_ref d entity_id agent of (resolved, cands, _) \<Rightarrow>
        if cands \<noteq> [] then Rejected [error ''AMBIGUOUS_ID_PREFIX'' (Some ''entity_id'')]
        else if \<not> truthy resolved \<or> \<not> can_read_entity d (the resolved) agent
        then Rejected [error ''UNKNOWN_ENTITY_ID'' (Some ''entity_id'')]
        else case assemble_memory_record \<Gamma> d (the resolved) include_content True max_depth agent provenance of
          None \<Rightarrow> Rejected [error ''UNKNOWN_ENTITY_ID'' (Some ''entity_id'')]
        | Some m \<Rightarrow> Ok m [])"

definition get_memory :: "env \<Rightarrow> db \<Rightarrow> string option \<Rightarrow> int \<Rightarrow> string option \<Rightarrow> bool \<Rightarrow> memory_record envelope" where
  "get_memory \<Gamma> d = read_memory \<Gamma> d True"

definition inspect_memory :: "env \<Rightarrow> db \<Rightarrow> string option \<Rightarrow> int \<Rightarrow> string option \<Rightarrow> bool \<Rightarrow> memory_record envelope" where
  "inspect_memory \<Gamma> d = read_memory \<Gamma> d False"

text \<open>Raw memories without a relation that is valid now.\<close>

definition detect_orphaned_memories :: "env \<Rightarrow> db \<Rightarrow> string option \<Rightarrow> (string \<times> string \<times> string option) list" where
  "detect_orphaned_memories \<Gamma> d agent =
     map (\<lambda>e. (e_id e, e_title e, e_agent_id e))
       (filter (\<lambda>e. e_status e = Raw \<and>
            \<not> list_ex (\<lambda>r. (r_source r = e_id e \<or> r_target r = e_id e) \<and>
                 sql_after \<Gamma> (now_iso \<Gamma>) (r_valid_to r)) (relations d) \<and>
            (\<not> truthy agent \<or> e_agent_id e = agent)) (entities d))"

section \<open>Live triples\<close>

text \<open>The abstract graph of a store: the triples of its live relations.\<close>

definition triple :: "relation \<Rightarrow> string \<times> string \<times> string" where
  "triple r = (r_source r, r_target r, r_predicate r)"

definition live_triples :: "db \<Rightarrow> (string \<times> string \<times> string) set" where
  "live_triples d = triple ` {r \<in> set (relations d). live r}"

definition moved_triple :: "string \<Rightarrow> string \<Rightarrow> string \<times> string \<times> string \<Rightarrow> string \<times> string \<times> string" where
  "moved_triple old new = (\<lambda>(s, t, p). (moved_end old new s, moved_end old new t, p))"

text \<open>The triples that re-pointing moves.\<close>

definition movable :: "bool \<Rightarrow> string \<Rightarrow> string \<Rightarrow> string \<times> string \<times> string \<Rightarrow> bool" where
  "movable core old new = (\<lambda>(s, t, p). (s = old \<or> t = old) \<and> p \<notin> set LINEAGE_PREDICATES \<and>
     \<not> (core \<and> p = ''elaborates_on'' \<and> t = old) \<and> moved_end old new s \<noteq> moved_end old new t)"

definition row_ends :: "db \<Rightarrow> string set" where
  "row_ends d = r_source ` set (relations d) \<union> r_target ` set (relations d)"

lemma edge_is_triple: "edge_is s t p r \<longleftrightarrow> triple r = (s, t, p)"
  by (auto simp: edge_is_def triple_def)

lemma no_live_edge: "live_edge d s t p = None \<longleftrightarrow> (s, t, p) \<notin> live_triples d"
  unfolding live_edge_def find_row_None live_triples_def edge_is_triple by (auto simp: image_iff)

lemma uniq_live_triple: "uniq_live rs \<Longrightarrow> r \<in> set rs \<Longrightarrow> r' \<in> set rs \<Longrightarrow> live r \<Longrightarrow> live r' \<Longrightarrow> triple r' = triple r \<Longrightarrow> r' = r"
  unfolding uniq_live_def edge_is_triple by (simp add: triple_def)

lemma triples_snoc: "live n \<Longrightarrow> live_triples (d\<lparr>relations := relations d @ [n]\<rparr>) = insert (triple n) (live_triples d)"
  by (auto simp: live_triples_def)

lemma triples_invalidate:
  assumes "rel_inv d" "r \<in> set (relations d)" "live r"
  shows "live_triples (d\<lparr>relations := invalidate_row (r_id r) t (relations d)\<rparr>) = live_triples d - {triple r}"
proof -
  have one: "r_id x = r_id r \<longleftrightarrow> x = r" if x: "x \<in> set (relations d)" for x
    using assms(1,2) x unfolding rel_inv_def by (meson distinct_map inj_onD)
  have "live_triples (d\<lparr>relations := invalidate_row (r_id r) t (relations d)\<rparr>) = triple ` {x \<in> set (relations d). live x \<and> x \<noteq> r}"
    unfolding live_triples_def using live_invalidate_row[of _ "r_id r" t "relations d"] one by auto
  also have "\<dots> = live_triples d - {triple r}"
    using uniq_live_triple[of "relations d" r] assms unfolding live_triples_def rel_inv_def by auto
  finally show ?thesis .
qed

lemma lifecycle_row_fields [simp]:
  "r_id (lifecycle_row \<Gamma> rid s t p) = rid" "r_source (lifecycle_row \<Gamma> rid s t p) = s" "r_target (lifecycle_row \<Gamma> rid s t p) = t"
  "r_predicate (lifecycle_row \<Gamma> rid s t p) = p" "live (lifecycle_row \<Gamma> rid s t p)" "triple (lifecycle_row \<Gamma> rid s t p) = (s, t, p)"
  by (simp_all add: lifecycle_row_def live_def triple_def)

lemma append_row:
  assumes "rel_inv d" "r_id n \<notin> r_id ` set (relations d)" "triple n \<notin> live_triples d"
  shows "rel_inv (d\<lparr>relations := relations d @ [n]\<rparr>)"
proof -
  have "edge_is (r_source n) (r_target n) (r_predicate n) r \<longleftrightarrow> triple r = triple n" for r
    by (simp add: edge_is_triple triple_def)
  then have "\<forall>r \<in> set (relations d). \<not> (live r \<and> edge_is (r_source n) (r_target n) (r_predicate n) r)"
    using assms(3) unfolding live_triples_def by (metis (mono_tags, lifting) imageI mem_Collect_eq)
  then have "uniq_live (relations d @ [n])" using assms(1) uniq_live_snoc unfolding rel_inv_def by blast
  then show ?thesis using assms(1,2) by (simp add: rel_inv_def)
qed

section \<open>Re-pointing edges\<close>

text \<open>What re-pointing keeps: rows are closed or appended, and new rows join old ends and the new memory.\<close>

definition repoints :: "string \<Rightarrow> db \<Rightarrow> db \<Rightarrow> bool" where
  "repoints new d d' \<longleftrightarrow> entities d' = entities d \<and> events d' = events d \<and> row_ends d' \<subseteq> insert new (row_ends d) \<and>
     (\<exists>kept fresh. relations d' = kept @ fresh \<and> list_all2 closes (relations d) kept)"

lemma repoints_refl: "repoints new d d"
  unfolding repoints_def by (intro conjI exI[of _ "relations d"] exI[of _ "[]"]) (auto intro: list_all2_refl)

lemma repoints_trans:
  assumes "repoints new d d1" "repoints new d1 d2"
  shows "repoints new d d2"
proof -
  obtain k f where 1: "relations d1 = k @ f" "list_all2 closes (relations d) k" using assms(1) unfolding repoints_def by blast
  obtain k' f' where 2: "relations d2 = k' @ f'" "list_all2 closes (k @ f) k'" using assms(2) 1(1) unfolding repoints_def by metis
  obtain u v where uv: "k' = u @ v" "list_all2 closes k u" using 2(2) by (auto simp: list_all2_append1)
  have "list_all2 closes (relations d) u"
    using 1(2) uv(2) by (rule list_all2_trans[of closes closes closes, rotated]) (rule closes_trans)
  then have "\<exists>kept fresh. relations d2 = kept @ fresh \<and> list_all2 closes (relations d) kept" using 2(1) uv(1) by auto
  then show ?thesis using assms unfolding repoints_def by auto
qed

lemma repoint_step:
  fixes t
  assumes "rel_inv d" "r \<in> set (relations d)" "live r" "\<not> stays core old new r" "r_source r = old \<or> r_target r = old" "old \<noteq> new"
  defines "d1 \<equiv> d\<lparr>relations := invalidate_row (r_id r) t (relations d)\<rparr>"
    and "m \<equiv> moved_triple old new (triple r)"
  assumes "rid \<notin> r_id ` set (relations d1)"
    "d2 = (if live_edge d1 (moved_end old new (r_source r)) (moved_end old new (r_target r)) (r_predicate r) \<noteq> None then d1
      else d1\<lparr>relations := relations d1 @ [lifecycle_row \<Gamma> rid (moved_end old new (r_source r)) (moved_end old new (r_target r)) (r_predicate r)]\<rparr>)"
  shows "rel_inv d2" "live_triples d2 = live_triples d - {triple r} \<union> {m}" "repoints new d d2"
    "\<And>x. x \<in> set (relations d) \<Longrightarrow> live x \<Longrightarrow> r_id x \<noteq> r_id r \<Longrightarrow> x \<in> set (relations d2)"
proof -
  let ?n = "lifecycle_row \<Gamma> rid (moved_end old new (r_source r)) (moved_end old new (r_target r)) (r_predicate r)"
  have m: "m = (moved_end old new (r_source r), moved_end old new (r_target r), r_predicate r)"
    by (simp add: m_def moved_triple_def triple_def)
  have inv: "rel_inv d1" using invalidate_row_evolves[OF assms(2,3)] assms(1) unfolding d1_def rel.evolves_def by blast
  have lt: "live_triples d1 = live_triples d - {triple r}" unfolding d1_def by (rule triples_invalidate[OF assms(1-3)])
  have d2: "d2 = (if m \<in> live_triples d1 then d1 else d1\<lparr>relations := relations d1 @ [?n]\<rparr>)"
    unfolding assms(10) no_live_edge m by simp
  show "rel_inv d2" using inv append_row[OF inv, of ?n] assms(9) unfolding d2 m by simp
  show "live_triples d2 = live_triples d - {triple r} \<union> {m}"
    unfolding d2 lt[symmetric] by (simp add: triples_snoc m insert_absorb)
  have c: "list_all2 closes (relations d) (relations d1)"
    using invalidate_row_closes[OF _ assms(2,3)] assms(1) unfolding d1_def rel_inv_def by simp
  have e1: "row_ends d1 = row_ends d"
  proof -
    have "map r_source (relations d1) = map r_source (relations d)" "map r_target (relations d1) = map r_target (relations d)"
      by (simp_all add: d1_def invalidate_row_def map_update_where)
    then show ?thesis unfolding row_ends_def by (metis list.set_map)
  qed
  have "row_ends d2 \<subseteq> insert new (row_ends d)"
    using assms(2) e1 unfolding d2 by (auto simp: row_ends_def moved_end_def)
  moreover have "\<exists>kept fresh. relations d2 = kept @ fresh \<and> list_all2 closes (relations d) kept"
    unfolding d2 using c by (auto intro: exI[of _ "relations d1"])
  moreover have "entities d2 = entities d" "events d2 = events d" unfolding d2 by (simp_all add: d1_def)
  ultimately show "repoints new d d2" unfolding repoints_def by simp
  fix x assume "x \<in> set (relations d)" "live x" "r_id x \<noteq> r_id r"
  then have "x \<in> set (relations d1)" using live_invalidate_row[of x "r_id r" t "relations d"] unfolding d1_def by simp
  then show "x \<in> set (relations d2)" unfolding d2 by simp
qed

lemma moved_sets: "f a \<notin> T \<Longrightarrow> (L - {a} \<union> {f a}) - T \<union> f ` T = L - insert a T \<union> f ` insert a T"
  by auto

lemma repoint_fold:
  "repoint_edges \<Gamma> gen k core old new rs d = (Inr (moved, orphaned), d') \<Longrightarrow> rel_inv d \<Longrightarrow> old \<noteq> new \<Longrightarrow> distinct (map r_id rs) \<Longrightarrow>
     \<forall>r \<in> set rs. r \<in> set (relations d) \<and> live r \<and> (r_source r = old \<or> r_target r = old) \<Longrightarrow>
   rel_inv d' \<and> repoints new d d' \<and> orphaned = map r_id (filter (stays core old new) rs) \<and>
   live_triples d' = live_triples d - triple ` {r \<in> set rs. \<not> stays core old new r} \<union>
     moved_triple old new ` triple ` {r \<in> set rs. \<not> stays core old new r}"
proof (induction \<Gamma> gen k core old new rs d arbitrary: moved orphaned d' rule: repoint_edges.induct)
  case (1 \<Gamma> gen k core old new d)
  then show ?case by (simp add: repoints_refl)
next
  case (2 \<Gamma> gen k core old new r rs d)
  show ?case
  proof (cases "stays core old new r")
    case True
    obtain orphaned' where run: "repoint_edges \<Gamma> gen k core old new rs d = (Inr (moved, orphaned'), d')" "orphaned = r_id r # orphaned'"
      using 2(3) True by (auto split: prod.splits sum.splits)
    have "{x \<in> set (r # rs). \<not> stays core old new x} = {x \<in> set rs. \<not> stays core old new x}" using True by auto
    then show ?thesis using 2(1)[OF True run(1)] 2(4-7) True run(2) by simp
  next
    case False
    define d1 where "d1 = d\<lparr>relations := invalidate_row (r_id r) (now_iso \<Gamma>) (relations d)\<rparr>"
    define s t p where "s = moved_end old new (r_source r)" and "t = moved_end old new (r_target r)" and "p = r_predicate r"
    define d2 where "d2 = (if live_edge d1 s t p \<noteq> None then d1 else d1\<lparr>relations := relations d1 @ [lifecycle_row \<Gamma> (gen k) s t p]\<rparr>)"
    have fresh: "gen k \<notin> r_id ` set (relations d1)" using 2(3) False by (auto simp: d1_def Let_def split: if_splits)
    obtain moved' where run: "repoint_edges \<Gamma> gen (Suc k) core old new rs d2 = (Inr (moved', orphaned), d')"
      using 2(3) False fresh unfolding d2_def s_def t_def p_def d1_def by (auto simp: Let_def split: if_splits prod.splits sum.splits)
    have r: "r \<in> set (relations d)" "live r" "r_source r = old \<or> r_target r = old" using 2(7) by simp_all
    note step = repoint_step[OF 2(4) r(1,2) False r(3) 2(5) fresh[unfolded d1_def] d2_def[unfolded d1_def s_def t_def p_def]]
    let ?M = "{x \<in> set rs. \<not> stays core old new x}" and ?m = "moved_triple old new (triple r)"
    have rest: "\<forall>x \<in> set rs. x \<in> set (relations d2) \<and> live x \<and> (r_source x = old \<or> r_target x = old)"
      using 2(6,7) step(4) by (auto simp: image_iff)
    note IH = 2(2)[OF False s_def t_def p_def d1_def fresh refl d2_def run step(1) 2(5) _ rest]
    have M: "{x \<in> set (r # rs). \<not> stays core old new x} = insert r ?M" using False by auto
    have "?m \<notin> triple ` ?M" using rest 2(5) by (auto simp: moved_triple_def triple_def moved_end_def split: if_splits)
    then have "live_triples d' = live_triples d - triple ` insert r ?M \<union> moved_triple old new ` triple ` insert r ?M"
      using IH 2(6) step(2) moved_sets[of "moved_triple old new" "triple r" "triple ` ?M"] by simp
    moreover have "rel_inv d' \<and> repoints new d d' \<and> orphaned = map r_id (filter (stays core old new) (r # rs))"
      using IH 2(6) False repoints_trans[OF step(3)] by auto
    ultimately show ?thesis unfolding M by blast
  qed
qed

lemma semantic_edges_set:
  "set (semantic_edges d i) = {r \<in> set (relations d). (r_source r = i \<or> r_target r = i) \<and> live r \<and> r_predicate r \<notin> set LINEAGE_PREDICATES}"
  by (simp add: semantic_edges_def)

lemma semantic_edges_distinct: "distinct (map r_id (relations d)) \<Longrightarrow> distinct (map r_id (semantic_edges d i))"
proof -
  let ?F = "filter (\<lambda>r. (r_source r = i \<or> r_target r = i) \<and> live r \<and> r_predicate r \<notin> set LINEAGE_PREDICATES) (relations d)"
  assume "distinct (map r_id (relations d))"
  then have "distinct (map r_id ?F)" by (rule distinct_map_filter)
  moreover have "mset (map r_id (semantic_edges d i)) = mset (map r_id ?F)" by (simp add: semantic_edges_def)
  ultimately show ?thesis using mset_eq_imp_distinct_iff by blast
qed

lemma repointed:
  assumes "replacement_repoint_edges \<Gamma> gen i new d = (Inr (moved, orphaned), d')" "rel_inv d" "get_entity d i = Some e" "i \<noteq> new"
  shows "rel_inv d'" "repoints new d d'" "orphaned = map r_id (filter (stays (e_is_core e) i new) (semantic_edges d i))"
    "live_triples d' = {x \<in> live_triples d. \<not> movable (e_is_core e) i new x} \<union>
       moved_triple i new ` {x \<in> live_triples d. movable (e_is_core e) i new x}"
proof -
  let ?E = "{r \<in> set (semantic_edges d i). \<not> stays (e_is_core e) i new r}"
  have run: "repoint_edges \<Gamma> gen 0 (e_is_core e) i new (semantic_edges d i) d = (Inr (moved, orphaned), d')"
    using assms(1,3) by (simp add: replacement_repoint_edges_def)
  have "distinct (map r_id (semantic_edges d i))" using assms(2) by (intro semantic_edges_distinct) (simp add: rel_inv_def)
  moreover have "\<forall>r \<in> set (semantic_edges d i). r \<in> set (relations d) \<and> live r \<and> (r_source r = i \<or> r_target r = i)"
    unfolding semantic_edges_set by blast
  ultimately have f: "rel_inv d' \<and> repoints new d d' \<and> orphaned = map r_id (filter (stays (e_is_core e) i new) (semantic_edges d i)) \<and>
      live_triples d' = live_triples d - triple ` ?E \<union> moved_triple i new ` triple ` ?E"
    by (rule repoint_fold[OF run assms(2,4)])
  have "movable (e_is_core e) i new (triple r) \<longleftrightarrow> r \<in> ?E" if "r \<in> set (relations d)" "live r" for r
    using that unfolding semantic_edges_set by (auto simp: movable_def triple_def stays_def)
  then have E: "triple ` ?E = {x \<in> live_triples d. movable (e_is_core e) i new x}"
    unfolding live_triples_def semantic_edges_set by auto
  then show "live_triples d' = {x \<in> live_triples d. \<not> movable (e_is_core e) i new x} \<union>
       moved_triple i new ` {x \<in> live_triples d. movable (e_is_core e) i new x}"
    using f by (simp add: set_diff_eq) blast
  show "rel_inv d'" "repoints new d d'" "orphaned = map r_id (filter (stays (e_is_core e) i new) (semantic_edges d i))"
    using f by blast+
qed

section \<open>The steps of a replacement\<close>

lemma core_tags_step:
  assumes "replacement_insert_core_tags \<Gamma> ids plan st d = (Inr u, d')"
  obtains d1 where "entities d1 = entities d" "relations d1 = relations d" "entities d' = entities d" "rel.evolves True d1 d'"
    "cs_is_core st \<or> relations d' = relations d"
proof (cases "cs_is_core st")
  case False
  then have "d' = d" using assms by (simp add: replacement_insert_core_tags_def)
  then show thesis using that[of d] rel.evolves_refl by simp
next
  case True
  let ?agent = "nf_agent_id (np_fields plan)" and ?new = "cs_core_detail_memory_ids st"
  obtain d1 where 1: "attach_tags \<Gamma> (\<lambda>_. ni_core_tag ids) 0 (ni_entity ids) ?agent [Some ''#core''] d = (Inr (), d1)"
    and rc: "reconcile_detail_relations \<Gamma> (ni_details ids) (ni_entity ids) ?agent ?new [] d1 = (Inr u, d')"
    using assms True by (auto simp: replacement_insert_core_tags_def Let_def simp del: attach_tags.simps split: prod.splits sum.splits)
  then have l: "link_details \<Gamma> (ni_entity ids) ?agent (ni_details ids) 0 ?new d1 = (Inr (), d')"
    by (auto simp: reconcile_detail_relations_def split: prod.splits sum.splits)
  show thesis
    using that[of d1] attach_tags_frame[OF 1] reconcile_frame[OF rc] link_details_evolves[OF l] True by (simp add: same_base_def)
qed

lemma insert_entity_step:
  assumes "replacement_insert_entity \<Gamma> ids op plan st locked i d = (Inr u, d')"
  obtains d1 d2 where "ni_entity ids \<notin> e_id ` set (entities d)"
    "entities d1 = entities d @ [replacement_row \<Gamma> ids plan st locked]" "relations d1 = relations d"
    "entities d2 = entities d1" "rel.evolves True d1 d2" "cs_is_core st \<or> relations d2 = relations d"
    "entities d' = update_where (\<lambda>e. e_id e = i \<and> e_status e = Raw) (archive_row \<Gamma>) (entities d @ [replacement_row \<Gamma> ids plan st locked])"
    "relations d' = relations d2 @ [lifecycle_row \<Gamma> (ni_relation ids) (ni_entity ids) i op]"
    "ni_relation ids \<notin> r_id ` set (relations d2)" "(ni_entity ids, i, op) \<notin> live_triples d2"
proof -
  let ?row = "replacement_row \<Gamma> ids plan st locked"
  have fresh: "ni_entity ids \<notin> e_id ` set (entities d)"
    using assms by (auto simp: replacement_insert_entity_def split: if_splits)
  obtain a where a: "insert_replacement_tags \<Gamma> (ni_tags ids) (ni_entity ids) (nf_tags (np_fields plan)) (nf_agent_id (np_fields plan))
      (d\<lparr>entities := entities d @ [?row]\<rparr>) = (Inr (), a)"
    using assms fresh by (auto simp: replacement_insert_entity_def split: prod.splits sum.splits)
  obtain d2 where c: "replacement_insert_core_tags \<Gamma> ids plan st a = (Inr (), d2)"
    and l: "insert_lifecycle_edge (lifecycle_row \<Gamma> (ni_relation ids) (ni_entity ids) i op)
      (d2\<lparr>entities := update_where (\<lambda>e. e_id e = i \<and> e_status e = Raw) (archive_row \<Gamma>) (entities d2)\<rparr>) = (Inr u, d')"
    using assms fresh a by (auto simp: replacement_insert_entity_def split: prod.splits sum.splits)
  have af: "entities a = entities d @ [?row] \<and> relations a = relations d"
    using attach_tags_frame[OF a[unfolded insert_replacement_tags_def]] by simp
  from c show thesis
  proof (cases rule: core_tags_step)
    case (1 d1)
    have "live_triples (d2\<lparr>entities := es\<rparr>) = live_triples d2" for es by (simp add: live_triples_def)
    then show thesis
      using that[OF fresh, of d1 d2] 1 af l no_live_edge by (auto simp: insert_lifecycle_edge_def split: if_splits)
  qed
qed

lemma locked_source:
  "replacement_locked_source d i before = Inr e \<Longrightarrow> get_entity d i = Some e \<and> e_status e = Raw \<and> frozen e = frozen before"
  by (auto simp: replacement_locked_source_def split: option.splits if_splits)

lemma prepared:
  assumes "replacement_prepare \<Gamma> S d req i = Inr plan"
  shows "get_entity d i = Some (np_before plan)" "np_orphaned_edges plan = semantic_edge_worklist d i"
    "np_fields plan = replacement_fields_of (np_before plan) (if rr_tags req = None then list_entity_tags d i False else []) req"
    "nc_title (np_content plan) = redact_secrets \<Gamma> (py_strip (the (rr_title req)))"
    "nc_content (np_content plan) = redact_secrets \<Gamma> (the (rr_content req))"
  using assms unfolding replacement_prepare_def Let_def replacement_content_of_def
  by (auto split: option.splits sum.splits if_splits)

lemma write_cases:
  assumes "replacement_write \<Gamma> ids op i plan repoint d = (r, d')"
  obtains (raised) e where "r = Inl e"
  | (refused) x where "r = Inr (Inl x)" "d' = d"
  | (written) locked d1 out where "r = Inr (Inr out)" "replacement_locked_source d i (np_before plan) = Inr locked"
      "replacement_core_state \<Gamma> d ids plan i = Inr (no_core_state out)"
      "replacement_insert_entity \<Gamma> ids op plan (no_core_state out) locked i d = (Inr (), d1)"
      "if repoint then replacement_repoint_edges \<Gamma> (ni_repointed ids) i (ni_entity ids) d1 = (Inr (no_repointed out, no_still_orphaned out), d')
       else d' = d1"
proof (cases "replacement_locked_source d i (np_before plan)")
  case (Inl e)
  then show thesis using assms refused by (auto simp: replacement_write_def)
next
  case locked: (Inr e)
  show thesis
  proof (cases "replacement_core_state \<Gamma> d ids plan i")
    case (Inl ce)
    then show thesis using assms locked refused by (auto simp: replacement_write_def)
  next
    case core: (Inr st)
    obtain x d1 where ins: "replacement_insert_entity \<Gamma> ids op plan st e i d = (x, d1)" by fastforce
    obtain y d2 where rep: "(if repoint then replacement_repoint_edges \<Gamma> (ni_repointed ids) i (ni_entity ids) d1 else (Inr ([], []), d1)) = (y, d2)"
      by fastforce
    show thesis
    proof (cases "x = Inr () \<and> (\<exists>m orph. y = Inr (m, orph))")
      case True
      then obtain m orph where y: "y = Inr (m, orph)" by blast
      have out: "r = Inr (Inr \<lparr>no_core_state = st, no_repointed = m, no_still_orphaned = orph\<rparr>)" "d' = d2"
        using assms locked core ins rep True y by (auto simp: replacement_write_def)
      show thesis
        by (rule written[OF out(1) locked, of d1]) (use core ins rep True y out(2) in \<open>auto split: if_splits\<close>)
    next
      case False
      then show thesis using assms locked core ins rep raised by (cases x; cases y) (auto simp: replacement_write_def)
    qed
  qed
qed

lemma replace_cases:
  assumes "replace_memory \<Gamma> S locks ids op req d0 d1 = (r, d')"
  obtains (refused) "is_rejected r" "d' = d1"
  | (replaced) i plan out where "validate_replacement_inputs req = None" "replacement_target d0 (the (rr_entity_id req)) = Inr i"
      "replacement_prepare \<Gamma> S d0 req i = Inr plan"
      "replacement_write \<Gamma> ids op i plan (rr_repoint_relations req) d1 = (Inr (Inr out), d')"
      "r = Ok (replacement_response ids op i plan out (rr_repoint_relations req)) []"
proof -
  consider (early) es where "r = Rejected es" "d' = d1"
    | (late) i plan where "validate_replacement_inputs req = None" "replacement_target d0 (the (rr_entity_id req)) = Inr i"
      "replacement_prepare \<Gamma> S d0 req i = Inr plan" "replacement_execute \<Gamma> S locks ids op i plan req d1 = (r, d')"
    using assms by (auto simp: replace_memory_def split: option.splits sum.splits)
  then show thesis
  proof cases
    case early
    then show thesis using refused by (simp add: is_rejected_def)
  next
    case late
    let ?tx = "replacement_write \<Gamma> ids op i plan (rr_repoint_relations req)"
    obtain x d2 where x: "(if rr_in_transaction req then write_transaction ?tx d1 else write_transaction_retrying locks ?tx d1) = (x, d2)"
      by fastforce
    have d2: "d' = d2" using late(4) x by (auto simp: replacement_execute_def Let_def split: sum.splits)
    show thesis
    proof (cases x)
      case (Inl e)
      then have "d2 = d1" using x write_transaction_abort retrying_abort by (auto split: if_splits)
      moreover have "r = Rejected [error ''LIFECYCLE_WRITE_FAILED'' None]" using late(4) x Inl by (simp add: replacement_execute_def Let_def)
      ultimately show thesis using refused d2 by (simp add: is_rejected_def)
    next
      case x': (Inr y)
      have run: "?tx d1 = (Inr y, d')"
      proof (cases "rr_in_transaction req")
        case True
        then show ?thesis using x d2 unfolding x' by (simp add: write_transaction_commit)
      next
        case False
        then have "write_transaction_retrying locks ?tx d1 = (Inr y, d')" using x d2 unfolding x' by simp
        then show ?thesis by (rule retrying_commit)
      qed
      show thesis
      proof (cases y)
        case (Inl z)
        have "d' = d1" using run Inl by (cases rule: write_cases) simp_all
        moreover have "is_rejected r" using late(4) x x' Inl by (cases z) (auto simp: replacement_execute_def Let_def is_rejected_def)
        ultimately show thesis using refused by blast
      next
        case (Inr out)
        then have "r = Ok (replacement_response ids op i plan out (rr_repoint_relations req)) []"
          using late(4) x x' by (auto simp: replacement_execute_def Let_def)
        then show thesis using replaced late(1-3) run Inr by blast
      qed
    qed
  qed
qed

definition replaced_triples ::
  "bool \<Rightarrow> bool \<Rightarrow> string \<Rightarrow> string \<Rightarrow> string \<Rightarrow> (string \<times> string \<times> string) set \<Rightarrow> (string \<times> string \<times> string) set" where
  "replaced_triples core repoint i new op L = insert (new, i, op)
     (if repoint then {x \<in> L. \<not> movable core i new x} \<union> moved_triple i new ` {x \<in> L. movable core i new x} else L)"

lemma moved_insert:
  "\<not> P a \<Longrightarrow> {x \<in> insert a L. \<not> P x} \<union> f ` {x \<in> insert a L. P x} = insert a ({x \<in> L. \<not> P x} \<union> f ` {x \<in> L. P x})"
  by auto

lemma written:
  assumes "replacement_write \<Gamma> ids op i plan repoint d = (Inr (Inr out), d')" "rel_inv d" "op \<in> set LINEAGE_PREDICATES"
  obtains e where "get_entity d i = Some e" "e_status e = Raw" "frozen e = frozen (np_before plan)"
    "replacement_core_state \<Gamma> d ids plan i = Inr (no_core_state out)" "ni_entity ids \<notin> e_id ` set (entities d)"
    "entities d' = update_where (\<lambda>x. e_id x = i \<and> e_status x = Raw) (archive_row \<Gamma>)
       (entities d @ [replacement_row \<Gamma> ids plan (no_core_state out) e])"
    "rel_inv d'" "row_ends d' \<subseteq> row_ends d \<union> insert (ni_entity ids) (e_id ` set (entities d))"
    "\<exists>kept fresh. relations d' = kept @ fresh \<and> list_all2 closes (relations d) kept"
    "cs_is_core (no_core_state out) \<or> live_triples d' = replaced_triples (e_is_core e) repoint i (ni_entity ids) op (live_triples d)"
  using assms(1)
proof (cases rule: write_cases)
  case (written e d3 out')
  have out: "out' = out" using written(1) by simp
  let ?new = "ni_entity ids" and ?row = "replacement_row \<Gamma> ids plan (no_core_state out) e"
  have e: "get_entity d i = Some e" "e_status e = Raw" "frozen e = frozen (np_before plan)" using locked_source[OF written(2)] by simp_all
  have cs: "replacement_core_state \<Gamma> d ids plan i = Inr (no_core_state out)" using written(3) out by simp
  from written(4)[unfolded out] show thesis
  proof (cases rule: insert_entity_step)
    case (1 d1 d2)
    have "i \<in> e_id ` set (entities d)" using e(1) get_entity_defined[of d i] by simp
    then have ne: "i \<noteq> ?new" using 1(1) by blast
    have inv2: "rel_inv d2" and hist: "rel_hist True d1 d2" using 1(3,5) assms(2) unfolding rel.evolves_def rel_inv_def by auto
    obtain kept fresh where k: "relations d2 = kept @ fresh" "list_all2 closes (relations d) kept" "list_all (admissible True d1) fresh"
      using hist 1(3) unfolding rel_hist_def by auto
    let ?l = "lifecycle_row \<Gamma> (ni_relation ids) ?new i op"
    have d3: "live_triples d3 = insert (?new, i, op) (live_triples d2)" "rel_inv d3"
    proof -
      have r3: "relations d3 = relations (d2\<lparr>relations := relations d2 @ [?l]\<rparr>)" using 1(8) by simp
      show "live_triples d3 = insert (?new, i, op) (live_triples d2)"
        using triples_snoc[of ?l d2] r3 by (simp add: live_triples_def)
      show "rel_inv d3" using append_row[OF inv2, of ?l] 1(9,10) r3 by (simp add: rel_inv_def)
    qed
    have ends3: "row_ends d3 \<subseteq> row_ends d \<union> insert ?new (e_id ` set (entities d))"
    proof -
      have a: "r_source r \<in> insert ?new (e_id ` set (entities d)) \<and> r_target r \<in> insert ?new (e_id ` set (entities d))" if "r \<in> set fresh" for r
      proof -
        have "admissible True d1 r" using k(3) that by (simp add: list_all_iff)
        then show ?thesis unfolding admissible_def get_entity_defined using 1(2) by (auto simp: replacement_row_def)
      qed
      have b: "r_source r \<in> row_ends d \<and> r_target r \<in> row_ends d" if r: "r \<in> set kept" for r
      proof -
        obtain q where "q \<in> set (relations d)" "r_source q = r_source r" "r_target q = r_target r" using closes_ends[OF k(2) r] by blast
        then show ?thesis unfolding row_ends_def by (metis UnCI imageI)
      qed
      have "i \<in> e_id ` set (entities d)" using e(1) get_entity_defined[of d i] by simp
      then show ?thesis using a b unfolding row_ends_def 1(8) k(1) by auto
    qed
    have hist3: "\<exists>kept fresh. relations d3 = kept @ fresh \<and> list_all2 closes (relations d) kept"
      using k(1,2) 1(8) by auto
    have core3: "get_entity d3 i = Some (archive_row \<Gamma> e)"
    proof -
      have "get_entity (d\<lparr>entities := entities d @ [?row]\<rparr>) i = Some e"
        using e(1) by (simp add: get_entity_def find_row_append)
      then show ?thesis unfolding get_entity_def 1(7) update_where_def
        using e(2) get_entity_Some[OF e(1)] by (subst find_row_map) auto
    qed
    have lin: "\<not> movable c i ?new (?new, i, op)" for c using assms(3) by (simp add: movable_def)
    show thesis
    proof (cases repoint)
      case False
      then have d': "d' = d3" using written(5) by simp
      have "live_triples d2 = live_triples d" if "relations d2 = relations d" using that by (simp add: live_triples_def)
      then have "cs_is_core (no_core_state out) \<or> live_triples d' = replaced_triples (e_is_core e) repoint i ?new op (live_triples d)"
        using 1(6) d3(1) False d' by (auto simp: replaced_triples_def)
      from that[OF e cs 1(1) 1(7)[folded d'] d3(2)[folded d'] ends3[folded d'] hist3[folded d'] this] show thesis .
    next
      case True
      then have run: "replacement_repoint_edges \<Gamma> (ni_repointed ids) i ?new d3 = (Inr (no_repointed out, no_still_orphaned out), d')"
        using written(5) out by simp
      note r = repointed[OF run d3(2) core3 ne]
      have frame: "entities d' = entities d3" "row_ends d' \<subseteq> insert ?new (row_ends d3)" using r(2) unfolding repoints_def by simp_all
      obtain k' f' where k': "relations d' = k' @ f'" "list_all2 closes (relations d3) k'" using r(2) unfolding repoints_def by blast
      obtain u v where uv: "k' = u @ v" "list_all2 closes kept u"
        using k'(2) unfolding 1(8) k(1) by (auto simp: list_all2_append1)
      have "list_all2 closes (relations d) u"
        using k(2) uv(2) by (rule list_all2_trans[of closes closes closes, rotated]) (rule closes_trans)
      then have hist': "\<exists>kept fresh. relations d' = kept @ fresh \<and> list_all2 closes (relations d) kept"
        using k'(1) uv(1) by auto
      have "cs_is_core (no_core_state out) \<or> live_triples d' = replaced_triples (e_is_core e) repoint i ?new op (live_triples d)"
      proof -
        have "live_triples d' = replaced_triples (e_is_core e) True i ?new op (live_triples d2)"
          unfolding r(4) archive_row_fields d3(1) moved_insert[of "movable _ i ?new", OF lin] replaced_triples_def if_True by (rule refl)
        then show ?thesis using 1(6) True by (auto simp: live_triples_def)
      qed
      moreover have "row_ends d' \<subseteq> row_ends d \<union> insert ?new (e_id ` set (entities d))" using frame(2) ends3 by blast
      ultimately show thesis
        using that[OF e cs 1(1) _ r(1) _ hist'] frame(1) 1(7) by simp
    qed
  qed
qed simp_all

section \<open>What a replacement does\<close>


text \<open>
  C15. Replacing keeps the store well formed: unique non-empty ids, unique relation ids, no two live relations with the
  same triple (re-pointing meets an edge that is already there without doubling it), no dangling edge and at most five
  active cores.
\<close>

theorem replacement_well_formed:
  assumes "well_formed d1" "ni_entity ids \<noteq> []" "op = ''revises'' \<or> op = ''supersedes''"
    "replace_memory \<Gamma> S locks ids op req d0 d1 = (r, d')"
  shows "well_formed d'"
  using assms(4)
proof (cases rule: replace_cases)
  case (replaced i plan out)
  have wf: "entity_keys d1" "rel_inv d1" "ends_exist d1" "active_count d1 \<le> CORE_MAX_ACTIVE" using assms(1) by (simp_all add: well_formed_def)
  have op: "op \<in> set LINEAGE_PREDICATES" using assms(3) by (auto simp: LINEAGE_PREDICATES_def)
  from replaced(4) wf(2) op show ?thesis
  proof (rule written)
    fix e
    let ?st = "no_core_state out"
    let ?n = "replacement_row \<Gamma> ids plan ?st e" and ?E = "e_id ` set (entities d1)"
    assume w: "get_entity d1 i = Some e" "e_status e = Raw" "replacement_core_state \<Gamma> d1 ids plan i = Inr ?st"
      "ni_entity ids \<notin> ?E" "entities d' = update_where (\<lambda>x. e_id x = i \<and> e_status x = Raw) (archive_row \<Gamma>) (entities d1 @ [?n])"
      "rel_inv d'" "row_ends d' \<subseteq> row_ends d1 \<union> insert (ni_entity ids) ?E"
    have ids: "map e_id (entities d') = map e_id (entities d1) @ [ni_entity ids]"
      unfolding w(5) by (simp add: map_update_where replacement_row_def)
    have E': "e_id ` set (entities d') = insert (ni_entity ids) ?E" using arg_cong[OF ids, of set] by simp
    have "entity_keys d'"
    proof -
      have "distinct (map e_id (entities d'))" using wf(1) w(4) unfolding ids entity_keys_def by simp
      moreover have "[] \<notin> e_id ` set (entities d')" using wf(1) assms(2) unfolding E' entity_keys_def by auto
      ultimately show ?thesis unfolding entity_keys_def by (auto simp: image_iff)
    qed
    moreover have "ends_exist d'"
    proof -
      have "row_ends d1 \<subseteq> ?E" using wf(3) unfolding ends_exist_def list_all_iff get_entity_defined row_ends_def by auto
      then have "row_ends d' \<subseteq> e_id ` set (entities d')" using w(7) E' by blast
      then show ?thesis unfolding ends_exist_def list_all_iff get_entity_defined row_ends_def by auto
    qed
    moreover have "active_count d' \<le> CORE_MAX_ACTIVE"
    proof -
      let ?out = "filter (\<lambda>x. e_id x \<notin> set [i] \<and> active_core x) (entities d1)"
      have "x = e" if "x \<in> set (entities d1)" "e_id x = i" for x
        using get_entity_unique[OF wf(1) that(1)] that(2) w(1) by simp
      moreover have "ni_entity ids \<noteq> i" using w(1,4) get_entity_defined[of d1 i] by auto
      ultimately have "entities d' = update_where (\<lambda>x. e_id x \<in> set [i]) (archive_row \<Gamma>) (entities d1 @ [?n])"
        unfolding w(5) update_where_def using w(2) by (auto simp: replacement_row_def)
      then have "active_count d' = length (filter (\<lambda>x. e_id x \<notin> set [i] \<and> active_core x) (entities d1 @ [?n]))"
        by (simp only: active_count_def archived_out)
      then have "active_count d' \<le> length ?out + (if cs_is_core ?st then 1 else 0)"
        by (simp add: active_core_def replacement_row_def)
      moreover have "length (filter (\<lambda>x. e_id x \<notin> set [i] \<and> active_core x) es) \<le> length (filter active_core es)" for es
        by (induction es) auto
      moreover have "cs_is_core ?st \<Longrightarrow> length ?out < CORE_MAX_ACTIVE"
        using derived_count w(3) unfolding replacement_core_state_def Let_def by blast
      ultimately show ?thesis using wf(4) unfolding active_count_def
        by (cases "cs_is_core ?st") (auto intro: le_trans)
    qed
    ultimately show ?thesis using w(6) by (simp add: well_formed_def)
  qed
qed (use assms(1) in simp)

section \<open>Archiving\<close>

definition archives :: "env \<Rightarrow> string set \<Rightarrow> db \<Rightarrow> db" where
  "archives \<Gamma> A d = d\<lparr>
     entities := map (\<lambda>e. if e_id e \<in> A \<and> e_status e \<noteq> Archived then archive_row \<Gamma> e else e) (entities d),
     relations := map (\<lambda>r. if (r_source r \<in> A \<or> r_target r \<in> A) \<and> live r then r\<lparr>r_valid_to := Some (now_iso \<Gamma>)\<rparr> else r) (relations d)\<rparr>"

lemma archive_one: "archive_entity_unchecked \<Gamma> i d = archives \<Gamma> {i} d"
  by (simp add: archive_entity_unchecked_def archives_def Let_def update_where_def archive_row_def)

lemma archives_compose: "archives \<Gamma> B (archives \<Gamma> A d) = archives \<Gamma> (A \<union> B) d"
  by (auto simp: archives_def live_def intro!: arg_cong2[where f = "\<lambda>es rs. d\<lparr>entities := es, relations := rs\<rparr>"])

lemma archive_fold: "fold (archive_entity_unchecked \<Gamma>) is d = archives \<Gamma> (set is) d"
proof (induction "is" arbitrary: d)
  case Nil
  show ?case by (simp add: archives_def cong: map_cong) 
next
  case (Cons i "is")
  then show ?case by (simp add: archive_one archives_compose)
qed

lemma archive_requests_ok:
  "validate_archive_requests d agent k seen qs = (xs, []) \<Longrightarrow>
     length xs = length qs \<and> distinct (map at_memory_id xs) \<and> (\<forall>x \<in> set xs. at_memory_id x \<notin> set seen) \<and>
     list_all2 (\<lambda>q x. resolve_archive_target d agent q = Inr x) qs xs"
proof (induction d agent k seen qs arbitrary: xs rule: validate_archive_requests.induct)
  case (2 d agent k seen q qs)
  obtain x where x: "resolve_archive_target d agent q = Inr x" "at_memory_id x \<notin> set seen"
    using 2(4) by (cases "resolve_archive_target d agent q") (auto split: if_splits prod.splits)
  obtain ys where ys: "validate_archive_requests d agent (Suc k) (at_memory_id x # seen) qs = (ys, [])" "xs = x # ys"
    using 2(4) x by (auto split: prod.splits)
  show ?case using 2(3)[OF x ys(1)] x ys(2) by auto
qed simp

lemma archive_target_ok:
  assumes "resolve_archive_target d agent q = Inr x"
  obtains e where "get_entity d (at_memory_id x) = Some e" "at_already_archived x = (e_status e = Archived)"
    "e_status e = Archived \<or> \<not> truthy agent \<or> \<not> truthy (e_agent_id e) \<or> e_agent_id e = agent"
  using assms by (auto simp: resolve_archive_target_def split: sum.splits option.splits if_splits)


text \<open>
  C17. \<open>get_memory\<close> and \<open>inspect_memory\<close> answer only a memory that the agent may read, with its own text or
  snippet, and their lineage, which is computed without regard to the agent, is exactly the other memories of
  \<open>get_lineage\<close> that the agent may read.
\<close>

theorem read_memory_readable:
  assumes "read_memory \<Gamma> d include_content entity_id max_depth agent provenance = Ok m ws"
  shows "(\<exists>e \<in> set (entities d). mv_entity m = e \<and> (agent = None \<or> (\<exists>e' \<in> set (entities d). e_id e' = e_id e \<and> visible agent e'))) \<and>
    (\<exists>l. mv_lineage m = Some l \<and>
      mn_ancestors l = filter (\<lambda>n. ln_id n \<noteq> e_id (mv_entity m) \<and> can_read_entity d (ln_id n) agent)
        (lineage_nodes (get_lineage \<Gamma> d (Some (e_id (mv_entity m))) ''ancestors'' max_depth None None)) \<and>
      mn_descendants l = filter (\<lambda>n. ln_id n \<noteq> e_id (mv_entity m) \<and> can_read_entity d (ln_id n) agent)
        (lineage_nodes (get_lineage \<Gamma> d (Some (e_id (mv_entity m))) ''descendants'' max_depth None None)) \<and>
      list_all (\<lambda>n. agent = None \<or> (\<exists>e \<in> set (entities d). e_id e = ln_id n \<and> visible agent e)) (mn_ancestors l @ mn_descendants l))"
proof -
  obtain i e where i: "can_read_entity d i agent" "get_entity d i = Some e" "assemble_memory_record \<Gamma> d i include_content True max_depth agent provenance = Some m"
    using assms by (auto simp: read_memory_def assemble_memory_record_def split: if_splits prod.splits option.splits)
  have read: "agent = None \<or> (\<exists>e \<in> set (entities d). e_id e = j \<and> visible agent e)" if "can_read_entity d j agent" for j
    using that by (auto simp: can_read_entity_def find_row_None)
  have m: "mv_entity m = e" "mv_lineage m = Some (memory_lineage \<Gamma> d i max_depth agent)"
    using i(2,3) by (auto simp: assemble_memory_record_def)
  have e: "e \<in> set (entities d)" "e_id e = i" using get_entity_Some[OF i(2)] by simp_all
  show ?thesis
    unfolding m e(2) memory_lineage_def Let_def using e(1) read[OF i(1)] read
    by (intro conjI bexI[of _ e] exI[of _ "memory_lineage \<Gamma> d i max_depth agent"])
      (auto simp: memory_lineage_def Let_def list_all_iff e(2))
qed

section \<open>Samples\<close>

definition linked_db :: db where
  "linked_db = sample_db\<lparr>relations := [lifecycle_row sample_env ''e1'' ''m1'' ''m2'' ''related_to'',
     lifecycle_row sample_env ''e2'' ''m2'' ''m1'' ''depends_on'']\<rparr>"

definition sample_quality :: replacement_services where
  "sample_quality = \<lparr>text_rejected = (\<lambda>_. False), nfkc = (\<lambda>s. s), mentions_private = (\<lambda>_. False)\<rparr>"

definition sample_revision :: replacement_request where
  "sample_revision = \<lparr>rr_entity_id = Some ''m1'', rr_title = Some '' A better title'', rr_tags = Some [''t''], rr_content = Some ''better'',
     rr_reason = Some ''wrong'', rr_agent_id = None, rr_scope = None, rr_memory_type = None, rr_context_id = None, rr_metadata = None,
     rr_retrieval_text = None,
     rr_core = \<lparr>cd_is_core = None, cd_core_reason = None, cd_core_exit_condition = None, cd_core_review_after = None,
       cd_detail_memory_ids = None\<rparr>, rr_repoint_relations = True, rr_in_transaction = False\<rparr>"

definition sample_revision_ids :: replacement_ids where
  "sample_revision_ids = \<lparr>ni_entity = ''m3'', ni_relation = ''e3'', ni_details = (\<lambda>_. ([], [])), ni_tags = (\<lambda>_. (''t1'', ''v2'', ''v3'')),
     ni_core_tag = (''t2'', ''v4'', ''v5''), ni_repointed = (\<lambda>n. ''r'' @ show_nat n)\<rparr>"

lemma sample_revision_run:
  "case replace_memory sample_env sample_quality (\<lambda>_. False) sample_revision_ids ''revises'' sample_revision linked_db linked_db of
     (Ok x ws, d') \<Rightarrow> nd_new_id x = ''m3'' \<and> map e_status (entities d') = [Archived, Raw, Raw] \<and>
       map triple (filter live (relations d')) = [(''m3'', ''m1'', ''revises''), (''m3'', ''m2'', ''related_to''), (''m2'', ''m3'', ''depends_on'')] \<and>
       length (nd_repointed_relations x) = 2 \<and> nd_orphaned_semantic_edges x = []
   | _ \<Rightarrow> False"
  by code_simp

lemma linked_well_formed: "well_formed linked_db"
proof -
  have "entities linked_db = entities sample_db" by (simp add: linked_db_def)
  then have "entity_keys linked_db" "active_count linked_db = 0"
    using sample_keys by (simp_all add: entity_keys_def active_count_def sample_no_core)
  moreover have "rel_inv linked_db"
    by (simp add: rel_inv_def linked_db_def uniq_live_def edge_is_def)
  moreover have "ends_exist linked_db"
    by (simp add: ends_exist_def linked_db_def get_entity_def sample_db_def sample_entity_def)
  ultimately show ?thesis by (simp add: well_formed_def)
qed

lemma sample_archive_run:
  "case archive_memories sample_env (\<lambda>_. False) [Some ''m1''] (Some ''a'') linked_db of
     (Ok x ws, d') \<Rightarrow> ar_archived_count x = 1 \<and> map e_status (entities d') = [Archived, Raw] \<and> filter live (relations d') = []
   | _ \<Rightarrow> False"
  by code_simp

lemma sample_read:
  "case get_memory sample_env linked_db (Some ''m1'') 5 (Some ''b'') False of Ok m ws \<Rightarrow> e_id (mv_entity m) = ''m1'' | _ \<Rightarrow> False"
  by code_simp

lemma sample_revision_result:
  obtains x ws d' where "replace_memory sample_env sample_quality (\<lambda>_. False) sample_revision_ids ''revises'' sample_revision linked_db linked_db =
    (Ok x ws, d')" "map e_status (entities d') = [Archived, Raw, Raw]"
    "map triple (filter live (relations d')) = [(''m3'', ''m1'', ''revises''), (''m3'', ''m2'', ''related_to''), (''m2'', ''m3'', ''depends_on'')]"
  using sample_revision_run by (auto split: prod.splits envelope.splits)


theorem replacement_well_formed_witness:
  "\<exists>x ws d'. replace_memory sample_env sample_quality (\<lambda>_. False) sample_revision_ids ''revises'' sample_revision linked_db linked_db =
     (Ok x ws, d') \<and> well_formed d' \<and>
   map triple (filter live (relations d')) = [(''m3'', ''m1'', ''revises''), (''m3'', ''m2'', ''related_to''), (''m2'', ''m3'', ''depends_on'')]"
proof -
  obtain x ws d' where run: "replace_memory sample_env sample_quality (\<lambda>_. False) sample_revision_ids ''revises'' sample_revision linked_db linked_db =
    (Ok x ws, d')" and t: "map triple (filter live (relations d')) = [(''m3'', ''m1'', ''revises''), (''m3'', ''m2'', ''related_to''), (''m2'', ''m3'', ''depends_on'')]"
    by (rule sample_revision_result)
  have "well_formed d'" by (rule replacement_well_formed[OF linked_well_formed _ _ run]) (simp_all add: sample_revision_ids_def)
  from run this t show ?thesis by (intro exI conjI)
qed


theorem read_memory_readable_witness:
  "\<exists>m ws. get_memory sample_env linked_db (Some ''m1'') 5 (Some ''b'') False = Ok m ws \<and> e_id (mv_entity m) = ''m1'' \<and>
     mv_entity m \<in> set (entities linked_db)"
proof -
  obtain m ws where run: "get_memory sample_env linked_db (Some ''m1'') 5 (Some ''b'') False = Ok m ws" and i: "e_id (mv_entity m) = ''m1''"
    using sample_read by (auto split: envelope.splits)
  from read_memory_readable[OF run[unfolded get_memory_def]] have "mv_entity m \<in> set (entities linked_db)" by blast
  with run i show ?thesis by blast
qed

end
