(* ===== verification/Spec2Isabelle.thy ===== *)
theory Spec2Isabelle
  imports Predicate_Vocabulary Relations Core_Governance Traces Coordinator_Runs Daemon_Client Context_Retrieval Lifecycle
begin

text \<open>
  A verification development of SALTMDB, a memory store for coding agents: agents talk to a MCP adapter,
  the adapter forwards each tool call over a socket to one daemon per database, the daemon checks and
  serialises the calls, and services read and write one SQLite database of memories (rows of \<open>entities\<close>),
  directed relations between them, tags, events and traces of conversations. Sources are named relative to
  \<^verbatim>\<open>src/src/saltmdb/\<close> below; PROJECT.json gives the lines of every definition.

  \<^bold>\<open>Ground.\<close> \<open>Salt_Prelude\<close> has Python's string operations, stable descending sorts and small list lemmas.
  \<open>Store\<close> has the rows of \<^verbatim>\<open>db/schema.py\<close> as records, a table as the list of its rows in rowid order (record \<open>db\<close>),
  the envelopes of \<^verbatim>\<open>utils/envelope.py\<close>, exceptions as the left side of a sum, transactions with rollback and retry
  (\<^verbatim>\<open>db/connection.py\<close>; \<open>'a act\<close> is a function from a store to a result or exception and a store) and the resolution
  of memory references (\<^verbatim>\<open>utils/text.py\<close>), whose contract is the locale \<open>entity_resolver\<close>, interpreted as \<open>refs\<close>.
  What is not in the repository is an argument: the record \<open>env\<close> has the clock, date parsing and printing, SHA-256,
  redaction and embedding numbers; fresh UUIDs are arguments of the operations that draw them.

  \<^bold>\<open>Writes.\<close> \<open>Predicate_Vocabulary\<close> (\<^verbatim>\<open>utils/predicate_vocabulary.py\<close>) is the closed vocabulary of relations.
  \<open>Relations\<close> (\<^verbatim>\<open>domain/services/relation_service.py\<close>) has storing, invalidating and the atomic batch; its lemmas
  prove for every step that row ids stay unique, that a triple has at most one live edge and that history is only
  appended (\<open>rel_inv\<close>, \<open>rel_hist\<close>), that batches are all or nothing and overrides are audited.
  \<open>Tags\<close> (\<^verbatim>\<open>memory_service/tags.py\<close>) has tag syntax and resolution. \<open>Core_Bootstrap\<close> and \<open>Core_Governance\<close>
  (\<^verbatim>\<open>core_governance_service.py\<close>) are the pure and the state-changing half of core memories: validation, the digest and
  its error report, capacity, promotion and review; the invariant is \<open>core_ok\<close>, at most five active cores.
  \<open>Consolidation\<close> (\<^verbatim>\<open>relation_service.py\<close>, from \<open>_BulkContext\<close> on) merges memories: the preflight reads one store, the commit
  finds another, and what was read must still hold; \<open>merges\<close> is the abstract effect, \<open>well_formed\<close> the invariant.
  \<open>Lifecycle\<close> (\<^verbatim>\<open>memory_service/lifecycle.py\<close>) replaces, archives and reads memories; its abstract view is the set of live
  triples, and re-pointing is proved to be one simultaneous move on it.
  \<open>Traces\<close> (\<^verbatim>\<open>trace_service.py\<close>) has the capture of conversations as operations on three tables with the step
  relation \<open>trace_step\<close>; paginated search is proved complete while every page sweeps.

  \<^bold>\<open>The daemon.\<close> \<open>Write_Coordinator\<close> and \<open>Coordinator_Runs\<close> (\<^verbatim>\<open>daemon/db_write_coordinator.py\<close>) are the single writer
  thread with its two lanes as an interleaving step relation \<open>coord_step\<close>: fairness, no lost job, refinement of a
  serial executor. \<open>Protocol\<close> (\<^verbatim>\<open>daemon/protocol.py\<close>) has frames over a stream that is cut anywhere. \<open>Daemon_Server\<close>
  (\<^verbatim>\<open>daemon/server.py\<close>, \<^verbatim>\<open>dispatch.py\<close>) has sessions, leases, the grace timer and routing with the step relation
  \<open>system_step\<close>. \<open>Daemon_Client\<close> (\<^verbatim>\<open>daemon/client.py\<close>, \<^verbatim>\<open>discovery.py\<close>, the backend of \<^verbatim>\<open>mcp/tools.py\<close>) has discovery,
  start-up, sessions and retried calls against an arbitrary world.

  \<^bold>\<open>Reads.\<close> \<open>Graph_Walk\<close> has bounded walks as SQLite's recursive queries enumerate them, and distances; its locale
  is interpreted for both queries. \<open>Lineage\<close> and \<open>Dependencies\<close> (\<^verbatim>\<open>relation_service.py\<close>) show that
  \<open>get_lineage\<close> and \<open>get_related_memories\<close> answer exactly the memories within the depth, at their distance.
  \<open>Context_Expansion\<close>, \<open>Conflict_Sets\<close>, \<open>Communities\<close> and \<open>Context_Retrieval\<close> follow the files of these names under
  \<^verbatim>\<open>domain/services/\<close> with the suffix \<^verbatim>\<open>_service.py\<close> and \<^verbatim>\<open>context_budget_service.py\<close>, \<^verbatim>\<open>lineage_assembly_service.py\<close>:
  the neighbourhood of the hits, union-find over contradictions, communities, the token budget and the assembled
  answer. A lookup that could raise is an option, and the whole retrieval is proved never to be \<open>None\<close>.

  \<^bold>\<open>Bounds and fuel.\<close> Recursive queries are unrolled as often as their depth allows, and a path cannot be longer
  (\<open>cte\<close> has \<open>max_depth\<close> as fuel). Retries are counted by the code. \<open>uf_find\<close> is a partial function, proved defined on
  every table the code builds. The wait for the daemon has its deadline as measure. All other recursion is on data.
  Python integers are \<open>int\<close> or \<open>nat\<close>; the four length bytes of a frame are written out modulo 256.

  \<^bold>\<open>Abstractions.\<close> Characters are the code points 0 to 255. Similarities are rational or real numbers, so float
  rounding is not modelled. Texts of messages are left out unless code reads them back. Timestamps are ISO texts
  and microseconds of UTC. Connections, log lines, locks of the client's own objects and cache tables of embeddings
  are left out. A query without an order reads in rowid order; iteration over a Python set is an arbitrary
  enumeration (\<open>set_order\<close>) where it can be seen in the answer.

  \<^bold>\<open>Not modelled.\<close> Ranking and search of memories, text quality, chunking and embedding are numeric pipelines over NumPy,
  model inference and full-text indexes; community detection calls igraph and leidenalg; schema migration, backup and
  vector tables are SQL text; the command line, the viewer, hooks, benchmarks and scripts are interfaces and tools
  around the program. PROJECT.json lists each with its reason.
\<close>

end
